(* ===== verification/CLib.thy ===== *)
theory CLib
  imports Main "HOL-Library.Word" "HOL-Library.Sublist"
begin

text \<open>
  The parts of the C standard library that the sources call, over strings as \<open>char list\<close>.
  A pointer into a NUL-terminated buffer is the list of the bytes from there on; the end of the list
  reads as NUL.  A function that returns a pointer into its argument returns an offset
  (\<open>strstr\<close>) or the rest of the string from the match on (\<open>strrchr\<close>); NULL is \<open>None\<close>.
  The named collection \<open>clib\<close> holds the equations that evaluate these functions on literals.
\<close>

named_theorems clib

type_synonym size_t = "64 word"
type_synonym u8 = "8 word"
type_synonym u16 = "16 word"
type_synonym u32 = "32 word"
type_synonym u64 = "64 word"

abbreviation NUL :: char where "NUL \<equiv> CHR 0x00"
abbreviation TAB :: char where "TAB \<equiv> CHR 0x09"
abbreviation LF :: char where "LF \<equiv> CHR 0x0A"
abbreviation FF :: char where "FF \<equiv> CHR 0x0C"
abbreviation CR :: char where "CR \<equiv> CHR 0x0D"
abbreviation SPC :: char where "SPC \<equiv> CHR 0x20"
abbreviation CRLF :: string where "CRLF \<equiv> [CR, LF]"

section \<open>Characters\<close>

definition code :: "char \<Rightarrow> nat" where
  "code c = of_char c"

definition isspace :: "char \<Rightarrow> bool" where
  "isspace c \<longleftrightarrow> c \<in> {SPC, TAB, LF, CHR 0x0B, FF, CR}"

definition isdigit :: "char \<Rightarrow> bool" where
  "isdigit c \<longleftrightarrow> 48 \<le> code c \<and> code c \<le> 57"

definition digit_val :: "char \<Rightarrow> nat" where
  "digit_val c = code c - 48"

definition tolower :: "char \<Rightarrow> char" where
  "tolower c = (if 65 \<le> code c \<and> code c \<le> 90 then char_of (code c + 32) else c)"

lemma code_inject [simp]: "code a = code b \<longleftrightarrow> a = b"
  by (simp add: code_def)

lemma code_less [simp]: "code c < 256"
  by (simp add: code_def)

lemma char_of_code [simp]: "char_of (code c) = c"
  by (simp add: code_def)

lemma code_char_of: "n < 256 \<Longrightarrow> code (char_of n) = n"
  by (simp add: code_def)

section \<open>Strings\<close>

text \<open>The C string that starts at the head of a buffer.\<close>

definition cstr :: "string \<Rightarrow> string" where
  "cstr buf = takeWhile (\<lambda>c. c \<noteq> NUL) buf"

text \<open>The byte a pointer points at.\<close>

definition deref :: "string \<Rightarrow> char" where
  "deref s = (case s of [] \<Rightarrow> NUL | c # _ \<Rightarrow> c)"

fun strstr :: "string \<Rightarrow> string \<Rightarrow> nat option" where
  "strstr [] needle = (if needle = [] then Some 0 else None)"
| "strstr (c # s) needle =
     (if prefix needle (c # s) then Some 0 else map_option Suc (strstr s needle))"

fun strrchr :: "string \<Rightarrow> char \<Rightarrow> string option" where
  "strrchr [] c = None"
| "strrchr (x # xs) c =
     (case strrchr xs c of
        Some t \<Rightarrow> Some t
      | None \<Rightarrow> if x = c then Some (x # xs) else None)"

text \<open>\<open>strncasecmp(a, b, n) == 0\<close>.\<close>

fun strncaseeq :: "string \<Rightarrow> string \<Rightarrow> nat \<Rightarrow> bool" where
  "strncaseeq a b 0 = True"
| "strncaseeq a b (Suc n) =
     (if tolower (deref a) \<noteq> tolower (deref b) then False
      else if deref a = NUL then True
      else strncaseeq (tl a) (tl b) n)"

text \<open>
  One \<open>%ns\<close> directive of \<open>sscanf\<close> preceded by optional white space: the token and the
  rest of the input, or \<open>None\<close> when no character matches.
\<close>

definition scan_str :: "nat \<Rightarrow> string \<Rightarrow> (string \<times> string) option" where
  "scan_str n s =
     (let s' = dropWhile isspace s; t = takeWhile (\<lambda>c. \<not> isspace c) (take n s')
      in if t = [] then None else Some (t, drop (length t) s'))"

text \<open>\<open>snprintf(dst, n, ...)\<close> of a formatted text: what the buffer then holds.\<close>

definition snprintf :: "nat \<Rightarrow> string \<Rightarrow> string" where
  "snprintf n text = take (n - 1) text"

section \<open>Numbers\<close>

definition digits_nat :: "string \<Rightarrow> nat" where
  "digits_nat s = foldl (\<lambda>a c. 10 * a + digit_val c) 0 s"

text \<open>\<open>strtol(s, NULL, 10)\<close> on a 64-bit \<open>long\<close>: it clamps at the ends of the range.\<close>

definition strtol :: "string \<Rightarrow> int" where
  "strtol s =
     (let s' = dropWhile isspace s;
          neg = (deref s' = CHR ''-'');
          ds = (if deref s' = CHR ''-'' \<or> deref s' = CHR ''+'' then tl s' else s');
          v = int (digits_nat (takeWhile isdigit ds))
      in max (- (2 ^ 63)) (min (2 ^ 63 - 1) (if neg then - v else v)))"

text \<open>\<open>atoi(s)\<close> is \<open>(int) strtol(s, NULL, 10)\<close> in the GNU C library.\<close>

definition atoi :: "string \<Rightarrow> int" where
  "atoi s = signed_take_bit 31 (strtol s)"

text \<open>\<open>%d\<close> and \<open>%lld\<close>.\<close>

fun show_nat :: "nat \<Rightarrow> string" where
  "show_nat n =
     (if n < 10 then [char_of (n + 48)] else show_nat (n div 10) @ [char_of (n mod 10 + 48)])"

declare show_nat.simps [simp del]

definition show_int :: "int \<Rightarrow> string" where
  "show_int i = (if i < 0 then CHR ''-'' # show_nat (nat (- i)) else show_nat (nat i))"

text \<open>C's \<open>%\<close> on ints: the sign of the dividend; a zero divisor traps.\<close>

definition c_mod :: "int \<Rightarrow> int \<Rightarrow> int option" where
  "c_mod a b = (if b = 0 then None else Some (sgn a * (\<bar>a\<bar> mod \<bar>b\<bar>)))"

section \<open>Lemmas on the string functions\<close>

lemma drop_append_nth: "d < length l \<Longrightarrow> drop d (l @ s) = l ! d # drop (Suc d) l @ s"
  by (simp add: Cons_nth_drop_Suc)

lemma cstr_NUL_free [simp]: "NUL \<notin> set (cstr b)"
  by (auto simp: cstr_def dest: set_takeWhileD)

lemma cstr_id: "NUL \<notin> set s \<Longrightarrow> cstr s = s"
  by (simp add: cstr_def takeWhile_eq_all_conv) metis

lemma cstr_append_NUL: "NUL \<notin> set s \<Longrightarrow> cstr (s @ NUL # t) = s"
  unfolding cstr_def by (subst takeWhile_append2) auto

lemma drop_at: "a @ b = buf \<Longrightarrow> length a = n \<Longrightarrow> drop (n + j) buf = drop j b"
  by auto

lemma strstr_None_iff: "strstr s needle = None \<longleftrightarrow> \<not> sublist needle s"
  by (induction s) (auto simp: sublist_Cons_right)

lemma strstr_Some_decomp:
  "strstr s needle = Some i \<Longrightarrow> \<exists>ys zs. s = ys @ needle @ zs \<and> length ys = i"
proof (induction s arbitrary: i)
  case Nil
  then show ?case by (simp split: if_splits)
next
  case (Cons c s)
  show ?case
  proof (cases "prefix needle (c # s)")
    case True
    with Cons.prems show ?thesis by (auto simp: prefix_def)
  next
    case False
    with Cons.prems obtain j where j: "strstr s needle = Some j" "i = Suc j" by auto
    from Cons.IH [OF j(1)] obtain ys zs where "s = ys @ needle @ zs" "length ys = j" by blast
    with j(2) have "c # s = (c # ys) @ needle @ zs \<and> length (c # ys) = i" by simp
    then show ?thesis by blast
  qed
qed

lemma strstr_Some_iff:
  "needle \<noteq> [] \<Longrightarrow> strstr s needle = Some i \<longleftrightarrow>
     prefix needle (drop i s) \<and> (\<forall>k < i. \<not> prefix needle (drop k s))"
proof (induction s arbitrary: i)
  case Nil
  then show ?case by simp
next
  case (Cons c s)
  show ?case
  proof (cases i)
    case 0
    then show ?thesis by auto
  next
    case (Suc j)
    have "(\<forall>k < Suc j. \<not> prefix needle (drop k (c # s))) \<longleftrightarrow>
        \<not> prefix needle (c # s) \<and> (\<forall>k < j. \<not> prefix needle (drop k s))"
      by (auto simp: less_Suc_eq_0_disj)
    then show ?thesis using Cons Suc by auto
  qed
qed

lemma strstr_skip: "a \<notin> set u \<Longrightarrow> strstr (u @ s) (a # n) = map_option (\<lambda>i. length u + i) (strstr s (a # n))"
proof (induction u)
  case Nil
  then show ?case by (simp add: option.map_ident)
next
  case (Cons x u)
  then show ?case by (simp add: option.map_comp comp_def)
qed

lemma strrchr_None_iff [simp]: "strrchr s c = None \<longleftrightarrow> c \<notin> set s"
  by (induction s) (auto split: option.splits)

lemma strrchr_append: "c \<notin> set t \<Longrightarrow> strrchr (s @ c # t) c = Some (c # t)"
proof (induction s)
  case Nil
  then show ?case by (simp add: option.case_eq_if)
next
  case (Cons a s)
  then show ?case by simp
qed

lemma strrchr_Some_iff:
  "strrchr s c = Some t \<longleftrightarrow> (\<exists>u v. s = u @ c # v \<and> t = c # v \<and> c \<notin> set v)"
proof (cases "c \<in> set s")
  case True
  then obtain u v where uv: "s = u @ c # v" "c \<notin> set v" by (meson split_list_last)
  show ?thesis
  proof
    assume "strrchr s c = Some t"
    with uv show "\<exists>u v. s = u @ c # v \<and> t = c # v \<and> c \<notin> set v"
      by (auto simp: strrchr_append)
  next
    assume "\<exists>u v. s = u @ c # v \<and> t = c # v \<and> c \<notin> set v"
    then show "strrchr s c = Some t" by (auto simp: strrchr_append)
  qed
next
  case False
  then have "strrchr s c = None" by simp
  with False show ?thesis by (metis in_set_conv_decomp option.distinct(1))
qed

lemma scan_str_length: "scan_str n s = Some (t, r) \<Longrightarrow> 0 < length t \<and> length t \<le> n"
  by (auto simp: scan_str_def Let_def split: if_splits)
     (metis length_take length_takeWhile_le min.boundedE)

lemma scan_str_no_space: "scan_str n s = Some (t, r) \<Longrightarrow> c \<in> set t \<Longrightarrow> \<not> isspace c"
  by (auto simp: scan_str_def Let_def dest: set_takeWhileD split: if_splits)

lemma scan_str_set: "scan_str n s = Some (t, r) \<Longrightarrow> set t \<subseteq> set s"
  by (auto simp: scan_str_def Let_def split: if_splits
      dest!: set_takeWhileD in_set_takeD set_dropWhileD)

lemma scan_str_rest_set: "scan_str n s = Some (t, r) \<Longrightarrow> set r \<subseteq> set s"
  by (auto simp: scan_str_def Let_def split: if_splits dest!: in_set_dropD set_dropWhileD)

text \<open>A token that fits the width and is followed by white space is read whole.\<close>

lemma scan_str_token:
  assumes "t \<noteq> []" "\<forall>c \<in> set t. \<not> isspace c" "length t \<le> n" "isspace w"
  shows "scan_str n (t @ w # s) = Some (t, w # s)"
proof -
  have "dropWhile isspace (t @ w # s) = t @ w # s"
    using assms(1,2) by (cases t) auto
  moreover have "takeWhile (\<lambda>c. \<not> isspace c) (take n (t @ w # s)) = t"
  proof (cases "length t = n")
    case True
    then show ?thesis using assms(2) by (simp add: takeWhile_eq_all_conv)
  next
    case False
    then obtain k where "n - length t = Suc k" using assms(3) by (metis diff_is_0_eq le_antisym not0_implies_Suc)
    then show ?thesis using assms(2-4) by (simp add: takeWhile_append)
  qed
  ultimately show ?thesis using assms(1) by (simp add: scan_str_def Let_def)
qed

lemma scan_str_skip: "isspace w \<Longrightarrow> scan_str n (w # s) = scan_str n s"
  by (simp add: scan_str_def)

section \<open>Evaluating the case-insensitive comparison\<close>

lemmas char_eval [clib] = tolower_def code_def char_of_def bit_0 deref_def

lemma strncaseeq_numeral [clib]:
  "strncaseeq a b (numeral k) =
     (if tolower (deref a) \<noteq> tolower (deref b) then False
      else if deref a = NUL then True else strncaseeq (tl a) (tl b) (pred_numeral k))"
  by (simp add: numeral_eq_Suc)

lemma tolower_c: "tolower x = tolower (CHR ''C'') \<longleftrightarrow> x = CHR ''c'' \<or> x = CHR ''C''"
proof -
  have c: "tolower (CHR ''C'') = CHR ''c''" by (simp add: clib)
  have k: "code (CHR ''c'') = 99" "code (CHR ''C'') = 67" by (simp_all add: code_def)
  have "tolower x = CHR ''c'' \<longleftrightarrow> x = CHR ''c'' \<or> x = CHR ''C''"
  proof (cases "65 \<le> code x \<and> code x \<le> 90")
    case True
    then have "tolower x = CHR ''c'' \<longleftrightarrow> code (char_of (code x + 32)) = code (CHR ''c'')"
      unfolding code_inject by (simp add: tolower_def)
    also have "\<dots> \<longleftrightarrow> code x = code (CHR ''C'')"
      using True k by (simp add: code_char_of del: code_inject)
    also have "\<dots> \<longleftrightarrow> x = CHR ''C''" by (rule code_inject)
    finally have "tolower x = CHR ''c'' \<longleftrightarrow> x = CHR ''C''" .
    moreover have "x \<noteq> CHR ''c''" using True by (auto simp: code_def)
    ultimately show ?thesis by simp
  next
    case False
    then show ?thesis by (auto simp: tolower_def code_def)
  qed
  with c show ?thesis by simp
qed

lemma strncaseeq_first_C:
  "deref s \<noteq> CHR ''c'' \<Longrightarrow> deref s \<noteq> CHR ''C'' \<Longrightarrow>
   \<not> strncaseeq s (CHR ''C'' # t) (Suc n)"
  using tolower_c [of "deref s"] by (simp add: deref_def)

section \<open>Lemmas on the number functions\<close>

lemma digits_nat_Nil [simp]: "digits_nat [] = 0"
  by (simp add: digits_nat_def)

lemma digits_nat_snoc [simp]: "digits_nat (s @ [c]) = 10 * digits_nat s + digit_val c"
  by (simp add: digits_nat_def)

lemma digit_char [simp]:
  "d < 10 \<Longrightarrow> isdigit (char_of (d + 48))" "d < 10 \<Longrightarrow> digit_val (char_of (d + 48)) = d"
  by (simp_all add: isdigit_def digit_val_def code_char_of)

lemma show_nat_digits: "\<forall>c \<in> set (show_nat n). isdigit c"
proof (induction n rule: show_nat.induct)
  case (1 n)
  then show ?case by (subst show_nat.simps) auto
qed

lemma show_nat_roundtrip [simp]: "digits_nat (show_nat n) = n"
proof (induction n rule: show_nat.induct)
  case (1 n)
  show ?case
  proof (cases "n < 10")
    case True
    then show ?thesis by (subst show_nat.simps) (simp add: digits_nat_def)
  next
    case False
    with 1 show ?thesis by (subst show_nat.simps) simp
  qed
qed

lemma show_nat_neq_Nil [simp]: "show_nat n \<noteq> []"
  by (subst show_nat.simps) simp

lemma show_nat_length: "n < 10 ^ k \<Longrightarrow> 0 < k \<Longrightarrow> length (show_nat n) \<le> k"
proof (induction n arbitrary: k rule: show_nat.induct)
  case (1 n)
  show ?case
  proof (cases "n < 10")
    case True
    with 1(3) show ?thesis by (subst show_nat.simps) simp
  next
    case False
    then have "k \<noteq> 1" using 1(2) by auto
    then obtain j where j: "k = Suc j" "0 < j" using 1(3) by (cases k) auto
    then have "n div 10 < 10 ^ j" using 1(2) by (simp add: less_mult_imp_div_less mult.commute)
    then have "length (show_nat (n div 10)) \<le> j" using 1(1) False j(2) by blast
    with False j(1) show ?thesis by (subst show_nat.simps) simp
  qed
qed

lemma isdigit_not_space: "isdigit c \<Longrightarrow> \<not> isspace c"
  by (auto simp: isdigit_def isspace_def code_def)

lemma snprintf_fits: "length s < n \<Longrightarrow> snprintf n s = s"
  by (simp add: snprintf_def)

lemma strtol_show_nat:
  assumes "n < 2 ^ 63" "\<not> isdigit (deref r)"
  shows "strtol (show_nat n @ r) = int n"
proof -
  obtain d ds where d: "show_nat n = d # ds" by (cases "show_nat n") auto
  then have dig: "isdigit d" using show_nat_digits [of n] by simp
  then have nosign: "d \<noteq> CHR ''-''" "d \<noteq> CHR ''+''" "\<not> isspace d"
    by (auto simp: isdigit_def isspace_def code_def)
  have tw: "takeWhile isdigit (show_nat n @ r) = show_nat n"
    using assms(2) show_nat_digits [of n]
    by (cases r) (auto simp: takeWhile_append deref_def)
  then have tw': "takeWhile isdigit (d # ds @ r) = d # ds" using d by simp
  have "digits_nat (d # ds) = n" using show_nat_roundtrip [of n] d by simp
  then show ?thesis using assms(1) nosign tw'
    by (simp add: strtol_def Let_def d deref_def del: takeWhile.simps)
qed

lemma atoi_show_nat:
  assumes "n < 2 ^ 31" "\<not> isdigit (deref r)"
  shows "atoi (show_nat n @ r) = int n"
proof -
  have "strtol (show_nat n @ r) = int n" using assms by (intro strtol_show_nat) auto
  moreover have "signed_take_bit 31 (int n) = int n"
    by (rule signed_take_bit_int_eq_self) (use assms(1) in auto)
  ultimately show ?thesis by (simp add: atoi_def)
qed

lemma c_mod_pos: "0 \<le> a \<Longrightarrow> 0 < b \<Longrightarrow> c_mod a b = Some (a mod b)"
  by (cases "a = 0") (simp_all add: c_mod_def)

lemma unat_of_nat64: "n < 2 ^ 64 \<Longrightarrow> unat (of_nat n :: u64) = n"
  by (simp add: unat_of_nat take_bit_nat_eq_self)

end
