(* ===== verification/ForgeParser.thy ===== *)
theory ForgeParser
  imports CLib
begin

text \<open>
  The request parser of the server, \<open>src/http/parser.c\<close>.  A buffer is the list of its bytes from
  \<open>buf\<close> on; positions are offsets into it.  \<open>None\<close> is the C function's \<open>false\<close>, and
  \<open>Some r\<close> its \<open>true\<close> with \<open>*out = r\<close> (on \<open>false\<close> the caller never reads
  \<open>*out\<close>).
\<close>

section \<open>The parsed request\<close>

record http_req =
  req_method :: string
  path :: string
  version :: string
  req_keep_alive :: bool
  header_bytes :: nat

section \<open>The operations\<close>

text \<open>The first loop: \<open>end\<close> is the offset just after the first blank line within \<open>len\<close>.\<close>

function find_end :: "string \<Rightarrow> nat \<Rightarrow> nat \<Rightarrow> nat option" where
  "find_end buf len i =
     (if i < len then
        (if buf ! (i - 3) = CR \<and> buf ! (i - 2) = LF \<and> buf ! (i - 1) = CR \<and> buf ! i = LF
         then Some (i + 1) else find_end buf len (i + 1))
      else None)"
  by pat_completeness auto
termination
  by (relation "measure (\<lambda>(buf, len, i). len - i)") auto

declare find_end.simps [simp del]

text \<open>\<open>sscanf(buf, "%7s %1023s %15s", method, path, version) == 3\<close>.\<close>

definition scan_request_line :: "string \<Rightarrow> (string \<times> string \<times> string) option" where
  "scan_request_line buf =
     (case scan_str 7 (cstr buf) of
        None \<Rightarrow> None
      | Some (m, r1) \<Rightarrow>
          (case scan_str 1023 r1 of
             None \<Rightarrow> None
           | Some (p, r2) \<Rightarrow>
               (case scan_str 15 r2 of
                  None \<Rightarrow> None
                | Some (v, r3) \<Rightarrow> Some (m, p, v))))"

text \<open>\<open>while (*v==' '||*v=='\t') v++;\<close>\<close>

definition skip_blanks :: "string \<Rightarrow> string" where
  "skip_blanks v = dropWhile (\<lambda>c. c = SPC \<or> c = TAB) v"

text \<open>The body of the header scan at the text a pointer \<open>p\<close> points at.\<close>

definition connection_value :: "string \<Rightarrow> bool \<Rightarrow> bool" where
  "connection_value s ka =
     (if strncaseeq s ''Connection:'' 11 then
        let v = skip_blanks (drop 11 s);
            ka1 = (if strncaseeq v ''close'' 5 then False else ka)
        in (if strncaseeq v ''keep-alive'' 10 then True else ka1)
      else ka)"

text \<open>The header scan: each round moves \<open>p\<close> two bytes on.\<close>

function scan_headers :: "string \<Rightarrow> nat \<Rightarrow> nat \<Rightarrow> bool \<Rightarrow> bool" where
  "scan_headers buf end p ka =
     (if p < end then
        (if p + 2 \<ge> end then ka
         else scan_headers buf end (p + 2) (connection_value (drop (p + 2) buf) ka))
      else ka)"
  by pat_completeness auto
termination
  by (relation "measure (\<lambda>(buf, end, p, ka). end - p)") auto

declare scan_headers.simps [simp del]

definition http_try_parse_request :: "string \<Rightarrow> nat \<Rightarrow> http_req option" where
  "http_try_parse_request buf len =
     (case find_end buf len 3 of
        None \<Rightarrow> None
      | Some end \<Rightarrow>
          (case scan_request_line buf of
             None \<Rightarrow> None
           | Some (m, p, v) \<Rightarrow>
               let http11 = (v = ''HTTP/1.1'');
                   ka = (case strstr (cstr buf) CRLF of
                           None \<Rightarrow> http11
                         | Some q \<Rightarrow> scan_headers buf end q http11)
               in Some \<lparr> req_method = m, path = p, version = v,
                         req_keep_alive = ka, header_bytes = end \<rparr>))"

section \<open>The end of the headers\<close>

text \<open>Position \<open>i\<close> holds the last byte of a blank line.\<close>

definition blank_ends_at :: "string \<Rightarrow> nat \<Rightarrow> bool" where
  "blank_ends_at buf i \<longleftrightarrow>
     3 \<le> i \<and> buf ! (i - 3) = CR \<and> buf ! (i - 2) = LF \<and> buf ! (i - 1) = CR \<and> buf ! i = LF"

lemma find_end_step:
  "3 \<le> i \<Longrightarrow> find_end buf len i =
     (if i < len then if blank_ends_at buf i then Some (Suc i) else find_end buf len (Suc i)
      else None)"
  by (subst find_end.simps) (simp add: blank_ends_at_def)

lemma find_end_Some_iff:
  "3 \<le> i \<Longrightarrow> find_end buf len i = Some e \<longleftrightarrow>
     (\<exists>j. e = Suc j \<and> i \<le> j \<and> j < len \<and> blank_ends_at buf j
        \<and> (\<forall>k. i \<le> k \<longrightarrow> k < j \<longrightarrow> \<not> blank_ends_at buf k))"
  (is "_ \<Longrightarrow> _ \<longleftrightarrow> (\<exists>j. ?first i j)")
proof (induction "len - i" arbitrary: i)
  case 0
  then have ge: "\<not> i < len" by simp
  then have "find_end buf len i = None" using 0(2) by (subst find_end_step) simp_all
  moreover have "\<not> (\<exists>j. ?first i j)" using ge by (meson le_less_trans)
  ultimately show ?case by simp
next
  case (Suc n)
  then have lt: "i < len" by simp
  show ?case
  proof (cases "blank_ends_at buf i")
    case True
    have "?first i j \<longleftrightarrow> e = Suc i \<and> j = i" for j
    proof
      assume f: "?first i j"
      then have "\<not> i < j" using True by auto
      with f show "e = Suc i \<and> j = i" by auto
    next
      assume "e = Suc i \<and> j = i"
      then show "?first i j" using True lt by auto
    qed
    then have "(\<exists>j. ?first i j) \<longleftrightarrow> e = Suc i" by blast
    moreover have "find_end buf len i = Some (Suc i)"
      using True lt Suc.prems by (subst find_end_step) simp_all
    ultimately show ?thesis by auto
  next
    case False
    then have "?first i j \<longleftrightarrow> ?first (Suc i) j" for j
      by (metis Suc_leD Suc_leI le_neq_implies_less)
    moreover have "find_end buf len (Suc i) = Some e \<longleftrightarrow> (\<exists>j. ?first (Suc i) j)"
      by (rule Suc.hyps(1)) (use Suc in auto)
    moreover have "find_end buf len i = find_end buf len (Suc i)"
      using False lt Suc.prems by (subst find_end_step) simp_all
    ultimately show ?thesis by (simp only:)
  qed
qed

lemma find_end_None_iff:
  "find_end buf len 3 = None \<longleftrightarrow> (\<forall>j < len. \<not> blank_ends_at buf j)"
proof
  assume none: "find_end buf len 3 = None"
  show "\<forall>j < len. \<not> blank_ends_at buf j"
  proof (rule ccontr)
    assume "\<not> ?thesis"
    then obtain j where "j < len \<and> blank_ends_at buf j" by blast
    then have ex: "(LEAST j. j < len \<and> blank_ends_at buf j) < len
        \<and> blank_ends_at buf (LEAST j. j < len \<and> blank_ends_at buf j)" by (rule LeastI)
    let ?j = "LEAST j. j < len \<and> blank_ends_at buf j"
    have "\<forall>k. 3 \<le> k \<longrightarrow> k < ?j \<longrightarrow> \<not> blank_ends_at buf k"
      using not_less_Least ex by (metis (no_types, lifting) order.strict_trans)
    moreover have "3 \<le> ?j" using ex by (simp add: blank_ends_at_def)
    ultimately have "find_end buf len 3 = Some (Suc ?j)" using ex by (subst find_end_Some_iff) auto
    with none show False by simp
  qed
next
  assume "\<forall>j < len. \<not> blank_ends_at buf j"
  then show "find_end buf len 3 = None"
    by (cases "find_end buf len 3") (auto simp: find_end_Some_iff)
qed

lemma find_end_bounds: "find_end buf len 3 = Some e \<Longrightarrow> 4 \<le> e \<and> e \<le> len"
  by (auto simp: find_end_Some_iff)

section \<open>The header scan\<close>

text \<open>The offsets the scan looks at: every second one after the first line end \<open>q\<close>.\<close>

definition scanned_offsets :: "nat \<Rightarrow> nat \<Rightarrow> nat list" where
  "scanned_offsets q end = filter (\<lambda>i. even (i - q)) [q + 2 ..< end]"

lemma scanned_offsets_step:
  "p + 2 < end \<Longrightarrow> scanned_offsets p end = (p + 2) # scanned_offsets (p + 2) end"
proof -
  assume h: "p + 2 < end"
  have "[p + 2 ..< end] = (p + 2) # [p + 3 ..< end]"
    using h by (simp add: upt_conv_Cons numeral_3_eq_3)
  moreover have "filter (\<lambda>i. even (i - p)) [p + 3 ..< end]
      = filter (\<lambda>i. even (i - (p + 2))) [p + 4 ..< end]"
  proof (cases "p + 3 < end")
    case True
    then have "[p + 3 ..< end] = (p + 3) # [p + 4 ..< end]"
      by (simp add: upt_conv_Cons eval_nat_numeral)
    moreover have "filter (\<lambda>i. even (i - p)) [p + 4 ..< end]
        = filter (\<lambda>i. even (i - (p + 2))) [p + 4 ..< end]"
      by (rule filter_cong) auto
    ultimately show ?thesis by simp
  next
    case False
    then show ?thesis by simp
  qed
  ultimately show ?thesis by (simp add: scanned_offsets_def eval_nat_numeral)
qed

lemma scan_headers_fold:
  "scan_headers buf end p ka
     = foldl (\<lambda>k i. connection_value (drop i buf) k) ka (scanned_offsets p end)"
proof (induction buf "end" p ka rule: scan_headers.induct)
  case (1 buf "end" p ka)
  show ?case
  proof (cases "p + 2 < end")
    case True
    then show ?thesis using 1
      by (subst scan_headers.simps) (simp add: scanned_offsets_step)
  next
    case False
    then have "scanned_offsets p end = []" by (simp add: scanned_offsets_def)
    then show ?thesis using False by (subst scan_headers.simps) simp
  qed
qed

lemma foldl_no_match:
  "\<forall>i \<in> set is. \<not> strncaseeq (drop i buf) ''Connection:'' 11 \<Longrightarrow>
   foldl (\<lambda>k i. connection_value (drop i buf) k) ka is = ka"
  by (induction "is" arbitrary: ka) (auto simp: connection_value_def)

lemma set_scanned_offsets:
  "set (scanned_offsets q end) = {i. q + 2 \<le> i \<and> i < end \<and> even (i - q)}"
  by (auto simp: scanned_offsets_def)

section \<open>The request line\<close>

lemma scan_request_line_bounds:
  assumes "scan_request_line buf = Some (m, p, v)"
  shows "length m \<le> 7 \<and> length p \<le> 1023 \<and> length v \<le> 15
    \<and> m \<noteq> [] \<and> p \<noteq> [] \<and> v \<noteq> [] \<and> NUL \<notin> set p"
proof -
  from assms obtain r1 r2 r3 where
    r: "scan_str 7 (cstr buf) = Some (m, r1)" "scan_str 1023 r1 = Some (p, r2)"
       "scan_str 15 r2 = Some (v, r3)"
    by (auto simp: scan_request_line_def split: option.splits)
  have "set p \<subseteq> set (cstr buf)"
    using scan_str_set [OF r(2)] scan_str_rest_set [OF r(1)] by blast
  then have "NUL \<notin> set p" using cstr_NUL_free by blast
  with r [THEN scan_str_length] show ?thesis by auto
qed

lemma scan_request_line_tokens:
  assumes "m \<noteq> []" "\<forall>c \<in> set m. \<not> isspace c \<and> c \<noteq> NUL" "length m \<le> 7"
    and "p \<noteq> []" "\<forall>c \<in> set p. \<not> isspace c \<and> c \<noteq> NUL" "length p \<le> 1023"
    and "v \<noteq> []" "\<forall>c \<in> set v. \<not> isspace c \<and> c \<noteq> NUL" "length v \<le> 15"
  shows "scan_request_line (m @ SPC # p @ SPC # v @ CR # rest) = Some (m, p, v)"
proof -
  have c: "cstr (m @ SPC # p @ SPC # v @ CR # rest) = m @ SPC # p @ SPC # v @ CR # cstr rest"
    unfolding cstr_def using assms(2,5,8) by (subst takeWhile_append2; auto)+
  have s: "isspace SPC" "isspace CR" by (simp_all add: isspace_def)
  show ?thesis
    using assms s unfolding scan_request_line_def c
    by (simp add: scan_str_token scan_str_skip)
qed

section \<open>Requests as text\<close>

text \<open>
  The text of a request: the request line, the header lines and the blank line.  The lemmas find
  the first blank line of such a text.
\<close>

definition request_text :: "string \<Rightarrow> string \<Rightarrow> string \<Rightarrow> string list \<Rightarrow> string" where
  "request_text m p v hs =
     m @ SPC # p @ SPC # v @ CRLF @ concat (map (\<lambda>h. h @ CRLF) hs) @ CRLF"

definition token :: "nat \<Rightarrow> string \<Rightarrow> bool" where
  "token n t \<longleftrightarrow> t \<noteq> [] \<and> length t \<le> n \<and> (\<forall>c \<in> set t. \<not> isspace c \<and> c \<noteq> NUL)"

definition header_line :: "string \<Rightarrow> bool" where
  "header_line h \<longleftrightarrow> h \<noteq> [] \<and> CR \<notin> set h"

lemma token_no_CR: "token n t \<Longrightarrow> CR \<notin> set t"
  by (auto simp: token_def isspace_def)

lemma prefix_blank_drop:
  "prefix (CRLF @ CRLF) (drop i (take len buf)) \<longleftrightarrow>
     i + 3 < min len (length buf) \<and> blank_ends_at buf (i + 3)"
proof (cases "i + 3 < min len (length buf)")
  case True
  let ?s = "take len buf"
  have "drop i ?s = ?s ! i # ?s ! (i+1) # ?s ! (i+2) # ?s ! (i+3) # drop (i+4) ?s"
    using True Cons_nth_drop_Suc [of i ?s] Cons_nth_drop_Suc [of "i+1" ?s]
      Cons_nth_drop_Suc [of "i+2" ?s] Cons_nth_drop_Suc [of "i+3" ?s]
    by (simp add: eval_nat_numeral del: nth_take)
  then show ?thesis using True by (auto simp: blank_ends_at_def eval_nat_numeral)
next
  case False
  then have "length (drop i (take len buf)) < 4" by auto
  then have "\<not> prefix (CRLF @ CRLF) (drop i (take len buf))"
    by (auto dest: prefix_length_le)
  with False show ?thesis by blast
qed

lemma find_end_strstr:
  assumes "len \<le> length buf"
  shows "find_end buf len 3 = map_option (\<lambda>i. i + 4) (strstr (take len buf) (CRLF @ CRLF))"
proof (cases "strstr (take len buf) (CRLF @ CRLF)")
  case (Some i)
  then have i: "prefix (CRLF @ CRLF) (drop i (take len buf))"
    "\<forall>k < i. \<not> prefix (CRLF @ CRLF) (drop k (take len buf))"
    by (simp_all add: strstr_Some_iff del: append.simps)
  have "\<not> blank_ends_at buf k" if "3 \<le> k" "k < i + 3" for k
    using i(2) [rule_format, of "k - 3"] that i(1) assms
    by (auto simp: prefix_blank_drop simp del: append.simps)
  then have "find_end buf len 3 = Some (Suc (i + 3))"
    using i(1) assms
    by (subst find_end_Some_iff) (auto simp: prefix_blank_drop add.commute simp del: append.simps)
  with Some show ?thesis by simp
next
  case None
  have "\<not> blank_ends_at buf j" if "j < len" for j
  proof
    assume b: "blank_ends_at buf j"
    then have j: "3 \<le> j" by (simp add: blank_ends_at_def)
    then have "prefix (CRLF @ CRLF) (drop (j - 3) (take len buf))"
      using b that assms by (auto simp: prefix_blank_drop simp del: append.simps)
    then have "sublist (CRLF @ CRLF) (take len buf)"
      by (meson sublist_drop sublist_order.order_trans prefix_imp_sublist)
    with None show False by (simp add: strstr_None_iff del: append.simps)
  qed
  then have "find_end buf len 3 = None" by (simp add: find_end_None_iff)
  with None show ?thesis by simp
qed

lemma strstr_line:
  "CR \<notin> set h \<Longrightarrow> strstr (h @ CR # s) (CRLF @ CRLF)
     = map_option (\<lambda>i. length h + i) (strstr (CR # s) (CRLF @ CRLF))"
  using strstr_skip [of CR h "CR # s" "[LF, CR, LF]"] by simp

lemma strstr_headers:
  "\<forall>h \<in> set hs. header_line h \<Longrightarrow>
   strstr (CRLF @ concat (map (\<lambda>h. h @ CRLF) hs) @ CRLF @ rest) (CRLF @ CRLF)
     = Some (length (concat (map (\<lambda>h. h @ CRLF) hs)))"
proof (induction hs)
  case Nil
  then show ?case by simp
next
  case (Cons h hs)
  let ?t = "LF # concat (map (\<lambda>h. h @ CRLF) hs) @ CRLF @ rest"
  from Cons.prems have h: "h \<noteq> []" "CR \<notin> set h" by (auto simp: header_line_def)
  then obtain x h' where x: "h = x # h'" "x \<noteq> CR" by (cases h) auto
  have "strstr (h @ CR # ?t) (CRLF @ CRLF) = map_option (\<lambda>i. length h + i) (strstr (CR # ?t) (CRLF @ CRLF))"
    using h(2) by (rule strstr_line)
  moreover have "strstr (CR # ?t) (CRLF @ CRLF) = Some (length (concat (map (\<lambda>h. h @ CRLF) hs)))"
    using Cons by simp
  moreover have "strstr (CR # LF # h @ CR # ?t) (CRLF @ CRLF)
      = map_option (\<lambda>i. Suc (Suc i)) (strstr (h @ CR # ?t) (CRLF @ CRLF))"
    using x by (simp add: option.map_comp comp_def)
  ultimately show ?case by simp
qed

lemma find_end_request:
  assumes "token 7 m" "token 1023 p" "token 15 v" "\<forall>h \<in> set hs. header_line h"
    and "length (request_text m p v hs) \<le> len" "len \<le> length (request_text m p v hs @ rest)"
  shows "find_end (request_text m p v hs @ rest) len 3 = Some (length (request_text m p v hs))"
proof -
  let ?l = "m @ SPC # p @ SPC # v" and ?hs = "concat (map (\<lambda>h. h @ CRLF) hs)"
  define r where "r = take (len - length (request_text m p v hs)) rest"
  have "CR \<notin> set ?l" using assms(1-3) by (auto dest: token_no_CR)
  then have "strstr (?l @ CR # LF # ?hs @ CRLF @ r) (CRLF @ CRLF)
      = map_option (\<lambda>i. length ?l + i) (strstr (CR # LF # ?hs @ CRLF @ r) (CRLF @ CRLF))"
    by (rule strstr_line)
  also have "\<dots> = Some (length ?l + length ?hs)"
    using strstr_headers [OF assms(4), of r] by simp
  finally have "strstr (request_text m p v hs @ r) (CRLF @ CRLF) = Some (length ?l + length ?hs)"
    by (simp add: request_text_def)
  moreover have "take len (request_text m p v hs @ rest) = request_text m p v hs @ r"
    using assms(5) by (simp add: r_def)
  ultimately show ?thesis using assms(6)
    by (simp add: find_end_strstr request_text_def)
qed

lemma scan_request_text:
  "token 7 m \<Longrightarrow> token 1023 p \<Longrightarrow> token 15 v \<Longrightarrow>
   scan_request_line (request_text m p v hs @ rest) = Some (m, p, v)"
  using scan_request_line_tokens [of m p v "LF # concat (map (\<lambda>h. h @ CRLF) hs) @ CRLF @ rest"]
  by (simp add: request_text_def token_def)

section \<open>A header among others\<close>

lemma foldl_one_match:
  assumes "distinct is" "i \<in> set is"
    and "\<And>j. j \<in> set is \<Longrightarrow> j \<noteq> i \<Longrightarrow> \<not> strncaseeq (drop j buf) ''Connection:'' 11"
  shows "foldl (\<lambda>k j. connection_value (drop j buf) k) ka is = connection_value (drop i buf) ka"
proof -
  obtain a b where ab: "is = a @ i # b" using assms(2) by (meson split_list)
  with assms(1) have "i \<notin> set a" "i \<notin> set b" by auto
  with ab assms(3) have "\<forall>j \<in> set a. \<not> strncaseeq (drop j buf) ''Connection:'' 11"
    "\<forall>j \<in> set b. \<not> strncaseeq (drop j buf) ''Connection:'' 11" by auto
  then show ?thesis by (simp add: ab foldl_no_match)
qed

abbreviation close_header :: string where
  "close_header \<equiv> ''Connection: close''"

lemma close_header_value:
  "connection_value (close_header @ CR # s) ka = False"
  by (simp add: connection_value_def skip_blanks_def clib)

lemma close_header_letters:
  "\<forall>d \<in> set [0..<23]. (CRLF @ close_header @ CRLF @ CRLF) ! d \<in> {CHR ''c'', CHR ''C''}
     \<longrightarrow> d \<in> {2, 7, 14}"
  by code_simp

lemma close_header_offsets:
  assumes "d < 23" "d \<noteq> 2"
  shows "\<not> strncaseeq (drop d (CRLF @ close_header @ CRLF @ CRLF @ s)) ''Connection:'' 11"
proof -
  let ?lit = "CRLF @ close_header @ CRLF @ CRLF"
  have dr: "drop d (CRLF @ close_header @ CRLF @ CRLF @ s) = ?lit ! d # drop (Suc d) ?lit @ s"
    using drop_append_nth [of d ?lit s] assms(1) by simp
  consider "d = 7" | "d = 14" | "d \<notin> {2, 7, 14}" using assms(2) by auto
  then show ?thesis
  proof cases
    case 1
    then show ?thesis by (simp add: clib)
  next
    case 2
    then show ?thesis by (simp add: clib)
  next
    case 3
    then have "?lit ! d \<notin> {CHR ''c'', CHR ''C''}"
      using close_header_letters assms(1) by (metis atLeastLessThan_iff atLeastLessThan_upt zero_le)
    then have "deref (?lit ! d # drop (Suc d) ?lit @ s) \<noteq> CHR ''c''"
      "deref (?lit ! d # drop (Suc d) ?lit @ s) \<noteq> CHR ''C''"
      by (simp_all only: deref_def list.case) auto
    then show ?thesis unfolding dr numeral_eq_Suc by (rule strncaseeq_first_C)
  qed
qed

lemma close_header_only_match:
  assumes "CHR ''c'' \<notin> set h" "CHR ''C'' \<notin> set h" "i < length h + 23" "i \<noteq> length h + 2"
  shows "\<not> strncaseeq (drop i (h @ CRLF @ close_header @ CRLF @ CRLF @ s)) ''Connection:'' 11"
proof (cases "i < length h")
  case True
  then have "h ! i \<in> set h" by simp
  then have "deref (h ! i # t) \<noteq> CHR ''c''" "deref (h ! i # t) \<noteq> CHR ''C''" for t
    using assms(1,2) by (auto simp: deref_def)
  then show ?thesis
    unfolding drop_append_nth [OF True] numeral_eq_Suc by (rule strncaseeq_first_C)
next
  case False
  then have "drop i (h @ t) = drop (i - length h) t" for t :: string by simp
  then show ?thesis using close_header_offsets [of "i - length h" s] False assms(3,4)
    by (simp only:) auto
qed

lemma request_line_end:
  assumes "token 7 m" "token 1023 p" "token 15 v"
  shows "strstr (cstr (request_text m p v hs @ rest)) CRLF = Some (length m + length p + length v + 2)"
proof -
  let ?l = "m @ SPC # p @ SPC # v"
  let ?t = "concat (map (\<lambda>h. h @ CRLF) hs) @ CRLF @ rest"
  have "NUL \<notin> set ?l" using assms by (auto simp: token_def)
  then have c: "cstr (?l @ CR # LF # ?t) = ?l @ CR # LF # cstr ?t"
    unfolding cstr_def by (subst takeWhile_append2) auto
  have "CR \<notin> set ?l" using assms by (auto dest: token_no_CR)
  then have "strstr (?l @ CR # LF # cstr ?t) CRLF = Some (length ?l)"
    using strstr_skip [of CR ?l "CR # LF # cstr ?t" "[LF]"] by simp
  then show ?thesis using c by (simp add: request_text_def)
qed

lemma request_text_parsed:
  assumes "token 7 m" "token 1023 p" "token 15 v" "\<forall>h \<in> set hs. header_line h"
    and "length (request_text m p v hs) \<le> len" "len \<le> length (request_text m p v hs @ rest)"
  shows "\<exists>r. http_try_parse_request (request_text m p v hs @ rest) len = Some r
    \<and> req_method r = m \<and> path r = p \<and> version r = v \<and> header_bytes r = length (request_text m p v hs)"
  unfolding http_try_parse_request_def
  by (simp add: Let_def find_end_request [OF assms] scan_request_text [OF assms(1-3)])

lemma keep_alive_fold:
  "http_try_parse_request buf len = Some r \<Longrightarrow>
     req_keep_alive r =
       (case strstr (cstr buf) CRLF of
          None \<Rightarrow> version r = ''HTTP/1.1''
        | Some q \<Rightarrow> foldl (\<lambda>k i. connection_value (drop i buf) k) (version r = ''HTTP/1.1'')
                     (filter (\<lambda>i. even (i - q)) [q + 2 ..< header_bytes r]))"
  by (auto simp: http_try_parse_request_def Let_def scan_headers_fold scanned_offsets_def
      split: option.splits)

section \<open>Properties\<close>

text \<open>When the parser accepts, \<open>header_bytes\<close> is the offset just after the first blank
  line of the buffer, and that blank line lies within the \<open>len\<close> bytes received.\<close>

lemma parse_first_blank_line:
  "http_try_parse_request buf len = Some r \<Longrightarrow>
     4 \<le> header_bytes r \<and> header_bytes r \<le> len \<and> blank_ends_at buf (header_bytes r - 1)
     \<and> (\<forall>j < header_bytes r - 1. \<not> blank_ends_at buf j)"
proof -
  assume "http_try_parse_request buf len = Some r"
  then have e: "find_end buf len 3 = Some (header_bytes r)"
    by (auto simp: http_try_parse_request_def Let_def split: option.splits)
  then obtain j where j: "header_bytes r = Suc j" "3 \<le> j" "j < len" "blank_ends_at buf j"
    "\<forall>k. 3 \<le> k \<longrightarrow> k < j \<longrightarrow> \<not> blank_ends_at buf k" by (auto simp: find_end_Some_iff)
  then have "\<forall>k < j. \<not> blank_ends_at buf k" by (auto simp: blank_ends_at_def)
  with j show ?thesis by simp
qed

lemma parse_GET_example:
  "http_try_parse_request (''GET / HTTP/1.1'' @ CRLF @ CRLF @ ''GET'') 20 = Some
     \<lparr> req_method = ''GET'', path = ''/'', version = ''HTTP/1.1'', req_keep_alive = True,
       header_bytes = 18 \<rparr>"
  by code_simp

lemma parse_first_blank_line_witness:
  "blank_ends_at (''GET / HTTP/1.1'' @ CRLF @ CRLF @ ''GET'') 17"
  using parse_first_blank_line [OF parse_GET_example] by simp

text \<open>C14: The parser never writes past the fixed arrays of the request: the method, path and
  version have at most 7, 1023 and 15 characters; none of them is empty, and the path holds no NUL.\<close>

theorem parse_field_bounds:
  "http_try_parse_request buf len = Some r \<Longrightarrow>
     length (req_method r) \<le> 7 \<and> length (path r) \<le> 1023 \<and> length (version r) \<le> 15
     \<and> req_method r \<noteq> [] \<and> path r \<noteq> [] \<and> version r \<noteq> [] \<and> NUL \<notin> set (path r)"
  by (auto simp: http_try_parse_request_def Let_def split: option.splits
      dest!: scan_request_line_bounds)

theorem parse_field_bounds_witness: "length ''/'' \<le> 1023"
  using parse_field_bounds [OF parse_GET_example] by simp

text \<open>C6: A well-formed request is read back: a request line of three tokens that fit the arrays,
  any header lines and the blank line, followed by any bytes, gives exactly those tokens, and
  \<open>header_bytes\<close> is the length of the text.\<close>

theorem parse_request_text:
  assumes "token 7 m" "token 1023 p" "token 15 v" "\<forall>h \<in> set hs. header_line h"
    and "length (request_text m p v hs) \<le> len" "len \<le> length (request_text m p v hs @ rest)"
  shows "\<exists>r. http_try_parse_request (request_text m p v hs @ rest) len = Some r
    \<and> req_method r = m \<and> path r = p \<and> version r = v \<and> header_bytes r = length (request_text m p v hs)"
  using request_text_parsed [OF assms] by simp

theorem parse_request_text_witness:
  "\<exists>r. http_try_parse_request (request_text ''GET'' ''/a'' ''HTTP/1.1'' [''Host: b''] @ ''xyz'') 30 = Some r
     \<and> path r = ''/a'' \<and> header_bytes r = 28"
proof -
  have t: "token 7 ''GET''" "token 1023 ''/a''" "token 15 ''HTTP/1.1''"
    "\<forall>h \<in> set [''Host: b'']. header_line h"
    by (simp_all add: token_def isspace_def header_line_def)
  have l: "length (request_text ''GET'' ''/a'' ''HTTP/1.1'' [''Host: b'']) = 28"
    by (simp add: request_text_def)
  show ?thesis using parse_request_text [OF t, of 30 "''xyz''"] l by auto
qed

text \<open>The keep-alive flag is the fold of the \<open>Connection\<close> test over every second offset
  after the end of the request line, and over no other offset: the scan advances \<open>p\<close> by two
  bytes a round and never to the next line.\<close>

lemma keep_alive_even_offsets:
  "http_try_parse_request buf len = Some r \<Longrightarrow>
     req_keep_alive r =
       (case strstr (cstr buf) CRLF of
          None \<Rightarrow> version r = ''HTTP/1.1''
        | Some q \<Rightarrow> foldl (\<lambda>k i. connection_value (drop i buf) k) (version r = ''HTTP/1.1'')
                     (filter (\<lambda>i. even (i - q)) [q + 2 ..< header_bytes r]))"
  by (rule keep_alive_fold)

lemma keep_alive_even_offsets_witness:
  "case strstr (cstr (''GET / HTTP/1.1'' @ CRLF @ CRLF @ ''GET'')) CRLF of
     None \<Rightarrow> True
   | Some q \<Rightarrow> foldl (\<lambda>k i. connection_value (drop i (''GET / HTTP/1.1'' @ CRLF @ CRLF @ ''GET'')) k)
       True (filter (\<lambda>i. even (i - q)) [q + 2 ..< 18])"
  using keep_alive_even_offsets [OF parse_GET_example] by (simp only: http_req.simps simp_thms)

text \<open>A \<open>Connection: close\<close> header is seen only at an even distance from the end of the
  request line.  In an HTTP/1.1 request with one header line \<open>h\<close> before it (without the letter
  C), the connection is kept alive exactly when \<open>h\<close> has an odd length.\<close>

lemma close_header_parity:
  assumes "token 7 m" "token 1023 p" "header_line h" "CHR ''c'' \<notin> set h" "CHR ''C'' \<notin> set h"
    and "length (request_text m p ''HTTP/1.1'' [h, close_header]) \<le> len"
    and "len \<le> length (request_text m p ''HTTP/1.1'' [h, close_header] @ rest)"
  shows "\<exists>r. http_try_parse_request (request_text m p ''HTTP/1.1'' [h, close_header] @ rest) len = Some r
    \<and> (req_keep_alive r \<longleftrightarrow> odd (length h))"
proof -
  let ?v = "''HTTP/1.1''" and ?hs = "[h, close_header]"
  let ?buf = "request_text m p ?v ?hs @ rest"
  define q where "q = length m + length p + length ?v + 2"
  let ?tail = "CRLF @ close_header @ CRLF @ CRLF @ rest"
  have v: "token 15 ?v" by (simp add: token_def isspace_def)
  have hs: "\<forall>h \<in> set ?hs. header_line h" using assms(3) by (simp add: header_line_def)
  obtain r where r: "http_try_parse_request ?buf len = Some r" "version r = ?v"
    "header_bytes r = length (request_text m p ?v ?hs)"
    using request_text_parsed [OF assms(1,2) v hs assms(6,7)] by blast
  have e: "header_bytes r = q + 2 + length h + 23" by (simp add: r(3) q_def request_text_def)
  let ?line = "m @ SPC # p @ SPC # ?v @ CRLF"
  have "?line @ (h @ ?tail) = ?buf" by (simp add: request_text_def)
  moreover have "length ?line = q + 2" by (simp add: q_def)
  ultimately have at: "drop (q + 2 + j) ?buf = drop j (h @ ?tail)" for j by (rule drop_at)
  define ofs where "ofs = scanned_offsets q (header_bytes r)"
  have ka: "req_keep_alive r = foldl (\<lambda>k i. connection_value (drop i ?buf) k) True ofs"
    using keep_alive_fold [OF r(1)] request_line_end [OF assms(1,2) v] r(2)
    by (simp add: ofs_def q_def scanned_offsets_def)
  have no: "\<not> strncaseeq (drop j ?buf) ''Connection:'' 11"
    if j: "j \<in> set ofs" "j \<noteq> q + 2 + length h + 2" for j
  proof -
    obtain i where i: "j = q + 2 + i" "i < length h + 23"
      using j(1) e by (auto simp: ofs_def set_scanned_offsets le_iff_add)
    with j(2) have "i \<noteq> length h + 2" by simp
    with assms(4,5) i(2) show ?thesis unfolding i(1) at by (intro close_header_only_match)
  qed
  have "distinct ofs" by (simp add: ofs_def scanned_offsets_def)
  show ?thesis
  proof (cases "even (length h)")
    case True
    then have "q + 2 + length h + 2 \<in> set ofs" using e by (simp add: ofs_def set_scanned_offsets)
    then have "req_keep_alive r = connection_value (drop (q + 2 + length h + 2) ?buf) True"
      unfolding ka using \<open>distinct ofs\<close> no by (intro foldl_one_match) auto
    also have "drop (q + 2 + length h + 2) ?buf = close_header @ CR # LF # CRLF @ rest"
      using at [of "length h + 2"] by (simp add: add.assoc)
    finally show ?thesis using r(1) True close_header_value by auto
  next
    case False
    then have "q + 2 + length h + 2 \<notin> set ofs" by (auto simp: ofs_def set_scanned_offsets)
    then have "req_keep_alive r" unfolding ka using no by (subst foldl_no_match) auto
    then show ?thesis using r(1) False by blast
  qed
qed

lemma close_header_parity_witness:
  "\<exists>r. http_try_parse_request (request_text ''GET'' ''/'' ''HTTP/1.1'' [''Host: a'', close_header] @ []) 46 = Some r
     \<and> req_keep_alive r"
proof -
  have t: "token 7 ''GET''" "token 1023 ''/''" "header_line ''Host: a''"
    "CHR ''c'' \<notin> set ''Host: a''" "CHR ''C'' \<notin> set ''Host: a''"
    by (simp_all add: token_def isspace_def header_line_def)
  have l: "length (request_text ''GET'' ''/'' ''HTTP/1.1'' [''Host: a'', close_header]) = 46"
    by (simp add: request_text_def)
  show ?thesis using close_header_parity [OF t, of 46 "[]"] l by simp
qed

text \<open>The request line is not looked for within the \<open>len\<close> bytes received: when the client
  sends a bare blank line, the parser accepts it and takes the request line from the bytes that
  follow in the buffer, which the previous request may have left there.\<close>

lemma parse_reads_past_headers:
  assumes "token 7 m" "token 1023 p" "token 15 v" "4 \<le> len"
  shows "\<exists>r. http_try_parse_request (CRLF @ CRLF @ request_text m p v hs @ rest) len = Some r
    \<and> req_method r = m \<and> path r = p \<and> version r = v \<and> header_bytes r = 4"
proof -
  let ?t = "request_text m p v hs @ rest"
  have "cstr (CRLF @ CRLF @ ?t) = CR # LF # CR # LF # cstr ?t" by (simp add: cstr_def)
  moreover have "isspace CR" "isspace LF" by (simp_all add: isspace_def)
  ultimately have "scan_request_line (CRLF @ CRLF @ ?t) = scan_request_line ?t"
    by (simp add: scan_request_line_def scan_str_skip)
  moreover have "find_end (CRLF @ CRLF @ ?t) len 3 = Some 4"
    using assms(4) by (subst find_end_step) (simp_all add: blank_ends_at_def)
  ultimately show ?thesis
    by (simp add: http_try_parse_request_def Let_def scan_request_text [OF assms(1-3)])
qed

lemma parse_reads_past_headers_witness:
  "\<exists>r. http_try_parse_request (CRLF @ CRLF @ request_text ''GET'' ''/a'' ''HTTP/1.1'' [] @ []) 4 = Some r
     \<and> path r = ''/a'' \<and> header_bytes r = 4"
proof -
  have t: "token 7 ''GET''" "token 1023 ''/a''" "token 15 ''HTTP/1.1''" "(4::nat) \<le> 4"
    by (simp_all add: token_def isspace_def)
  show ?thesis using parse_reads_past_headers [OF t] by metis
qed

end
