(* ===== verification/ForgeStatic.thy ===== *)
theory ForgeStatic
  imports CLib
begin

text \<open>
  Static responses, \<open>src/http/static.c\<close>.  What the kernel answers while one response is sent is a
  record \<open>file_env\<close>, an argument of the definitions; what the code asks of the kernel is the log of
  its calls, a list of \<open>io\<close>.  A function that has not returned when the scripted answers of
  \<open>sendfile\<close> are used up gives \<open>None\<close>.
\<close>

section \<open>The kernel's answers and the log of calls\<close>

datatype sf_res = SfSent nat | SfAgain | SfErr

record file_env =
  e_open :: "string \<Rightarrow> int"
  e_fstat :: "int \<Rightarrow> (bool \<times> int) option"
  e_write :: "string \<Rightarrow> int"
  e_sendfile :: "sf_res list"

datatype io =
    OpenFile string int
  | CloseFd int
  | WriteTo int string int
  | Cork int bool
  | Sendfile int int nat int sf_res

abbreviation HDR_BUF :: nat where "HDR_BUF \<equiv> 2048"

section \<open>The operations\<close>

definition guess_type :: "string \<Rightarrow> string" where
  "guess_type p =
     (case strrchr p CHR ''.'' of
        None \<Rightarrow> ''application/octet-stream''
      | Some dot \<Rightarrow>
          if dot = ''.html'' \<or> dot = ''.htm'' then ''text/html''
          else if dot = ''.txt'' then ''text/plain''
          else if dot = ''.css'' then ''text/css''
          else if dot = ''.js'' then ''application/javascript''
          else if dot = ''.png'' then ''image/png''
          else if dot = ''.jpg'' \<or> dot = ''.jpeg'' then ''image/jpeg''
          else if dot = ''.gif'' then ''image/gif''
          else if dot = ''.bin'' then ''application/octet-stream''
          else ''application/octet-stream'')"

definition http_path_has_dotdot :: "string \<Rightarrow> bool" where
  "http_path_has_dotdot p = (strstr p ''..'' \<noteq> None)"

definition connection_text :: "bool \<Rightarrow> string" where
  "connection_text keep_alive = (if keep_alive then ''keep-alive'' else ''close'')"

definition text_404 :: "bool \<Rightarrow> string" where
  "text_404 keep_alive =
     ''HTTP/1.1 404 Not Found'' @ CRLF @
     ''Content-Length: 13'' @ CRLF @
     ''Content-Type: text/plain'' @ CRLF @
     ''Connection: '' @ connection_text keep_alive @ CRLF @
     CRLF @
     ''404 Not Found''"

definition http_send_404 :: "file_env \<Rightarrow> int \<Rightarrow> bool \<Rightarrow> io list" where
  "http_send_404 env fd keep_alive =
     (let hdr = snprintf HDR_BUF (text_404 keep_alive);
          n = length (text_404 keep_alive)
      in [WriteTo fd (take n hdr) (e_write env (take n hdr))])"

definition http_send_400 :: "file_env \<Rightarrow> int \<Rightarrow> io list" where
  "http_send_400 env fd =
     (let h = ''HTTP/1.1 400 Bad Request'' @ CRLF @
              ''Content-Length: 11'' @ CRLF @
              ''Content-Type: text/plain'' @ CRLF @
              ''Connection: close'' @ CRLF @
              CRLF @
              ''bad request''
      in [WriteTo fd h (e_write env h)])"

definition fs_path :: "string \<Rightarrow> string \<Rightarrow> string" where
  "fs_path doc_root url_path =
     (if url_path = ''/'' then snprintf 2048 (doc_root @ ''/index.html'')
      else snprintf 2048 (doc_root @ ''/'' @ (if deref url_path = CHR ''/'' then tl url_path else url_path)))"

definition text_200 :: "int \<Rightarrow> string \<Rightarrow> bool \<Rightarrow> string" where
  "text_200 st_size ctype keep_alive =
     ''HTTP/1.1 200 OK'' @ CRLF @
     ''Content-Length: '' @ show_int st_size @ CRLF @
     ''Content-Type: '' @ ctype @ CRLF @
     ''Connection: '' @ connection_text keep_alive @ CRLF @
     ''Last-Modified: Thu, 01 Jan 1970 00:00:00 GMT'' @ CRLF @
     CRLF"

text \<open>
  The send loop at file offset \<open>off\<close> with \<open>remain\<close> bytes to go: \<open>Some (True, log)\<close> when it ends,
  \<open>Some (False, log)\<close> when it leaves by the error return.
\<close>

fun sendfile_loop :: "int \<Rightarrow> int \<Rightarrow> nat \<Rightarrow> int \<Rightarrow> sf_res list \<Rightarrow> (bool \<times> io list) option" where
  "sendfile_loop fd f off remain [] = (if remain > 0 then None else Some (True, []))"
| "sendfile_loop fd f off remain (r # rs) =
     (if remain > 0 then
        (case r of
           SfSent n \<Rightarrow>
             map_option (apsnd ((#) (Sendfile fd f off remain r)))
               (sendfile_loop fd f (off + n) (remain - int n) rs)
         | SfAgain \<Rightarrow>
             map_option (apsnd ((#) (Sendfile fd f off remain r)))
               (sendfile_loop fd f off remain rs)
         | SfErr \<Rightarrow> Some (False, [Sendfile fd f off remain r]))
      else Some (True, []))"

definition http_send_static_file ::
    "file_env \<Rightarrow> int \<Rightarrow> string \<Rightarrow> string \<Rightarrow> bool \<Rightarrow> (int \<times> io list) option" where
  "http_send_static_file env fd doc_root url_path keep_alive =
     (if http_path_has_dotdot url_path then Some (-1, http_send_404 env fd keep_alive)
      else
        let fs = fs_path doc_root url_path; f = e_open env fs in
        if f < 0 then Some (-1, OpenFile fs f # http_send_404 env fd keep_alive)
        else
          (case e_fstat env f of
             None \<Rightarrow> Some (-1, OpenFile fs f # CloseFd f # http_send_404 env fd keep_alive)
           | Some (isreg, st_size) \<Rightarrow>
               if \<not> isreg then
                 Some (-1, OpenFile fs f # CloseFd f # http_send_404 env fd keep_alive)
               else
                 let text = text_200 st_size (guess_type fs) keep_alive;
                     hn = length text;
                     hdr = take hn (snprintf HDR_BUF text);
                     w = e_write env hdr;
                     start = [OpenFile fs f, Cork fd True, WriteTo fd hdr w]
                 in if w < int hn then Some (-1, start @ [CloseFd f])
                    else (case sendfile_loop fd f 0 st_size (e_sendfile env) of
                            None \<Rightarrow> None
                          | Some (False, sent) \<Rightarrow> Some (-1, start @ sent @ [CloseFd f])
                          | Some (True, sent) \<Rightarrow>
                              Some (0, start @ sent @ [Cork fd False, CloseFd f]))))"

section \<open>Reading the log\<close>

text \<open>The bytes the log put on the wire, when the served file holds \<open>content\<close>.\<close>

fun wire1 :: "string \<Rightarrow> io \<Rightarrow> string" where
  "wire1 content (WriteTo fd s n) = take (nat n) s"
| "wire1 content (Sendfile fd f off cnt (SfSent n)) = take n (drop off content)"
| "wire1 content _ = []"

definition wire :: "string \<Rightarrow> io list \<Rightarrow> string" where
  "wire content log = concat (map (wire1 content) log)"

lemma wire_simps [simp]:
  "wire content [] = []"
  "wire content (x # log) = wire1 content x @ wire content log"
  "wire content (log1 @ log2) = wire content log1 @ wire content log2"
  by (simp_all add: wire_def)

text \<open>File descriptors the log opened and closed, in order.\<close>

fun opened_fds :: "io list \<Rightarrow> int list" where
  "opened_fds [] = []"
| "opened_fds (OpenFile p f # log) = (if 0 \<le> f then f # opened_fds log else opened_fds log)"
| "opened_fds (_ # log) = opened_fds log"

fun closed_fds :: "io list \<Rightarrow> int list" where
  "closed_fds [] = []"
| "closed_fds (CloseFd f # log) = f # closed_fds log"
| "closed_fds (_ # log) = closed_fds log"

lemma opened_fds_append [simp]: "opened_fds (a @ b) = opened_fds a @ opened_fds b"
  by (induction a rule: opened_fds.induct) auto

lemma closed_fds_append [simp]: "closed_fds (a @ b) = closed_fds a @ closed_fds b"
  by (induction a rule: closed_fds.induct) auto

text \<open>The kernel's promise on \<open>sendfile\<close>: it sends at most the bytes asked for.\<close>

fun sendfile_bounded :: "io \<Rightarrow> bool" where
  "sendfile_bounded (Sendfile fd f off cnt (SfSent n)) = (int n \<le> cnt)"
| "sendfile_bounded _ = True"

definition opened_paths :: "io list \<Rightarrow> string list" where
  "opened_paths log = concat (map (\<lambda>x. case x of OpenFile p f \<Rightarrow> [p] | _ \<Rightarrow> []) log)"

lemma opened_paths_simps [simp]:
  "opened_paths [] = []"
  "opened_paths (x # log) = (case x of OpenFile p f \<Rightarrow> p # opened_paths log | _ \<Rightarrow> opened_paths log)"
  "opened_paths (a @ b) = opened_paths a @ opened_paths b"
  by (simp_all add: opened_paths_def split: io.splits)

section \<open>The send loop\<close>

lemma sendfile_loop_log:
  "sendfile_loop fd f off remain rs = Some (ok, log) \<Longrightarrow>
     opened_fds log = [] \<and> closed_fds log = [] \<and> opened_paths log = []
     \<and> (\<forall>x \<in> set log. \<exists>o' c r. x = Sendfile fd f o' c r)"
proof (induction rs arbitrary: off remain log)
  case Nil
  then show ?case by (simp split: if_splits)
next
  case (Cons r rs)
  show ?case
  proof (cases "remain > 0")
    case True
    then show ?thesis using Cons by (cases r) auto
  next
    case False
    then show ?thesis using Cons.prems by simp
  qed
qed

lemma sendfile_loop_wire:
  "sendfile_loop fd f off remain rs = Some (True, log) \<Longrightarrow> \<forall>x \<in> set log. sendfile_bounded x \<Longrightarrow>
   0 \<le> remain \<Longrightarrow> length content = off + nat remain \<Longrightarrow> wire content log = drop off content"
proof (induction rs arbitrary: off remain log)
  case Nil
  then show ?case by (simp split: if_splits)
next
  case (Cons r rs)
  show ?case
  proof (cases "remain > 0")
    case False
    then show ?thesis using Cons.prems by simp
  next
    case True
    show ?thesis
    proof (cases r)
      case (SfSent n)
      then obtain log' where l: "sendfile_loop fd f (off + n) (remain - int n) rs = Some (True, log')"
        "log = Sendfile fd f off remain r # log'" using Cons.prems(1) True by auto
      then have n: "int n \<le> remain" using Cons.prems(2) SfSent by simp
      have "wire content log' = drop (off + n) content"
        by (rule Cons.IH [OF l(1)]) (use Cons.prems l n in auto)
      then show ?thesis using l(2) SfSent
        by (simp add: add.commute) (metis append_take_drop_id drop_drop)
    next
      case SfAgain
      then show ?thesis using Cons True by auto
    next
      case SfErr
      then show ?thesis using Cons.prems True by simp
    qed
  qed
qed

text \<open>How many of the results make progress.\<close>

fun progress :: "sf_res list \<Rightarrow> nat" where
  "progress [] = 0"
| "progress (SfSent n # rs) = n + progress rs"
| "progress (_ # rs) = progress rs"

lemma sendfile_loop_returns:
  "remain \<le> int (progress rs) \<Longrightarrow> \<exists>ok log. sendfile_loop fd f off remain rs = Some (ok, log)"
proof (induction rs arbitrary: off remain)
  case Nil
  then show ?case by (simp, blast)
next
  case (Cons r rs)
  show ?case
  proof (cases r)
    case (SfSent n)
    then have "remain - int n \<le> int (progress rs)" using Cons.prems by simp
    from Cons.IH [OF this, of "off + n"] SfSent show ?thesis by auto
  next
    case SfAgain
    then have "remain \<le> int (progress rs)" using Cons.prems by simp
    from Cons.IH [OF this, of off] SfAgain show ?thesis by auto
  next
    case SfErr
    then show ?thesis by (cases "remain > 0") (auto intro: exI [of _ False] exI [of _ True])
  qed
qed

lemma sendfile_loop_spins:
  "0 < remain \<Longrightarrow> set rs \<subseteq> {SfSent 0, SfAgain} \<Longrightarrow> sendfile_loop fd f off remain rs = None"
  by (induction rs) auto

section \<open>Paths\<close>

text \<open>
  The names a path leads through, resolved without looking at the file system: empty names and \<open>.\<close>
  stay, \<open>..\<close> goes up, any other name goes down.
\<close>

fun components :: "string \<Rightarrow> string list" where
  "components [] = [[]]"
| "components (c # s) =
     (if c = CHR ''/'' then [] # components s
      else (case components s of [] \<Rightarrow> [[c]] | x # xs \<Rightarrow> (c # x) # xs))"

fun walk :: "string list \<Rightarrow> string list \<Rightarrow> string list" where
  "walk dir [] = dir"
| "walk dir (n # ns) =
     (if n = [] \<or> n = ''.'' then walk dir ns
      else if n = ''..'' then walk (butlast dir) ns
      else walk (dir @ [n]) ns)"

definition resolve :: "string \<Rightarrow> string list" where
  "resolve p = walk [] (components p)"

lemma components_neq_Nil [simp]: "components s \<noteq> []"
  by (cases s) (auto split: list.splits)

lemma components_slash: "components (a @ CHR ''/'' # b) = components a @ components b"
proof (induction a)
  case Nil
  then show ?case by simp
next
  case (Cons c a)
  then show ?case by (cases "components a") (auto split: list.splits)
qed

lemma walk_append [simp]: "walk dir (a @ b) = walk (walk dir a) b"
  by (induction dir a rule: walk.induct) auto

lemma components_prefix: "components s = y # ys \<Longrightarrow> prefix y s"
  by (induction s arbitrary: y ys) (auto split: if_splits list.splits)

lemma components_sublist: "x \<in> set (components s) \<Longrightarrow> sublist x s"
proof (induction s arbitrary: x)
  case Nil
  then show ?case by simp
next
  case (Cons c s)
  obtain y ys where y: "components s = y # ys" by (cases "components s") auto
  show ?case
  proof (cases "c = CHR ''/''")
    case True
    then show ?thesis using Cons by (auto simp: sublist_Cons_right)
  next
    case False
    with Cons.prems y consider "x = c # y" | "x \<in> set ys" by auto
    then show ?thesis
    proof cases
      case 1
      then have "prefix x (c # s)" using components_prefix [OF y] by simp
      then show ?thesis by (rule prefix_imp_sublist)
    next
      case 2
      then show ?thesis using Cons.IH [of x] y by (simp add: sublist_Cons_right)
    qed
  qed
qed

lemma walk_no_dotdot: "''..'' \<notin> set ns \<Longrightarrow> \<exists>below. walk dir ns = dir @ below"
  by (induction dir ns rule: walk.induct) auto

lemma resolve_below:
  assumes "\<not> http_path_has_dotdot rest"
  shows "\<exists>below. resolve (root @ ''/'' @ rest) = resolve root @ below"
proof -
  have "''..'' \<notin> set (components rest)"
    using assms components_sublist by (auto simp: http_path_has_dotdot_def strstr_None_iff)
  then obtain below where "walk (resolve root) (components rest) = resolve root @ below"
    using walk_no_dotdot by blast
  then show ?thesis by (auto simp: resolve_def components_slash)
qed

lemma has_dotdot_sublist: "\<not> http_path_has_dotdot s \<Longrightarrow> sublist t s \<Longrightarrow> \<not> http_path_has_dotdot t"
  by (auto simp: http_path_has_dotdot_def strstr_None_iff)

lemma fs_path_below:
  assumes "\<not> http_path_has_dotdot url_path" "length doc_root < 2047"
  shows "\<exists>rest. fs_path doc_root url_path = doc_root @ ''/'' @ rest \<and> \<not> http_path_has_dotdot rest"
proof -
  let ?tail = "if url_path = ''/'' then ''index.html''
    else if deref url_path = CHR ''/'' then tl url_path else url_path"
  have "2047 - length doc_root = Suc (2046 - length doc_root)" using assms(2) by simp
  then have cut: "snprintf 2048 (doc_root @ ''/'' @ s) = doc_root @ ''/'' @ take (2046 - length doc_root) s" for s
    using assms(2) by (simp add: snprintf_def)
  have "fs_path doc_root url_path = snprintf 2048 (doc_root @ ''/'' @ ?tail)"
    by (simp add: fs_path_def)
  then have p: "fs_path doc_root url_path = doc_root @ ''/'' @ take (2046 - length doc_root) ?tail"
    by (simp only: cut)
  have "\<not> http_path_has_dotdot ''index.html''" by (simp add: http_path_has_dotdot_def)
  then have "\<not> http_path_has_dotdot ?tail"
    using assms(1) has_dotdot_sublist [OF assms(1) sublist_tl] by auto
  then have "\<not> http_path_has_dotdot (take (2046 - length doc_root) ?tail)"
    by (rule has_dotdot_sublist) (rule sublist_take)
  with p show ?thesis by blast
qed

section \<open>The header text\<close>

lemma guess_type_length: "length (guess_type p) \<le> 24"
  by (simp add: guess_type_def split: option.split)

lemma connection_text_length: "length (connection_text ka) \<le> 10"
  by (simp add: connection_text_def)

lemma show_int_length: "- (2 ^ 63) \<le> i \<Longrightarrow> i < 2 ^ 63 \<Longrightarrow> length (show_int i) \<le> 20"
proof -
  assume b: "- (2 ^ 63) \<le> i" "i < 2 ^ 63"
  then have "nat (- i) < 10 ^ 19" "nat i < 10 ^ 19" by auto
  then have "length (show_nat (nat (- i))) \<le> 19" "length (show_nat (nat i)) \<le> 19"
    by (auto intro: show_nat_length)
  then show ?thesis by (simp add: show_int_def)
qed

lemma text_200_length:
  assumes "- (2 ^ 63) \<le> n" "n < 2 ^ 63"
  shows "length (text_200 n (guess_type p) ka) < HDR_BUF"
  using show_int_length [OF assms] guess_type_length [of p] connection_text_length [of ka]
  by (simp add: text_200_def)

lemma text_404_length: "length (text_404 ka) < HDR_BUF"
  using connection_text_length [of ka] by (simp add: text_404_def)

lemma send_404_log:
  "http_send_404 env fd ka = [WriteTo fd (text_404 ka) (e_write env (text_404 ka))]"
  using text_404_length [of ka] by (simp add: http_send_404_def Let_def snprintf_fits)

lemma log_404 [simp]:
  "opened_fds (http_send_404 env fd ka) = []" "closed_fds (http_send_404 env fd ka) = []"
  "opened_paths (http_send_404 env fd ka) = []"
  by (simp_all add: send_404_log)

text \<open>How a successful and a failing call end.\<close>

lemma send_static_ok:
  assumes "http_send_static_file env fd root url ka = Some (0, log)"
  obtains f n sent where
    "\<not> http_path_has_dotdot url" "f = e_open env (fs_path root url)" "0 \<le> f"
    "e_fstat env f = Some (True, n)"
    "int (length (text_200 n (guess_type (fs_path root url)) ka))
       \<le> e_write env (take (length (text_200 n (guess_type (fs_path root url)) ka))
            (snprintf HDR_BUF (text_200 n (guess_type (fs_path root url)) ka)))"
    "sendfile_loop fd f 0 n (e_sendfile env) = Some (True, sent)"
    "log = [OpenFile (fs_path root url) f, Cork fd True,
       WriteTo fd (take (length (text_200 n (guess_type (fs_path root url)) ka))
            (snprintf HDR_BUF (text_200 n (guess_type (fs_path root url)) ka)))
         (e_write env (take (length (text_200 n (guess_type (fs_path root url)) ka))
            (snprintf HDR_BUF (text_200 n (guess_type (fs_path root url)) ka))))]
       @ sent @ [Cork fd False, CloseFd f]"
  using assms
  by (auto simp: http_send_static_file_def Let_def split: if_splits option.splits bool.splits)

lemma send_static_refused:
  assumes "http_path_has_dotdot url \<or> e_open env (fs_path root url) < 0
      \<or> (\<forall>n. e_fstat env (e_open env (fs_path root url)) \<noteq> Some (True, n))"
  obtains pre where
    "http_send_static_file env fd root url ka = Some (-1, pre @ http_send_404 env fd ka)"
    "wire content pre = []" "\<forall>on. Cork fd on \<notin> set pre"
proof -
  let ?fs = "fs_path root url"
  let ?f = "e_open env ?fs"
  consider (dotdot) "http_path_has_dotdot url"
    | (closed) "\<not> http_path_has_dotdot url" "?f < 0"
    | (nofile) "\<not> http_path_has_dotdot url" "0 \<le> ?f" "\<forall>n. e_fstat env ?f \<noteq> Some (True, n)"
    using assms by force
  then show thesis
  proof cases
    case dotdot
    then show thesis by (intro that [of "[]"]) (simp_all add: http_send_static_file_def)
  next
    case closed
    then show thesis by (intro that [of "[OpenFile ?fs ?f]"]) (simp_all add: http_send_static_file_def Let_def)
  next
    case nofile
    then have "http_send_static_file env fd root url ka
        = Some (-1, [OpenFile ?fs ?f, CloseFd ?f] @ http_send_404 env fd ka)"
      by (auto simp: http_send_static_file_def Let_def split: option.split)
    then show thesis by (intro that [of "[OpenFile ?fs ?f, CloseFd ?f]"]) simp_all
  qed
qed

section \<open>Framing\<close>

text \<open>
  What a client needs to find the end of a response on a connection that stays open: the number after
  \<open>Content-Length:\<close> is the number of bytes after the blank line.
\<close>

definition framed :: "string \<Rightarrow> bool" where
  "framed s =
     (case (strstr s [CR, LF, CR, LF], strstr s ''Content-Length: '') of
        (Some i, Some j) \<Rightarrow> j < i \<and> strtol (drop (j + 16) s) = int (length s - (i + 4))
      | _ \<Rightarrow> False)"

lemma strstr_blank_line:
  assumes "ls \<noteq> []" "\<forall>l \<in> set ls. l \<noteq> [] \<and> CR \<notin> set l"
  shows "strstr (concat (map (\<lambda>l. l @ CRLF) ls) @ CRLF @ b) [CR, LF, CR, LF]
    = Some (length (concat (map (\<lambda>l. l @ CRLF) ls)) - 2)"
  using assms
proof (induction ls rule: list_nonempty_induct)
  case (single l)
  then show ?case by (simp add: strstr_skip)
next
  case (cons l ls)
  obtain k ks where ls: "ls = k # ks" using cons.hyps by (cases ls) auto
  then obtain c k' where k: "k = c # k'" "c \<noteq> CR" using cons.prems by (cases k) auto
  have "strstr (concat (map (\<lambda>l. l @ CRLF) (l # ls)) @ CRLF @ b) [CR, LF, CR, LF]
     = map_option (\<lambda>i. length l + i) (strstr (CRLF @ concat (map (\<lambda>l. l @ CRLF) ls) @ CRLF @ b) [CR, LF, CR, LF])"
    using cons.prems by (simp add: strstr_skip)
  also have "strstr (CRLF @ concat (map (\<lambda>l. l @ CRLF) ls) @ CRLF @ b) [CR, LF, CR, LF]
     = map_option (Suc \<circ> Suc) (strstr (concat (map (\<lambda>l. l @ CRLF) ls) @ CRLF @ b) [CR, LF, CR, LF])"
    using ls k by (simp add: option.map_comp comp_def)
  also have "strstr (concat (map (\<lambda>l. l @ CRLF) ls) @ CRLF @ b) [CR, LF, CR, LF]
     = Some (length (concat (map (\<lambda>l. l @ CRLF) ls)) - 2)"
    using cons by simp
  finally show ?case using ls k by simp
qed

lemma guess_type_no_CR: "guess_type p \<noteq> [] \<and> CR \<notin> set (guess_type p)"
  by (simp add: guess_type_def split: option.split)

lemma show_int_no_CR: "CR \<notin> set (show_int i)"
proof -
  have "\<not> isdigit CR" by (simp add: isdigit_def code_def)
  then have "CR \<notin> set (show_nat n)" for n using show_nat_digits [of n] by blast
  then show ?thesis by (simp add: show_int_def)
qed

lemma framed_intro:
  assumes "s = concat (map (\<lambda>l. l @ CRLF) ls) @ CRLF @ body"
    and "ls = l0 # (''Content-Length: '' @ show_nat (length body)) # rest"
    and "\<forall>l \<in> set ls. l \<noteq> [] \<and> CR \<notin> set l" "CHR ''C'' \<notin> set l0" "length body < 2 ^ 63"
  shows "framed s"
proof -
  let ?h = "length (concat (map (\<lambda>l. l @ CRLF) ls))"
  let ?r = "CRLF @ concat (map (\<lambda>l. l @ CRLF) rest) @ CRLF @ body"
  have blank: "strstr s [CR, LF, CR, LF] = Some (?h - 2)"
    unfolding assms(1) by (rule strstr_blank_line) (use assms(2,3) in auto)
  have s: "s = (l0 @ CRLF) @ ''Content-Length: '' @ show_nat (length body) @ ?r"
    using assms(1,2) by simp
  have "CHR ''C'' \<notin> set (l0 @ CRLF)" using assms(4) by simp
  then have len: "strstr s ''Content-Length: '' = Some (length l0 + 2)"
    unfolding s by (subst strstr_skip) auto
  have "drop (length l0 + 2 + 16) s = show_nat (length body) @ ?r"
    unfolding s by simp
  then have "strtol (drop (length l0 + 2 + 16) s) = int (length body)"
    using assms(5) by (simp add: strtol_show_nat deref_def isdigit_def code_def)
  moreover have "?h \<ge> length l0 + 20" using assms(2) by simp
  moreover have "length s = ?h + 2 + length body" using assms(1) by simp
  ultimately show ?thesis by (simp add: framed_def blank len)
qed

lemma framed_200:
  assumes "length content < 2 ^ 63"
  shows "framed (text_200 (int (length content)) (guess_type p) ka @ content)"
  by (rule framed_intro [where ls = "[''HTTP/1.1 200 OK'', ''Content-Length: '' @ show_nat (length content),
        ''Content-Type: '' @ guess_type p, ''Connection: '' @ connection_text ka,
        ''Last-Modified: Thu, 01 Jan 1970 00:00:00 GMT'']", OF _ refl])
    (use assms guess_type_no_CR [of p] show_int_no_CR [of "int (length content)"]
      in \<open>auto simp: text_200_def show_int_def connection_text_def\<close>)

lemma framed_404: "framed (text_404 ka)"
  by (rule framed_intro [where ls = "[''HTTP/1.1 404 Not Found'', ''Content-Length: '' @ show_nat (length ''404 Not Found''),
        ''Content-Type: text/plain'', ''Connection: '' @ connection_text ka]" and body = "''404 Not Found''",
        OF _ refl])
    (auto simp: text_404_def connection_text_def show_nat.simps char_of_def bit_0)

text \<open>An environment for examples: no file opens, writes succeed.\<close>

definition no_files :: file_env where
  "no_files = \<lparr> e_open = \<lambda>p. -1, e_fstat = \<lambda>f. None, e_write = \<lambda>s. int (length s), e_sendfile = [] \<rparr>"

section \<open>Properties\<close>

text \<open>C2: Whatever the client asks for, every path the server opens, resolved name by name, lies below
  the document root: a request path with \<open>..\<close> is refused before anything is opened, and the
  truncation of the path buffer cannot undo this as long as the root itself fits it.\<close>

theorem opened_paths_below_root:
  assumes "http_send_static_file env fd root url ka = Some (ret, log)" "length root < 2047"
    and "p \<in> set (opened_paths log)"
  shows "\<exists>below. resolve p = resolve root @ below"
proof (cases "http_path_has_dotdot url")
  case True
  with assms(1,3) show ?thesis by (auto simp: http_send_static_file_def)
next
  case False
  then have "p = fs_path root url"
    using assms(1,3)
    by (auto simp: http_send_static_file_def Let_def split: if_splits option.splits bool.splits
        dest!: sendfile_loop_log)
  then show ?thesis using fs_path_below [OF False assms(2)] resolve_below by metis
qed

lemma send_static_missing_example:
  "http_send_static_file \<lparr> e_open = \<lambda>p. -1, e_fstat = \<lambda>f. None, e_write = \<lambda>s. int (length s), e_sendfile = [] \<rparr>
     7 ''/srv'' ''/a/b'' True
   = Some (-1, [OpenFile ''/srv/a/b'' (-1), WriteTo 7 (text_404 True) (int (length (text_404 True)))])"
  by (simp add: http_send_static_file_def http_path_has_dotdot_def fs_path_def deref_def
      snprintf_def send_404_log Let_def)

theorem opened_paths_below_root_witness:
  "\<exists>below. resolve ''/srv/a/b'' = resolve ''/srv'' @ below"
  using opened_paths_below_root [OF send_static_missing_example, of "''/srv/a/b''"] by simp

lemma static_response_bytes:
  assumes "http_send_static_file env fd root url ka = Some (0, log)"
    and "\<forall>x \<in> set log. sendfile_bounded x"
    and "e_fstat env (e_open env (fs_path root url)) = Some (True, int (length content))"
    and "length content < 2 ^ 63"
  shows "wire content log
    = text_200 (int (length content)) (guess_type (fs_path root url)) ka @ content"
proof -
  let ?n = "int (length content)"
  let ?t = "text_200 ?n (guess_type (fs_path root url)) ka"
  have fits: "take (length ?t) (snprintf HDR_BUF ?t) = ?t"
    using text_200_length [of ?n] assms(4) by (simp add: snprintf_fits)
  from assms(1) show ?thesis
  proof (rule send_static_ok)
    fix f n sent
    assume f: "f = e_open env (fs_path root url)" "e_fstat env f = Some (True, n)"
      and w: "int (length (text_200 n (guess_type (fs_path root url)) ka))
       \<le> e_write env (take (length (text_200 n (guess_type (fs_path root url)) ka))
            (snprintf HDR_BUF (text_200 n (guess_type (fs_path root url)) ka)))"
      and s: "sendfile_loop fd f 0 n (e_sendfile env) = Some (True, sent)"
      and log: "log = [OpenFile (fs_path root url) f, Cork fd True,
       WriteTo fd (take (length (text_200 n (guess_type (fs_path root url)) ka))
            (snprintf HDR_BUF (text_200 n (guess_type (fs_path root url)) ka)))
         (e_write env (take (length (text_200 n (guess_type (fs_path root url)) ka))
            (snprintf HDR_BUF (text_200 n (guess_type (fs_path root url)) ka))))]
       @ sent @ [Cork fd False, CloseFd f]"
    have n: "n = ?n" using f assms(3) by simp
    have "wire content sent = drop 0 content"
      by (rule sendfile_loop_wire [OF s]) (use assms(2) log n in auto)
    then show ?thesis using w by (simp add: log n fits)
  qed
qed

text \<open>C3: A successful response is complete and self-delimiting: when the call returns 0, the bytes on
  the wire are the 200 header, with the file's size and the connection mode, followed by the whole
  file, and the number a client reads after \<open>Content-Length:\<close> is the number of bytes after the
  blank line.  The kernel promises that \<open>sendfile\<close> sends at most the bytes asked for; the file
  holds the \<open>st_size\<close> bytes that \<open>fstat\<close> reported.\<close>

theorem static_response_complete:
  assumes "http_send_static_file env fd root url ka = Some (0, log)"
    and "\<forall>x \<in> set log. sendfile_bounded x"
    and "e_fstat env (e_open env (fs_path root url)) = Some (True, int (length content))"
    and "length content < 2 ^ 63"
  shows "wire content log
    = text_200 (int (length content)) (guess_type (fs_path root url)) ka @ content
      \<and> framed (wire content log)"
  using static_response_bytes [OF assms] framed_200 [OF assms(4)] by simp

lemma send_static_ok_example:
  "http_send_static_file \<lparr> e_open = \<lambda>p. 9, e_fstat = \<lambda>f. Some (True, 3), e_write = \<lambda>s. int (length s),
       e_sendfile = [SfSent 2, SfAgain, SfSent 1] \<rparr> 7 ''/srv'' ''/'' True
   = Some (0, [OpenFile ''/srv/index.html'' 9, Cork 7 True,
       WriteTo 7 (text_200 3 ''text/html'' True) (int (length (text_200 3 ''text/html'' True))),
       Sendfile 7 9 0 3 (SfSent 2), Sendfile 7 9 2 1 SfAgain, Sendfile 7 9 2 1 (SfSent 1),
       Cork 7 False, CloseFd 9])"
  using text_200_length [of 3 "''/srv/index.html''" True]
  by (simp add: http_send_static_file_def http_path_has_dotdot_def fs_path_def guess_type_def
      snprintf_def Let_def)

theorem static_response_complete_witness:
  "wire ''abc'' [OpenFile ''/srv/index.html'' 9, Cork 7 True,
       WriteTo 7 (text_200 3 ''text/html'' True) (int (length (text_200 3 ''text/html'' True))),
       Sendfile 7 9 0 3 (SfSent 2), Sendfile 7 9 2 1 SfAgain, Sendfile 7 9 2 1 (SfSent 1),
       Cork 7 False, CloseFd 9] = text_200 3 ''text/html'' True @ ''abc''"
proof -
  let ?log = "[OpenFile ''/srv/index.html'' 9, Cork 7 True,
       WriteTo 7 (text_200 3 ''text/html'' True) (int (length (text_200 3 ''text/html'' True))),
       Sendfile 7 9 0 3 (SfSent 2), Sendfile 7 9 2 1 SfAgain, Sendfile 7 9 2 1 (SfSent 1),
       Cork 7 False, CloseFd 9]"
  have "guess_type (fs_path ''/srv'' ''/'') = ''text/html''"
    by (simp add: fs_path_def snprintf_def guess_type_def)
  then show ?thesis
    using static_response_complete [OF send_static_ok_example, of "''abc''"] by simp
qed

text \<open>C11: No file descriptor leaks: on every path through the function that returns, successful or
  not, the descriptors it closes are exactly those it opened, each once.\<close>

theorem static_closes_what_it_opens:
  "http_send_static_file env fd root url ka = Some (ret, log) \<Longrightarrow> closed_fds log = opened_fds log"
  by (auto simp: http_send_static_file_def Let_def split: if_splits option.splits bool.splits
      dest!: sendfile_loop_log)

theorem static_closes_what_it_opens_witness:
  "closed_fds [OpenFile ''/srv/index.html'' 9, Cork 7 True,
       WriteTo 7 (text_200 3 ''text/html'' True) (int (length (text_200 3 ''text/html'' True))),
       Sendfile 7 9 0 3 (SfSent 2), Sendfile 7 9 2 1 SfAgain, Sendfile 7 9 2 1 (SfSent 1),
       Cork 7 False, CloseFd 9] = [9]"
  using static_closes_what_it_opens [OF send_static_ok_example] by simp




text \<open>C13: Sending a file ends: once the kernel's answers to \<open>sendfile\<close> account for \<open>st_size\<close> bytes (or
  report an error before that), the call returns, whatever \<open>EAGAIN\<close>s come in between.\<close>

theorem static_send_returns:
  assumes "\<forall>n. e_fstat env (e_open env (fs_path root url)) = Some (True, n)
      \<longrightarrow> n \<le> int (progress (e_sendfile env))"
  shows "\<exists>ret log. http_send_static_file env fd root url ka = Some (ret, log)"
proof -
  let ?f = "e_open env (fs_path root url)"
  consider (no) "http_path_has_dotdot url \<or> ?f < 0 \<or> (\<forall>n. e_fstat env ?f \<noteq> Some (True, n))"
    | (yes) n where "\<not> http_path_has_dotdot url" "0 \<le> ?f" "e_fstat env ?f = Some (True, n)"
    by fastforce
  then show ?thesis
  proof cases
    case no
    then show ?thesis by (rule send_static_refused [where content = "[]"]) blast
  next
    case yes
    then obtain ok sent where "sendfile_loop fd ?f 0 n (e_sendfile env) = Some (ok, sent)"
      using assms sendfile_loop_returns by blast
    then show ?thesis using yes
      by (cases ok) (simp_all add: http_send_static_file_def Let_def)
  qed
qed

theorem static_send_returns_witness:
  "\<exists>ret log. http_send_static_file \<lparr> e_open = \<lambda>p. 9, e_fstat = \<lambda>f. Some (True, 3),
        e_write = \<lambda>s. int (length s), e_sendfile = [SfSent 2, SfAgain, SfSent 1] \<rparr>
      7 ''/srv'' ''/'' True = Some (ret, log)"
  by (rule static_send_returns) simp

text \<open>C15: Sending can also hang the worker: the loop leaves only on an error, so while the kernel
  answers with zero bytes (the file was cut short after \<open>fstat\<close>) or with \<open>EAGAIN\<close> (the client
  does not read, the socket being non-blocking) the call does not return, however many answers come,
  and the header is already out.\<close>

theorem static_send_spins:
  assumes "\<not> http_path_has_dotdot url" "0 \<le> e_open env (fs_path root url)"
    and "e_fstat env (e_open env (fs_path root url)) = Some (True, n)" "0 < n" "n < 2 ^ 63"
    and "\<forall>s. e_write env s = int (length s)"
    and "set (e_sendfile env) \<subseteq> {SfSent 0, SfAgain}"
  shows "http_send_static_file env fd root url ka = None"
proof -
  have "- (2 ^ 63) \<le> n" using assms(4) by simp
  from text_200_length [OF this assms(5)]
  have "snprintf HDR_BUF (text_200 n (guess_type (fs_path root url)) ka)
      = text_200 n (guess_type (fs_path root url)) ka"
    by (rule snprintf_fits)
  then show ?thesis using assms by (simp add: http_send_static_file_def Let_def sendfile_loop_spins)
qed

theorem static_send_spins_witness:
  "http_send_static_file \<lparr> e_open = \<lambda>p. 9, e_fstat = \<lambda>f. Some (True, 3),
        e_write = \<lambda>s. int (length s), e_sendfile = replicate 1000 (SfSent 0) \<rparr> 7 ''/srv'' ''/'' True = None"
  by (rule static_send_spins) (auto simp: http_path_has_dotdot_def)

end
