(* ===== verification/Runs.thy ===== *)
theory Runs
  imports CLib
begin

text \<open>
  Runs of a component over the inputs its environment gives it.  A C function called on one input ends
  in a new state, never returns (\<open>Hang\<close>) or does something undefined in C or trapped by the machine
  (\<open>Fault\<close>).  A loop of the source that reads its inputs one at a time is \<open>run_steps\<close>: it goes on
  while the body continues (\<open>Ok (s, True)\<close>) and stops when the body breaks (\<open>Ok (s, False)\<close>).
  The locale \<open>guarded_step\<close> is the contract its clients rely on: what each step keeps, every run keeps.
\<close>

section \<open>Outcomes\<close>

datatype fault = UseAfterFree | NullDeref | DivByZero | OutOfBounds | Aborted

datatype 'a outcome = Ok 'a | Hang | Fault fault

fun and_then :: "'a outcome \<Rightarrow> ('a \<Rightarrow> 'b outcome) \<Rightarrow> 'b outcome" where
  "and_then (Ok a) f = f a"
| "and_then Hang f = Hang"
| "and_then (Fault e) f = Fault e"

lemma and_then_Ok_iff [simp]: "and_then m f = Ok b \<longleftrightarrow> (\<exists>a. m = Ok a \<and> f a = Ok b)"
  by (cases m) auto

lemma and_then_Fault_iff [simp]:
  "and_then m f = Fault e \<longleftrightarrow> m = Fault e \<or> (\<exists>a. m = Ok a \<and> f a = Fault e)"
  by (cases m) auto

lemma and_then_Hang_iff [simp]:
  "and_then m f = Hang \<longleftrightarrow> m = Hang \<or> (\<exists>a. m = Ok a \<and> f a = Hang)"
  by (cases m) auto

lemma and_then_assoc: "and_then (and_then m f) g = and_then m (\<lambda>a. and_then (f a) g)"
  by (cases m) auto

definition faults :: "'a outcome \<Rightarrow> bool" where
  "faults m \<longleftrightarrow> (\<exists>e. m = Fault e)"

lemma faults_simps [simp]: "\<not> faults (Ok a)" "\<not> faults Hang" "faults (Fault e)"
  by (simp_all add: faults_def)

lemma faults_and_then [simp]:
  "faults (and_then m f) \<longleftrightarrow> faults m \<or> (\<exists>a. m = Ok a \<and> faults (f a))"
  by (cases m) (auto simp: faults_def)

section \<open>Loops over inputs\<close>

text \<open>The result is the last state and whether the loop was left; \<open>True\<close> when it still waits for input.\<close>

fun run_steps :: "('s \<Rightarrow> 'i \<Rightarrow> ('s \<times> bool) outcome) \<Rightarrow> 's \<Rightarrow> 'i list \<Rightarrow> ('s \<times> bool) outcome" where
  "run_steps step s [] = Ok (s, True)"
| "run_steps step s (i # is) =
     and_then (step s i) (\<lambda>(s', go). if go then run_steps step s' is else Ok (s', False))"

text \<open>What the environment promises of each input, in the state in which it arrives.\<close>

fun inputs_ok :: "('s \<Rightarrow> 'i \<Rightarrow> bool) \<Rightarrow> ('s \<Rightarrow> 'i \<Rightarrow> ('s \<times> bool) outcome) \<Rightarrow> 's \<Rightarrow> 'i list \<Rightarrow> bool" where
  "inputs_ok ok step s [] \<longleftrightarrow> True"
| "inputs_ok ok step s (i # is) \<longleftrightarrow>
     ok s i \<and> (case step s i of Ok (s', True) \<Rightarrow> inputs_ok ok step s' is | _ \<Rightarrow> True)"

lemma run_steps_append:
  "run_steps step s (xs @ ys) =
     and_then (run_steps step s xs) (\<lambda>(s', go). if go then run_steps step s' ys else Ok (s', False))"
  by (induction xs arbitrary: s) (auto simp: and_then_assoc split: prod.splits intro!: arg_cong2 [of _ _ _ _ and_then])

locale guarded_step =
  fixes step :: "'s \<Rightarrow> 'i \<Rightarrow> ('s \<times> bool) outcome"
    and inv :: "'s \<Rightarrow> bool"
    and ok :: "'s \<Rightarrow> 'i \<Rightarrow> bool"
  assumes step_inv: "inv s \<Longrightarrow> ok s i \<Longrightarrow> step s i = Ok (s', go) \<Longrightarrow> inv s'"
    and step_safe: "inv s \<Longrightarrow> ok s i \<Longrightarrow> \<not> faults (step s i)"
begin

lemma run_inv: "inv s \<Longrightarrow> inputs_ok ok step s is \<Longrightarrow> run_steps step s is = Ok (s', go) \<Longrightarrow> inv s'"
proof (induction "is" arbitrary: s)
  case Nil
  then show ?case by simp
next
  case (Cons i "is")
  from Cons.prems(3) obtain s1 g where s1: "step s i = Ok (s1, g)"
    "(if g then run_steps step s1 is else Ok (s1, False)) = Ok (s', go)" by auto
  have "inv s1" using step_inv [OF Cons.prems(1) _ s1(1)] Cons.prems(2) by simp
  then show ?case using Cons.IH [of s1] Cons.prems(2) s1 by (auto split: if_splits)
qed

lemma run_safe: "inv s \<Longrightarrow> inputs_ok ok step s is \<Longrightarrow> \<not> faults (run_steps step s is)"
proof (induction "is" arbitrary: s)
  case Nil
  then show ?case by simp
next
  case (Cons i "is")
  have "\<not> faults (step s i)" using step_safe Cons.prems by simp
  moreover have "\<not> faults (if g then run_steps step s1 is else Ok (s1, False))"
    if "step s i = Ok (s1, g)" for s1 g
    using that Cons.IH [of s1] step_inv [OF Cons.prems(1) _ that] Cons.prems(2) by auto
  ultimately show ?case by auto
qed

end

end
