(* ===== verification/Bytes.thy ===== *)
theory Bytes
  imports CLib
begin

text \<open>
  How a number lies in memory: its bytes, least significant first, as the control message of a passed descriptor
  (\<open>src/net.c\<close>) and the size in front of an allocation (\<open>tools/wrk/src/zmalloc.c\<close>) hold it.
\<close>

definition le_bytes :: "nat \<Rightarrow> nat \<Rightarrow> u8 list" where
  "le_bytes k n = map (\<lambda>i. of_nat (n div 256 ^ i)) [0..<k]"

fun le_nat :: "u8 list \<Rightarrow> nat" where
  "le_nat [] = 0"
| "le_nat (b # bs) = unat b + 256 * le_nat bs"

lemma le_bytes_length [simp]: "length (le_bytes k n) = k"
  by (simp add: le_bytes_def)

lemma le_bytes_Suc: "le_bytes (Suc k) n = of_nat n # le_bytes k (n div 256)"
  by (simp add: le_bytes_def upt_conv_Cons map_Suc_upt [symmetric] div_mult2_eq del: upt_Suc)

lemma le_nat_le_bytes: "n < 256 ^ k \<Longrightarrow> le_nat (le_bytes k n) = n"
proof (induction k arbitrary: n)
  case 0
  then show ?case by (simp add: le_bytes_def)
next
  case (Suc k)
  then have "le_nat (le_bytes k (n div 256)) = n div 256"
    by (simp add: less_mult_imp_div_less mult.commute)
  then show ?case by (simp add: le_bytes_Suc unat_of_nat)
qed

end
