(* ===== verification/ForgeNet.thy ===== *)
theory ForgeNet
  imports Runs Bytes
begin

unbundle bit_operations_syntax

text \<open>
  Sockets and the passing of descriptors, \<open>src/net.c\<close>.  The listener is set up by
  \<open>forge_create_listener\<close>, whose result is an error value (the text \<open>forge_die\<close> prints before
  it exits) or the descriptor, with the log of its system calls.  A descriptor travels from the master
  to a worker as the bytes of a control message: \<open>forge_send_fd\<close> builds them and
  \<open>forge_recv_fd\<close> takes them apart.
\<close>

section \<open>The bytes of an \<open>int\<close>\<close>

definition int_bytes :: "int \<Rightarrow> u8 list" where
  "int_bytes i = le_bytes 4 (unat (word_of_int i :: u32))"

definition bytes_int :: "u8 list \<Rightarrow> int" where
  "bytes_int bs = sint (of_nat (le_nat bs) :: u32)"

lemma int_bytes_length [simp]: "length (int_bytes i) = 4"
  by (simp add: int_bytes_def)

lemma bytes_int_bytes: "- (2 ^ 31) \<le> i \<Longrightarrow> i < 2 ^ 31 \<Longrightarrow> bytes_int (int_bytes i) = i"
proof -
  assume b: "- (2 ^ 31) \<le> i" "i < 2 ^ 31"
  have "unat (word_of_int i :: u32) < 2 ^ LENGTH(32)" by (rule unsigned_less)
  then have "unat (word_of_int i :: u32) < 256 ^ 4" by simp
  then have "bytes_int (int_bytes i) = sint (word_of_int i :: u32)"
    by (simp add: bytes_int_def int_bytes_def le_nat_le_bytes)
  also have "\<dots> = signed_take_bit 31 i" by (simp add: sint_sbintrunc')
  also have "\<dots> = i" by (rule signed_take_bit_int_eq_self) (use b in auto)
  finally show ?thesis .
qed

section \<open>Non-blocking mode\<close>

text \<open>\<open>getfl\<close> and \<open>setfl\<close> are what \<open>fcntl\<close> answers.\<close>

definition forge_set_nonblock :: "(int \<Rightarrow> int) \<Rightarrow> (int \<Rightarrow> int \<Rightarrow> int) \<Rightarrow> int \<Rightarrow> int" where
  "forge_set_nonblock getfl setfl fd =
     (let fl = getfl fd in if fl < 0 then -1 else setfl fd (fl OR 0x800))"

section \<open>The listening socket\<close>

record net_env =
  e_socket :: int
  e_bind :: int
  e_listen :: int

datatype net_io =
    Socket int
  | ReuseAddr int
  | ReusePort int
  | Bind int "nat list" u16
  | Listen int nat

datatype die =
    BadHostport
  | SocketFailed
  | InetPtonFailed
  | BindFailed
  | ListenFailed
  | EpollCreateFailed
  | EpollAddFailed
  | CallocFailed
  | SocketpairFailed
  | ForkFailed

text \<open>\<open>inet_pton(AF_INET, ...)\<close>: four decimal octets of at most 255 with no leading zero.\<close>

fun pton_octets :: "string \<Rightarrow> nat \<Rightarrow> bool \<Rightarrow> nat \<Rightarrow> nat list \<Rightarrow> nat list option" where
  "pton_octets [] cur saw octets acc = (if octets < 4 \<or> \<not> saw then None else Some (acc @ [cur]))"
| "pton_octets (c # s) cur saw octets acc =
     (if isdigit c then
        let new = cur * 10 + digit_val c in
        if saw \<and> cur = 0 then None
        else if new > 255 then None
        else if saw then pton_octets s new True octets acc
        else if octets + 1 > 4 then None
        else pton_octets s new True (octets + 1) acc
      else if c = CHR ''.'' \<and> saw then
        if octets = 4 then None else pton_octets s 0 False octets (acc @ [cur])
      else None)"

definition inet_pton4 :: "string \<Rightarrow> nat list option" where
  "inet_pton4 s = pton_octets s 0 False 0 []"

text \<open>The port as the protocol reads it: \<open>ntohs(addr.sin_port)\<close> of the \<open>htons\<close> of the cast.\<close>

definition htons :: "u16 \<Rightarrow> u16" where
  "htons w = push_bit 8 w OR drop_bit 8 w"

definition sin_port :: "int \<Rightarrow> u16" where
  "sin_port port = htons (word_of_int port)"

text \<open>Lines 10--15: the host and the port of \<open>-l\<close>.\<close>

definition split_hostport :: "string \<Rightarrow> (string \<times> int) option" where
  "split_hostport hostport =
     (let host = snprintf 128 hostport in
      case strrchr host CHR '':'' of
        None \<Rightarrow> None
      | Some colon \<Rightarrow> Some (take (length host - length colon) host, atoi (tl colon)))"

definition forge_create_listener :: "net_env \<Rightarrow> string \<Rightarrow> (die + int) \<times> net_io list" where
  "forge_create_listener env hostport =
     (case split_hostport hostport of
        None \<Rightarrow> (Inl BadHostport, [])
      | Some (host, port) \<Rightarrow>
          let fd = e_socket env in
          if fd < 0 then (Inl SocketFailed, [Socket fd])
          else
            let opened = [Socket fd, ReuseAddr fd, ReusePort fd] in
            (case inet_pton4 host of
               None \<Rightarrow> (Inl InetPtonFailed, opened)
             | Some addr \<Rightarrow>
                 let bound = opened @ [Bind fd addr (sin_port port)] in
                 if e_bind env < 0 then (Inl BindFailed, bound)
                 else if e_listen env < 0 then (Inl ListenFailed, bound @ [Listen fd 1024])
                 else (Inr fd, bound @ [Listen fd 1024])))"

section \<open>Passing a descriptor\<close>

text \<open>
  The control buffer as bytes: \<open>CMSG_SPACE(sizeof(int))\<close> is 24, a header of 16 bytes
  (\<open>cmsg_len\<close>, \<open>cmsg_level\<close>, \<open>cmsg_type\<close>), then the data; \<open>CMSG_LEN(sizeof(int))\<close> is 20.
\<close>

record msghdr =
  msg_iov :: string
  msg_control :: "u8 list"
  msg_controllen :: nat

definition put_bytes :: "u8 list \<Rightarrow> nat \<Rightarrow> u8 list \<Rightarrow> u8 list" where
  "put_bytes buf i bs = take i buf @ bs @ drop (i + length bs) buf"

definition forge_send_fd :: "(int \<Rightarrow> msghdr \<Rightarrow> int) \<Rightarrow> int \<Rightarrow> int \<Rightarrow> int \<times> msghdr" where
  "forge_send_fd sendmsg sock fd_to_send =
     (let buf = replicate 24 0;
          buf = put_bytes buf 8 (int_bytes 1);
          buf = put_bytes buf 12 (int_bytes 1);
          buf = put_bytes buf 0 (le_bytes 8 20);
          buf = put_bytes buf 16 (int_bytes fd_to_send);
          msg = \<lparr> msg_iov = ''F'', msg_control = buf, msg_controllen = 20 \<rparr>;
          n = sendmsg sock msg
      in (if n < 0 then -1 else 0, msg))"

text \<open>What \<open>recvmsg\<close> gives back: its result and the message header as it left it.\<close>

type_synonym recv_answer = "int \<times> msghdr"

definition cmsg_firsthdr :: "msghdr \<Rightarrow> u8 list option" where
  "cmsg_firsthdr msg = (if 16 \<le> msg_controllen msg then Some (msg_control msg) else None)"

definition forge_recv_fd :: "recv_answer \<Rightarrow> int" where
  "forge_recv_fd answer =
     (case answer of (n, msg) \<Rightarrow>
        if n \<le> 0 then -1
        else
          (case cmsg_firsthdr msg of
             None \<Rightarrow> -1
           | Some cmsg \<Rightarrow>
               if bytes_int (take 4 (drop 8 cmsg)) \<noteq> 1 \<or> bytes_int (take 4 (drop 12 cmsg)) \<noteq> 1
               then -1
               else bytes_int (take 4 (drop 16 cmsg))))"

text \<open>
  What the kernel promises of a message with one descriptor: the receiver gets the same header, with
  the number \<open>r\<close> of its own new descriptor in place of the sender's.
\<close>

definition delivers :: "msghdr \<Rightarrow> int \<Rightarrow> recv_answer" where
  "delivers msg r =
     (1, msg \<lparr> msg_control := put_bytes (msg_control msg) 16 (int_bytes r), msg_controllen := 24 \<rparr>)"


section \<open>Descriptor passing: the contract and its implementation\<close>

lemma put_bytes_length [simp]:
  "i + length bs \<le> length buf \<Longrightarrow> length (put_bytes buf i bs) = length buf"
  by (simp add: put_bytes_def)

lemma take_drop_put_same:
  "i \<le> length buf \<Longrightarrow> length bs = k \<Longrightarrow> take k (drop i (put_bytes buf i bs)) = bs"
  by (simp add: put_bytes_def)

lemma take_drop_put_before:
  "j + k \<le> i \<Longrightarrow> i \<le> length buf \<Longrightarrow> take k (drop j (put_bytes buf i bs)) = take k (drop j buf)"
  by (simp add: put_bytes_def take_drop min_def)

lemma take_drop_put_after:
  assumes "i + length bs \<le> j" "i \<le> length buf"
  shows "take k (drop j (put_bytes buf i bs)) = take k (drop j buf)"
proof -
  have "drop j (put_bytes buf i bs) = drop (j - (i + length bs)) (drop (i + length bs) buf)"
    using assms by (simp add: put_bytes_def)
  then show ?thesis using assms by simp
qed

lemmas put_bytes_simps = take_drop_put_same take_drop_put_before take_drop_put_after

text \<open>
  A channel for descriptors: \<open>send\<close> makes a message of a descriptor, \<open>recv\<close> reads the descriptor of
  an answer, \<open>carry\<close> is what the kernel makes of a message for a receiver's descriptor, and an empty
  channel answers \<open>none\<close>.
\<close>

locale fd_channel =
  fixes send :: "int \<Rightarrow> 'm" and carry :: "'m \<Rightarrow> int \<Rightarrow> 'a" and none :: "'a \<Rightarrow> bool"
    and recv :: "'a \<Rightarrow> int" and valid :: "int \<Rightarrow> bool"
  assumes recv_carry: "valid r \<Longrightarrow> recv (carry (send fd) r) = r"
    and recv_none: "none a \<Longrightarrow> recv a = -1"
    and valid_nonneg: "valid r \<Longrightarrow> 0 \<le> r"
begin

text \<open>Messages arrive in order: draining a queue reads the receiver's descriptors, then -1.\<close>

lemma drain:
  "\<forall>r \<in> set rs. valid r \<Longrightarrow> length fds = length rs \<Longrightarrow> none a \<Longrightarrow>
   map recv (map2 (\<lambda>fd r. carry (send fd) r) fds rs @ [a]) = rs @ [-1]"
  by (induction rs arbitrary: fds) (auto simp: length_Suc_conv recv_carry recv_none)

lemma recv_nonneg_iff: "valid r \<Longrightarrow> 0 \<le> recv (carry (send fd) r)"
  by (simp add: recv_carry valid_nonneg)

end

definition sent_msg :: "int \<Rightarrow> msghdr" where
  "sent_msg fd = snd (forge_send_fd (\<lambda>s m. 1) 0 fd)"

lemma send_fd_msg: "snd (forge_send_fd sendmsg sock fd) = sent_msg fd"
  by (simp add: sent_msg_def forge_send_fd_def Let_def)

definition valid_fd :: "int \<Rightarrow> bool" where
  "valid_fd fd \<longleftrightarrow> 0 \<le> fd \<and> fd < 2 ^ 31"

text \<open>\<open>recvmsg\<close> has nothing to give: an error, the end of the stream, or no control message.\<close>

definition no_descriptor :: "recv_answer \<Rightarrow> bool" where
  "no_descriptor a \<longleftrightarrow> fst a \<le> 0 \<or> msg_controllen (snd a) < 16"

lemma recv_fd_delivers: "valid_fd r \<Longrightarrow> forge_recv_fd (delivers (sent_msg fd) r) = r"
  by (simp add: forge_recv_fd_def delivers_def cmsg_firsthdr_def sent_msg_def forge_send_fd_def Let_def
      put_bytes_simps bytes_int_bytes valid_fd_def)

lemma recv_fd_none: "no_descriptor a \<Longrightarrow> forge_recv_fd a = -1"
  by (cases a) (auto simp: forge_recv_fd_def no_descriptor_def cmsg_firsthdr_def)

interpretation scm: fd_channel sent_msg delivers no_descriptor forge_recv_fd valid_fd
  by unfold_locales (simp_all add: recv_fd_delivers recv_fd_none valid_fd_def)


section \<open>Addresses\<close>

definition show_quad :: "nat list \<Rightarrow> string" where
  "show_quad ns = (case ns of [a, b, c, d] \<Rightarrow>
     show_nat a @ ''.'' @ show_nat b @ ''.'' @ show_nat c @ ''.'' @ show_nat d | _ \<Rightarrow> [])"

definition octet_chars :: "nat \<Rightarrow> nat list" where
  "octet_chars n = (if n < 10 then [n] else if n < 100 then [n div 10, n mod 10]
     else [n div 100, n div 10 mod 10, n mod 10])"

lemma show_nat_octet: "n < 1000 \<Longrightarrow> show_nat n = map (\<lambda>d. char_of (d + 48)) (octet_chars n)"
  by (auto simp: show_nat.simps octet_chars_def div_mult2_eq [symmetric])

lemma pton_octet:
  assumes "n < 256" "k < 4"
  shows "pton_octets (show_nat n @ s) 0 False k acc = pton_octets s n True (Suc k) acc"
proof -
  have ds: "(n div 100 * 10 + n div 10 mod 10) * 10 + n mod 10 = n"
      "n div 100 * 10 + n div 10 mod 10 = n div 10"
  proof -
    show d: "n div 100 * 10 + n div 10 mod 10 = n div 10"
      using div_mult_mod_eq [of "n div 10" 10] by (simp add: div_mult2_eq [symmetric])
    then show "(n div 100 * 10 + n div 10 mod 10) * 10 + n mod 10 = n" by (simp only: div_mult_mod_eq)
  qed
  consider "n < 10" | "10 \<le> n" "n < 100" | "100 \<le> n" by linarith
  then show ?thesis
  proof cases
    case 1
    then show ?thesis using assms by (simp add: show_nat_octet octet_chars_def)
  next
    case 2
    then have "0 < n div 10" "n div 10 < 10" by auto
    then show ?thesis using assms 2 by (simp add: show_nat_octet octet_chars_def Let_def)
  next
    case 3
    then have "0 < n div 10" "0 < n div 100" "n div 10 < 256" "n div 100 < 10" using assms(1) by auto
    then show ?thesis using assms 3 ds
      by (simp add: show_nat_octet octet_chars_def Let_def)
  qed
qed

lemma not_digit_dot [simp]: "\<not> isdigit (CHR ''.'')" "\<not> isdigit (CHR '':'')" "\<not> isdigit NUL"
  by (simp_all add: isdigit_def code_def)

lemma inet_pton4_show_quad:
  "a < 256 \<Longrightarrow> b < 256 \<Longrightarrow> c < 256 \<Longrightarrow> d < 256 \<Longrightarrow>
   inet_pton4 (show_quad [a, b, c, d]) = Some [a, b, c, d]"
  using pton_octet [of d 3 "[]" "[a, b, c]"]
  by (simp add: inet_pton4_def show_quad_def pton_octet numeral_3_eq_3)

lemma show_nat_no: "\<not> isdigit c \<Longrightarrow> c \<notin> set (show_nat n)"
  using show_nat_digits by blast

lemma show_nat_256: "n < 256 \<Longrightarrow> length (show_nat n) \<le> 3"
  by (rule show_nat_length) simp_all

lemma split_hostport_show:
  assumes "CHR '':'' \<notin> set host" "length host < 100" "n < 2 ^ 31"
  shows "split_hostport (host @ '':'' @ show_nat n) = Some (host, int n)"
proof -
  have "length (show_nat n) \<le> 10" using assms(3) by (intro show_nat_length) auto
  then have "snprintf 128 (host @ '':'' @ show_nat n) = host @ CHR '':'' # show_nat n"
    using assms(2) by (simp add: snprintf_fits)
  moreover have "strrchr (host @ CHR '':'' # show_nat n) CHR '':'' = Some (CHR '':'' # show_nat n)"
    by (rule strrchr_append) (simp add: show_nat_no)
  moreover have "atoi (show_nat n) = int n"
    using atoi_show_nat [of n "[]"] assms(3) by (simp add: deref_def)
  ultimately show ?thesis by (simp add: split_hostport_def Let_def)
qed

lemma htons_involution: "htons (htons w) = w"
  by (rule bit_word_eqI) (auto simp: htons_def bit_simps)

section \<open>Properties\<close>

text \<open>C12: The listener listens where it was told: for every address \<open>a.b.c.d:n\<close> in decimal, unless
  the kernel refuses, the socket is made reusable, bound to exactly those four octets and that port
  (which the peer reads as \<open>n\<close> modulo 65536), and listens, in this order, and is returned.\<close>

theorem listener_binds_hostport:
  assumes "a < 256" "b < 256" "c < 256" "d < 256" "n < 2 ^ 31"
    and "0 \<le> e_socket env" "0 \<le> e_bind env" "0 \<le> e_listen env"
  shows "forge_create_listener env (show_quad [a, b, c, d] @ '':'' @ show_nat n) =
     (Inr (e_socket env), [Socket (e_socket env), ReuseAddr (e_socket env), ReusePort (e_socket env),
        Bind (e_socket env) [a, b, c, d] (sin_port (int n)), Listen (e_socket env) 1024])
     \<and> unat (htons (sin_port (int n))) = n mod 65536"
proof -
  let ?q = "show_quad [a, b, c, d]"
  have "CHR '':'' \<notin> set ?q" "length ?q < 100"
    using assms(1-4) show_nat_256 [of a] show_nat_256 [of b] show_nat_256 [of c] show_nat_256 [of d]
    by (simp_all add: show_quad_def show_nat_no)
  then have "split_hostport (?q @ '':'' @ show_nat n) = Some (?q, int n)"
    by (rule split_hostport_show) (rule assms(5))
  moreover have "unat (word_of_int (int n) :: u16) = n mod 65536"
    by (simp add: unat_of_nat)
  ultimately show ?thesis using assms
    by (simp add: forge_create_listener_def Let_def inet_pton4_show_quad htons_involution sin_port_def)
qed

theorem listener_binds_hostport_witness:
  "forge_create_listener \<lparr> e_socket = 5, e_bind = 0, e_listen = 0 \<rparr>
     (show_quad [127, 0, 0, 1] @ '':'' @ show_nat 8080) =
     (Inr 5, [Socket 5, ReuseAddr 5, ReusePort 5, Bind 5 [127, 0, 0, 1] (sin_port 8080), Listen 5 1024])
     \<and> unat (htons (sin_port 8080)) = 8080"
  using listener_binds_hostport [of 127 0 0 1 8080 "\<lparr> e_socket = 5, e_bind = 0, e_listen = 0 \<rparr>"] by simp

text \<open>A port out of range is not rejected: it is cut to 16 bits, so asking for \<open>n + 65536\<close> binds the
  same port as asking for \<open>n\<close>.\<close>

lemma listener_port_wraps:
  assumes "CHR '':'' \<notin> set host" "length host < 100" "n < 65536"
  shows "forge_create_listener env (host @ '':'' @ show_nat (n + 65536))
      = forge_create_listener env (host @ '':'' @ show_nat n)"
proof -
  have "split_hostport (host @ '':'' @ show_nat (n + 65536)) = Some (host, int (n + 65536))"
    by (rule split_hostport_show) (use assms in auto)
  moreover have "split_hostport (host @ '':'' @ show_nat n) = Some (host, int n)"
    by (rule split_hostport_show) (use assms in auto)
  moreover have "(word_of_int (int (n + 65536)) :: u16) = word_of_int (int n)"
    by (simp add: word_of_int_eq_iff take_bit_eq_mod del: of_int_of_nat_eq of_int_add)
  then have "sin_port (int (n + 65536)) = sin_port (int n)" by (simp only: sin_port_def)
  ultimately show ?thesis by (simp only: forge_create_listener_def option.case prod.case)
qed

lemma listener_port_wraps_witness:
  "forge_create_listener \<lparr> e_socket = 5, e_bind = 0, e_listen = 0 \<rparr> (''0.0.0.0'' @ '':'' @ show_nat (80 + 65536))
      = forge_create_listener \<lparr> e_socket = 5, e_bind = 0, e_listen = 0 \<rparr> (''0.0.0.0'' @ '':'' @ show_nat 80)"
  by (rule listener_port_wraps) simp_all



end
