(* ===== verification/ForgeWorker.thy ===== *)
theory ForgeWorker
  imports ForgeParser ForgeStatic ForgeNet
begin

text \<open>
  A worker process, \<open>src/worker.c\<close>.  Its state is the heap of \<open>forge_conn_t\<close> objects by address, the
  epoll interest list (which datum each registered descriptor carries), the open and the non-blocking
  descriptors, and the log of what it sent.  Freeing an object takes it off the heap, so that using it
  afterwards is \<open>Fault UseAfterFree\<close>; a write or read past the 8192 bytes of \<open>rbuf\<close> is
  \<open>Fault OutOfBounds\<close>.  A process that is still in a system call's retry loop when the scripted answers
  end gives \<open>Hang\<close>.
\<close>

section \<open>State\<close>

abbreviation RECV_BUF :: nat where "RECV_BUF \<equiv> 8192"

record conn =
  c_fd :: int
  c_rbuf :: string
  c_rlen :: size_t
  c_keep_alive :: bool

datatype epdata = ControlMarker | ConnPtr nat

record worker =
  heap :: "nat \<Rightarrow> conn option"
  interest :: "int \<Rightarrow> epdata option"
  fds :: "int set"
  nonblocking :: "int set"
  ep_fd :: int
  control_fd :: int
  out :: "io list"

definition calloc_conn :: "int \<Rightarrow> conn" where
  "calloc_conn cfd =
     \<lparr> c_fd = cfd, c_rbuf = replicate RECV_BUF NUL, c_rlen = 0, c_keep_alive = True \<rparr>"

section \<open>What the kernel answers\<close>

datatype rd_res = RdBytes string | RdAgain | RdErr

text \<open>One round of the control loop: the received message, \<open>fcntl\<close>, \<open>calloc\<close> and \<open>epoll_ctl\<close>.\<close>

record ctl_in =
  ci_msg :: recv_answer
  ci_getfl :: "int \<Rightarrow> int"
  ci_setfl :: "int \<Rightarrow> int \<Rightarrow> int"
  ci_calloc :: "nat option"
  ci_add :: int

text \<open>One event of \<open>epoll_wait\<close>, with the answers the kernel gives while it is handled.\<close>

record event =
  ev_data :: epdata
  ev_events :: u32
  ev_ctl :: "ctl_in list"
  ev_read :: "nat \<Rightarrow> rd_res"
  ev_env :: file_env

datatype wait_res = WaitIntr | WaitErr | WaitEvents "event list"

datatype acc_res = AccFd int | AccAgain | AccIntr | AccErr

definition EPOLLIN :: u32 where "EPOLLIN = 0x1"
definition EPOLLERR :: u32 where "EPOLLERR = 0x8"
definition EPOLLHUP :: u32 where "EPOLLHUP = 0x10"
definition EPOLLRDHUP :: u32 where "EPOLLRDHUP = 0x2000"

section \<open>The operations\<close>

definition close_fd :: "int \<Rightarrow> worker \<Rightarrow> worker" where
  "close_fd fd w = w\<lparr> fds := fds w - {fd}, nonblocking := nonblocking w - {fd} \<rparr>"

definition conn_close :: "nat \<Rightarrow> worker \<Rightarrow> worker outcome" where
  "conn_close p w =
     (case heap w p of
        None \<Rightarrow> Fault UseAfterFree
      | Some c \<Rightarrow>
          let w1 = (if 0 \<le> c_fd c
                    then close_fd (c_fd c) (w\<lparr> interest := (interest w)(c_fd c := None) \<rparr>) else w)
          in Ok (w1\<lparr> heap := (heap w1)(p := None) \<rparr>))"

text \<open>\<open>read\<close> into \<open>rbuf + rlen\<close>, and \<open>memmove\<close> within \<open>rbuf\<close>.\<close>

definition store_bytes :: "string \<Rightarrow> nat \<Rightarrow> string \<Rightarrow> string" where
  "store_bytes buf i s = take i buf @ s @ drop (i + length s) buf"

definition memmove_down :: "string \<Rightarrow> nat \<Rightarrow> nat \<Rightarrow> string" where
  "memmove_down buf from n = store_bytes buf 0 (take n (drop from buf))"

definition drop_keep_alive :: "conn \<Rightarrow> conn" where
  "drop_keep_alive c = c\<lparr> c_keep_alive := False \<rparr>"

text \<open>A request that is complete: lines 78--90.\<close>

definition serve_request :: "string \<Rightarrow> file_env \<Rightarrow> conn \<Rightarrow> http_req \<Rightarrow> (conn \<times> io list) outcome" where
  "serve_request doc_root env c req =
     (if req_method req \<noteq> ''GET'' then Ok (drop_keep_alive c, http_send_400 env (c_fd c))
      else
        let c1 = c\<lparr> c_keep_alive := req_keep_alive req \<rparr> in
        (case http_send_static_file env (c_fd c1) doc_root (path req) (c_keep_alive c1) of
           None \<Rightarrow> Hang
         | Some (ret, log) \<Rightarrow>
             let c2 = (if ret < 0 then drop_keep_alive c1 else c1);
                 remain = c_rlen c2 - of_nat (header_bytes req)
             in if remain > 0 then
                  if RECV_BUF < header_bytes req + unat remain then Fault OutOfBounds
                  else Ok (c2\<lparr> c_rbuf := memmove_down (c_rbuf c2) (header_bytes req) (unat remain),
                               c_rlen := 0 \<rparr>, log)
                else Ok (c2\<lparr> c_rlen := 0 \<rparr>, log)))"

text \<open>The loop of \<open>handle_read\<close>, lines 66--97: every branch of its first round breaks.\<close>

definition read_once :: "string \<Rightarrow> file_env \<Rightarrow> (nat \<Rightarrow> rd_res) \<Rightarrow> conn \<Rightarrow> (conn \<times> io list) outcome" where
  "read_once doc_root env rd c =
     (case rd (unat (of_nat RECV_BUF - c_rlen c - 1)) of
        RdBytes s \<Rightarrow>
          if 0 < length s then
            if RECV_BUF < unat (c_rlen c) + length s then Fault OutOfBounds
            else
              let c1 = c\<lparr> c_rbuf := store_bytes (c_rbuf c) (unat (c_rlen c)) s,
                          c_rlen := c_rlen c + of_nat (length s) \<rparr>
              in if of_nat RECV_BUF - 1 \<le> c_rlen c1 then Ok (drop_keep_alive c1, [])
                 else
                   (case http_try_parse_request (c_rbuf c1) (unat (c_rlen c1)) of
                      None \<Rightarrow> Ok (c1, [])
                    | Some req \<Rightarrow> serve_request doc_root env c1 req)
          else Ok (drop_keep_alive c, [])
      | RdAgain \<Rightarrow> Ok (c, [])
      | RdErr \<Rightarrow> Ok (drop_keep_alive c, []))"

definition handle_read :: "string \<Rightarrow> file_env \<Rightarrow> (nat \<Rightarrow> rd_res) \<Rightarrow> nat \<Rightarrow> worker \<Rightarrow> worker outcome" where
  "handle_read doc_root env rd p w =
     (case heap w p of
        None \<Rightarrow> Fault UseAfterFree
      | Some c \<Rightarrow>
          and_then (read_once doc_root env rd c) (\<lambda>(c', log).
            let w1 = w\<lparr> heap := (heap w)(p := Some c'), out := out w @ log \<rparr>
            in if \<not> c_keep_alive c' then conn_close p w1 else Ok w1))"

text \<open>One round of the control loop, lines 133--156; \<open>False\<close> is its \<open>break\<close>.\<close>

definition recv_conn :: "worker \<Rightarrow> ctl_in \<Rightarrow> (worker \<times> bool) outcome" where
  "recv_conn w i =
     (let cfd = forge_recv_fd (ci_msg i) in
      if cfd < 0 then Ok (w, False)
      else
        let w1 = w\<lparr> fds := insert cfd (fds w) \<rparr>;
            nb = forge_set_nonblock (ci_getfl i) (ci_setfl i) cfd;
            w2 = (if 0 \<le> nb then w1\<lparr> nonblocking := insert cfd (nonblocking w1) \<rparr> else w1)
        in (case ci_calloc i of
              None \<Rightarrow> Ok (close_fd cfd w2, True)
            | Some p \<Rightarrow>
                let w3 = w2\<lparr> heap := (heap w2)(p := Some (calloc_conn cfd)) \<rparr>
                in if ci_add i < 0
                   then Ok ((close_fd cfd w3)\<lparr> heap := (heap w3)(p := None) \<rparr>, True)
                   else Ok (w3\<lparr> interest := (interest w3)(cfd := Some (ConnPtr p)) \<rparr>, True)))"

definition drain_control :: "worker \<Rightarrow> ctl_in list \<Rightarrow> worker outcome" where
  "drain_control w ins =
     and_then (run_steps recv_conn w ins) (\<lambda>(w', go). if go then Hang else Ok w')"

text \<open>One iteration of the loop over the events, lines 131--171.\<close>

definition handle_event :: "string \<Rightarrow> worker \<Rightarrow> event \<Rightarrow> (worker \<times> bool) outcome" where
  "handle_event doc_root w e =
     and_then
       (case ev_data e of
          ControlMarker \<Rightarrow> drain_control w (ev_ctl e)
        | ConnPtr p \<Rightarrow>
            if ev_events e AND (EPOLLHUP OR EPOLLERR OR EPOLLRDHUP) \<noteq> 0 then conn_close p w
            else if ev_events e AND EPOLLIN \<noteq> 0 then handle_read doc_root (ev_env e) (ev_read e) p w
            else Ok w)
       (\<lambda>w'. Ok (w', True))"

text \<open>One round of the main loop: the value \<open>g_terminate\<close> then has, and what \<open>epoll_wait\<close> gives.\<close>

definition worker_round :: "string \<Rightarrow> worker \<Rightarrow> bool \<times> wait_res \<Rightarrow> (worker \<times> bool) outcome" where
  "worker_round doc_root w round =
     (case round of (terminate, wait) \<Rightarrow>
        if terminate then Ok (w, False)
        else
          (case wait of
             WaitIntr \<Rightarrow> Ok (w, True)
           | WaitErr \<Rightarrow> Ok (w, False)
           | WaitEvents evs \<Rightarrow>
               and_then (run_steps (handle_event doc_root) w evs) (\<lambda>(w', _). Ok (w', True))))"

text \<open>
  The process from its start: \<open>create\<close> and \<open>add\<close> answer \<open>epoll_create1\<close> and \<open>epoll_ctl\<close>.  The
  Boolean tells whether the main loop still runs.
\<close>

definition forge_run_worker ::
    "string \<Rightarrow> int \<Rightarrow> int set \<Rightarrow> int \<Rightarrow> int \<Rightarrow> (bool \<times> wait_res) list \<Rightarrow> (die + worker \<times> bool) outcome" where
  "forge_run_worker doc_root cfd open_fds create add rounds =
     (if create < 0 then Ok (Inl EpollCreateFailed)
      else if add < 0 then Ok (Inl EpollAddFailed)
      else
        let w0 = \<lparr> heap = (\<lambda>p. None), interest = (\<lambda>fd. None)(cfd := Some ControlMarker),
                   fds = insert create (insert cfd open_fds), nonblocking = {},
                   ep_fd = create, control_fd = cfd, out = [] \<rparr>
        in and_then (run_steps (worker_round doc_root) w0 rounds) (\<lambda>(w, running).
             if running then Ok (Inr (w, True))
             else Ok (Inr (close_fd (ep_fd w) (close_fd (control_fd w) w), False))))"

text \<open>
  \<open>accept_loop\<close>, which the present \<open>forge_run_worker\<close> no longer calls: accepts at most one connection.
  \<open>calloc\<close> is not checked here.
\<close>

fun accept_loop :: "worker \<Rightarrow> nat \<Rightarrow> (acc_res \<times> nat option \<times> int) list \<Rightarrow> worker outcome" where
  "accept_loop w accepted [] = (if accepted < 1 then Hang else Ok w)"
| "accept_loop w accepted ((r, calloc, add) # rs) =
     (if accepted < 1 then
        (case r of
           AccAgain \<Rightarrow> Ok w
         | AccIntr \<Rightarrow> accept_loop w accepted rs
         | AccErr \<Rightarrow> Ok w
         | AccFd cfd \<Rightarrow>
             (case calloc of
                None \<Rightarrow> Fault NullDeref
              | Some p \<Rightarrow>
                  let w1 = w\<lparr> fds := insert cfd (fds w), nonblocking := insert cfd (nonblocking w),
                              heap := (heap w)(p := Some (calloc_conn cfd)) \<rparr>
                  in if add < 0
                     then accept_loop ((close_fd cfd w1)\<lparr> heap := (heap w1)(p := None) \<rparr>) (accepted + 1) rs
                     else accept_loop (w1\<lparr> interest := (interest w1)(cfd := Some (ConnPtr p)) \<rparr>)
                            (accepted + 1) rs))
      else Ok w)"


section \<open>The buffer\<close>

text \<open>What holds of every connection between events.\<close>

definition buffer_ok :: "conn \<Rightarrow> bool" where
  "buffer_ok c \<longleftrightarrow> length (c_rbuf c) = RECV_BUF \<and> c_rbuf c ! 8191 = NUL"

definition conn_ok :: "conn \<Rightarrow> bool" where
  "conn_ok c \<longleftrightarrow> buffer_ok c \<and> unat (c_rlen c) < 8191 \<and> c_keep_alive c"

text \<open>The kernel's promise on \<open>read\<close>: at most the bytes asked for.\<close>

definition read_bounded :: "(nat \<Rightarrow> rd_res) \<Rightarrow> bool" where
  "read_bounded rd \<longleftrightarrow> (\<forall>k s. rd k = RdBytes s \<longrightarrow> length s \<le> k)"

lemma calloc_conn_ok [simp]: "conn_ok (calloc_conn fd)" "c_fd (calloc_conn fd) = fd"
  by (simp_all add: conn_ok_def buffer_ok_def calloc_conn_def)

lemma drop_keep_alive_simps [simp]:
  "c_fd (drop_keep_alive c) = c_fd c" "c_rbuf (drop_keep_alive c) = c_rbuf c"
  "c_rlen (drop_keep_alive c) = c_rlen c" "\<not> c_keep_alive (drop_keep_alive c)"
  "buffer_ok (drop_keep_alive c) = buffer_ok c"
  by (simp_all add: drop_keep_alive_def buffer_ok_def)

lemma store_bytes_length [simp]:
  "i + length s \<le> length buf \<Longrightarrow> length (store_bytes buf i s) = length buf"
  by (simp add: store_bytes_def)

lemma store_bytes_nth_after:
  assumes "i + length s \<le> j" "j < length buf"
  shows "store_bytes buf i s ! j = buf ! j"
proof -
  have "length (take i buf @ s) = i + length s" using assms by simp
  then have "((take i buf @ s) @ drop (i + length s) buf) ! j = drop (i + length s) buf ! (j - (i + length s))"
    using assms(1) by (subst nth_append) simp
  then show ?thesis using assms by (simp add: store_bytes_def)
qed

lemma store_bytes_twice:
  "i + length s + length t \<le> length buf \<Longrightarrow>
   store_bytes (store_bytes buf i s) (i + length s) t = store_bytes buf i (s @ t)"
  by (simp add: store_bytes_def ac_simps)

lemma count_asked:
  assumes "unat n < 8191"
  shows "unat (of_nat RECV_BUF - n - 1 :: size_t) = 8191 - unat n"
proof -
  have "of_nat RECV_BUF - n - 1 = 8191 - n" by (simp add: algebra_simps)
  then show ?thesis using assms by (simp add: unat_sub word_le_nat_alt)
qed

lemma rlen_after:
  "unat n + k < 2 ^ 64 \<Longrightarrow> unat (n + of_nat k :: size_t) = unat n + k"
  by (simp add: unat_word_ariths unat_of_nat)

lemma buffer_full_iff:
  "(8191 \<le> (n :: size_t)) = (8191 \<le> unat n)"
  by (simp add: word_le_nat_alt)

lemma remain_after:
  assumes "h \<le> unat n"
  shows "unat (n - of_nat h :: size_t) = unat n - h"
proof -
  have "h < 2 ^ LENGTH(64)" using assms unsigned_less [of n, where ?'a = nat] by simp
  then have "unat (of_nat h :: size_t) = h" by (simp add: unat_of_nat)
  then show ?thesis using assms by (simp add: unat_sub word_le_nat_alt)
qed

lemma serve_request_result:
  assumes "buffer_ok c" "unat (c_rlen c) < 8191" "header_bytes req \<le> unat (c_rlen c)"
  shows "\<not> faults (serve_request root env c req)"
    and "serve_request root env c req = Ok (c', log) \<Longrightarrow>
      c_fd c' = c_fd c \<and> buffer_ok c' \<and> (c_keep_alive c' \<longrightarrow> conn_ok c')"
proof -
  have len: "unat (c_rlen c - of_nat (header_bytes req)) = unat (c_rlen c) - header_bytes req"
    by (rule remain_after) (rule assms(3))
  have mem: "buffer_ok (d\<lparr> c_rbuf := memmove_down (c_rbuf d) h n, c_rlen := 0 \<rparr>)"
    if "buffer_ok d" "n < 8191" for d h n
    using that store_bytes_nth_after [of 0 "take n (drop h (c_rbuf d))" 8191 "c_rbuf d"]
    by (simp add: buffer_ok_def memmove_down_def)
  show "\<not> faults (serve_request root env c req)"
    using assms len by (auto simp: serve_request_def Let_def faults_def split: option.splits if_splits)
  show "serve_request root env c req = Ok (c', log) \<Longrightarrow>
      c_fd c' = c_fd c \<and> buffer_ok c' \<and> (c_keep_alive c' \<longrightarrow> conn_ok c')"
    using assms len mem
    by (auto simp: serve_request_def Let_def conn_ok_def buffer_ok_def split: option.splits if_splits)
qed


lemma find_end_header_bytes:
  "http_try_parse_request buf len = Some req \<Longrightarrow> header_bytes req \<le> len"
  by (auto simp: http_try_parse_request_def Let_def split: option.splits prod.splits
      dest: find_end_bounds)

lemma stored_ok:
  assumes "conn_ok c" "length s \<le> 8191 - unat (c_rlen c)"
  shows "buffer_ok (c\<lparr> c_rbuf := store_bytes (c_rbuf c) (unat (c_rlen c)) s, c_rlen := n \<rparr>)"
proof -
  have "unat (c_rlen c) + length s \<le> 8191" "length (c_rbuf c) = RECV_BUF" "c_rbuf c ! 8191 = NUL"
    using assms by (auto simp: conn_ok_def buffer_ok_def)
  then show ?thesis by (simp add: buffer_ok_def store_bytes_nth_after)
qed

lemma read_once_result:
  assumes "conn_ok c" "read_bounded rd"
  shows "\<not> faults (read_once root env rd c)"
    and "read_once root env rd c = Ok (c', log) \<Longrightarrow>
      c_fd c' = c_fd c \<and> buffer_ok c' \<and> (c_keep_alive c' \<longrightarrow> conn_ok c')"
proof -
  let ?n = "unat (c_rlen c)"
  have cnt: "unat (of_nat RECV_BUF - c_rlen c - 1 :: size_t) = 8191 - ?n" and n: "?n < 8191"
    using assms(1) count_asked [of "c_rlen c"] by (simp_all add: conn_ok_def)
  have ok: "conn_ok c" "buffer_ok c" using assms(1) by (simp_all add: conn_ok_def)
  show "\<not> faults (read_once root env rd c)"
    and "read_once root env rd c = Ok (c', log) \<Longrightarrow>
      c_fd c' = c_fd c \<and> buffer_ok c' \<and> (c_keep_alive c' \<longrightarrow> conn_ok c')"
  proof (atomize(full), cases "rd (8191 - ?n)")
    case (RdBytes s)
    have s: "length s \<le> 8191 - ?n" using assms(2) RdBytes by (auto simp: read_bounded_def)
    let ?c = "c\<lparr> c_rbuf := store_bytes (c_rbuf c) ?n s, c_rlen := c_rlen c + of_nat (length s) \<rparr>"
    have buf: "buffer_ok ?c" by (rule stored_ok [OF assms(1) s])
    have len: "unat (c_rlen ?c) = ?n + length s" using s n by (simp add: rlen_after)
    show "\<not> faults (read_once root env rd c) \<and> (read_once root env rd c = Ok (c', log) \<longrightarrow>
      c_fd c' = c_fd c \<and> buffer_ok c' \<and> (c_keep_alive c' \<longrightarrow> conn_ok c'))"
    proof (cases "s = [] \<or> 8191 \<le> ?n + length s")
      case True
      then show ?thesis using RdBytes cnt ok buf s n len
        by (auto simp: read_once_def Let_def buffer_full_iff)
    next
      case False
      show ?thesis
      proof (cases "http_try_parse_request (c_rbuf ?c) (unat (c_rlen ?c))")
        case None
        then have "read_once root env rd c = Ok (?c, [])"
          using False RdBytes cnt s n len by (simp add: read_once_def Let_def buffer_full_iff)
        then show ?thesis using False buf len assms(1) by (auto simp: conn_ok_def)
      next
        case (Some req)
        then have once: "read_once root env rd c = serve_request root env ?c req"
          using False RdBytes cnt s n len by (simp add: read_once_def Let_def buffer_full_iff)
        have hb: "header_bytes req \<le> unat (c_rlen ?c)" by (rule find_end_header_bytes [OF Some])
        have lt: "unat (c_rlen ?c) < 8191" using False len by simp
        have "c_fd ?c = c_fd c" by simp
        then show ?thesis unfolding once
          using serve_request_result(1) [OF buf lt hb] serve_request_result(2) [OF buf lt hb]
          by metis
      qed
    qed
  next
    case RdAgain
    then show "\<not> faults (read_once root env rd c) \<and> (read_once root env rd c = Ok (c', log) \<longrightarrow>
      c_fd c' = c_fd c \<and> buffer_ok c' \<and> (c_keep_alive c' \<longrightarrow> conn_ok c'))"
      using cnt ok by (auto simp: read_once_def)
  next
    case RdErr
    then show "\<not> faults (read_once root env rd c) \<and> (read_once root env rd c = Ok (c', log) \<longrightarrow>
      c_fd c' = c_fd c \<and> buffer_ok c' \<and> (c_keep_alive c' \<longrightarrow> conn_ok c'))"
      using cnt ok by (auto simp: read_once_def)
  qed
qed


section \<open>The invariant of a worker\<close>

text \<open>
  \<open>base\<close> are the descriptors the process inherited.  Connections on the heap and entries of the
  interest list correspond one to one, every connection is in order, and every open descriptor is
  accounted for: none leaks and none is closed twice.
\<close>

definition conn_fds :: "(nat \<Rightarrow> conn option) \<Rightarrow> int set" where
  "conn_fds h = {fd. \<exists>p c. h p = Some c \<and> c_fd c = fd}"

lemma conn_fdsI: "h p = Some c \<Longrightarrow> c_fd c \<in> conn_fds h"
  by (auto simp: conn_fds_def)

lemma conn_fdsE:
  assumes "fd \<in> conn_fds h"
  obtains p c where "h p = Some c" "c_fd c = fd"
  using assms by (auto simp: conn_fds_def)

lemma conn_fds_gone:
  assumes "h p = Some c" "\<And>q d. h q = Some d \<Longrightarrow> c_fd d = c_fd c \<Longrightarrow> q = p"
  shows "conn_fds (h(p := None)) = conn_fds h - {c_fd c}"
proof (intro set_eqI iffI)
  fix fd assume "fd \<in> conn_fds (h(p := None))"
  then obtain q d where q: "(h(p := None)) q = Some d" "c_fd d = fd" by (rule conn_fdsE)
  then have "q \<noteq> p" "h q = Some d" by (auto split: if_splits)
  then have "fd \<noteq> c_fd c" "fd \<in> conn_fds h" using assms(2) q(2) conn_fdsI by blast+
  then show "fd \<in> conn_fds h - {c_fd c}" by simp
next
  fix fd assume fd: "fd \<in> conn_fds h - {c_fd c}"
  then obtain q d where q: "h q = Some d" "c_fd d = fd" using conn_fdsE by blast
  then have "q \<noteq> p" using fd assms(1) by auto
  then have "(h(p := None)) q = Some d" using q by simp
  then show "fd \<in> conn_fds (h(p := None))" using q(2) conn_fdsI by metis
qed

lemma conn_fds_new:
  assumes "h p = None"
  shows "conn_fds (h(p := Some c)) = insert (c_fd c) (conn_fds h)"
proof (intro set_eqI iffI)
  fix fd assume "fd \<in> conn_fds (h(p := Some c))"
  then obtain q d where "(h(p := Some c)) q = Some d" "c_fd d = fd" by (rule conn_fdsE)
  then show "fd \<in> insert (c_fd c) (conn_fds h)" by (cases "q = p") (auto intro: conn_fdsI)
next
  fix fd assume "fd \<in> insert (c_fd c) (conn_fds h)"
  then consider "fd = c_fd c" | q d where "h q = Some d" "c_fd d = fd" using conn_fdsE by blast
  then show "fd \<in> conn_fds (h(p := Some c))"
  proof cases
    case 1
    then show ?thesis using conn_fdsI [of "h(p := Some c)" p] by simp
  next
    case 2
    then have "(h(p := Some c)) q = Some d" using assms by auto
    then show ?thesis using 2 conn_fdsI by metis
  qed
qed

lemma conn_fds_same:
  assumes "h p = Some c" "c_fd c' = c_fd c" "\<And>q d. h q = Some d \<Longrightarrow> c_fd d = c_fd c \<Longrightarrow> q = p"
  shows "conn_fds (h(p := Some c')) = conn_fds h"
proof -
  have "conn_fds (h(p := Some c')) = conn_fds ((h(p := None))(p := Some c'))" by simp
  also have "\<dots> = insert (c_fd c') (conn_fds (h(p := None)))" by (rule conn_fds_new) simp
  also have "\<dots> = insert (c_fd c) (conn_fds h - {c_fd c})"
    using conn_fds_gone [where h = h and p = p, OF assms(1,3)] assms(2) by simp
  also have "\<dots> = conn_fds h" using conn_fdsI [of h p c] assms(1) by auto
  finally show ?thesis .
qed

definition conns_ok :: "int set \<Rightarrow> worker \<Rightarrow> bool" where
  "conns_ok base w \<longleftrightarrow> base \<inter> {ep_fd w, control_fd w} = {} \<and>
     (\<forall>p c. heap w p = Some c \<longrightarrow> conn_ok c \<and> 0 \<le> c_fd c \<and> c_fd c \<notin> base \<union> {ep_fd w, control_fd w})"

definition worker_inv :: "int set \<Rightarrow> worker \<Rightarrow> bool" where
  "worker_inv base w \<longleftrightarrow>
     (\<forall>fd p. interest w fd = Some (ConnPtr p) \<longleftrightarrow> (\<exists>c. heap w p = Some c \<and> c_fd c = fd)) \<and>
     (\<forall>fd. interest w fd = Some ControlMarker \<longleftrightarrow> fd = control_fd w) \<and>
     conns_ok base w \<and>
     fds w = base \<union> {ep_fd w, control_fd w} \<union> conn_fds (heap w)"

lemma worker_invD:
  assumes "worker_inv base w"
  shows "interest w fd = Some (ConnPtr p) \<longleftrightarrow> (\<exists>c. heap w p = Some c \<and> c_fd c = fd)"
    and "interest w fd = Some ControlMarker \<longleftrightarrow> fd = control_fd w"
    and "conns_ok base w"
    and "fds w = base \<union> {ep_fd w, control_fd w} \<union> conn_fds (heap w)"
  using assms by (simp_all add: worker_inv_def)

lemma conns_okD:
  assumes "conns_ok base w" "heap w p = Some c"
  shows "conn_ok c" "0 \<le> c_fd c" "c_fd c \<notin> base \<union> {ep_fd w, control_fd w}"
  using assms by (auto simp: conns_ok_def)

text \<open>No two connections share a descriptor.\<close>

lemma worker_inv_inj:
  assumes "worker_inv base w" "heap w p = Some c" "heap w q = Some d" "c_fd c = c_fd d"
  shows "p = q"
proof -
  have "interest w (c_fd c) = Some (ConnPtr p)" "interest w (c_fd c) = Some (ConnPtr q)"
    using assms(2-4) unfolding worker_invD(1) [OF assms(1)] by auto
  then show ?thesis by simp
qed

lemma conn_close_result:
  assumes "worker_inv base w" "heap w p = Some c"
  shows "\<exists>w'. conn_close p w = Ok w' \<and> worker_inv base w' \<and> heap w' = (heap w)(p := None)
     \<and> fds w' = fds w - {c_fd c} \<and> ep_fd w' = ep_fd w \<and> control_fd w' = control_fd w"
proof -
  let ?w' = "(close_fd (c_fd c) (w\<lparr> interest := (interest w)(c_fd c := None) \<rparr>))\<lparr> heap := (heap w)(p := None) \<rparr>"
  note c = conns_okD [OF worker_invD(3) [OF assms(1)] assms(2)]
  have eq: "conn_close p w = Ok ?w'"
    using assms(2) c(2) by (simp add: conn_close_def Let_def close_fd_def)
  have one: "q = p" if "heap w q = Some d" "c_fd d = c_fd c" for q d
    using worker_inv_inj [OF assms(1) that(1) assms(2) that(2)] .
  have "worker_inv base ?w'"
    unfolding worker_inv_def
  proof (intro conjI allI)
    fix fd q
    show "interest ?w' fd = Some (ConnPtr q) \<longleftrightarrow> (\<exists>d. heap ?w' q = Some d \<and> c_fd d = fd)"
    proof (cases "fd = c_fd c")
      case True
      then show ?thesis using one [of q] by (auto simp: close_fd_def)
    next
      case False
      then show ?thesis using worker_invD(1) [OF assms(1), of fd q] assms(2) by (simp add: close_fd_def)
    qed
  next
    fix fd
    show "interest ?w' fd = Some ControlMarker \<longleftrightarrow> fd = control_fd ?w'"
      using worker_invD(2) [OF assms(1), of fd] c(3) by (auto simp: close_fd_def)
  next
    show "conns_ok base ?w'"
      using worker_invD(3) [OF assms(1)] by (simp add: conns_ok_def close_fd_def)
  next
    show "fds ?w' = base \<union> {ep_fd ?w', control_fd ?w'} \<union> conn_fds (heap ?w')"
      using worker_invD(4) [OF assms(1)] c(3) conn_fds_gone [where h = "heap w" and p = p, OF assms(2) one]
      by (auto simp: close_fd_def)
  qed
  moreover have "heap ?w' = (heap w)(p := None)" "fds ?w' = fds w - {c_fd c}"
    "ep_fd ?w' = ep_fd w" "control_fd ?w' = control_fd w"
    by (simp_all add: close_fd_def)
  ultimately show ?thesis using eq by blast
qed

lemma worker_inv_update_conn:
  assumes "worker_inv base w" "heap w p = Some c" "c_fd c' = c_fd c" "conn_ok c'"
  shows "worker_inv base (w\<lparr> heap := (heap w)(p := Some c'), out := log \<rparr>)"
  unfolding worker_inv_def
proof (intro conjI allI)
  let ?w = "w\<lparr> heap := (heap w)(p := Some c'), out := log \<rparr>"
  fix fd q
  show "interest ?w fd = Some (ConnPtr q) \<longleftrightarrow> (\<exists>d. heap ?w q = Some d \<and> c_fd d = fd)"
    using worker_invD(1) [OF assms(1), of fd q] assms(2,3) by auto
next
  let ?w = "w\<lparr> heap := (heap w)(p := Some c'), out := log \<rparr>"
  fix fd
  show "interest ?w fd = Some ControlMarker \<longleftrightarrow> fd = control_fd ?w"
    using worker_invD(2) [OF assms(1), of fd] by simp
next
  show "conns_ok base (w\<lparr> heap := (heap w)(p := Some c'), out := log \<rparr>)"
    using worker_invD(3) [OF assms(1)] conns_okD [OF worker_invD(3) [OF assms(1)] assms(2)] assms(3,4)
    by (simp add: conns_ok_def)
next
  show "fds (w\<lparr> heap := (heap w)(p := Some c'), out := log \<rparr>)
      = base \<union> {ep_fd (w\<lparr> heap := (heap w)(p := Some c'), out := log \<rparr>),
               control_fd (w\<lparr> heap := (heap w)(p := Some c'), out := log \<rparr>)}
        \<union> conn_fds (heap (w\<lparr> heap := (heap w)(p := Some c'), out := log \<rparr>))"
    using worker_invD(4) [OF assms(1)]
      conn_fds_same [where h = "heap w" and p = p, OF assms(2,3) worker_inv_inj [OF assms(1) _ assms(2)]]
    by simp
qed


section \<open>Steps keep the invariant\<close>

lemma handle_read_result:
  assumes "worker_inv base w" "heap w p = Some c" "read_bounded rd"
  shows "\<not> faults (handle_read root env rd p w)"
    and "handle_read root env rd p w = Ok w' \<Longrightarrow>
      worker_inv base w' \<and> (\<forall>q. q \<noteq> p \<longrightarrow> heap w' q = heap w q)"
proof -
  note c = conns_okD [OF worker_invD(3) [OF assms(1)] assms(2)]
  note once = read_once_result [OF c(1) assms(3), where root = root and env = env]
  let ?w1 = "\<lambda>c' log. w\<lparr> heap := (heap w)(p := Some c'), out := out w @ log \<rparr>"
  have closed: "\<exists>w'. conn_close p (?w1 c' log) = Ok w' \<and> worker_inv base w' \<and> heap w' = (heap w)(p := None)"
    if "c_fd c' = c_fd c" for c' log
  proof -
    have inv: "worker_inv base (?w1 (c\<lparr> c_fd := c_fd c \<rparr>) log)"
      by (rule worker_inv_update_conn [OF assms(1,2)]) (use c(1) in simp_all)
    obtain w' where w': "conn_close p (?w1 (c\<lparr> c_fd := c_fd c \<rparr>) log) = Ok w'" "worker_inv base w'"
      "heap w' = (heap w)(p := None)"
      using conn_close_result [OF inv, of p "c\<lparr> c_fd := c_fd c \<rparr>"] by auto
    have "conn_close p (?w1 c' log) = conn_close p (?w1 (c\<lparr> c_fd := c_fd c \<rparr>) log)"
      using that c(2) by (simp add: conn_close_def Let_def close_fd_def)
    with w' show ?thesis by metis
  qed
  show "\<not> faults (handle_read root env rd p w)"
  proof (cases "read_once root env rd c")
    case (Ok a)
    then obtain c' log where a: "read_once root env rd c = Ok (c', log)" by (cases a) auto
    have "c_fd c' = c_fd c" using once(2) [OF a] by simp
    from closed [OF this, of log] show ?thesis using assms(2) a by (auto simp: handle_read_def Let_def)
  qed (use once(1) assms(2) in \<open>simp_all add: handle_read_def\<close>)
  assume "handle_read root env rd p w = Ok w'"
  then obtain c' log where r: "read_once root env rd c = Ok (c', log)"
    "(if \<not> c_keep_alive c' then conn_close p (?w1 c' log) else Ok (?w1 c' log)) = Ok w'"
    using assms(2) by (auto simp: handle_read_def Let_def)
  have fd: "c_fd c' = c_fd c" and ok: "c_keep_alive c' \<Longrightarrow> conn_ok c'" using once(2) [OF r(1)] by auto
  show "worker_inv base w' \<and> (\<forall>q. q \<noteq> p \<longrightarrow> heap w' q = heap w q)"
  proof (cases "c_keep_alive c'")
    case True
    then have w': "w' = ?w1 c' log" using r(2) by simp
    then show ?thesis using worker_inv_update_conn [OF assms(1,2) fd ok] True by simp
  next
    case False
    then show ?thesis using closed [OF fd, of log] r(2) by auto
  qed
qed

text \<open>
  The kernel's and the allocator's promises for one round of the control loop: nothing to receive, or a
  message of the master with a descriptor that is new to this process; a new address from \<open>calloc\<close>.
\<close>

definition ctl_ok :: "worker \<Rightarrow> ctl_in \<Rightarrow> bool" where
  "ctl_ok w i \<longleftrightarrow> no_descriptor (ci_msg i) \<or>
     (\<exists>fd r. ci_msg i = delivers (sent_msg fd) r \<and> valid_fd r \<and> r \<notin> fds w
        \<and> (\<forall>p. ci_calloc i = Some p \<longrightarrow> heap w p = None))"

lemma worker_inv_new_conn:
  assumes "worker_inv base w" "r \<notin> fds w" "heap w p = None" "0 \<le> r"
  shows "worker_inv base (w\<lparr> fds := insert r (fds w), nonblocking := nb,
     heap := (heap w)(p := Some (calloc_conn r)), interest := (interest w)(r := Some (ConnPtr p)) \<rparr>)"
    (is "worker_inv base ?w")
proof -
  have off: "r \<notin> base" "r \<noteq> ep_fd w" "r \<noteq> control_fd w" "r \<notin> conn_fds (heap w)"
    using assms(2) worker_invD(4) [OF assms(1)] by auto
  then have other: "c_fd d \<noteq> r" if "heap w q = Some d" for q d
    using conn_fdsI [where h = "heap w", OF that] by auto
  have "interest ?w fd = Some (ConnPtr q) \<longleftrightarrow> (\<exists>d. heap ?w q = Some d \<and> c_fd d = fd)" for fd q
  proof (cases "fd = r")
    case True
    then show ?thesis using other [of q] by (cases "q = p") auto
  next
    case False
    then show ?thesis using worker_invD(1) [OF assms(1), of fd q] assms(3) by auto
  qed
  moreover have "interest ?w fd = Some ControlMarker \<longleftrightarrow> fd = control_fd ?w" for fd
    using worker_invD(2) [OF assms(1), of fd] off(3) by auto
  moreover have "conns_ok base ?w"
    using worker_invD(3) [OF assms(1)] off assms(4) by (simp add: conns_ok_def)
  moreover have "fds ?w = base \<union> {ep_fd ?w, control_fd ?w} \<union> conn_fds (heap ?w)"
    using worker_invD(4) [OF assms(1)] conn_fds_new [where h = "heap w" and p = p, OF assms(3)] by auto
  ultimately show ?thesis unfolding worker_inv_def by blast
qed

lemma worker_inv_nonblocking:
  "worker_inv base (w\<lparr> nonblocking := nb \<rparr>) = worker_inv base w"
  by (simp add: worker_inv_def conns_ok_def)

lemma fds_insert_remove: "r \<notin> fds w \<Longrightarrow> insert r (fds w) - {r} = fds w"
  by auto

lemma recv_conn_result:
  assumes "worker_inv base w" "ctl_ok w i"
  shows "\<exists>w' go. recv_conn w i = Ok (w', go) \<and> worker_inv base w' \<and> heap w \<subseteq>\<^sub>m heap w'"
  using assms(2) unfolding ctl_ok_def
proof (elim disjE exE conjE)
  assume "no_descriptor (ci_msg i)"
  then have "recv_conn w i = Ok (w, False)" by (simp add: recv_conn_def scm.recv_none)
  then show ?thesis using assms(1) by auto
next
  fix fd r
  assume r: "ci_msg i = delivers (sent_msg fd) r" "valid_fd r" "r \<notin> fds w"
    and fresh: "\<forall>p. ci_calloc i = Some p \<longrightarrow> heap w p = None"
  have recv: "forge_recv_fd (ci_msg i) = r" and nn: "0 \<le> r"
    using r(1,2) scm.recv_carry [OF r(2)] scm.valid_nonneg by simp_all
  define nb where "nb = (if 0 \<le> forge_set_nonblock (ci_getfl i) (ci_setfl i) r
    then insert r (nonblocking w) else nonblocking w)"
  have same: "w\<lparr> fds := fds w, nonblocking := nb - {r} \<rparr> = w\<lparr> nonblocking := nb - {r} \<rparr>" by simp
  show ?thesis
  proof (cases "ci_calloc i")
    case None
    then have "recv_conn w i = Ok (w\<lparr> nonblocking := nb - {r} \<rparr>, True)"
      using recv nn r(3) by (auto simp: recv_conn_def Let_def close_fd_def fds_insert_remove nb_def)
    then show ?thesis using assms(1) by (auto simp: worker_inv_nonblocking)
  next
    case (Some p)
    then have new: "heap w p = None" using fresh by simp
    show ?thesis
    proof (cases "ci_add i < 0")
      case True
      then have "recv_conn w i = Ok (w\<lparr> nonblocking := nb - {r} \<rparr>, True)"
        using recv nn r(3) Some new fun_upd_triv [of "heap w" p]
        by (auto simp: recv_conn_def Let_def close_fd_def fds_insert_remove nb_def)
      then show ?thesis using assms(1) by (auto simp: worker_inv_nonblocking)
    next
      case False
      then have "recv_conn w i = Ok (w\<lparr> fds := insert r (fds w), nonblocking := nb,
         heap := (heap w)(p := Some (calloc_conn r)), interest := (interest w)(r := Some (ConnPtr p)) \<rparr>, True)"
        using recv nn Some by (simp add: recv_conn_def Let_def nb_def)
      moreover have "heap w \<subseteq>\<^sub>m (heap w)(p := Some (calloc_conn r))" using new by (auto simp: map_le_def)
      ultimately show ?thesis using worker_inv_new_conn [OF assms(1) r(3) new nn] by auto
    qed
  qed
qed


text \<open>The control loop: connections come, none goes.\<close>

definition grows_from :: "int set \<Rightarrow> worker \<Rightarrow> worker \<Rightarrow> bool" where
  "grows_from base w0 w \<longleftrightarrow> worker_inv base w \<and> heap w0 \<subseteq>\<^sub>m heap w"

interpretation ctl: guarded_step recv_conn "grows_from base w0" ctl_ok
proof
  fix w i w' go
  assume w: "grows_from base w0 w" "ctl_ok w i"
  then obtain w1 g where w1: "recv_conn w i = Ok (w1, g)" "worker_inv base w1" "heap w \<subseteq>\<^sub>m heap w1"
    using recv_conn_result unfolding grows_from_def by blast
  then show "\<not> faults (recv_conn w i)" by simp
  assume "recv_conn w i = Ok (w', go)"
  then show "grows_from base w0 w'"
    using w w1 map_le_trans [of "heap w0" "heap w" "heap w1"] by (simp add: grows_from_def)
qed

lemma drain_control_result:
  assumes "worker_inv base w" "inputs_ok ctl_ok recv_conn w ins"
  shows "\<not> faults (drain_control w ins)"
    and "drain_control w ins = Ok w' \<Longrightarrow> worker_inv base w' \<and> heap w \<subseteq>\<^sub>m heap w'"
proof -
  have start: "grows_from base w w" using assms(1) by (simp add: grows_from_def)
  show "\<not> faults (drain_control w ins)"
    using ctl.run_safe [OF start assms(2)] by (auto simp: drain_control_def)
  show "drain_control w ins = Ok w' \<Longrightarrow> worker_inv base w' \<and> heap w \<subseteq>\<^sub>m heap w'"
    using ctl.run_inv [OF start assms(2)]
    by (auto simp: drain_control_def grows_from_def split: if_splits)
qed

text \<open>What the kernel answers while an event is handled keeps its promises.\<close>

definition answers_ok :: "worker \<Rightarrow> event \<Rightarrow> bool" where
  "answers_ok w e \<longleftrightarrow> read_bounded (ev_read e)
     \<and> (ev_data e = ControlMarker \<longrightarrow> inputs_ok ctl_ok recv_conn w (ev_ctl e))"

definition event_ok :: "worker \<Rightarrow> event \<Rightarrow> bool" where
  "event_ok w e \<longleftrightarrow> answers_ok w e \<and> (\<forall>p. ev_data e = ConnPtr p \<longrightarrow> p \<in> dom (heap w))"

lemma handle_event_result:
  assumes "worker_inv base w" "event_ok w e"
  shows "\<not> faults (handle_event root w e)"
    and "handle_event root w e = Ok (w', go) \<Longrightarrow>
      go \<and> worker_inv base w' \<and> (\<forall>q \<in> dom (heap w). ev_data e \<noteq> ConnPtr q \<longrightarrow> q \<in> dom (heap w'))"
proof -
  note a = assms(2)[unfolded event_ok_def answers_ok_def]
  show "\<not> faults (handle_event root w e)"
    and "handle_event root w e = Ok (w', go) \<Longrightarrow>
      go \<and> worker_inv base w' \<and> (\<forall>q \<in> dom (heap w). ev_data e \<noteq> ConnPtr q \<longrightarrow> q \<in> dom (heap w'))"
  proof (atomize(full), cases "ev_data e")
    case ControlMarker
    then have "inputs_ok ctl_ok recv_conn w (ev_ctl e)" using a by simp
    note d = drain_control_result [OF assms(1) this]
    show "\<not> faults (handle_event root w e) \<and> (handle_event root w e = Ok (w', go) \<longrightarrow>
      go \<and> worker_inv base w' \<and> (\<forall>q \<in> dom (heap w). ev_data e \<noteq> ConnPtr q \<longrightarrow> q \<in> dom (heap w')))"
      using ControlMarker d map_le_implies_dom_le by (fastforce simp: handle_event_def)
  next
    case (ConnPtr p)
    then obtain c where c: "heap w p = Some c" using a by blast
    obtain w1 where w1: "conn_close p w = Ok w1" "worker_inv base w1" "heap w1 = (heap w)(p := None)"
      using conn_close_result [OF assms(1) c] by blast
    have rd: "read_bounded (ev_read e)" using a by simp
    note r = handle_read_result [OF assms(1) c rd, where root = root and env = "ev_env e"]
    show "\<not> faults (handle_event root w e) \<and> (handle_event root w e = Ok (w', go) \<longrightarrow>
      go \<and> worker_inv base w' \<and> (\<forall>q \<in> dom (heap w). ev_data e \<noteq> ConnPtr q \<longrightarrow> q \<in> dom (heap w')))"
    proof (cases "ev_events e AND (EPOLLHUP OR EPOLLERR OR EPOLLRDHUP) = 0 \<and> ev_events e AND EPOLLIN \<noteq> 0")
      case True
      then have "handle_event root w e =
          and_then (handle_read root (ev_env e) (ev_read e) p w) (\<lambda>w'. Ok (w', True))"
        using ConnPtr by (simp add: handle_event_def)
      then show ?thesis using r ConnPtr by (auto simp: dom_def)
    next
      case False
      then have "handle_event root w e = Ok (w1, True) \<or> handle_event root w e = Ok (w, True)"
        using ConnPtr w1 by (auto simp: handle_event_def)
      then show ?thesis using w1 assms(1) ConnPtr by auto
    qed
  qed
qed

interpretation ev: guarded_step "handle_event root" "worker_inv base" event_ok
  by unfold_locales (use handle_event_result in blast)+

text \<open>
  The kernel's promise on one \<open>epoll_wait\<close>: each registered datum at most once, and only registered
  ones.
\<close>

definition batch_ok :: "string \<Rightarrow> worker \<Rightarrow> event list \<Rightarrow> bool" where
  "batch_ok root w evs \<longleftrightarrow>
     distinct (map ev_data evs) \<and> (\<forall>e \<in> set evs. Some (ev_data e) \<in> range (interest w))
     \<and> inputs_ok answers_ok (handle_event root) w evs"

text \<open>No event of a batch is handled on an object that an earlier one has freed.\<close>

lemma batch_live:
  assumes "worker_inv base w" "distinct (map ev_data evs)"
    "\<forall>e \<in> set evs. \<forall>p. ev_data e = ConnPtr p \<longrightarrow> p \<in> dom (heap w)"
    "inputs_ok answers_ok (handle_event root) w evs"
  shows "inputs_ok event_ok (handle_event root) w evs"
  using assms
proof (induction evs arbitrary: w)
  case Nil
  then show ?case by simp
next
  case (Cons e evs)
  have e: "event_ok w e" using Cons.prems(3,4) by (auto simp: event_ok_def)
  show ?case
  proof (cases "handle_event root w e")
    case (Ok a)
    then obtain w' go where w': "handle_event root w e = Ok (w', go)" by (cases a) auto
    note r = handle_event_result(2) [OF Cons.prems(1) e w']
    have "inputs_ok event_ok (handle_event root) w' evs"
    proof (rule Cons.IH)
      show "worker_inv base w'" using r by simp
      show "distinct (map ev_data evs)" using Cons.prems(2) by simp
      show "\<forall>e' \<in> set evs. \<forall>p. ev_data e' = ConnPtr p \<longrightarrow> p \<in> dom (heap w')"
      proof (intro ballI allI impI)
        fix e' p assume e': "e' \<in> set evs" "ev_data e' = ConnPtr p"
        then have "ev_data e \<noteq> ConnPtr p" using Cons.prems(2) by force
        moreover have "p \<in> dom (heap w)" using Cons.prems(3) e' by auto
        ultimately show "p \<in> dom (heap w')" using r by blast
      qed
      show "inputs_ok answers_ok (handle_event root) w' evs" using Cons.prems(4) w' r by simp
    qed
    then show ?thesis using e w' r by simp
  qed (use e in simp_all)
qed

lemma batch_events_ok:
  assumes "worker_inv base w" "batch_ok root w evs"
  shows "inputs_ok event_ok (handle_event root) w evs"
proof (rule batch_live [OF assms(1)])
  show "\<forall>e \<in> set evs. \<forall>p. ev_data e = ConnPtr p \<longrightarrow> p \<in> dom (heap w)"
  proof (intro ballI allI impI)
    fix e p assume "e \<in> set evs" "ev_data e = ConnPtr p"
    then obtain fd where "interest w fd = Some (ConnPtr p)"
      using assms(2) unfolding batch_ok_def by (metis imageE)
    then show "p \<in> dom (heap w)" using worker_invD(1) [OF assms(1)] by blast
  qed
qed (use assms(2) in \<open>simp_all add: batch_ok_def\<close>)

definition round_ok :: "string \<Rightarrow> worker \<Rightarrow> bool \<times> wait_res \<Rightarrow> bool" where
  "round_ok root w r \<longleftrightarrow> (\<forall>evs. snd r = WaitEvents evs \<longrightarrow> batch_ok root w evs)"

interpretation main: guarded_step "worker_round root" "worker_inv base" "round_ok root"
proof
  fix w r w' go
  assume a: "worker_inv base w" "round_ok root w r"
  have evs: "inputs_ok event_ok (handle_event root) w evs" if "snd r = WaitEvents evs" for evs
    using a that by (intro batch_events_ok) (auto simp: round_ok_def)
  show "\<not> faults (worker_round root w r)"
    using ev.run_safe [OF a(1) evs] by (cases r) (auto simp: worker_round_def split: wait_res.splits)
  assume "worker_round root w r = Ok (w', go)"
  then show "worker_inv base w'"
    using ev.run_inv [OF a(1) evs] a(1)
    by (cases r) (auto simp: worker_round_def split: wait_res.splits if_splits)
qed


section \<open>One read, case by case\<close>

text \<open>The connection after \<open>s\<close> has arrived.\<close>

definition received :: "conn \<Rightarrow> string \<Rightarrow> conn" where
  "received c s = c\<lparr> c_rbuf := store_bytes (c_rbuf c) (unat (c_rlen c)) s,
                    c_rlen := c_rlen c + of_nat (length s) \<rparr>"

definition parsed :: "conn \<Rightarrow> http_req option" where
  "parsed c = http_try_parse_request (c_rbuf c) (unat (c_rlen c))"

lemma received_simps [simp]:
  "c_fd (received c s) = c_fd c" "c_keep_alive (received c s) = c_keep_alive c"
  "c_rbuf (received c s) = store_bytes (c_rbuf c) (unat (c_rlen c)) s"
  by (simp_all add: received_def)

lemma received_length:
  "conn_ok c \<Longrightarrow> length s \<le> 8191 - unat (c_rlen c) \<Longrightarrow> unat (c_rlen (received c s)) = unat (c_rlen c) + length s"
  by (auto simp: received_def conn_ok_def rlen_after)

lemma read_once_bytes:
  assumes "conn_ok c" "rd (8191 - unat (c_rlen c)) = RdBytes s" "s \<noteq> []" "unat (c_rlen c) + length s \<le> 8191"
  shows "read_once root env rd c =
     (if unat (c_rlen c) + length s = 8191 then Ok (drop_keep_alive (received c s), [])
      else case parsed (received c s) of
             None \<Rightarrow> Ok (received c s, [])
           | Some req \<Rightarrow> serve_request root env (received c s) req)"
proof -
  have n: "unat (c_rlen c) < 8191" using assms(1) by (simp add: conn_ok_def)
  have len: "unat (c_rlen c + of_nat (length s)) = unat (c_rlen c) + length s"
    using assms(4) by (simp add: rlen_after)
  then have full: "(8191 \<le> c_rlen c + of_nat (length s)) = (unat (c_rlen c) + length s = 8191)"
    using assms(4) by (simp add: buffer_full_iff)
  show ?thesis using assms(2-4) count_asked [OF n] full len
    by (simp add: read_once_def Let_def received_def parsed_def split: option.split)
qed

lemma read_once_other:
  assumes "conn_ok c"
  shows "rd (8191 - unat (c_rlen c)) = RdBytes [] \<Longrightarrow> read_once root env rd c = Ok (drop_keep_alive c, [])"
    and "rd (8191 - unat (c_rlen c)) = RdAgain \<Longrightarrow> read_once root env rd c = Ok (c, [])"
    and "rd (8191 - unat (c_rlen c)) = RdErr \<Longrightarrow> read_once root env rd c = Ok (drop_keep_alive c, [])"
  using assms count_asked [of "c_rlen c"] by (simp_all add: read_once_def conn_ok_def)

text \<open>The static server's result is 0 or -1.\<close>

lemma send_static_ret:
  "http_send_static_file env fd root url ka = Some (ret, log) \<Longrightarrow> ret = 0 \<or> ret = -1"
  by (auto simp: http_send_static_file_def Let_def split: if_splits option.splits bool.splits)

lemma serve_request_GET:
  assumes "req_method req = ''GET''" "unat (c_rlen c) < 8191" "header_bytes req \<le> unat (c_rlen c)"
    and "http_send_static_file env (c_fd c) root (path req) (req_keep_alive req) = Some (ret, log)"
  shows "\<exists>c'. serve_request root env c req = Ok (c', log) \<and> c_rlen c' = 0 \<and> c_fd c' = c_fd c
     \<and> c_keep_alive c' = (req_keep_alive req \<and> ret = 0)"
proof -
  have "unat (c_rlen c - of_nat (header_bytes req)) = unat (c_rlen c) - header_bytes req"
    by (rule remain_after) (rule assms(3))
  then show ?thesis using assms send_static_ret [OF assms(4)]
    by (auto simp: serve_request_def Let_def)
qed

text \<open>A connection at the start of a request, as the examples use it.\<close>

lemma received_fresh:
  assumes "length s < 8191"
  shows "parsed (received (calloc_conn fd) s) = http_try_parse_request (s @ replicate (RECV_BUF - length s) NUL) (length s)"
proof -
  have "c_rlen (calloc_conn fd) = 0" by (simp add: calloc_conn_def)
  then have "unat (c_rlen (received (calloc_conn fd) s)) = length s"
    using received_length [of "calloc_conn fd" s] assms by simp
  then show ?thesis by (simp add: parsed_def calloc_conn_def store_bytes_def)
qed


section \<open>Properties\<close>

text \<open>The state in which a worker enters its main loop.\<close>

definition worker_start :: "int \<Rightarrow> int set \<Rightarrow> int \<Rightarrow> worker" where
  "worker_start cfd open_fds create =
     \<lparr> heap = (\<lambda>p. None), interest = (\<lambda>fd. None)(cfd := Some ControlMarker),
       fds = insert create (insert cfd open_fds), nonblocking = {},
       ep_fd = create, control_fd = cfd, out = [] \<rparr>"

lemma worker_start_inv:
  "cfd \<notin> open_fds \<Longrightarrow> create \<notin> open_fds \<Longrightarrow> worker_inv open_fds (worker_start cfd open_fds create)"
  by (auto simp: worker_inv_def worker_start_def conns_ok_def conn_fds_def)

text \<open>C1: A worker never uses a freed connection, never touches a byte outside a receive buffer, and
  loses no descriptor: from its start, through any rounds in which the kernel keeps its promises
  (\<open>epoll_wait\<close> reports registered data, each at most once; \<open>read\<close> writes at most what it was asked
  for; received descriptors and new addresses are fresh), no step faults, and in the end the open
  descriptors are exactly the inherited ones, those of the live connections and, while the main loop
  runs, the epoll and control descriptors.\<close>

theorem worker_run_safe:
  assumes "cfd \<notin> open_fds" "create \<notin> open_fds" "0 \<le> create" "0 \<le> add"
    and "inputs_ok (round_ok root) (worker_round root) (worker_start cfd open_fds create) rounds"
  shows "\<not> faults (forge_run_worker root cfd open_fds create add rounds) \<and>
     (\<forall>w running. forge_run_worker root cfd open_fds create add rounds = Ok (Inr (w, running)) \<longrightarrow>
        conns_ok open_fds w \<and>
        fds w = open_fds \<union> conn_fds (heap w) \<union> (if running then {ep_fd w, control_fd w} else {}))"
proof -
  let ?w0 = "worker_start cfd open_fds create"
  have inv0: "worker_inv open_fds ?w0" using assms(1,2) by (rule worker_start_inv)
  have eq: "forge_run_worker root cfd open_fds create add rounds =
      and_then (run_steps (worker_round root) ?w0 rounds) (\<lambda>(w, running).
         if running then Ok (Inr (w, True))
         else Ok (Inr (close_fd (ep_fd w) (close_fd (control_fd w) w), False)))"
    using assms(3,4) by (simp add: forge_run_worker_def worker_start_def)
  have "\<not> faults (run_steps (worker_round root) ?w0 rounds)"
    by (rule main.run_safe [OF inv0 assms(5)])
  moreover have "conns_ok open_fds w \<and>
      fds w = open_fds \<union> conn_fds (heap w) \<union> (if running then {ep_fd w, control_fd w} else {})"
    if run: "forge_run_worker root cfd open_fds create add rounds = Ok (Inr (w, running))" for w running
  proof -
    from run obtain w1 go where w1: "run_steps (worker_round root) ?w0 rounds = Ok (w1, go)"
      "running = go" "w = (if go then w1 else close_fd (ep_fd w1) (close_fd (control_fd w1) w1))"
      unfolding eq by (auto split: if_splits)
    have inv: "worker_inv open_fds w1" by (rule main.run_inv [OF inv0 assms(5) w1(1)])
    have off: "ep_fd w1 \<notin> conn_fds (heap w1)" "control_fd w1 \<notin> conn_fds (heap w1)"
      using conns_okD(3) [OF worker_invD(3) [OF inv]] by (auto elim!: conn_fdsE)
    show ?thesis using worker_invD(3,4) [OF inv] off w1
      by (auto simp: conns_ok_def close_fd_def)
  qed
  ultimately show ?thesis unfolding eq by (auto simp: faults_def)
qed

text \<open>A run in which a connection arrives and the client hangs up.\<close>

definition example_rounds :: "(bool \<times> wait_res) list" where
  "example_rounds =
     [(False, WaitEvents [\<lparr> ev_data = ControlMarker, ev_events = 1,
         ev_ctl = [\<lparr> ci_msg = delivers (sent_msg 9) 12, ci_getfl = (\<lambda>fd. 2), ci_setfl = (\<lambda>fd fl. 0),
                     ci_calloc = Some 0, ci_add = 0 \<rparr>,
                   \<lparr> ci_msg = (-1, sent_msg 0), ci_getfl = (\<lambda>fd. 2), ci_setfl = (\<lambda>fd fl. 0),
                     ci_calloc = None, ci_add = 0 \<rparr>],
         ev_read = (\<lambda>n. RdAgain), ev_env = \<lparr> e_open = \<lambda>p. -1, e_fstat = \<lambda>f. None, e_write = \<lambda>s. 0, e_sendfile = [] \<rparr> \<rparr>]),
      (False, WaitEvents [\<lparr> ev_data = ConnPtr 0, ev_events = 0x11, ev_ctl = [], ev_read = (\<lambda>n. RdAgain),
         ev_env = \<lparr> e_open = \<lambda>p. -1, e_fstat = \<lambda>f. None, e_write = \<lambda>s. 0, e_sendfile = [] \<rparr> \<rparr>]),
      (True, WaitIntr)]"

lemma example_recv: "forge_recv_fd (delivers (sent_msg 9) 12) = 12" "forge_recv_fd (-1, sent_msg 0) = -1"
  by (simp_all add: scm.recv_carry scm.recv_none valid_fd_def no_descriptor_def)

lemmas example_simps = forge_set_nonblock_def worker_round_def handle_event_def drain_control_def
  recv_conn_def example_recv conn_close_def close_fd_def Let_def EPOLLHUP_def EPOLLERR_def EPOLLRDHUP_def

lemma example_ok:
  "inputs_ok (round_ok root) (worker_round root) (worker_start 4 {0, 1, 2} 5) example_rounds"
proof -
  have c: "ctl_ok w \<lparr> ci_msg = delivers (sent_msg 9) 12, ci_getfl = g, ci_setfl = s, ci_calloc = Some 0, ci_add = 0 \<rparr>"
    if "12 \<notin> fds w" "heap w 0 = None" for w g s
    using that by (auto simp: ctl_ok_def valid_fd_def)
  have n: "ctl_ok w \<lparr> ci_msg = (-1, sent_msg 0), ci_getfl = g, ci_setfl = s, ci_calloc = None, ci_add = 0 \<rparr>" for w g s
    by (simp add: ctl_ok_def no_descriptor_def)
  have r: "Some ControlMarker \<in> range ((\<lambda>fd. None)(4 := Some ControlMarker))"
    "Some (ConnPtr 0) \<in> range ((\<lambda>fd. None)(4 := Some ControlMarker, 12 := Some (ConnPtr 0)))"
    by (force intro: range_eqI [of _ _ 4] range_eqI [of _ _ 12])+
  show ?thesis
    by (simp add: example_rounds_def worker_start_def round_ok_def batch_ok_def answers_ok_def
        read_bounded_def example_simps c n r)
qed

theorem worker_run_safe_witness:
  "\<not> faults (forge_run_worker ''/srv'' 4 {0, 1, 2} 5 0 example_rounds)"
  using worker_run_safe [OF _ _ _ _ example_ok, of 0] by simp


text \<open>C7: How the network cuts a request into pieces does not matter: reading \<open>s\<close>, which completes no
  request, and then \<open>t\<close> has the same result (the same response, the same buffer, the same decision to
  keep the connection) as reading \<open>s\<close> and \<open>t\<close> at once.\<close>

theorem read_fragments:
  assumes "conn_ok c" "s \<noteq> []" "t \<noteq> []" "unat (c_rlen c) + length s + length t \<le> 8191"
    and "http_try_parse_request (store_bytes (c_rbuf c) (unat (c_rlen c)) s) (unat (c_rlen c) + length s) = None"
  shows "and_then (read_once root env (\<lambda>n. RdBytes s) c) (\<lambda>(c', log). read_once root env' (\<lambda>n. RdBytes t) c')
      = read_once root env' (\<lambda>n. RdBytes (s @ t)) c"
proof -
  let ?n = "unat (c_rlen c)"
  let ?c1 = "received c s"
  have short: "?n + length s < 8191" using assms(3,4) by (cases t) auto
  have len1: "unat (c_rlen ?c1) = ?n + length s"
    using received_length [OF assms(1), of s] assms(4) by simp
  have "parsed ?c1 = None" using assms(5) len1 by (simp add: parsed_def)
  then have first: "read_once root env (\<lambda>n. RdBytes s) c = Ok (?c1, [])"
    using read_once_bytes [OF assms(1), where s = s and rd = "\<lambda>n. RdBytes s"] assms(2) short by simp
  have buf: "buffer_ok ?c1"
    unfolding received_def by (rule stored_ok [OF assms(1)]) (use assms(4) in simp)
  then have ok1: "conn_ok ?c1" using assms(1) len1 short by (simp add: conn_ok_def)
  have "?n + length s + length t \<le> length (c_rbuf c)"
    using assms(1,4) by (simp add: conn_ok_def buffer_ok_def)
  then have "store_bytes (c_rbuf ?c1) (unat (c_rlen ?c1)) t = store_bytes (c_rbuf c) ?n (s @ t)"
    using len1 by (simp add: store_bytes_twice)
  then have "received ?c1 t = received c (s @ t)"
    by (simp add: received_def add.assoc)
  then show ?thesis
    using first read_once_bytes [OF ok1, where s = t and rd = "\<lambda>n. RdBytes t"]
      read_once_bytes [OF assms(1), where s = "s @ t" and rd = "\<lambda>n. RdBytes (s @ t)"] assms(3,4) len1
    by (simp add: add.assoc split: option.split)
qed

lemma fragment_example:
  "http_try_parse_request (''GET / HT'' @ replicate 8184 NUL) 8 = None"
  by (simp add: http_try_parse_request_def find_end_step blank_ends_at_def)

theorem read_fragments_witness:
  "and_then (read_once ''/srv'' no_files (\<lambda>n. RdBytes ''GET / HT'') (calloc_conn 7))
     (\<lambda>(c', log). read_once ''/srv'' no_files (\<lambda>n. RdBytes ''TP/1.1'') c')
   = read_once ''/srv'' no_files (\<lambda>n. RdBytes (''GET / HT'' @ ''TP/1.1'')) (calloc_conn 7)"
proof (rule read_fragments)
  have n: "unat (c_rlen (calloc_conn 7)) = 0" by (simp add: calloc_conn_def)
  have b: "store_bytes (c_rbuf (calloc_conn 7)) 0 ''GET / HT'' = ''GET / HT'' @ replicate 8184 NUL"
    by (simp add: store_bytes_def calloc_conn_def)
  have l: "length ''GET / HT'' = 8" by simp
  show "http_try_parse_request (store_bytes (c_rbuf (calloc_conn 7)) (unat (c_rlen (calloc_conn 7))) ''GET / HT'')
     (unat (c_rlen (calloc_conn 7)) + length ''GET / HT'') = None"
    unfolding n b l by (simp only: add_0 fragment_example)
  show "unat (c_rlen (calloc_conn 7)) + length ''GET / HT'' + length ''TP/1.1'' \<le> 8191"
    unfolding n by simp
qed simp_all

text \<open>C8: When a connection survives a read, exactly: nothing was available; or bytes came that leave
  the buffer room and complete no request; or they complete a GET request that asks to keep the
  connection and whose file was sent to the end.  In every other case (end of stream, error, buffer
  full, another method, \<open>Connection: close\<close>, a file that cannot be served) it is closed.\<close>

theorem connection_survives_iff:
  assumes "conn_ok c" "read_bounded rd" "read_once root env rd c = Ok (c', log)"
  shows "c_keep_alive c' \<longleftrightarrow>
     (case rd (8191 - unat (c_rlen c)) of
        RdAgain \<Rightarrow> True
      | RdErr \<Rightarrow> False
      | RdBytes s \<Rightarrow> s \<noteq> [] \<and> unat (c_rlen c) + length s < 8191 \<and>
          (case parsed (received c s) of
             None \<Rightarrow> True
           | Some req \<Rightarrow> req_method req = ''GET'' \<and> req_keep_alive req \<and>
               (\<exists>sent. http_send_static_file env (c_fd c) root (path req) True = Some (0, sent))))"
proof (cases "rd (8191 - unat (c_rlen c))")
  case (RdBytes s)
  have keep: "c_keep_alive c" and n: "unat (c_rlen c) < 8191" using assms(1) by (simp_all add: conn_ok_def)
  have "length s \<le> 8191 - unat (c_rlen c)" using assms(2) RdBytes by (auto simp: read_bounded_def)
  then have s: "unat (c_rlen c) + length s \<le> 8191" using n by simp
  show ?thesis
  proof (cases "s = [] \<or> unat (c_rlen c) + length s = 8191 \<or> parsed (received c s) = None")
    case True
    then show ?thesis
      using assms(3) RdBytes s keep read_once_bytes [where rd = rd and s = s and root = root and env = env, OF assms(1) RdBytes _ s]
        read_once_other(1) [where rd = rd and root = root and env = env, OF assms(1)]
      by (cases "s = []") (auto split: if_splits)
  next
    case False
    then obtain req where req: "parsed (received c s) = Some req" by blast
    have len: "unat (c_rlen (received c s)) = unat (c_rlen c) + length s"
      using received_length [OF assms(1)] s by simp
    then have hb: "header_bytes req \<le> unat (c_rlen (received c s))"
      using req find_end_header_bytes by (simp add: parsed_def)
    have lt: "unat (c_rlen (received c s)) < 8191" using False s len by simp
    have serve: "serve_request root env (received c s) req = Ok (c', log)"
      using assms(3) False req read_once_bytes [where rd = rd and s = s and root = root and env = env, OF assms(1) RdBytes _ s]
      by simp
    show ?thesis
    proof (cases "req_method req = ''GET''")
      case False
      then show ?thesis using serve req RdBytes by (auto simp: serve_request_def)
    next
      case True
      then obtain ret sent where send:
        "http_send_static_file env (c_fd c) root (path req) (req_keep_alive req) = Some (ret, sent)"
        using serve by (fastforce simp: serve_request_def Let_def split: option.splits)
      then have "c_keep_alive c' = (req_keep_alive req \<and> ret = 0)"
        using serve_request_GET [OF True lt hb, of env root ret sent] serve by auto
      then show ?thesis using send RdBytes req True False s by auto
    qed
  qed
qed (use assms(1,3) read_once_other(2,3) [where rd = rd and root = root and env = env, OF assms(1)]
     in \<open>auto simp: conn_ok_def\<close>)

theorem connection_survives_iff_witness:
  "c_keep_alive (calloc_conn 7) \<and> read_once ''/srv'' no_files (\<lambda>n. RdAgain) (calloc_conn 7) = Ok (calloc_conn 7, [])"
proof -
  have r: "read_once ''/srv'' no_files (\<lambda>n. RdAgain) (calloc_conn 7) = Ok (calloc_conn 7, [])"
    by (rule read_once_other(2)) simp_all
  then show ?thesis using connection_survives_iff [OF _ _ r] by (simp add: read_bounded_def)
qed


text \<open>Pipelined requests are lost: when a GET request is complete and its file is sent, the buffer
  is declared empty, so bytes that arrived with the request and lie behind its headers (a second
  request) are never parsed; the log is that of the first request alone.\<close>

lemma pipelined_bytes_dropped:
  assumes "conn_ok c" "rd (8191 - unat (c_rlen c)) = RdBytes s" "s \<noteq> []" "unat (c_rlen c) + length s < 8191"
    and "parsed (received c s) = Some req" "req_method req = ''GET''"
    and "http_send_static_file env (c_fd c) root (path req) (req_keep_alive req) = Some (ret, log)"
  shows "\<exists>c'. read_once root env rd c = Ok (c', log) \<and> c_rlen c' = 0"
proof -
  have s: "unat (c_rlen c) + length s \<le> 8191" using assms(4) by simp
  have len: "unat (c_rlen (received c s)) = unat (c_rlen c) + length s"
    using received_length [OF assms(1)] s by simp
  have hb: "header_bytes req \<le> unat (c_rlen (received c s))"
    using assms(5) find_end_header_bytes by (simp add: parsed_def)
  have "read_once root env rd c = serve_request root env (received c s) req"
    using read_once_bytes [where rd = rd and s = s and root = root and env = env, OF assms(1-3) s] assms(4,5)
    by simp
  then show ?thesis
    using serve_request_GET [OF assms(6) _ hb, of env root ret log] assms(4,7) len by auto
qed

definition two_gets :: string where
  "two_gets = ''GET / HTTP/1.1'' @ CRLF @ CRLF @ ''GET /b HTTP/1.1'' @ CRLF @ CRLF"

lemma two_gets_parsed:
  "http_try_parse_request (two_gets @ z) 37 = Some
     \<lparr> req_method = ''GET'', path = ''/'', version = ''HTTP/1.1'', req_keep_alive = True, header_bytes = 18 \<rparr>"
proof -
  have t: "token 7 ''GET''" "token 1023 ''/''" "token 15 ''HTTP/1.1''" "\<forall>h \<in> set []. header_line h"
    by (simp_all add: token_def isspace_def)
  have e: "two_gets @ z = request_text ''GET'' ''/'' ''HTTP/1.1'' [] @ ''GET /b HTTP/1.1'' @ CRLF @ CRLF @ z"
    by (simp add: two_gets_def request_text_def)
  obtain r where r: "http_try_parse_request (two_gets @ z) 37 = Some r"
    "req_method r = ''GET''" "path r = ''/''" "version r = ''HTTP/1.1''" "header_bytes r = 18"
    using request_text_parsed [OF t, of 37 "''GET /b HTTP/1.1'' @ CRLF @ CRLF @ z"]
    unfolding e by (auto simp: request_text_def)
  have "req_keep_alive r"
    using keep_alive_fold [OF r(1)] request_line_end [OF t(1-3), of "[]" "''GET /b HTTP/1.1'' @ CRLF @ CRLF @ z"] r(4,5)
    unfolding e by (simp add: upt_rec request_text_def connection_value_def clib)
  with r show ?thesis by simp
qed

lemma pipelined_bytes_dropped_witness:
  "\<exists>c'. read_once ''/srv'' \<lparr> e_open = \<lambda>p. -1, e_fstat = \<lambda>f. None, e_write = \<lambda>s. int (length s), e_sendfile = [] \<rparr>
        (\<lambda>n. RdBytes two_gets) (calloc_conn 7)
      = Ok (c', [OpenFile ''/srv/index.html'' (-1), WriteTo 7 (text_404 True) (int (length (text_404 True)))])
      \<and> c_rlen c' = 0"
proof -
  have l: "length two_gets = 37" by (simp add: two_gets_def)
  then have p: "parsed (received (calloc_conn 7) two_gets) = Some
     \<lparr> req_method = ''GET'', path = ''/'', version = ''HTTP/1.1'', req_keep_alive = True, header_bytes = 18 \<rparr>"
    using received_fresh [of two_gets 7] by (simp add: two_gets_parsed)
  have n: "unat (c_rlen (calloc_conn 7)) = 0" by (simp add: calloc_conn_def)
  have "two_gets \<noteq> []" by (simp add: two_gets_def)
  moreover have "http_send_static_file
     \<lparr> e_open = \<lambda>p. -1, e_fstat = \<lambda>f. None, e_write = \<lambda>s. int (length s), e_sendfile = [] \<rparr> 7 ''/srv'' ''/'' True
     = Some (-1, [OpenFile ''/srv/index.html'' (-1), WriteTo 7 (text_404 True) (int (length (text_404 True)))])"
    by (simp add: http_send_static_file_def http_path_has_dotdot_def fs_path_def snprintf_def send_404_log Let_def)
  ultimately show ?thesis
    by (intro pipelined_bytes_dropped [OF _ _ _ _ p]) (simp_all add: l n)
qed

text \<open>The 404 response contradicts what the server then does: a complete GET request that asks to
  keep the connection, for a file that cannot be served, is answered \<open>Connection: keep-alive\<close>, and the
  connection is closed.\<close>

lemma missing_file_closes_keep_alive:
  assumes "conn_ok c" "rd (8191 - unat (c_rlen c)) = RdBytes s" "s \<noteq> []" "unat (c_rlen c) + length s < 8191"
    and "parsed (received c s) = Some req" "req_method req = ''GET''" "req_keep_alive req"
    and "http_path_has_dotdot (path req) \<or> e_open env (fs_path root (path req)) < 0
      \<or> (\<forall>n. e_fstat env (e_open env (fs_path root (path req))) \<noteq> Some (True, n))"
    and "\<forall>s. e_write env s = int (length s)"
  shows "\<exists>c' log. read_once root env rd c = Ok (c', log) \<and> wire [] log = text_404 True
      \<and> strstr (wire [] log) ''Connection: keep-alive'' \<noteq> None \<and> \<not> c_keep_alive c'"
proof -
  have s: "unat (c_rlen c) + length s \<le> 8191" using assms(4) by simp
  have len: "unat (c_rlen (received c s)) = unat (c_rlen c) + length s"
    using received_length [OF assms(1)] s by simp
  have hb: "header_bytes req \<le> unat (c_rlen (received c s))"
    using assms(5) find_end_header_bytes by (simp add: parsed_def)
  have once: "read_once root env rd c = serve_request root env (received c s) req"
    using read_once_bytes [where rd = rd and s = s and root = root and env = env, OF assms(1-3) s] assms(4,5)
    by simp
  obtain pre where send: "http_send_static_file env (c_fd c) root (path req) (req_keep_alive req)
      = Some (-1, pre @ http_send_404 env (c_fd c) True)" "wire [] pre = []"
    using send_static_refused [OF assms(8), where fd = "c_fd c" and ka = True and content = "[]"] assms(7)
    by auto
  obtain c' where "read_once root env rd c = Ok (c', pre @ http_send_404 env (c_fd c) True)" "\<not> c_keep_alive c'"
    using serve_request_GET [OF assms(6) _ hb, of env root] assms(4) len send(1) once by auto
  moreover have "wire [] (pre @ http_send_404 env (c_fd c) True) = text_404 True"
    using send(2) assms(9) by (simp add: send_404_log)
  moreover have "strstr (text_404 True) ''Connection: keep-alive'' \<noteq> None"
    by (simp add: text_404_def connection_text_def)
  ultimately show ?thesis by metis
qed

lemma missing_file_closes_keep_alive_witness:
  "\<exists>c' log. read_once ''/srv''
      \<lparr> e_open = \<lambda>p. -1, e_fstat = \<lambda>f. None, e_write = \<lambda>s. int (length s), e_sendfile = [] \<rparr>
      (\<lambda>n. RdBytes two_gets) (calloc_conn 7) = Ok (c', log)
      \<and> wire [] log = text_404 True \<and> strstr (wire [] log) ''Connection: keep-alive'' \<noteq> None \<and> \<not> c_keep_alive c'"
proof -
  have l: "length two_gets = 37" by (simp add: two_gets_def)
  then have p: "parsed (received (calloc_conn 7) two_gets) = Some
     \<lparr> req_method = ''GET'', path = ''/'', version = ''HTTP/1.1'', req_keep_alive = True, header_bytes = 18 \<rparr>"
    using received_fresh [of two_gets 7] by (simp add: two_gets_parsed)
  have n: "unat (c_rlen (calloc_conn 7)) = 0" by (simp add: calloc_conn_def)
  have "two_gets \<noteq> []" by (simp add: two_gets_def)
  then show ?thesis by (intro missing_file_closes_keep_alive [OF _ _ _ _ p]) (simp_all add: l n)
qed

text \<open>A request whose headers are complete but whose request line has fewer than three words is never
  answered: the parser's \<open>false\<close> is taken for an incomplete request, so nothing is sent (in
  particular no 400), the connection stays open and its bytes stay in the buffer.\<close>

lemma malformed_request_unanswered:
  assumes "conn_ok c" "rd (8191 - unat (c_rlen c)) = RdBytes s" "s \<noteq> []" "unat (c_rlen c) + length s < 8191"
    and "find_end (store_bytes (c_rbuf c) (unat (c_rlen c)) s) (unat (c_rlen c) + length s) 3 = Some e"
    and "scan_request_line (store_bytes (c_rbuf c) (unat (c_rlen c)) s) = None"
  shows "read_once root env rd c = Ok (received c s, []) \<and> c_keep_alive (received c s)
      \<and> unat (c_rlen (received c s)) = unat (c_rlen c) + length s"
proof -
  have s: "unat (c_rlen c) + length s \<le> 8191" using assms(4) by simp
  have len: "unat (c_rlen (received c s)) = unat (c_rlen c) + length s"
    using received_length [OF assms(1)] s by simp
  have "parsed (received c s) = None"
    using assms(5,6) len by (simp add: parsed_def http_try_parse_request_def)
  then show ?thesis
    using read_once_bytes [where rd = rd and s = s and root = root and env = env, OF assms(1-3) s]
      assms(1,4) len by (simp add: conn_ok_def)
qed

definition bare_get :: string where
  "bare_get = ''GET /'' @ CRLF @ CRLF"

lemma malformed_request_unanswered_witness:
  "read_once ''/srv'' no_files (\<lambda>n. RdBytes bare_get) (calloc_conn 7) = Ok (received (calloc_conn 7) bare_get, [])"
proof -
  have l: "length bare_get = 9" "bare_get \<noteq> []" by (simp_all add: bare_get_def)
  have n: "unat (c_rlen (calloc_conn 7)) = 0" by (simp add: calloc_conn_def)
  have b: "store_bytes (c_rbuf (calloc_conn 7)) 0 bare_get = bare_get @ replicate 8183 NUL"
    by (simp add: store_bytes_def calloc_conn_def l)
  have f: "find_end (bare_get @ replicate 8183 NUL) 9 3 = Some 9"
    by (simp add: find_end_step blank_ends_at_def bare_get_def)
  have "cstr (bare_get @ replicate 8183 NUL) = bare_get"
    by (simp add: cstr_def bare_get_def)
  then have "scan_request_line (bare_get @ replicate 8183 NUL) = None"
    unfolding scan_request_line_def by (simp add: scan_str_def isspace_def bare_get_def)
  then have "read_once ''/srv'' no_files (\<lambda>n. RdBytes bare_get) (calloc_conn 7) = Ok (received (calloc_conn 7) bare_get, [])
      \<and> c_keep_alive (received (calloc_conn 7) bare_get)
      \<and> unat (c_rlen (received (calloc_conn 7) bare_get)) = unat (c_rlen (calloc_conn 7)) + length bare_get"
    by (intro malformed_request_unanswered [where e = 9]) (simp_all add: n b l f)
  then show ?thesis by blast
qed

end
