(* ===== verification/ForgeMaster.thy ===== *)
theory ForgeMaster
  imports ForgeWorker
begin

text \<open>
  The master process, \<open>src/master.c\<close>, and the program's entry, \<open>src/main.c\<close>.  The master forks the
  workers, each with a socket pair, then accepts connections and hands them out in turn.  Its state
  holds its descriptor table, the socket pairs, the workers as they were when forked, the position of
  the turn, and the log of what it sent.
\<close>

section \<open>Configuration\<close>

record cfg =
  listen_hostport :: string
  doc_root :: string
  workers :: int
  listen_fd :: int
  cfg_control_fd :: int

definition default_cfg :: cfg where
  "default_cfg = \<lparr> listen_hostport = ''0.0.0.0:8080'', doc_root = ''./public'', workers = 4,
                   listen_fd = -1, cfg_control_fd = 0 \<rparr>"

text \<open>The options as \<open>getopt\<close> returns them, one by one; \<open>None\<close> is the usage message and status 1.\<close>

fun parse_opts :: "cfg \<Rightarrow> (char \<times> string) list \<Rightarrow> cfg option" where
  "parse_opts c [] = Some c"
| "parse_opts c ((opt, optarg) # opts) =
     (if opt = CHR ''w'' then parse_opts (c\<lparr> workers := atoi optarg \<rparr>) opts
      else if opt = CHR ''l'' then parse_opts (c\<lparr> listen_hostport := optarg \<rparr>) opts
      else if opt = CHR ''r'' then parse_opts (c\<lparr> doc_root := optarg \<rparr>) opts
      else None)"

section \<open>Signals\<close>

datatype disposition = SigDefault | SigIgnored | SigHandler

definition SIGINT :: int where "SIGINT = 2"
definition SIGPIPE :: int where "SIGPIPE = 13"
definition SIGTERM :: int where "SIGTERM = 15"

text \<open>The new value of \<open>g_terminate\<close>.\<close>

definition sig_handler :: "int \<Rightarrow> bool \<Rightarrow> bool" where
  "sig_handler sig g_terminate = (if sig = SIGINT \<or> sig = SIGTERM then True else g_terminate)"

definition forge_install_signals :: "(int \<Rightarrow> disposition) \<Rightarrow> int \<Rightarrow> disposition" where
  "forge_install_signals disp =
     disp(SIGINT := SigHandler, SIGTERM := SigHandler, SIGPIPE := SigIgnored)"

section \<open>The master's state\<close>

record child =
  ch_index :: nat
  ch_fds :: "int set"
  ch_control :: int
  ch_listen :: int

record master =
  m_workers :: int
  m_listen :: int
  m_ep :: int
  m_fds :: "int set"
  m_pipes :: "(int \<times> int) list"
  m_children :: "child list"
  m_next :: int
  m_sent :: "(int \<times> int \<times> int \<times> bool) list"
  m_reaped :: nat
  m_killed :: bool

text \<open>What \<open>socketpair\<close> and \<open>fork\<close> answer in one round of the fork loop.\<close>

type_synonym fork_answer = "(int \<times> int) option \<times> int"

text \<open>What \<open>accept4\<close> answers, and \<open>sendmsg\<close> for the accepted descriptor.\<close>

type_synonym accept_answer = "acc_res \<times> int"

text \<open>What \<open>epoll_wait\<close> answers (each event with the accepts that follow), and then \<open>waitpid\<close>.\<close>

datatype master_wait = MIntr | MErr | MEvents "(int \<times> accept_answer list) list" "int list"

section \<open>The operations\<close>

text \<open>One round of the fork loop, lines 24--48.\<close>

definition fork_worker :: "master \<Rightarrow> fork_answer \<Rightarrow> die + master" where
  "fork_worker m a =
     (case a of (pair, pid) \<Rightarrow>
        (case pair of
           None \<Rightarrow> Inl SocketpairFailed
         | Some (p0, p1) \<Rightarrow>
             if pid < 0 then Inl ForkFailed
             else
               let open_fds = insert p0 (insert p1 (m_fds m));
                   child = \<lparr> ch_index = length (m_pipes m), ch_fds = open_fds - {p0} - {m_listen m},
                             ch_control = p1, ch_listen = -1 \<rparr>
               in Inr (m\<lparr> m_fds := open_fds - {p1}, m_pipes := m_pipes m @ [(p0, p1)],
                          m_children := m_children m @ [child] \<rparr>)))"

fun fork_workers :: "master \<Rightarrow> fork_answer list \<Rightarrow> die + master" where
  "fork_workers m [] = Inr m"
| "fork_workers m (a # as) =
     (case fork_worker m a of Inl e \<Rightarrow> Inl e | Inr m' \<Rightarrow> fork_workers m' as)"

text \<open>One round of the accept loop, lines 74--97; \<open>False\<close> is its \<open>break\<close>.\<close>

definition dispatch_one :: "master \<Rightarrow> accept_answer \<Rightarrow> (master \<times> bool) outcome" where
  "dispatch_one m a =
     (case a of (acc, sendres) \<Rightarrow>
        (case acc of
           AccAgain \<Rightarrow> Ok (m, False)
         | AccErr \<Rightarrow> Ok (m, False)
         | AccIntr \<Rightarrow> Ok (m, True)
         | AccFd cfd \<Rightarrow>
             let m1 = m\<lparr> m_fds := insert cfd (m_fds m) \<rparr>; target = m_next m1 in
             (case c_mod (m_next m1 + 1) (m_workers m1) of
                None \<Rightarrow> Fault DivByZero
              | Some next \<Rightarrow>
                  let m2 = m1\<lparr> m_next := next \<rparr> in
                  if target < 0 \<or> int (length (m_pipes m2)) \<le> target then Fault OutOfBounds
                  else
                    let sock = fst (m_pipes m2 ! nat target);
                        r = fst (forge_send_fd (\<lambda>s msg. sendres) sock cfd);
                        m3 = m2\<lparr> m_sent := m_sent m2 @ [(target, sock, cfd, 0 \<le> r)] \<rparr>
                    in Ok (m3\<lparr> m_fds := m_fds m3 - {cfd} \<rparr>, True))))"

text \<open>The loop over the events: those of other descriptors are skipped.\<close>

definition master_event :: "master \<Rightarrow> int \<times> accept_answer list \<Rightarrow> (master \<times> bool) outcome" where
  "master_event m e =
     (case e of (fd, accepts) \<Rightarrow>
        if fd \<noteq> m_listen m then Ok (m, True)
        else and_then (run_steps dispatch_one m accepts) (\<lambda>(m', go). if go then Hang else Ok (m', True)))"

text \<open>One round of the main loop, lines 62--104.\<close>

definition master_round :: "master \<Rightarrow> bool \<times> master_wait \<Rightarrow> (master \<times> bool) outcome" where
  "master_round m round =
     (case round of (terminate, wait) \<Rightarrow>
        if terminate then Ok (m, False)
        else
          (case wait of
             MIntr \<Rightarrow> Ok (m, True)
           | MErr \<Rightarrow> Ok (m, False)
           | MEvents evs pids \<Rightarrow>
               and_then (run_steps master_event m evs) (\<lambda>(m', _).
                 Ok (m'\<lparr> m_reaped := m_reaped m' + length (takeWhile (\<lambda>pid. 0 < pid) pids) \<rparr>, True))))"

text \<open>The end of the master, lines 106--113.\<close>

definition master_exit :: "master \<Rightarrow> master" where
  "master_exit m =
     m\<lparr> m_killed := True,
        m_fds := m_fds m - fst ` set (m_pipes m) - {m_ep m} - {m_listen m} \<rparr>"

definition forge_master_run ::
    "cfg \<Rightarrow> int set \<Rightarrow> bool \<Rightarrow> fork_answer list \<Rightarrow> int \<Rightarrow> int \<Rightarrow> (bool \<times> master_wait) list
     \<Rightarrow> (die + master \<times> bool) outcome" where
  "forge_master_run c open_fds calloc_ok forks create add rounds =
     (if workers c < 0 \<or> \<not> calloc_ok then Ok (Inl CallocFailed)
      else
        let m0 = \<lparr> m_workers = workers c, m_listen = listen_fd c, m_ep = -1, m_fds = open_fds,
                   m_pipes = [], m_children = [], m_next = 0, m_sent = [], m_reaped = 0, m_killed = False \<rparr>
        in (case fork_workers m0 (take (nat (workers c)) forks) of
              Inl e \<Rightarrow> Ok (Inl e)
            | Inr m1 \<Rightarrow>
                if create < 0 then Ok (Inl EpollCreateFailed)
                else if add < 0 then Ok (Inl EpollAddFailed)
                else
                  and_then
                    (run_steps master_round (m1\<lparr> m_ep := create, m_fds := insert create (m_fds m1) \<rparr>) rounds)
                    (\<lambda>(m, running). Ok (Inr (if running then m else master_exit m, running)))))"

text \<open>The program: status 1 for a bad option, then the listener and the master.\<close>

definition forge_main ::
    "(char \<times> string) list \<Rightarrow> net_env \<Rightarrow> int set \<Rightarrow> bool \<Rightarrow> fork_answer list \<Rightarrow> int \<Rightarrow> int
     \<Rightarrow> (bool \<times> master_wait) list \<Rightarrow> (die + master \<times> bool) outcome option" where
  "forge_main opts net open_fds calloc_ok forks create add rounds =
     (case parse_opts default_cfg opts of
        None \<Rightarrow> None
      | Some c \<Rightarrow>
          Some (case fst (forge_create_listener net (listen_hostport c)) of
                  Inl e \<Rightarrow> Ok (Inl e)
                | Inr fd \<Rightarrow>
                    forge_master_run (c\<lparr> listen_fd := fd, cfg_control_fd := -1 \<rparr>) (insert fd open_fds)
                      calloc_ok forks create add rounds))"


section \<open>The turn\<close>

text \<open>The descriptors a run of \<open>accept4\<close> gives before the loop is left.\<close>

fun accepted_fds :: "accept_answer list \<Rightarrow> int list" where
  "accepted_fds [] = []"
| "accepted_fds ((AccFd fd, r) # as) = fd # accepted_fds as"
| "accepted_fds ((AccIntr, r) # as) = accepted_fds as"
| "accepted_fds (_ # as) = []"

text \<open>The workers whose turn it is, from \<open>next\<close> on.\<close>

definition turns :: "int \<Rightarrow> int \<Rightarrow> nat \<Rightarrow> int list" where
  "turns n w k = map (\<lambda>i. (n + int i) mod w) [0..<k]"

lemma turns_0 [simp]: "turns n w 0 = []"
  by (simp add: turns_def)

lemma turns_Suc: "turns n w (Suc k) = n mod w # turns ((n + 1) mod w) w k"
proof -
  have "(n + int (Suc i)) mod w = ((n + 1) mod w + int i) mod w" for i
    by (subst mod_add_left_eq) (simp add: algebra_simps)
  then show ?thesis by (simp add: turns_def upt_conv_Cons map_Suc_upt [symmetric] del: upt_Suc)
qed

lemma turns_length [simp]: "length (turns n w k) = k"
  by (simp add: turns_def)

lemma count_list_map_eq: "count_list (map f xs) y = length (filter (\<lambda>x. f x = y) xs)"
  by (induction xs) auto

lemma mod_eq_near:
  assumes "(n + int a) mod w = (n + int b) mod w" "\<bar>int a - int b\<bar> < w"
  shows "a = b"
proof (rule ccontr)
  assume "a \<noteq> b"
  moreover have "w dvd int a - int b"
    using assms(1) mod_eq_dvd_iff [of "n + int a" w "n + int b"] by simp
  ultimately have "\<bar>w\<bar> \<le> \<bar>int a - int b\<bar>" by (intro dvd_imp_le_int) auto
  then show False using assms(2) by simp
qed

lemma count_turns_window:
  assumes "0 < w" "0 \<le> j" "j < w"
  shows "count_list (turns n w (nat w + k)) j = Suc (count_list (turns n w k) j)"
proof -
  have split: "turns n w (nat w + k) = turns n w k @ map (\<lambda>i. (n + int i) mod w) [k..<nat w + k]"
    by (simp add: turns_def upt_add_eq_append [symmetric] map_append [symmetric] add.commute del: map_append)
  define i where "i = k + nat ((j - n - int k) mod w)"
  have i: "k \<le> i" "i < nat w + k" using assms(1) by (auto simp: i_def nat_less_iff)
  have "n + int i = (n + int k) + (j - n - int k) mod w" using assms(1) by (simp add: i_def)
  then have "(n + int i) mod w = ((n + int k) + (j - n - int k)) mod w" by (simp only: mod_add_right_eq)
  then have hit: "(n + int i) mod w = j" using assms by simp
  have only: "l = i" if "k \<le> l" "l < nat w + k" "(n + int l) mod w = j" for l
    using that hit i assms(1) by (intro mod_eq_near [of n l w i]) auto
  have "set (filter (\<lambda>l. (n + int l) mod w = j) [k..<nat w + k])
      = {l. k \<le> l \<and> l < nat w + k \<and> (n + int l) mod w = j}" by (simp add: set_eq_iff)
  also have "\<dots> = {i}" using only i hit by blast
  finally have "set (filter (\<lambda>l. (n + int l) mod w = j) [k..<nat w + k]) = {i}" .
  moreover have "distinct (filter (\<lambda>l. (n + int l) mod w = j) [k..<nat w + k])" by simp
  ultimately have "length (filter (\<lambda>l. (n + int l) mod w = j) [k..<nat w + k]) = 1"
    by (metis distinct_card card.empty card_insert_disjoint empty_iff finite.emptyI One_nat_def)
  then have "count_list (map (\<lambda>i. (n + int i) mod w) [k..<nat w + k]) j = 1"
    by (simp add: count_list_map_eq)
  then show ?thesis by (simp add: split)
qed

lemma count_list_distinct: "distinct xs \<Longrightarrow> count_list xs x \<le> 1"
  by (induction xs) auto

lemma count_turns_short:
  assumes "0 < w" "k \<le> nat w"
  shows "count_list (turns n w k) j \<le> 1"
proof -
  have "distinct (turns n w k)"
    unfolding turns_def distinct_map
  proof (intro conjI inj_onI)
    fix a b assume ab: "a \<in> set [0..<k]" "b \<in> set [0..<k]" "(n + int a) mod w = (n + int b) mod w"
    then show "a = b" using assms by (intro mod_eq_near [of n a w b]) (auto simp: nat_le_iff)
  qed simp
  then show ?thesis by (rule count_list_distinct)
qed

lemma count_turns:
  assumes "0 < w" "0 \<le> j" "j < w"
  shows "k div nat w \<le> count_list (turns n w k) j \<and> count_list (turns n w k) j \<le> Suc (k div nat w)"
proof (induction k rule: less_induct)
  case (less k)
  show ?case
  proof (cases "k < nat w")
    case True
    then show ?thesis using count_turns_short [OF assms(1), of k n j] by simp
  next
    case False
    then obtain m where m: "k = nat w + m" using le_Suc_ex [of "nat w" k] by auto
    then have "m < k" using assms(1) by simp
    then have "m div nat w \<le> count_list (turns n w m) j \<and> count_list (turns n w m) j \<le> Suc (m div nat w)"
      by (rule less)
    moreover have "k div nat w = Suc (m div nat w)"
      using m assms(1) div_add_self1 [of "nat w" m] by simp
    ultimately show ?thesis using count_turns_window [OF assms, of n m] m by simp
  qed
qed


section \<open>The invariant of the master\<close>

definition master_inv :: "int set \<Rightarrow> master \<Rightarrow> bool" where
  "master_inv base m \<longleftrightarrow>
     0 < m_workers m \<and> m_workers m = int (length (m_pipes m)) \<and>
     0 \<le> m_next m \<and> m_next m < m_workers m \<and>
     m_fds m = base \<union> {m_ep m, m_listen m} \<union> fst ` set (m_pipes m) \<and>
     base \<inter> ({m_ep m, m_listen m} \<union> fst ` set (m_pipes m)) = {}"

text \<open>The kernel's promise: an accepted descriptor is new.\<close>

definition accept_ok :: "master \<Rightarrow> accept_answer \<Rightarrow> bool" where
  "accept_ok m a \<longleftrightarrow> (\<forall>fd. fst a = AccFd fd \<longrightarrow> fd \<notin> m_fds m)"

lemma send_fd_result: "fst (forge_send_fd (\<lambda>s msg. r) sock fd) = (if r < 0 then -1 else 0)"
  by (simp add: forge_send_fd_def Let_def)

lemma dispatch_fd:
  assumes "master_inv base m" "fd \<notin> m_fds m"
  shows "dispatch_one m (AccFd fd, r) =
     Ok (m\<lparr> m_next := (m_next m + 1) mod m_workers m,
            m_sent := m_sent m @ [(m_next m, fst (m_pipes m ! nat (m_next m)), fd, 0 \<le> r)] \<rparr>, True)"
proof -
  have "c_mod (m_next m + 1) (m_workers m) = Some ((m_next m + 1) mod m_workers m)"
    using assms(1) by (intro c_mod_pos) (auto simp: master_inv_def)
  moreover have "\<not> m_next m < 0" "\<not> int (length (m_pipes m)) \<le> m_next m"
    using assms(1) by (auto simp: master_inv_def)
  ultimately show ?thesis using assms(2) by (simp add: dispatch_one_def Let_def send_fd_result)
qed

lemma master_inv_dispatched:
  assumes "master_inv base m"
  shows "master_inv base (m\<lparr> m_next := (m_next m + 1) mod m_workers m, m_sent := s \<rparr>)"
proof -
  have "0 < m_workers m" using assms unfolding master_inv_def by blast
  then have "0 \<le> (m_next m + 1) mod m_workers m" "(m_next m + 1) mod m_workers m < m_workers m" by simp_all
  moreover have "m_pipes m \<noteq> []" using assms by (auto simp: master_inv_def)
  ultimately show ?thesis using assms unfolding master_inv_def by simp
qed

lemma master_inv_reaped: "master_inv base (m\<lparr> m_reaped := k \<rparr>) = master_inv base m"
  by (simp add: master_inv_def)

lemma dispatch_one_result:
  assumes "master_inv base m" "accept_ok m a"
  shows "\<exists>m' go. dispatch_one m a = Ok (m', go) \<and> master_inv base m'"
proof (cases a)
  case (Pair acc r)
  show ?thesis
  proof (cases acc)
    case (AccFd fd)
    then show ?thesis using assms dispatch_fd [OF assms(1), of fd r] Pair master_inv_dispatched [OF assms(1)]
      by (auto simp: accept_ok_def)
  qed (use assms(1) Pair in \<open>auto simp: dispatch_one_def\<close>)
qed

interpretation disp: guarded_step dispatch_one "master_inv base" accept_ok
proof
  fix m a m' go
  assume m: "master_inv base m" "accept_ok m a"
  then obtain m1 g where m1: "dispatch_one m a = Ok (m1, g)" "master_inv base m1"
    using dispatch_one_result by blast
  then show "\<not> faults (dispatch_one m a)" by simp
  assume "dispatch_one m a = Ok (m', go)"
  then show "master_inv base m'" using m1 by simp
qed

definition master_event_ok :: "master \<Rightarrow> int \<times> accept_answer list \<Rightarrow> bool" where
  "master_event_ok m e \<longleftrightarrow> inputs_ok accept_ok dispatch_one m (snd e)"

interpretation mev: guarded_step master_event "master_inv base" master_event_ok
proof
  fix m e m' go
  assume m: "master_inv base m" "master_event_ok m e"
  then have ok: "inputs_ok accept_ok dispatch_one m (snd e)" by (simp add: master_event_ok_def)
  show "\<not> faults (master_event m e)"
    using disp.run_safe [OF m(1) ok] by (cases e) (auto simp: master_event_def split: if_splits)
  assume "master_event m e = Ok (m', go)"
  then show "master_inv base m'"
    using disp.run_inv [OF m(1) ok] m(1) by (cases e) (auto simp: master_event_def split: if_splits)
qed

definition master_round_ok :: "master \<Rightarrow> bool \<times> master_wait \<Rightarrow> bool" where
  "master_round_ok m r \<longleftrightarrow>
     (\<forall>evs pids. snd r = MEvents evs pids \<longrightarrow> inputs_ok master_event_ok master_event m evs)"

interpretation mrd: guarded_step master_round "master_inv base" master_round_ok
proof
  fix m r m' go
  assume m: "master_inv base m" "master_round_ok m r"
  have evs: "inputs_ok master_event_ok master_event m evs" if "snd r = MEvents evs pids" for evs pids
    using m(2) that by (auto simp: master_round_ok_def)
  show "\<not> faults (master_round m r)"
    using mev.run_safe [OF m(1) evs] by (cases r) (auto simp: master_round_def split: master_wait.splits)
  assume r: "master_round m r = Ok (m', go)"
  show "master_inv base m'"
  proof (cases "\<exists>evs pids. r = (False, MEvents evs pids)")
    case True
    then obtain evs pids where e: "r = (False, MEvents evs pids)" by blast
    then obtain m1 g where "run_steps master_event m evs = Ok (m1, g)"
      and m': "m' = m1\<lparr> m_reaped := m_reaped m1 + length (takeWhile (\<lambda>pid. 0 < pid) pids) \<rparr>"
      using r by (auto simp: master_round_def)
    moreover have "inputs_ok master_event_ok master_event m evs" using evs e by simp
    ultimately have "master_inv base m1" using mev.run_inv [OF m(1)] by blast
    then show ?thesis by (simp add: master_inv_reaped m')
  next
    case False
    obtain t w where tw: "r = (t, w)" by (cases r)
    have "m' = m"
    proof (cases t)
      case True
      then show ?thesis using r tw by (simp add: master_round_def)
    next
      case nt: False
      then show ?thesis using r tw False by (cases w) (simp_all add: master_round_def)
    qed
    then show ?thesis using m(1) by simp
  qed
qed

section \<open>Dispatching in turn\<close>

lemma dispatch_run:
  assumes "master_inv base m" "inputs_ok accept_ok dispatch_one m as" "run_steps dispatch_one m as = Ok (m', go)"
  shows "\<exists>new. m_sent m' = m_sent m @ new \<and> map (\<lambda>(t, s, fd, ok). fd) new = accepted_fds as
      \<and> map fst new = turns (m_next m) (m_workers m) (length new)
      \<and> (\<forall>x \<in> set new. fst (snd x) = fst (m_pipes m ! nat (fst x)))
      \<and> m_pipes m' = m_pipes m \<and> m_fds m' = m_fds m \<and> m_workers m' = m_workers m"
  using assms
proof (induction "as" arbitrary: m)
  case Nil
  then show ?case by simp
next
  case (Cons a as)
  obtain acc r where a: "a = (acc, r)" by (cases a)
  show ?case
  proof (cases acc)
    case (AccFd fd)
    let ?m1 = "m\<lparr> m_next := (m_next m + 1) mod m_workers m,
            m_sent := m_sent m @ [(m_next m, fst (m_pipes m ! nat (m_next m)), fd, 0 \<le> r)] \<rparr>"
    have "fd \<notin> m_fds m" using Cons.prems(2) a AccFd by (simp add: accept_ok_def)
    then have one: "dispatch_one m a = Ok (?m1, True)" using dispatch_fd [OF Cons.prems(1)] a AccFd by simp
    have next_ok: "m_next m mod m_workers m = m_next m" using Cons.prems(1) by (simp add: master_inv_def)
    have inv1: "master_inv base ?m1" by (rule master_inv_dispatched [OF Cons.prems(1)])
    have rest: "inputs_ok accept_ok dispatch_one ?m1 as" "run_steps dispatch_one ?m1 as = Ok (m', go)"
      using Cons.prems(2,3) one by simp_all
    obtain new where new: "m_sent m' = m_sent ?m1 @ new" "map (\<lambda>(t, s, fd, ok). fd) new = accepted_fds as"
      "map fst new = turns (m_next ?m1) (m_workers ?m1) (length new)"
      "\<forall>x \<in> set new. fst (snd x) = fst (m_pipes ?m1 ! nat (fst x))"
      "m_pipes m' = m_pipes ?m1" "m_fds m' = m_fds ?m1" "m_workers m' = m_workers ?m1"
      using Cons.IH [OF inv1 rest] by blast
    show ?thesis
      by (rule exI [of _ "(m_next m, fst (m_pipes m ! nat (m_next m)), fd, 0 \<le> r) # new"])
        (use new a AccFd next_ok in \<open>simp add: turns_Suc\<close>)
  next
    case AccIntr
    then have "dispatch_one m a = Ok (m, True)" by (simp add: a dispatch_one_def)
    then show ?thesis using Cons AccIntr a by simp
  next
    case AccAgain
    then have "dispatch_one m a = Ok (m, False)" by (simp add: a dispatch_one_def)
    then show ?thesis using Cons.prems(3) AccAgain a by simp
  next
    case AccErr
    then have "dispatch_one m a = Ok (m, False)" by (simp add: a dispatch_one_def)
    then show ?thesis using Cons.prems(3) AccErr a by simp
  qed
qed


section \<open>The fork loop\<close>

text \<open>What the kernel answers when nothing fails: new descriptors from \<open>socketpair\<close>, a process id.\<close>

definition fork_ok :: "master \<Rightarrow> fork_answer \<Rightarrow> bool" where
  "fork_ok m a \<longleftrightarrow>
     (case a of
        (Some (p0, p1), pid) \<Rightarrow> p0 \<notin> m_fds m \<and> p1 \<notin> m_fds m \<and> p0 \<noteq> p1 \<and> 0 < pid
      | (None, pid) \<Rightarrow> False)"

fun forks_ok :: "master \<Rightarrow> fork_answer list \<Rightarrow> bool" where
  "forks_ok m [] \<longleftrightarrow> True"
| "forks_ok m (a # as) \<longleftrightarrow>
     fork_ok m a \<and> (case fork_worker m a of Inl e \<Rightarrow> True | Inr m' \<Rightarrow> forks_ok m' as)"

definition child_of :: "int set \<Rightarrow> int \<Rightarrow> (int \<times> int) list \<Rightarrow> nat \<Rightarrow> child" where
  "child_of base lfd pipes i =
     \<lparr> ch_index = i, ch_fds = (base - {lfd}) \<union> fst ` set (take i pipes) \<union> {snd (pipes ! i)},
       ch_control = snd (pipes ! i), ch_listen = -1 \<rparr>"

definition fork_inv :: "int set \<Rightarrow> master \<Rightarrow> bool" where
  "fork_inv base m \<longleftrightarrow>
     m_listen m \<in> base \<and> m_fds m = base \<union> fst ` set (m_pipes m) \<and> base \<inter> fst ` set (m_pipes m) = {} \<and>
     m_children m = map (child_of base (m_listen m) (m_pipes m)) [0..<length (m_pipes m)]"

lemma child_of_append: "i < length ps \<Longrightarrow> child_of base l (ps @ qs) i = child_of base l ps i"
  by (simp add: child_of_def nth_append)

lemma fork_worker_result:
  assumes "fork_inv base m" "fork_ok m a"
  shows "\<exists>m'. fork_worker m a = Inr m' \<and> fork_inv base m' \<and> length (m_pipes m') = Suc (length (m_pipes m))
     \<and> m_workers m' = m_workers m \<and> m_listen m' = m_listen m \<and> m_next m' = m_next m"
proof -
  obtain p0 p1 pid where a: "a = (Some (p0, p1), pid)" and fresh: "p0 \<notin> m_fds m" "p1 \<notin> m_fds m" "p0 \<noteq> p1" "0 < pid"
    using assms(2) by (cases a) (auto simp: fork_ok_def split: option.splits prod.splits)
  define open_fds where "open_fds = insert p0 (insert p1 (m_fds m))"
  define child where "child = \<lparr> ch_index = length (m_pipes m), ch_fds = open_fds - {p0} - {m_listen m},
                             ch_control = p1, ch_listen = -1 \<rparr>"
  let ?m' = "m\<lparr> m_fds := open_fds - {p1}, m_pipes := m_pipes m @ [(p0, p1)], m_children := m_children m @ [child] \<rparr>"
  have eq: "fork_worker m a = Inr ?m'"
    using fresh(4) by (simp add: fork_worker_def a open_fds_def child_def Let_def)
  note inv = assms(1)[unfolded fork_inv_def]
  have base: "m_listen m \<in> base" "m_fds m = base \<union> fst ` set (m_pipes m)" "base \<inter> fst ` set (m_pipes m) = {}"
    using inv by blast+
  have "p1 \<noteq> m_listen m" "m_listen m \<notin> fst ` set (m_pipes m)" using base fresh by auto
  then have "open_fds - {p0} - {m_listen m} = (base - {m_listen m}) \<union> fst ` set (m_pipes m) \<union> {p1}"
    using base(2) fresh by (auto simp: open_fds_def)
  then have "child = child_of base (m_listen m) (m_pipes m @ [(p0, p1)]) (length (m_pipes m))"
    by (simp add: child_def child_of_def)
  moreover have "map (child_of base (m_listen m) (m_pipes m @ [(p0, p1)])) [0..<length (m_pipes m)]
      = map (child_of base (m_listen m) (m_pipes m)) [0..<length (m_pipes m)]"
    by (simp add: child_of_append)
  ultimately have "m_children ?m' = map (child_of base (m_listen ?m') (m_pipes ?m')) [0..<length (m_pipes ?m')]"
    using inv by simp
  moreover have "m_fds ?m' = base \<union> fst ` set (m_pipes ?m')" using base(2) fresh by (auto simp: open_fds_def)
  moreover have "base \<inter> fst ` set (m_pipes ?m') = {}" using base fresh by auto
  ultimately have "fork_inv base ?m'" using base(1) by (simp add: fork_inv_def)
  then show ?thesis using eq by auto
qed

lemma fork_workers_result:
  "fork_inv base m \<Longrightarrow> forks_ok m forks \<Longrightarrow>
   \<exists>m'. fork_workers m forks = Inr m' \<and> fork_inv base m' \<and> length (m_pipes m') = length (m_pipes m) + length forks
     \<and> m_workers m' = m_workers m \<and> m_listen m' = m_listen m \<and> m_next m' = m_next m"
proof (induction forks arbitrary: m)
  case Nil
  then show ?case by simp
next
  case (Cons a forks)
  then have "fork_ok m a" by simp
  from fork_worker_result [OF Cons.prems(1) this] obtain m1 where m1: "fork_worker m a = Inr m1" "fork_inv base m1"
    "length (m_pipes m1) = Suc (length (m_pipes m))" "m_workers m1 = m_workers m" "m_listen m1 = m_listen m"
    "m_next m1 = m_next m" by blast
  then have "forks_ok m1 forks" using Cons.prems(2) by simp
  from Cons.IH [OF m1(2) this] m1 show ?case by auto
qed

text \<open>The state before the first fork.\<close>

definition master_start :: "cfg \<Rightarrow> int set \<Rightarrow> master" where
  "master_start c open_fds =
     \<lparr> m_workers = workers c, m_listen = listen_fd c, m_ep = -1, m_fds = open_fds,
       m_pipes = [], m_children = [], m_next = 0, m_sent = [], m_reaped = 0, m_killed = False \<rparr>"

lemma master_start_inv: "listen_fd c \<in> open_fds \<Longrightarrow> fork_inv open_fds (master_start c open_fds)"
  by (simp add: fork_inv_def master_start_def)

text \<open>The state in which the main loop starts, when the forks succeed.\<close>

definition master_loop_start :: "cfg \<Rightarrow> int set \<Rightarrow> fork_answer list \<Rightarrow> int \<Rightarrow> master" where
  "master_loop_start c open_fds forks create =
     (case fork_workers (master_start c open_fds) forks of
        Inl e \<Rightarrow> master_start c open_fds
      | Inr m \<Rightarrow> m\<lparr> m_ep := create, m_fds := insert create (m_fds m) \<rparr>)"

lemma master_loop_start:
  assumes "listen_fd c \<in> open_fds" "0 < workers c" "int (length forks) = workers c"
    and "forks_ok (master_start c open_fds) forks"
  obtains m1 where "fork_workers (master_start c open_fds) forks = Inr m1" "fork_inv open_fds m1"
    "length (m_pipes m1) = length forks" "m_listen m1 = listen_fd c"
    "create \<notin> m_fds m1 \<Longrightarrow> master_inv (open_fds - {listen_fd c}) (master_loop_start c open_fds forks create)"
proof -
  obtain m1 where m1: "fork_workers (master_start c open_fds) forks = Inr m1" "fork_inv open_fds m1"
    "length (m_pipes m1) = length forks" "m_workers m1 = workers c" "m_listen m1 = listen_fd c" "m_next m1 = 0"
    using fork_workers_result [OF master_start_inv [OF assms(1)] assms(4)]
    by (auto simp: master_start_def)
  have f: "m_fds m1 = open_fds \<union> fst ` set (m_pipes m1)" "open_fds \<inter> fst ` set (m_pipes m1) = {}"
    using m1(2) by (simp_all add: fork_inv_def)
  have "master_inv (open_fds - {listen_fd c}) (master_loop_start c open_fds forks create)"
    if "create \<notin> m_fds m1"
    using that m1 f assms(1-3) by (auto simp: master_inv_def master_loop_start_def)
  with m1 that show ?thesis by blast
qed


section \<open>Properties\<close>

text \<open>C9: The master neither faults nor leaks: with at least one worker, when forking succeeds and
  accepted descriptors are new, any rounds of its main loop index the table of socket pairs within
  bounds and divide by a positive number of workers; every accepted descriptor is closed again, so the
  open descriptors are the inherited ones, the epoll and listening sockets and one socket per worker,
  and at its end the inherited ones without the listener.\<close>

theorem master_run_safe:
  assumes "listen_fd c \<in> open_fds" "0 < workers c" "int (length forks) = workers c"
    and "forks_ok (master_start c open_fds) forks" "0 \<le> create" "0 \<le> add"
    and "\<forall>m1. fork_workers (master_start c open_fds) forks = Inr m1 \<longrightarrow> create \<notin> m_fds m1"
    and "inputs_ok master_round_ok master_round (master_loop_start c open_fds forks create) rounds"
  shows "\<not> faults (forge_master_run c open_fds True forks create add rounds) \<and>
     (\<forall>m running. forge_master_run c open_fds True forks create add rounds = Ok (Inr (m, running)) \<longrightarrow>
        (if running then m_fds m = (open_fds - {listen_fd c}) \<union> {m_ep m, m_listen m} \<union> fst ` set (m_pipes m)
         else m_killed m \<and> m_fds m = open_fds - {listen_fd c}))"
proof -
  let ?m0 = "master_loop_start c open_fds forks create"
  let ?base = "open_fds - {listen_fd c}"
  obtain m1 where m1: "fork_workers (master_start c open_fds) forks = Inr m1" and inv: "master_inv ?base ?m0"
    using assms(7) by (rule_tac master_loop_start [OF assms(1-4), of create]) blast
  have eq: "forge_master_run c open_fds True forks create add rounds =
      and_then (run_steps master_round ?m0 rounds)
        (\<lambda>(m, running). Ok (Inr (if running then m else master_exit m, running)))"
    using assms(2,3,5,6) m1
    by (simp add: forge_master_run_def Let_def master_start_def master_loop_start_def)
  have safe: "\<not> faults (run_steps master_round ?m0 rounds)" by (rule mrd.run_safe [OF inv assms(8)])
  have fds: "if running then m_fds m = ?base \<union> {m_ep m, m_listen m} \<union> fst ` set (m_pipes m)
       else m_killed m \<and> m_fds m = ?base"
    if run: "forge_master_run c open_fds True forks create add rounds = Ok (Inr (m, running))" for m running
  proof -
    from run obtain m2 where m2: "run_steps master_round ?m0 rounds = Ok (m2, running)"
      "m = (if running then m2 else master_exit m2)"
      unfolding eq by auto
    have "master_inv ?base m2" by (rule mrd.run_inv [OF inv assms(8) m2(1)])
    then have "m_fds m2 = ?base \<union> {m_ep m2, m_listen m2} \<union> fst ` set (m_pipes m2)"
      "?base \<inter> ({m_ep m2, m_listen m2} \<union> fst ` set (m_pipes m2)) = {}"
      unfolding master_inv_def by blast+
    then show ?thesis using m2(2) by (auto simp: master_exit_def)
  qed
  have "\<not> faults (forge_master_run c open_fds True forks create add rounds)"
    using safe unfolding eq by auto
  with fds show ?thesis by blast
qed

definition example_cfg :: cfg where
  "example_cfg = default_cfg\<lparr> workers := 2, listen_fd := 3, cfg_control_fd := -1 \<rparr>"

definition example_forks :: "fork_answer list" where
  "example_forks = [(Some (4, 5), 100), (Some (5, 6), 101)]"

definition master_rounds :: "(bool \<times> master_wait) list" where
  "master_rounds =
     [(False, MEvents [(3, [(AccFd 7, 1), (AccIntr, 0), (AccFd 7, -1), (AccFd 7, 1), (AccAgain, 0)])] [100, -1]),
      (True, MIntr)]"

lemma example_loop_start:
  "master_loop_start example_cfg {0, 1, 2, 3} example_forks 6 =
     \<lparr> m_workers = 2, m_listen = 3, m_ep = 6, m_fds = {0, 1, 2, 3, 4, 5, 6}, m_pipes = [(4, 5), (5, 6)],
       m_children = [\<lparr> ch_index = 0, ch_fds = {0, 1, 2, 5}, ch_control = 5, ch_listen = -1 \<rparr>,
                     \<lparr> ch_index = 1, ch_fds = {0, 1, 2, 4, 6}, ch_control = 6, ch_listen = -1 \<rparr>],
       m_next = 0, m_sent = [], m_reaped = 0, m_killed = False \<rparr>"
  by (auto simp: master_loop_start_def master_start_def example_cfg_def example_forks_def default_cfg_def
      fork_worker_def Let_def)

lemmas master_example_simps = master_round_def master_event_def dispatch_one_def Let_def c_mod_def
  forge_send_fd_def

theorem master_run_safe_witness:
  "\<not> faults (forge_master_run example_cfg {0, 1, 2, 3} True example_forks 6 0 master_rounds)"
proof -
  have f: "forks_ok (master_start example_cfg {0, 1, 2, 3}) example_forks"
    by (simp add: example_forks_def fork_ok_def master_start_def example_cfg_def fork_worker_def Let_def)
  have g: "\<forall>m1. fork_workers (master_start example_cfg {0, 1, 2, 3}) example_forks = Inr m1 \<longrightarrow> 6 \<notin> m_fds m1"
    by (auto simp: example_forks_def master_start_def example_cfg_def fork_worker_def Let_def)
  have r: "inputs_ok master_round_ok master_round
      (master_loop_start example_cfg {0, 1, 2, 3} example_forks 6) master_rounds"
    unfolding example_loop_start
    by (simp add: master_rounds_def master_round_ok_def master_event_ok_def accept_ok_def master_example_simps)
  show ?thesis
    using master_run_safe [OF _ _ _ f _ _ g r, of 0]
    by (simp add: example_cfg_def default_cfg_def example_forks_def)
qed


lemma example_inv: "master_inv {0, 1, 2} (master_loop_start example_cfg {0, 1, 2, 3} example_forks 6)"
  unfolding example_loop_start by (auto simp: master_inv_def)

lemma example_accepts_ok:
  "inputs_ok accept_ok dispatch_one (master_loop_start example_cfg {0, 1, 2, 3} example_forks 6)
     [(AccFd 7, 1), (AccFd 8, -1), (AccFd 9, 1)]"
  unfolding example_loop_start by (simp add: accept_ok_def master_example_simps)

lemma example_accepts_run:
  "\<exists>m'. run_steps dispatch_one (master_loop_start example_cfg {0, 1, 2, 3} example_forks 6)
     [(AccFd 7, 1), (AccFd 8, -1), (AccFd 9, 1)] = Ok (m', True)
     \<and> m_sent m' = [(0, 4, 7, True), (1, 5, 8, False), (0, 4, 9, True)]"
  unfolding example_loop_start by (simp add: master_example_simps)



text \<open>The load is even: however many connections one run of the accept loop hands out, any two
  workers get numbers of them that differ by at most one.\<close>

lemma dispatch_balanced:
  assumes "master_inv base m" "inputs_ok accept_ok dispatch_one m as" "run_steps dispatch_one m as = Ok (m', go)"
    and "0 \<le> i" "i < m_workers m" "0 \<le> j" "j < m_workers m"
    and "m_sent m' = m_sent m @ new"
  shows "count_list (map fst new) i \<le> Suc (count_list (map fst new) j)"
proof -
  obtain new' where "m_sent m' = m_sent m @ new'" "map fst new' = turns (m_next m) (m_workers m) (length new')"
    using dispatch_run [OF assms(1-3)] by blast
  then have t: "map fst new = turns (m_next m) (m_workers m) (length new)" using assms(8) by simp
  have w: "0 < m_workers m" using assms(1) unfolding master_inv_def by blast
  show ?thesis unfolding t
    using count_turns [OF w assms(4,5), of "length new" "m_next m"]
      count_turns [OF w assms(6,7), of "length new" "m_next m"] by linarith
qed

lemma dispatch_balanced_witness:
  "count_list (map fst [(0, 4, 7, True), (1, 5, 8, False), (0 :: int, 4 :: int, 9 :: int, True)]) 0
     \<le> Suc (count_list (map fst [(0, 4, 7, True), (1, 5, 8, False), (0 :: int, 4 :: int, 9 :: int, True)]) 1)"
proof -
  obtain m' where m': "run_steps dispatch_one (master_loop_start example_cfg {0, 1, 2, 3} example_forks 6)
     [(AccFd 7, 1), (AccFd 8, -1), (AccFd 9, 1)] = Ok (m', True)"
    "m_sent m' = [(0, 4, 7, True), (1, 5, 8, False), (0, 4, 9, True)]"
    using example_accepts_run by blast
  show ?thesis
    by (rule dispatch_balanced [OF example_inv example_accepts_ok m'(1)])
      (simp_all add: m'(2) example_loop_start)
qed

text \<open>A worker inherits the master's ends of the socket pairs of all earlier workers: when worker
  \<open>i\<close> starts, it has open, beside the inherited descriptors without the listener and its own end,
  the descriptors through which the master talks to workers \<open>0\<close> to \<open>i - 1\<close>; only its own pair's
  master end was closed.\<close>

lemma worker_inherits_master_ends:
  assumes "listen_fd c \<in> open_fds" "forks_ok (master_start c open_fds) forks"
    and "fork_workers (master_start c open_fds) forks = Inr m" "i < length forks"
  shows "ch_fds (m_children m ! i) =
       (open_fds - {listen_fd c}) \<union> {snd (m_pipes m ! i)} \<union> {fst (m_pipes m ! j) | j. j < i}
     \<and> ch_control (m_children m ! i) = snd (m_pipes m ! i) \<and> ch_listen (m_children m ! i) = -1"
proof -
  have m: "fork_inv open_fds m" "length (m_pipes m) = length forks" "m_listen m = listen_fd c"
    using fork_workers_result [OF master_start_inv [OF assms(1)] assms(2)] assms(3)
    by (auto simp: master_start_def)
  then have i: "i < length (m_pipes m)" using assms(4) by simp
  have ch: "m_children m ! i = child_of open_fds (listen_fd c) (m_pipes m) i"
    using m i by (simp add: fork_inv_def)
  have "fst ` set (take i (m_pipes m)) = {fst (m_pipes m ! j) | j. j < i}"
    using i by (force simp: set_conv_nth image_iff)
  then show ?thesis unfolding ch by (auto simp: child_of_def)
qed

lemma worker_inherits_master_ends_witness:
  "ch_fds (\<lparr> ch_index = 1, ch_fds = {0, 1, 2, 4, 6}, ch_control = 6, ch_listen = -1 \<rparr>) = {0, 1, 2} \<union> {6} \<union> {4}"
proof -
  have f: "forks_ok (master_start example_cfg {0, 1, 2, 3}) example_forks"
    by (simp add: example_forks_def fork_ok_def master_start_def example_cfg_def fork_worker_def Let_def)
  obtain m where m: "fork_workers (master_start example_cfg {0, 1, 2, 3}) example_forks = Inr m"
    "m_pipes m = [(4, 5), (5, 6)]"
    "m_children m ! 1 = \<lparr> ch_index = 1, ch_fds = {0, 1, 2, 4, 6}, ch_control = 6, ch_listen = -1 \<rparr>"
  proof -
    have "insert 6 ({4, 5, 0, 1, 2, 3} - {5}) - {3 :: int} = {0, 1, 2, 4, 6}" by auto
    then show thesis
      using that by (simp add: example_forks_def master_start_def example_cfg_def fork_worker_def Let_def default_cfg_def)
  qed
  have l: "listen_fd example_cfg = 3" by (simp add: example_cfg_def)
  have one: "{fst ([(4, 5), (5, 6)] ! j) | j. j < (1::nat)} = {4 :: int}" by auto
  show ?thesis
    using worker_inherits_master_ends [OF _ f m(1), of 1]
    unfolding m(2,3) l one by (auto simp: example_forks_def)
qed

text \<open>With \<open>-w 0\<close>, or any \<open>-w\<close> argument that is not a number, the server starts, and the first
  connection it accepts traps it in a division by zero.\<close>

lemma zero_workers_trap:
  assumes "parse_opts default_cfg opts = Some c" "workers c = 0"
    and "fst (forge_create_listener net (listen_hostport c)) = Inr lfd" "0 \<le> create" "0 \<le> add"
  shows "forge_main opts net open_fds True forks create add
     ((False, MEvents ((lfd, (AccFd cfd, r) # as) # evs) pids) # rounds) = Some (Fault DivByZero)"
  using assms
  by (simp add: forge_main_def forge_master_run_def Let_def master_round_def master_event_def
      dispatch_one_def c_mod_def)

lemma zero_workers_trap_witness:
  "forge_main [(CHR ''w'', ''four'')] \<lparr> e_socket = 3, e_bind = 0, e_listen = 0 \<rparr> {0, 1, 2} True [] 4 0
     ((False, MEvents ((3, (AccFd 5, 0) # []) # []) []) # []) = Some (Fault DivByZero)"
proof (rule zero_workers_trap)
  show "parse_opts default_cfg [(CHR ''w'', ''four'')] = Some (default_cfg\<lparr> workers := 0 \<rparr>)"
    by (simp add: atoi_def strtol_def Let_def isspace_def deref_def isdigit_def code_def)
  show "fst (forge_create_listener \<lparr> e_socket = 3, e_bind = 0, e_listen = 0 \<rparr>
     (listen_hostport (default_cfg\<lparr> workers := 0 \<rparr>))) = Inr 3"
    by (simp add: default_cfg_def forge_create_listener_def split_hostport_def snprintf_def Let_def
        inet_pton4_def isdigit_def code_def digit_val_def)
qed (simp_all add: default_cfg_def)

end
