(* ===== verification/HttpBase.thy ===== *)
theory HttpBase
  imports Runs
begin

unbundle bit_operations_syntax

text \<open>
  The streaming HTTP parser of the load generator, \<open>tools/wrk/src/http_parser.c\<close> and its header: the
  enumerations, the parser record, the character classes and the functions on the parser record that do
  not consume input.  The parser is modelled as it is compiled here, in strict mode
  (\<open>HTTP_PARSER_STRICT\<close> is 1) and with the assertions on.
\<close>

section \<open>Enumerations of the header file\<close>

datatype (plugins only: code size) http_method =
    HTTP_DELETE | HTTP_GET | HTTP_HEAD | HTTP_POST | HTTP_PUT | HTTP_CONNECT | HTTP_OPTIONS
  | HTTP_TRACE | HTTP_COPY | HTTP_LOCK | HTTP_MKCOL | HTTP_MOVE | HTTP_PROPFIND | HTTP_PROPPATCH
  | HTTP_SEARCH | HTTP_UNLOCK | HTTP_BIND | HTTP_REBIND | HTTP_UNBIND | HTTP_ACL | HTTP_REPORT
  | HTTP_MKACTIVITY | HTTP_CHECKOUT | HTTP_MERGE | HTTP_MSEARCH | HTTP_NOTIFY | HTTP_SUBSCRIBE
  | HTTP_UNSUBSCRIBE | HTTP_PATCH | HTTP_PURGE | HTTP_MKCALENDAR | HTTP_LINK | HTTP_UNLINK

definition all_methods :: "http_method list" where
  "all_methods =
     [HTTP_DELETE, HTTP_GET, HTTP_HEAD, HTTP_POST, HTTP_PUT, HTTP_CONNECT, HTTP_OPTIONS,
      HTTP_TRACE, HTTP_COPY, HTTP_LOCK, HTTP_MKCOL, HTTP_MOVE, HTTP_PROPFIND, HTTP_PROPPATCH,
      HTTP_SEARCH, HTTP_UNLOCK, HTTP_BIND, HTTP_REBIND, HTTP_UNBIND, HTTP_ACL, HTTP_REPORT,
      HTTP_MKACTIVITY, HTTP_CHECKOUT, HTTP_MERGE, HTTP_MSEARCH, HTTP_NOTIFY, HTTP_SUBSCRIBE,
      HTTP_UNSUBSCRIBE, HTTP_PATCH, HTTP_PURGE, HTTP_MKCALENDAR, HTTP_LINK, HTTP_UNLINK]"

fun method_string :: "http_method \<Rightarrow> string" where
  "method_string HTTP_DELETE = ''DELETE''"
| "method_string HTTP_GET = ''GET''"
| "method_string HTTP_HEAD = ''HEAD''"
| "method_string HTTP_POST = ''POST''"
| "method_string HTTP_PUT = ''PUT''"
| "method_string HTTP_CONNECT = ''CONNECT''"
| "method_string HTTP_OPTIONS = ''OPTIONS''"
| "method_string HTTP_TRACE = ''TRACE''"
| "method_string HTTP_COPY = ''COPY''"
| "method_string HTTP_LOCK = ''LOCK''"
| "method_string HTTP_MKCOL = ''MKCOL''"
| "method_string HTTP_MOVE = ''MOVE''"
| "method_string HTTP_PROPFIND = ''PROPFIND''"
| "method_string HTTP_PROPPATCH = ''PROPPATCH''"
| "method_string HTTP_SEARCH = ''SEARCH''"
| "method_string HTTP_UNLOCK = ''UNLOCK''"
| "method_string HTTP_BIND = ''BIND''"
| "method_string HTTP_REBIND = ''REBIND''"
| "method_string HTTP_UNBIND = ''UNBIND''"
| "method_string HTTP_ACL = ''ACL''"
| "method_string HTTP_REPORT = ''REPORT''"
| "method_string HTTP_MKACTIVITY = ''MKACTIVITY''"
| "method_string HTTP_CHECKOUT = ''CHECKOUT''"
| "method_string HTTP_MERGE = ''MERGE''"
| "method_string HTTP_MSEARCH = ''M-SEARCH''"
| "method_string HTTP_NOTIFY = ''NOTIFY''"
| "method_string HTTP_SUBSCRIBE = ''SUBSCRIBE''"
| "method_string HTTP_UNSUBSCRIBE = ''UNSUBSCRIBE''"
| "method_string HTTP_PATCH = ''PATCH''"
| "method_string HTTP_PURGE = ''PURGE''"
| "method_string HTTP_MKCALENDAR = ''MKCALENDAR''"
| "method_string HTTP_LINK = ''LINK''"
| "method_string HTTP_UNLINK = ''UNLINK''"

text \<open>The number of a method is its place in the table.\<close>

definition http_method_str :: "nat \<Rightarrow> string" where
  "http_method_str m = (if m < length all_methods then method_string (all_methods ! m) else ''<unknown>'')"

datatype http_parser_type = HTTP_REQUEST | HTTP_RESPONSE | HTTP_BOTH

datatype (plugins only: code size) http_errno =
    HPE_OK | HPE_CB_message_begin | HPE_CB_url | HPE_CB_header_field | HPE_CB_header_value
  | HPE_CB_headers_complete | HPE_CB_body | HPE_CB_message_complete | HPE_CB_status
  | HPE_CB_chunk_header | HPE_CB_chunk_complete
  | HPE_INVALID_EOF_STATE | HPE_HEADER_OVERFLOW | HPE_CLOSED_CONNECTION | HPE_INVALID_VERSION
  | HPE_INVALID_STATUS | HPE_INVALID_METHOD | HPE_INVALID_URL | HPE_INVALID_HOST | HPE_INVALID_PORT
  | HPE_INVALID_PATH | HPE_INVALID_QUERY_STRING | HPE_INVALID_FRAGMENT | HPE_LF_EXPECTED
  | HPE_INVALID_HEADER_TOKEN | HPE_INVALID_CONTENT_LENGTH | HPE_UNEXPECTED_CONTENT_LENGTH
  | HPE_INVALID_CHUNK_SIZE | HPE_INVALID_CONSTANT | HPE_INVALID_INTERNAL_STATE | HPE_STRICT
  | HPE_PAUSED | HPE_UNKNOWN

definition F_CHUNKED :: u8 where "F_CHUNKED = 0x01"
definition F_CONNECTION_KEEP_ALIVE :: u8 where "F_CONNECTION_KEEP_ALIVE = 0x02"
definition F_CONNECTION_CLOSE :: u8 where "F_CONNECTION_CLOSE = 0x04"
definition F_CONNECTION_UPGRADE :: u8 where "F_CONNECTION_UPGRADE = 0x08"
definition F_TRAILING :: u8 where "F_TRAILING = 0x10"
definition F_UPGRADE :: u8 where "F_UPGRADE = 0x20"
definition F_SKIPBODY :: u8 where "F_SKIPBODY = 0x40"
definition F_CONTENTLENGTH :: u8 where "F_CONTENTLENGTH = 0x80"

definition has_flag :: "u8 \<Rightarrow> u8 \<Rightarrow> bool" where
  "has_flag flags f = (flags AND f \<noteq> 0)"

definition HTTP_MAX_HEADER_SIZE :: nat where "HTTP_MAX_HEADER_SIZE = 80 * 1024"

definition ULLONG_MAX :: u64 where "ULLONG_MAX = - 1"

section \<open>Enumerations of the source file\<close>

datatype (plugins only: code size) state =
    s_dead | s_start_req_or_res | s_res_or_resp_H | s_start_res | s_res_H | s_res_HT | s_res_HTT
  | s_res_HTTP | s_res_http_major | s_res_http_dot | s_res_http_minor | s_res_http_end
  | s_res_first_status_code | s_res_status_code | s_res_status_start | s_res_status
  | s_res_line_almost_done
  | s_start_req | s_req_method | s_req_spaces_before_url | s_req_schema | s_req_schema_slash
  | s_req_schema_slash_slash | s_req_server_start | s_req_server | s_req_server_with_at | s_req_path
  | s_req_query_string_start | s_req_query_string | s_req_fragment_start | s_req_fragment
  | s_req_http_start | s_req_http_H | s_req_http_HT | s_req_http_HTT | s_req_http_HTTP
  | s_req_http_major | s_req_http_dot | s_req_http_minor | s_req_http_end | s_req_line_almost_done
  | s_header_field_start | s_header_field | s_header_value_discard_ws
  | s_header_value_discard_ws_almost_done | s_header_value_discard_lws | s_header_value_start
  | s_header_value | s_header_value_lws | s_header_almost_done
  | s_chunk_size_start | s_chunk_size | s_chunk_parameters | s_chunk_size_almost_done
  | s_headers_almost_done | s_headers_done
  | s_chunk_data | s_chunk_data_almost_done | s_chunk_data_done
  | s_body_identity | s_body_identity_eof | s_message_done

text \<open>\<open>PARSING_HEADER\<close>: the states up to \<open>s_headers_done\<close>.\<close>

definition PARSING_HEADER :: "state \<Rightarrow> bool" where
  "PARSING_HEADER s \<longleftrightarrow>
     s \<notin> {s_chunk_data, s_chunk_data_almost_done, s_chunk_data_done, s_body_identity,
          s_body_identity_eof, s_message_done}"

datatype (plugins only: code size) header_state =
    h_general | h_C | h_CO | h_CON
  | h_matching_connection | h_matching_proxy_connection | h_matching_content_length
  | h_matching_transfer_encoding | h_matching_upgrade
  | h_connection | h_content_length | h_transfer_encoding | h_upgrade
  | h_matching_transfer_encoding_chunked | h_matching_connection_token_start
  | h_matching_connection_keep_alive | h_matching_connection_close | h_matching_connection_upgrade
  | h_matching_connection_token
  | h_transfer_encoding_chunked | h_connection_keep_alive | h_connection_close | h_connection_upgrade

datatype http_host_state =
    s_http_host_dead | s_http_userinfo_start | s_http_userinfo | s_http_host_start
  | s_http_host_v6_start | s_http_host | s_http_host_v6 | s_http_host_v6_end
  | s_http_host_v6_zone_start | s_http_host_v6_zone | s_http_host_port_start | s_http_host_port

section \<open>The parser record\<close>

text \<open>
  The bit fields keep their width where arithmetic is done on them: \<open>index\<close> has 7 bits, \<open>nread\<close> 32,
  \<open>content_length\<close> 64 and \<open>status_code\<close> 16.  The application's \<open>data\<close> pointer is a number.
\<close>

record http_parser =
  ptype :: http_parser_type
  flags :: u8
  pstate :: state
  header_state :: header_state
  index :: "7 word"
  lenient_http_headers :: bool
  nread :: u32
  content_length :: u64
  http_major :: u16
  http_minor :: u16
  status_code :: u16
  pmethod :: http_method
  http_errno :: http_errno
  upgrade :: bool
  pdata :: nat

section \<open>Character classes\<close>

text \<open>\<open>LOWER(c)\<close> as a number, and the tests built on it.\<close>

definition LOWER :: "char \<Rightarrow> nat" where
  "LOWER c = code c OR 0x20"

definition IS_ALPHA :: "char \<Rightarrow> bool" where
  "IS_ALPHA c \<longleftrightarrow> 97 \<le> LOWER c \<and> LOWER c \<le> 122"

definition IS_NUM :: "char \<Rightarrow> bool" where
  "IS_NUM c \<longleftrightarrow> isdigit c"

definition IS_ALPHANUM :: "char \<Rightarrow> bool" where
  "IS_ALPHANUM c \<longleftrightarrow> IS_ALPHA c \<or> IS_NUM c"

definition IS_HEX :: "char \<Rightarrow> bool" where
  "IS_HEX c \<longleftrightarrow> IS_NUM c \<or> (97 \<le> LOWER c \<and> LOWER c \<le> 102)"

definition IS_MARK :: "char \<Rightarrow> bool" where
  "IS_MARK c \<longleftrightarrow> c \<in> set ''-_.!~*'' \<or> c = CHR 0x27 \<or> c \<in> set ''()''"

definition IS_USERINFO_CHAR :: "char \<Rightarrow> bool" where
  "IS_USERINFO_CHAR c \<longleftrightarrow> IS_ALPHANUM c \<or> IS_MARK c \<or> c \<in> set ''%;:&=+$,''"

definition IS_HOST_CHAR :: "char \<Rightarrow> bool" where
  "IS_HOST_CHAR c \<longleftrightarrow> IS_ALPHANUM c \<or> c = CHR ''.'' \<or> c = CHR ''-''"

text \<open>The 256 entries of \<open>tokens\<close>; 0 marks the bytes that no token holds.\<close>

definition tokens :: "nat list" where
  "tokens =
     replicate 32 0 @
     [0, 33, 0, 35, 36, 37, 38, 39, 0, 0, 42, 43, 0, 45, 46, 0] @
     [48, 49, 50, 51, 52, 53, 54, 55, 56, 57, 0, 0, 0, 0, 0, 0] @
     0 # [97 ..< 123] @ [0, 0, 0, 94, 95] @
     [96 ..< 123] @ [0, 124, 0, 126, 0] @
     replicate 128 0"

definition TOKEN :: "char \<Rightarrow> nat" where
  "TOKEN c = tokens ! code c"

definition STRICT_TOKEN :: "nat \<Rightarrow> nat" where
  "STRICT_TOKEN c = tokens ! c"

text \<open>The 256 entries of \<open>unhex\<close>; \<open>None\<close> is its -1.\<close>

definition unhex :: "nat \<Rightarrow> nat option" where
  "unhex c =
     (if 48 \<le> c \<and> c \<le> 57 then Some (c - 48)
      else if 65 \<le> c \<and> c \<le> 70 then Some (c - 55)
      else if 97 \<le> c \<and> c \<le> 102 then Some (c - 87)
      else None)"

text \<open>The 32 bytes of \<open>normal_url_char\<close> in strict mode, and \<open>BIT_AT\<close>.\<close>

definition normal_url_char :: "u8 list" where
  "normal_url_char =
     [0, 0, 0, 0,
      0 OR 2 OR 4 OR 0 OR 16 OR 32 OR 64 OR 128,
      1 OR 2 OR 4 OR 8 OR 16 OR 32 OR 64 OR 128,
      1 OR 2 OR 4 OR 8 OR 16 OR 32 OR 64 OR 128,
      1 OR 2 OR 4 OR 8 OR 16 OR 32 OR 64 OR 0,
      1 OR 2 OR 4 OR 8 OR 16 OR 32 OR 64 OR 128,
      1 OR 2 OR 4 OR 8 OR 16 OR 32 OR 64 OR 128,
      1 OR 2 OR 4 OR 8 OR 16 OR 32 OR 64 OR 128,
      1 OR 2 OR 4 OR 8 OR 16 OR 32 OR 64 OR 128,
      1 OR 2 OR 4 OR 8 OR 16 OR 32 OR 64 OR 128,
      1 OR 2 OR 4 OR 8 OR 16 OR 32 OR 64 OR 128,
      1 OR 2 OR 4 OR 8 OR 16 OR 32 OR 64 OR 128,
      1 OR 2 OR 4 OR 8 OR 16 OR 32 OR 64 OR 0] @ replicate 16 0"

definition BIT_AT :: "u8 list \<Rightarrow> nat \<Rightarrow> bool" where
  "BIT_AT a i \<longleftrightarrow> a ! (i div 8) AND push_bit (i mod 8) 1 \<noteq> 0"

definition IS_URL_CHAR :: "char \<Rightarrow> bool" where
  "IS_URL_CHAR c \<longleftrightarrow> BIT_AT normal_url_char (code c)"

text \<open>
  \<open>IS_HEADER_CHAR\<close>, on a plain \<open>char\<close>; the comparison with 31 is made on the unsigned byte.
\<close>

definition IS_HEADER_CHAR :: "char \<Rightarrow> bool" where
  "IS_HEADER_CHAR ch \<longleftrightarrow> ch = CR \<or> ch = LF \<or> ch = TAB \<or> (31 < code ch \<and> code ch \<noteq> 127)"

section \<open>The URL automaton\<close>

definition url_server :: "char \<Rightarrow> state" where
  "url_server ch =
     (if ch = CHR ''/'' then s_req_path
      else if ch = CHR ''?'' then s_req_query_string_start
      else if ch = CHR ''@'' then s_req_server_with_at
      else if IS_USERINFO_CHAR ch \<or> ch = CHR ''['' \<or> ch = CHR '']'' then s_req_server
      else s_dead)"

definition url_query :: "char \<Rightarrow> state" where
  "url_query ch =
     (if IS_URL_CHAR ch then s_req_query_string
      else if ch = CHR ''?'' then s_req_query_string
      else if ch = CHR ''#'' then s_req_fragment_start
      else s_dead)"

definition parse_url_char :: "state \<Rightarrow> char \<Rightarrow> state" where
  "parse_url_char s ch =
     (if ch = SPC \<or> ch = CR \<or> ch = LF then s_dead
      else if ch = TAB \<or> ch = FF then s_dead
      else
        (case s of
           s_req_spaces_before_url \<Rightarrow>
             if ch = CHR ''/'' \<or> ch = CHR ''*'' then s_req_path
             else if IS_ALPHA ch then s_req_schema
             else s_dead
         | s_req_schema \<Rightarrow>
             if IS_ALPHA ch then s
             else if ch = CHR '':'' then s_req_schema_slash
             else s_dead
         | s_req_schema_slash \<Rightarrow> if ch = CHR ''/'' then s_req_schema_slash_slash else s_dead
         | s_req_schema_slash_slash \<Rightarrow> if ch = CHR ''/'' then s_req_server_start else s_dead
         | s_req_server_with_at \<Rightarrow> if ch = CHR ''@'' then s_dead else url_server ch
         | s_req_server_start \<Rightarrow> url_server ch
         | s_req_server \<Rightarrow> url_server ch
         | s_req_path \<Rightarrow>
             if IS_URL_CHAR ch then s
             else if ch = CHR ''?'' then s_req_query_string_start
             else if ch = CHR ''#'' then s_req_fragment_start
             else s_dead
         | s_req_query_string_start \<Rightarrow> url_query ch
         | s_req_query_string \<Rightarrow> url_query ch
         | s_req_fragment_start \<Rightarrow>
             if IS_URL_CHAR ch then s_req_fragment
             else if ch = CHR ''?'' then s_req_fragment
             else if ch = CHR ''#'' then s
             else s_dead
         | s_req_fragment \<Rightarrow>
             if IS_URL_CHAR ch then s
             else if ch = CHR ''?'' \<or> ch = CHR ''#'' then s
             else s_dead
         | _ \<Rightarrow> s_dead))"

section \<open>Functions on the parser record\<close>

definition http_message_needs_eof :: "http_parser \<Rightarrow> bool" where
  "http_message_needs_eof p =
     (if ptype p = HTTP_REQUEST then False
      else if status_code p div 100 = 1 \<or> status_code p = 204 \<or> status_code p = 304
           \<or> has_flag (flags p) F_SKIPBODY then False
      else if has_flag (flags p) F_CHUNKED \<or> content_length p \<noteq> ULLONG_MAX then False
      else True)"

definition http_should_keep_alive :: "http_parser \<Rightarrow> bool" where
  "http_should_keep_alive p =
     (if 0 < http_major p \<and> 0 < http_minor p then
        if has_flag (flags p) F_CONNECTION_CLOSE then False else \<not> http_message_needs_eof p
      else
        if \<not> has_flag (flags p) F_CONNECTION_KEEP_ALIVE then False else \<not> http_message_needs_eof p)"

definition start_state :: "http_parser \<Rightarrow> state" where
  "start_state p = (if ptype p = HTTP_REQUEST then s_start_req else s_start_res)"

definition NEW_MESSAGE :: "http_parser \<Rightarrow> state" where
  "NEW_MESSAGE p = (if http_should_keep_alive p then start_state p else s_dead)"

text \<open>\<open>memset\<close> of the whole record to 0, keeping \<open>data\<close>, then the type and the state.\<close>

definition http_parser_init :: "http_parser \<Rightarrow> http_parser_type \<Rightarrow> http_parser" where
  "http_parser_init p t =
     \<lparr> ptype = t, flags = 0,
       pstate = (if t = HTTP_REQUEST then s_start_req
                 else if t = HTTP_RESPONSE then s_start_res else s_start_req_or_res),
       header_state = h_general, index = 0, lenient_http_headers = False, nread = 0,
       content_length = 0, http_major = 0, http_minor = 0, status_code = 0, pmethod = HTTP_DELETE,
       http_errno = HPE_OK, upgrade = False, pdata = pdata p \<rparr>"

text \<open>\<open>None\<close> is the failed assertion.\<close>

definition http_parser_pause :: "http_parser \<Rightarrow> bool \<Rightarrow> http_parser option" where
  "http_parser_pause p paused =
     (if http_errno p = HPE_OK \<or> http_errno p = HPE_PAUSED
      then Some (p\<lparr> http_errno := if paused then HPE_PAUSED else HPE_OK \<rparr>) else None)"

definition http_body_is_final :: "http_parser \<Rightarrow> bool" where
  "http_body_is_final p = (pstate p = s_message_done)"

definition http_parser_version :: u64 where
  "http_parser_version = (2 * 0x10000) OR (7 * 0x00100) OR (1 * 0x00001)"

end
