(* ===== verification/HttpExec.thy ===== *)
theory HttpExec
  imports HttpBase
begin

text \<open>
  \<open>http_parser_execute\<close>, state by state.  The local variables of the C function are a record \<open>exec\<close>:
  the parser, the application's own state \<open>usr\<close> that the callbacks work on, \<open>p_state\<close>, the position
  \<open>p - data\<close> and the marks.  Handling one byte gives a \<open>step\<close>: \<open>Next\<close> is the end of the \<open>switch\<close>
  (the loop increments \<open>p\<close>), \<open>Reexec\<close> is \<open>goto reexecute\<close> with the value of \<open>ch\<close>, \<open>Ret\<close> is a
  \<open>return\<close>, \<open>Abort\<close> is a failed assertion or a read behind the end of a table, and \<open>Stuck\<close> says that the fuel of the model ran out.
\<close>

section \<open>Callbacks and local state\<close>

type_synonym 'u http_cb = "http_parser \<Rightarrow> 'u \<Rightarrow> int \<times> http_parser \<times> 'u"
type_synonym 'u http_data_cb = "http_parser \<Rightarrow> string \<Rightarrow> 'u \<Rightarrow> int \<times> http_parser \<times> 'u"

record 'u settings =
  on_message_begin :: "'u http_cb option"
  on_url :: "'u http_data_cb option"
  on_status :: "'u http_data_cb option"
  on_header_field :: "'u http_data_cb option"
  on_header_value :: "'u http_data_cb option"
  on_headers_complete :: "'u http_cb option"
  on_body :: "'u http_data_cb option"
  on_message_complete :: "'u http_cb option"
  on_chunk_header :: "'u http_cb option"
  on_chunk_complete :: "'u http_cb option"

definition http_parser_settings_init :: "'u settings" where
  "http_parser_settings_init =
     \<lparr> on_message_begin = None, on_url = None, on_status = None, on_header_field = None,
       on_header_value = None, on_headers_complete = None, on_body = None,
       on_message_complete = None, on_chunk_header = None, on_chunk_complete = None \<rparr>"

record 'u exec =
  par :: http_parser
  usr :: 'u
  st :: state
  lenient :: bool
  pos :: nat
  header_field_mark :: "nat option"
  header_value_mark :: "nat option"
  url_mark :: "nat option"
  body_mark :: "nat option"
  status_mark :: "nat option"

datatype 'u step = Next "'u exec" | Reexec "'u exec" char | Ret "'u exec" nat | Abort | Stuck

section \<open>The macros\<close>

text \<open>\<open>UPDATE_STATE\<close>, a change of the parser record, \<open>RETURN\<close>, and \<open>SET_ERRNO; goto error\<close>.\<close>

definition goto_state :: "state \<Rightarrow> 'u exec \<Rightarrow> 'u exec" where
  "goto_state s x = x\<lparr> st := s \<rparr>"

definition upd :: "(http_parser \<Rightarrow> http_parser) \<Rightarrow> 'u exec \<Rightarrow> 'u exec" where
  "upd f x = x\<lparr> par := f (par x) \<rparr>"

definition save_state :: "'u exec \<Rightarrow> 'u exec" where
  "save_state x = x\<lparr> par := (par x)\<lparr> pstate := st x \<rparr> \<rparr>"

definition ret :: "nat \<Rightarrow> 'u exec \<Rightarrow> 'u step" where
  "ret v x = Ret (save_state x) v"

definition fail :: "http_errno \<Rightarrow> 'u exec \<Rightarrow> 'u step" where
  "fail e x = ret (pos x) (upd (http_errno_update (\<lambda>_. e)) x)"

definition STRICT_CHECK :: "bool \<Rightarrow> 'u exec \<Rightarrow> 'u step \<Rightarrow> 'u step" where
  "STRICT_CHECK cond x k = (if cond then fail HPE_STRICT x else k)"

definition COUNT_HEADER_SIZE :: "nat \<Rightarrow> 'u exec \<Rightarrow> ('u exec \<Rightarrow> 'u step) \<Rightarrow> 'u step" where
  "COUNT_HEADER_SIZE v x k =
     (let x1 = upd (nread_update (\<lambda>n. n + of_nat v)) x
      in if of_nat HTTP_MAX_HEADER_SIZE < nread (par x1) then fail HPE_HEADER_OVERFLOW x1 else k x1)"

text \<open>What both kinds of callback do with the result of the application's function.\<close>

definition after_callback ::
    "http_errno \<Rightarrow> nat \<Rightarrow> 'u exec \<Rightarrow> int \<times> http_parser \<times> 'u \<Rightarrow> ('u exec \<Rightarrow> 'u step) \<Rightarrow> 'u step" where
  "after_callback e er x res k =
     (case res of (r, p1, u1) \<Rightarrow>
        let p2 = (if r \<noteq> 0 then p1\<lparr> http_errno := e \<rparr> else p1);
            x1 = x\<lparr> par := p2, usr := u1, st := pstate p2 \<rparr>
        in if http_errno p2 \<noteq> HPE_OK then Ret x1 er else k x1)"

definition CALLBACK_NOTIFY ::
    "'u http_cb option \<Rightarrow> http_errno \<Rightarrow> nat \<Rightarrow> 'u exec \<Rightarrow> ('u exec \<Rightarrow> 'u step) \<Rightarrow> 'u step" where
  "CALLBACK_NOTIFY cb e er x k =
     (if http_errno (par x) \<noteq> HPE_OK then Abort
      else
        (case cb of
           None \<Rightarrow> k x
         | Some f \<Rightarrow> let x1 = save_state x in after_callback e er x1 (f (par x1) (usr x1)) k))"

text \<open>The bytes from the mark up to offset \<open>stop\<close> go to the callback; then the mark is cleared.\<close>

definition CALLBACK_DATA ::
    "'u http_data_cb option \<Rightarrow> http_errno \<Rightarrow> string \<Rightarrow> nat option \<Rightarrow> ('u exec \<Rightarrow> 'u exec)
     \<Rightarrow> nat \<Rightarrow> nat \<Rightarrow> 'u exec \<Rightarrow> ('u exec \<Rightarrow> 'u step) \<Rightarrow> 'u step" where
  "CALLBACK_DATA cb e data mark clear stop er x k =
     (if http_errno (par x) \<noteq> HPE_OK then Abort
      else
        (case mark of
           None \<Rightarrow> k x
         | Some m \<Rightarrow>
             (case cb of
                None \<Rightarrow> k (clear x)
              | Some f \<Rightarrow>
                  let x1 = save_state x
                  in after_callback e er x1 (f (par x1) (take (stop - m) (drop m data)) (usr x1))
                       (\<lambda>x2. k (clear x2)))))"

definition cb_message_begin :: "'u settings \<Rightarrow> nat \<Rightarrow> 'u exec \<Rightarrow> ('u exec \<Rightarrow> 'u step) \<Rightarrow> 'u step" where
  "cb_message_begin S = CALLBACK_NOTIFY (on_message_begin S) HPE_CB_message_begin"

definition cb_message_complete :: "'u settings \<Rightarrow> nat \<Rightarrow> 'u exec \<Rightarrow> ('u exec \<Rightarrow> 'u step) \<Rightarrow> 'u step" where
  "cb_message_complete S = CALLBACK_NOTIFY (on_message_complete S) HPE_CB_message_complete"

definition cb_chunk_header :: "'u settings \<Rightarrow> nat \<Rightarrow> 'u exec \<Rightarrow> ('u exec \<Rightarrow> 'u step) \<Rightarrow> 'u step" where
  "cb_chunk_header S = CALLBACK_NOTIFY (on_chunk_header S) HPE_CB_chunk_header"

definition cb_chunk_complete :: "'u settings \<Rightarrow> nat \<Rightarrow> 'u exec \<Rightarrow> ('u exec \<Rightarrow> 'u step) \<Rightarrow> 'u step" where
  "cb_chunk_complete S = CALLBACK_NOTIFY (on_chunk_complete S) HPE_CB_chunk_complete"

definition cb_url :: "'u settings \<Rightarrow> string \<Rightarrow> nat \<Rightarrow> 'u exec \<Rightarrow> ('u exec \<Rightarrow> 'u step) \<Rightarrow> 'u step" where
  "cb_url S data er x =
     CALLBACK_DATA (on_url S) HPE_CB_url data (url_mark x) (url_mark_update (\<lambda>_. None)) (pos x) er x"

definition cb_status :: "'u settings \<Rightarrow> string \<Rightarrow> nat \<Rightarrow> 'u exec \<Rightarrow> ('u exec \<Rightarrow> 'u step) \<Rightarrow> 'u step" where
  "cb_status S data er x =
     CALLBACK_DATA (on_status S) HPE_CB_status data (status_mark x) (status_mark_update (\<lambda>_. None)) (pos x) er x"

definition cb_header_field :: "'u settings \<Rightarrow> string \<Rightarrow> nat \<Rightarrow> 'u exec \<Rightarrow> ('u exec \<Rightarrow> 'u step) \<Rightarrow> 'u step" where
  "cb_header_field S data er x =
     CALLBACK_DATA (on_header_field S) HPE_CB_header_field data (header_field_mark x)
       (header_field_mark_update (\<lambda>_. None)) (pos x) er x"

definition cb_header_value :: "'u settings \<Rightarrow> string \<Rightarrow> nat \<Rightarrow> 'u exec \<Rightarrow> ('u exec \<Rightarrow> 'u step) \<Rightarrow> 'u step" where
  "cb_header_value S data er x =
     CALLBACK_DATA (on_header_value S) HPE_CB_header_value data (header_value_mark x)
       (header_value_mark_update (\<lambda>_. None)) (pos x) er x"

definition cb_body :: "'u settings \<Rightarrow> string \<Rightarrow> nat \<Rightarrow> nat \<Rightarrow> 'u exec \<Rightarrow> ('u exec \<Rightarrow> 'u step) \<Rightarrow> 'u step" where
  "cb_body S data stop er x =
     CALLBACK_DATA (on_body S) HPE_CB_body data (body_mark x) (body_mark_update (\<lambda>_. None)) stop er x"

text \<open>\<open>MARK\<close>: not destructive if the mark is set.\<close>

definition mark :: "nat \<Rightarrow> nat option \<Rightarrow> nat option" where
  "mark p m = (case m of None \<Rightarrow> Some p | Some q \<Rightarrow> Some q)"

definition digit16 :: "char \<Rightarrow> u16" where
  "digit16 ch = of_nat (code ch - 48)"

definition is_crlf :: "char \<Rightarrow> bool" where
  "is_crlf ch \<longleftrightarrow> ch = CR \<or> ch = LF"

section \<open>Start of a message and the status line\<close>

definition ex_dead :: "char \<Rightarrow> 'u exec \<Rightarrow> 'u step" where
  "ex_dead ch x = (if is_crlf ch then Next x else fail HPE_CLOSED_CONNECTION x)"

definition begin_message :: "'u exec \<Rightarrow> 'u exec" where
  "begin_message x = upd (\<lambda>p. p\<lparr> flags := 0, content_length := ULLONG_MAX \<rparr>) x"

definition ex_start_req_or_res :: "'u settings \<Rightarrow> char \<Rightarrow> 'u exec \<Rightarrow> 'u step" where
  "ex_start_req_or_res S ch x =
     (if is_crlf ch then Next x
      else
        let x1 = begin_message x in
        if ch = CHR ''H'' then cb_message_begin S (pos x1 + 1) (goto_state s_res_or_resp_H x1) Next
        else Reexec (goto_state s_start_req (upd (ptype_update (\<lambda>_. HTTP_REQUEST)) x1)) ch)"

definition ex_res_or_resp_H :: "char \<Rightarrow> 'u exec \<Rightarrow> 'u step" where
  "ex_res_or_resp_H ch x =
     (if ch = CHR ''T'' then Next (goto_state s_res_HT (upd (ptype_update (\<lambda>_. HTTP_RESPONSE)) x))
      else if ch \<noteq> CHR ''E'' then fail HPE_INVALID_CONSTANT x
      else Next (goto_state s_req_method
             (upd (\<lambda>p. p\<lparr> ptype := HTTP_REQUEST, pmethod := HTTP_HEAD, index := 2 \<rparr>) x)))"

definition ex_start_res :: "'u settings \<Rightarrow> char \<Rightarrow> 'u exec \<Rightarrow> 'u step" where
  "ex_start_res S ch x =
     (let x1 = begin_message x in
      if ch = CHR ''H'' then cb_message_begin S (pos x1 + 1) (goto_state s_res_H x1) Next
      else if is_crlf ch then cb_message_begin S (pos x1 + 1) x1 Next
      else fail HPE_INVALID_CONSTANT x1)"

text \<open>A state that expects one constant byte, in strict mode.\<close>

definition ex_const :: "char \<Rightarrow> state \<Rightarrow> char \<Rightarrow> 'u exec \<Rightarrow> 'u step" where
  "ex_const expected s ch x = STRICT_CHECK (ch \<noteq> expected) x (Next (goto_state s x))"

definition ex_res_line :: "char \<Rightarrow> 'u exec \<Rightarrow> 'u step" where
  "ex_res_line ch x =
     (case st x of
        s_res_H \<Rightarrow> ex_const CHR ''T'' s_res_HT ch x
      | s_res_HT \<Rightarrow> ex_const CHR ''T'' s_res_HTT ch x
      | s_res_HTT \<Rightarrow> ex_const CHR ''P'' s_res_HTTP ch x
      | s_res_HTTP \<Rightarrow> ex_const CHR ''/'' s_res_http_major ch x
      | s_res_http_major \<Rightarrow>
          if \<not> IS_NUM ch then fail HPE_INVALID_VERSION x
          else Next (goto_state s_res_http_dot (upd (http_major_update (\<lambda>_. digit16 ch)) x))
      | s_res_http_dot \<Rightarrow>
          if ch \<noteq> CHR ''.'' then fail HPE_INVALID_VERSION x else Next (goto_state s_res_http_minor x)
      | s_res_http_minor \<Rightarrow>
          if \<not> IS_NUM ch then fail HPE_INVALID_VERSION x
          else Next (goto_state s_res_http_end (upd (http_minor_update (\<lambda>_. digit16 ch)) x))
      | _ \<Rightarrow>
          if ch \<noteq> SPC then fail HPE_INVALID_VERSION x else Next (goto_state s_res_first_status_code x))"

definition ex_res_first_status_code :: "char \<Rightarrow> 'u exec \<Rightarrow> 'u step" where
  "ex_res_first_status_code ch x =
     (if \<not> IS_NUM ch then if ch = SPC then Next x else fail HPE_INVALID_STATUS x
      else Next (goto_state s_res_status_code (upd (status_code_update (\<lambda>_. digit16 ch)) x)))"

definition ex_res_status_code :: "char \<Rightarrow> 'u exec \<Rightarrow> 'u step" where
  "ex_res_status_code ch x =
     (if \<not> IS_NUM ch then
        if ch = SPC then Next (goto_state s_res_status_start x)
        else if is_crlf ch then Reexec (goto_state s_res_status_start x) ch
        else fail HPE_INVALID_STATUS x
      else
        let x1 = upd (status_code_update (\<lambda>n. n * 10 + digit16 ch)) x
        in if 999 < status_code (par x1) then fail HPE_INVALID_STATUS x1 else Next x1)"

definition ex_res_status_start :: "char \<Rightarrow> 'u exec \<Rightarrow> 'u step" where
  "ex_res_status_start ch x =
     (let x1 = goto_state s_res_status
                 (upd (index_update (\<lambda>_. 0)) (x\<lparr> status_mark := mark (pos x) (status_mark x) \<rparr>))
      in if is_crlf ch then Reexec x1 ch else Next x1)"

definition ex_res_status :: "'u settings \<Rightarrow> string \<Rightarrow> char \<Rightarrow> 'u exec \<Rightarrow> 'u step" where
  "ex_res_status S data ch x =
     (if ch = CR then cb_status S data (pos x + 1) (goto_state s_res_line_almost_done x) Next
      else if ch = LF then cb_status S data (pos x + 1) (goto_state s_header_field_start x) Next
      else Next x)"

section \<open>The request line\<close>

text \<open>The first letter of a method.\<close>

definition first_method :: "char \<Rightarrow> http_method option" where
  "first_method ch =
     (if ch = CHR ''A'' then Some HTTP_ACL
      else if ch = CHR ''B'' then Some HTTP_BIND
      else if ch = CHR ''C'' then Some HTTP_CONNECT
      else if ch = CHR ''D'' then Some HTTP_DELETE
      else if ch = CHR ''G'' then Some HTTP_GET
      else if ch = CHR ''H'' then Some HTTP_HEAD
      else if ch = CHR ''L'' then Some HTTP_LOCK
      else if ch = CHR ''M'' then Some HTTP_MKCOL
      else if ch = CHR ''N'' then Some HTTP_NOTIFY
      else if ch = CHR ''O'' then Some HTTP_OPTIONS
      else if ch = CHR ''P'' then Some HTTP_POST
      else if ch = CHR ''R'' then Some HTTP_REPORT
      else if ch = CHR ''S'' then Some HTTP_SUBSCRIBE
      else if ch = CHR ''T'' then Some HTTP_TRACE
      else if ch = CHR ''U'' then Some HTTP_UNLOCK
      else None)"

text \<open>The \<open>switch\<close> on method, index and byte that turns to another method.\<close>

definition method_switch :: "http_method \<Rightarrow> nat \<Rightarrow> char \<Rightarrow> http_method option" where
  "method_switch m i ch =
     (if m = HTTP_POST \<and> i = 1 \<and> ch = CHR ''U'' then Some HTTP_PUT
      else if m = HTTP_POST \<and> i = 1 \<and> ch = CHR ''A'' then Some HTTP_PATCH
      else if m = HTTP_POST \<and> i = 1 \<and> ch = CHR ''R'' then Some HTTP_PROPFIND
      else if m = HTTP_PUT \<and> i = 2 \<and> ch = CHR ''R'' then Some HTTP_PURGE
      else if m = HTTP_CONNECT \<and> i = 1 \<and> ch = CHR ''H'' then Some HTTP_CHECKOUT
      else if m = HTTP_CONNECT \<and> i = 2 \<and> ch = CHR ''P'' then Some HTTP_COPY
      else if m = HTTP_MKCOL \<and> i = 1 \<and> ch = CHR ''O'' then Some HTTP_MOVE
      else if m = HTTP_MKCOL \<and> i = 1 \<and> ch = CHR ''E'' then Some HTTP_MERGE
      else if m = HTTP_MKCOL \<and> i = 1 \<and> ch = CHR ''-'' then Some HTTP_MSEARCH
      else if m = HTTP_MKCOL \<and> i = 2 \<and> ch = CHR ''A'' then Some HTTP_MKACTIVITY
      else if m = HTTP_MKCOL \<and> i = 3 \<and> ch = CHR ''A'' then Some HTTP_MKCALENDAR
      else if m = HTTP_SUBSCRIBE \<and> i = 1 \<and> ch = CHR ''E'' then Some HTTP_SEARCH
      else if m = HTTP_REPORT \<and> i = 2 \<and> ch = CHR ''B'' then Some HTTP_REBIND
      else if m = HTTP_PROPFIND \<and> i = 4 \<and> ch = CHR ''P'' then Some HTTP_PROPPATCH
      else if m = HTTP_LOCK \<and> i = 1 \<and> ch = CHR ''I'' then Some HTTP_LINK
      else if m = HTTP_UNLOCK \<and> i = 2 \<and> ch = CHR ''S'' then Some HTTP_UNSUBSCRIBE
      else if m = HTTP_UNLOCK \<and> i = 2 \<and> ch = CHR ''B'' then Some HTTP_UNBIND
      else if m = HTTP_UNLOCK \<and> i = 3 \<and> ch = CHR ''I'' then Some HTTP_UNLINK
      else None)"

definition ex_start_req :: "'u settings \<Rightarrow> char \<Rightarrow> 'u exec \<Rightarrow> 'u step" where
  "ex_start_req S ch x =
     (if is_crlf ch then Next x
      else
        let x1 = begin_message x in
        if \<not> IS_ALPHA ch then fail HPE_INVALID_METHOD x1
        else
          let x2 = upd (\<lambda>p. p\<lparr> pmethod := HTTP_DELETE, index := 1 \<rparr>) x1 in
          (case first_method ch of
             None \<Rightarrow> fail HPE_INVALID_METHOD x2
           | Some m \<Rightarrow>
               cb_message_begin S (pos x2 + 1)
                 (goto_state s_req_method (upd (pmethod_update (\<lambda>_. m)) x2)) Next))"

text \<open>Byte \<open>i\<close> of a C string; the byte after its last one is NUL, and reading beyond is out of bounds.\<close>

definition str_at :: "string \<Rightarrow> nat \<Rightarrow> char option" where
  "str_at s i = (if i < length s then Some (s ! i) else if i = length s then Some NUL else None)"

definition ex_req_method :: "char \<Rightarrow> 'u exec \<Rightarrow> 'u step" where
  "ex_req_method ch x =
     (if ch = NUL then fail HPE_INVALID_METHOD x
      else
        (case str_at (method_string (pmethod (par x))) (unat (index (par x))) of
           None \<Rightarrow> Abort
         | Some c \<Rightarrow>
             if ch = SPC \<and> c = NUL then
               Next (upd (index_update (\<lambda>i. i + 1)) (goto_state s_req_spaces_before_url x))
             else if ch = c then Next (upd (index_update (\<lambda>i. i + 1)) x)
             else if (65 \<le> code ch \<and> code ch \<le> 90) \<or> ch = CHR ''-'' then
               (case method_switch (pmethod (par x)) (unat (index (par x))) ch of
                  None \<Rightarrow> fail HPE_INVALID_METHOD x
                | Some m \<Rightarrow> Next (upd (\<lambda>p. p\<lparr> pmethod := m, index := index p + 1 \<rparr>) x))
             else fail HPE_INVALID_METHOD x))"

definition url_char :: "char \<Rightarrow> 'u exec \<Rightarrow> 'u step" where
  "url_char ch x =
     (let x1 = goto_state (parse_url_char (st x) ch) x
      in if st x1 = s_dead then fail HPE_INVALID_URL x1 else Next x1)"

definition ex_req_spaces_before_url :: "char \<Rightarrow> 'u exec \<Rightarrow> 'u step" where
  "ex_req_spaces_before_url ch x =
     (if ch = SPC then Next x
      else
        let x1 = x\<lparr> url_mark := mark (pos x) (url_mark x) \<rparr>
        in url_char ch (if pmethod (par x1) = HTTP_CONNECT then goto_state s_req_server_start x1 else x1))"

definition ex_req_schema :: "char \<Rightarrow> 'u exec \<Rightarrow> 'u step" where
  "ex_req_schema ch x = (if ch = SPC \<or> is_crlf ch then fail HPE_INVALID_URL x else url_char ch x)"

definition ex_req_url :: "'u settings \<Rightarrow> string \<Rightarrow> char \<Rightarrow> 'u exec \<Rightarrow> 'u step" where
  "ex_req_url S data ch x =
     (if ch = SPC then cb_url S data (pos x + 1) (goto_state s_req_http_start x) Next
      else if is_crlf ch then
        cb_url S data (pos x + 1)
          (goto_state (if ch = CR then s_req_line_almost_done else s_header_field_start)
            (upd (\<lambda>p. p\<lparr> http_major := 0, http_minor := 9 \<rparr>) x)) Next
      else url_char ch x)"

definition ex_req_http :: "char \<Rightarrow> 'u exec \<Rightarrow> 'u step" where
  "ex_req_http ch x =
     (case st x of
        s_req_http_start \<Rightarrow>
          if ch = CHR ''H'' then Next (goto_state s_req_http_H x)
          else if ch = SPC then Next x
          else fail HPE_INVALID_CONSTANT x
      | s_req_http_H \<Rightarrow> ex_const CHR ''T'' s_req_http_HT ch x
      | s_req_http_HT \<Rightarrow> ex_const CHR ''T'' s_req_http_HTT ch x
      | s_req_http_HTT \<Rightarrow> ex_const CHR ''P'' s_req_http_HTTP ch x
      | s_req_http_HTTP \<Rightarrow> ex_const CHR ''/'' s_req_http_major ch x
      | s_req_http_major \<Rightarrow>
          if \<not> IS_NUM ch then fail HPE_INVALID_VERSION x
          else Next (goto_state s_req_http_dot (upd (http_major_update (\<lambda>_. digit16 ch)) x))
      | s_req_http_dot \<Rightarrow>
          if ch \<noteq> CHR ''.'' then fail HPE_INVALID_VERSION x else Next (goto_state s_req_http_minor x)
      | s_req_http_minor \<Rightarrow>
          if \<not> IS_NUM ch then fail HPE_INVALID_VERSION x
          else Next (goto_state s_req_http_end (upd (http_minor_update (\<lambda>_. digit16 ch)) x))
      | s_req_http_end \<Rightarrow>
          if ch = CR then Next (goto_state s_req_line_almost_done x)
          else if ch = LF then Next (goto_state s_header_field_start x)
          else fail HPE_INVALID_VERSION x
      | _ \<Rightarrow>
          if ch \<noteq> LF then fail HPE_LF_EXPECTED x else Next (goto_state s_header_field_start x))"


section \<open>Header fields\<close>

definition ex_header_field_start :: "char \<Rightarrow> 'u exec \<Rightarrow> 'u step" where
  "ex_header_field_start ch x =
     (if ch = CR then Next (goto_state s_headers_almost_done x)
      else if ch = LF then Reexec (goto_state s_headers_almost_done x) ch
      else
        let c = TOKEN ch in
        if c = 0 then fail HPE_INVALID_HEADER_TOKEN x
        else
          let x1 = goto_state s_header_field
                     (upd (index_update (\<lambda>_. 0))
                       (x\<lparr> header_field_mark := mark (pos x) (header_field_mark x) \<rparr>));
              h = (if c = code CHR ''c'' then h_C
                   else if c = code CHR ''p'' then h_matching_proxy_connection
                   else if c = code CHR ''t'' then h_matching_transfer_encoding
                   else if c = code CHR ''u'' then h_matching_upgrade
                   else h_general)
          in Next (upd (header_state_update (\<lambda>_. h)) x1))"

text \<open>
  Matching the rest of a known name: \<open>finished\<close> is the state when its last letter is reached.  The
  comparison reads \<open>str[index]\<close> only when \<open>index\<close> is at most \<open>sizeof(str) - 1\<close>, the NUL.
\<close>

definition match_name :: "string \<Rightarrow> header_state \<Rightarrow> header_state \<Rightarrow> nat \<Rightarrow> nat \<Rightarrow> header_state option" where
  "match_name str finished other i c =
     (if length str < i \<or> str_at str i \<noteq> Some (char_of c) then Some other
      else if i = length str - 1 then Some finished
      else None)"

definition CONNECTION :: string where "CONNECTION = ''connection''"
definition PROXY_CONNECTION :: string where "PROXY_CONNECTION = ''proxy-connection''"
definition CONTENT_LENGTH :: string where "CONTENT_LENGTH = ''content-length''"
definition TRANSFER_ENCODING :: string where "TRANSFER_ENCODING = ''transfer-encoding''"
definition UPGRADE :: string where "UPGRADE = ''upgrade''"
definition CHUNKED :: string where "CHUNKED = ''chunked''"
definition KEEP_ALIVE :: string where "KEEP_ALIVE = ''keep-alive''"
definition CLOSE :: string where "CLOSE = ''close''"

definition match_field :: "string \<Rightarrow> header_state \<Rightarrow> nat \<Rightarrow> http_parser \<Rightarrow> http_parser" where
  "match_field str finished c p =
     (let p1 = p\<lparr> index := index p + 1 \<rparr> in
      case match_name str finished h_general (unat (index p1)) c of
        None \<Rightarrow> p1
      | Some h \<Rightarrow> p1\<lparr> header_state := h \<rparr>)"

text \<open>One byte \<open>ch\<close> of a field name, \<open>c\<close> its token; \<open>None\<close> is the failed assertion.\<close>

definition field_step :: "char \<Rightarrow> nat \<Rightarrow> http_parser \<Rightarrow> http_parser option" where
  "field_step ch c p =
     (case header_state p of
        h_general \<Rightarrow> Some p
      | h_C \<Rightarrow> Some (p\<lparr> index := index p + 1,
                       header_state := if c = code CHR ''o'' then h_CO else h_general \<rparr>)
      | h_CO \<Rightarrow> Some (p\<lparr> index := index p + 1,
                        header_state := if c = code CHR ''n'' then h_CON else h_general \<rparr>)
      | h_CON \<Rightarrow> Some (p\<lparr> index := index p + 1,
                         header_state := if c = code CHR ''n'' then h_matching_connection
                                         else if c = code CHR ''t'' then h_matching_content_length
                                         else h_general \<rparr>)
      | h_matching_connection \<Rightarrow> Some (match_field CONNECTION h_connection c p)
      | h_matching_proxy_connection \<Rightarrow> Some (match_field PROXY_CONNECTION h_connection c p)
      | h_matching_content_length \<Rightarrow> Some (match_field CONTENT_LENGTH h_content_length c p)
      | h_matching_transfer_encoding \<Rightarrow> Some (match_field TRANSFER_ENCODING h_transfer_encoding c p)
      | h_matching_upgrade \<Rightarrow> Some (match_field UPGRADE h_upgrade c p)
      | h_connection \<Rightarrow> Some (if ch \<noteq> SPC then p\<lparr> header_state := h_general \<rparr> else p)
      | h_content_length \<Rightarrow> Some (if ch \<noteq> SPC then p\<lparr> header_state := h_general \<rparr> else p)
      | h_transfer_encoding \<Rightarrow> Some (if ch \<noteq> SPC then p\<lparr> header_state := h_general \<rparr> else p)
      | h_upgrade \<Rightarrow> Some (if ch \<noteq> SPC then p\<lparr> header_state := h_general \<rparr> else p)
      | _ \<Rightarrow> None)"

text \<open>
  The loop over a field name: \<open>rest\<close> are the bytes from \<open>p\<close> on, \<open>k\<close> is \<open>p - start\<close>.  The result is
  the parser, the last \<open>ch\<close> and \<open>p - start\<close>.
\<close>

fun field_loop :: "string \<Rightarrow> char \<Rightarrow> http_parser \<Rightarrow> nat \<Rightarrow> (http_parser \<times> char \<times> nat) option" where
  "field_loop [] ch p k = Some (p, ch, k)"
| "field_loop (c # cs) ch p k =
     (if TOKEN c = 0 then Some (p, c, k)
      else (case field_step c (TOKEN c) p of None \<Rightarrow> None | Some p1 \<Rightarrow> field_loop cs c p1 (k + 1)))"

definition ex_header_field :: "'u settings \<Rightarrow> string \<Rightarrow> char \<Rightarrow> 'u exec \<Rightarrow> 'u step" where
  "ex_header_field S data ch x =
     (case field_loop (drop (pos x) data) ch (par x) 0 of
        None \<Rightarrow> Abort
      | Some (p1, ch1, k) \<Rightarrow>
          COUNT_HEADER_SIZE k (x\<lparr> par := p1, pos := pos x + k \<rparr>) (\<lambda>x1.
            if pos x1 = length data then Next (x1\<lparr> pos := pos x1 - 1 \<rparr>)
            else if ch1 = CHR '':'' then
              cb_header_field S data (pos x1 + 1) (goto_state s_header_value_discard_ws x1) Next
            else fail HPE_INVALID_HEADER_TOKEN x1))"

section \<open>Header values\<close>

definition ex_header_value_start :: "char \<Rightarrow> 'u exec \<Rightarrow> 'u step" where
  "ex_header_value_start ch x =
     (let x1 = upd (index_update (\<lambda>_. 0))
                 (goto_state s_header_value
                   (x\<lparr> header_value_mark := mark (pos x) (header_value_mark x) \<rparr>));
          c = LOWER ch;
          to_state = (\<lambda>h. Next (upd (header_state_update (\<lambda>_. h)) x1))
      in (case header_state (par x1) of
            h_upgrade \<Rightarrow>
              Next (upd (\<lambda>p. p\<lparr> flags := flags p OR F_UPGRADE, header_state := h_general \<rparr>) x1)
          | h_transfer_encoding \<Rightarrow>
              to_state (if c = code CHR ''c'' then h_matching_transfer_encoding_chunked else h_general)
          | h_content_length \<Rightarrow>
              if \<not> IS_NUM ch then fail HPE_INVALID_CONTENT_LENGTH x1
              else if has_flag (flags (par x1)) F_CONTENTLENGTH then
                fail HPE_UNEXPECTED_CONTENT_LENGTH x1
              else Next (upd (\<lambda>p. p\<lparr> flags := flags p OR F_CONTENTLENGTH,
                                    content_length := of_nat (code ch - 48) \<rparr>) x1)
          | h_connection \<Rightarrow>
              to_state (if c = code CHR ''k'' then h_matching_connection_keep_alive
                        else if c = code CHR ''c'' then h_matching_connection_close
                        else if c = code CHR ''u'' then h_matching_connection_upgrade
                        else h_matching_connection_token)
          | h_matching_connection_token_start \<Rightarrow> Next x1
          | _ \<Rightarrow> to_state h_general))"

definition ex_header_value_discard_ws :: "char \<Rightarrow> 'u exec \<Rightarrow> 'u step" where
  "ex_header_value_discard_ws ch x =
     (if ch = SPC \<or> ch = TAB then Next x
      else if ch = CR then Next (goto_state s_header_value_discard_ws_almost_done x)
      else if ch = LF then Next (goto_state s_header_value_discard_lws x)
      else ex_header_value_start ch x)"

text \<open>
  One byte of a value: the parser and the local \<open>h_state\<close> go on, an error, or the failed assertion.
  The state \<open>h_general\<close> is handled by the loop, which skips to the end of the line.
\<close>

datatype value_res = VGo http_parser header_state | VFail http_errno http_parser | VAbort

definition match_value :: "string \<Rightarrow> header_state \<Rightarrow> header_state \<Rightarrow> nat \<Rightarrow> http_parser \<Rightarrow> header_state \<Rightarrow> value_res" where
  "match_value str finished other c p h =
     (let p1 = p\<lparr> index := index p + 1 \<rparr> in
      case match_name str finished other (unat (index p1)) c of
        None \<Rightarrow> VGo p1 h
      | Some h1 \<Rightarrow> VGo p1 h1)"

text \<open>Content-Length: one more digit, after a test against a conservative limit.\<close>

definition value_content_length :: "char \<Rightarrow> http_parser \<Rightarrow> value_res" where
  "value_content_length ch p =
     (if ch = SPC then VGo p h_content_length
      else if \<not> IS_NUM ch then VFail HPE_INVALID_CONTENT_LENGTH (p\<lparr> header_state := h_content_length \<rparr>)
      else
        let t = content_length p * 10 + of_nat (code ch - 48) in
        if (ULLONG_MAX - 10) div 10 < content_length p
        then VFail HPE_INVALID_CONTENT_LENGTH (p\<lparr> header_state := h_content_length \<rparr>)
        else VGo (p\<lparr> content_length := t \<rparr>) h_content_length)"

definition value_token_start :: "nat \<Rightarrow> http_parser \<Rightarrow> value_res" where
  "value_token_start c p =
     VGo p (if c = code CHR ''k'' then h_matching_connection_keep_alive
            else if c = code CHR ''c'' then h_matching_connection_close
            else if c = code CHR ''u'' then h_matching_connection_upgrade
            else if STRICT_TOKEN c \<noteq> 0 then h_matching_connection_token
            else if c = code SPC \<or> c = code TAB then h_matching_connection_token_start
            else h_general)"

text \<open>The flag a completed connection token stands for.\<close>

definition token_flag :: "header_state \<Rightarrow> u8" where
  "token_flag h =
     (case h of
        h_connection_keep_alive \<Rightarrow> F_CONNECTION_KEEP_ALIVE
      | h_connection_close \<Rightarrow> F_CONNECTION_CLOSE
      | h_connection_upgrade \<Rightarrow> F_CONNECTION_UPGRADE
      | h_transfer_encoding_chunked \<Rightarrow> F_CHUNKED
      | _ \<Rightarrow> 0)"

definition value_token_end :: "char \<Rightarrow> http_parser \<Rightarrow> header_state \<Rightarrow> value_res" where
  "value_token_end ch p h =
     (if ch = CHR '','' then
        VGo (p\<lparr> flags := flags p OR token_flag h, index := 0 \<rparr>) h_matching_connection_token_start
      else if ch \<noteq> SPC then VGo p h_matching_connection_token
      else VGo p h)"

definition value_step :: "char \<Rightarrow> http_parser \<Rightarrow> header_state \<Rightarrow> value_res" where
  "value_step ch p h =
     (let c = LOWER ch in
      case h of
        h_connection \<Rightarrow> VAbort
      | h_transfer_encoding \<Rightarrow> VAbort
      | h_content_length \<Rightarrow> value_content_length ch p
      | h_matching_transfer_encoding_chunked \<Rightarrow>
          match_value CHUNKED h_transfer_encoding_chunked h_general c p h
      | h_matching_connection_token_start \<Rightarrow> value_token_start c p
      | h_matching_connection_keep_alive \<Rightarrow>
          match_value KEEP_ALIVE h_connection_keep_alive h_matching_connection_token c p h
      | h_matching_connection_close \<Rightarrow>
          match_value CLOSE h_connection_close h_matching_connection_token c p h
      | h_matching_connection_upgrade \<Rightarrow>
          match_value UPGRADE h_connection_upgrade h_matching_connection_token c p h
      | h_matching_connection_token \<Rightarrow>
          if ch = CHR '','' then VGo (p\<lparr> index := 0 \<rparr>) h_matching_connection_token_start else VGo p h
      | h_transfer_encoding_chunked \<Rightarrow> if ch \<noteq> SPC then VGo p h_general else VGo p h
      | h_connection_keep_alive \<Rightarrow> value_token_end ch p h
      | h_connection_close \<Rightarrow> value_token_end ch p h
      | h_connection_upgrade \<Rightarrow> value_token_end ch p h
      | _ \<Rightarrow> VGo p h_general)"

text \<open>How far \<open>memchr\<close> for CR and LF moves \<open>p\<close>: to the first of them within the limit, or to the end.\<close>

definition value_skip :: "string \<Rightarrow> nat" where
  "value_skip rest =
     (let w = take (min (length rest) HTTP_MAX_HEADER_SIZE) rest;
          i = length (takeWhile (\<lambda>c. \<not> is_crlf c) w)
      in if i < length w then i else length rest)"

datatype value_end =
    VEnd http_parser header_state nat
  | VCr http_parser header_state nat
  | VLf http_parser header_state nat
  | VErr http_errno http_parser nat
  | VAssert

lemma value_skip_pos: "\<not> is_crlf c \<Longrightarrow> 0 < value_skip (c # cs)"
  by (simp add: value_skip_def Let_def HTTP_MAX_HEADER_SIZE_def)

lemma value_skip_less:
  "c \<noteq> CR \<Longrightarrow> c \<noteq> LF \<Longrightarrow> Suc (length cs) - value_skip (c # cs) < Suc (length cs)"
  using value_skip_pos [of c cs] by (simp add: is_crlf_def)

text \<open>The loop over a value; \<open>l\<close> is \<open>lenient\<close>, \<open>rest\<close> are the bytes from \<open>p\<close> on, \<open>k\<close> is \<open>p - start\<close>.\<close>

function value_loop :: "bool \<Rightarrow> string \<Rightarrow> http_parser \<Rightarrow> header_state \<Rightarrow> nat \<Rightarrow> value_end" where
  "value_loop l [] p h k = VEnd p h k"
| "value_loop l (c # cs) p h k =
     (if c = CR then VCr p h k
      else if c = LF then VLf p h k
      else if \<not> l \<and> \<not> IS_HEADER_CHAR c then VErr HPE_INVALID_HEADER_TOKEN p k
      else if h = h_general then
        value_loop l (drop (value_skip (c # cs)) (c # cs)) p h (k + value_skip (c # cs))
      else
        (case value_step c p h of
           VAbort \<Rightarrow> VAssert
         | VFail e p1 \<Rightarrow> VErr e p1 k
         | VGo p1 h1 \<Rightarrow> value_loop l cs p1 h1 (k + 1)))"
  by pat_completeness auto
termination
  by (relation "measure (\<lambda>(l, rest, p, h, k). length rest)")
    (auto simp: value_skip_less)

definition ex_header_value :: "'u settings \<Rightarrow> string \<Rightarrow> 'u exec \<Rightarrow> 'u step" where
  "ex_header_value S data x =
     (case value_loop (lenient x) (drop (pos x) data) (par x) (header_state (par x)) 0 of
        VAssert \<Rightarrow> Abort
      | VErr e p1 k \<Rightarrow> fail e (x\<lparr> par := p1, pos := pos x + k \<rparr>)
      | VEnd p1 h k \<Rightarrow>
          COUNT_HEADER_SIZE k (x\<lparr> par := p1\<lparr> header_state := h \<rparr>, pos := pos x + k \<rparr>) (\<lambda>x1.
            Next (x1\<lparr> pos := pos x1 - 1 \<rparr>))
      | VCr p1 h k \<Rightarrow>
          let x1 = goto_state s_header_almost_done
                     (x\<lparr> par := p1\<lparr> header_state := h \<rparr>, pos := pos x + k \<rparr>)
          in cb_header_value S data (pos x1 + 1) x1 (\<lambda>x2.
               COUNT_HEADER_SIZE k (upd (header_state_update (\<lambda>_. h)) x2) Next)
      | VLf p1 h k \<Rightarrow>
          let x1 = goto_state s_header_almost_done (x\<lparr> par := p1, pos := pos x + k \<rparr>)
          in COUNT_HEADER_SIZE k x1 (\<lambda>x2.
               cb_header_value S data (pos x2) (upd (header_state_update (\<lambda>_. h)) x2) (\<lambda>x3.
                 Reexec x3 LF)))"


section \<open>The end of a header and of the headers\<close>

definition set_token_flag :: "'u exec \<Rightarrow> 'u exec" where
  "set_token_flag x = upd (\<lambda>p. p\<lparr> flags := flags p OR token_flag (header_state p) \<rparr>) x"

definition ex_header_almost_done :: "char \<Rightarrow> 'u exec \<Rightarrow> 'u step" where
  "ex_header_almost_done ch x =
     (if ch \<noteq> LF then fail HPE_LF_EXPECTED x else Next (goto_state s_header_value_lws x))"

definition ex_header_value_lws :: "char \<Rightarrow> 'u exec \<Rightarrow> 'u step" where
  "ex_header_value_lws ch x =
     (if ch = SPC \<or> ch = TAB then Reexec (goto_state s_header_value_start x) ch
      else Reexec (goto_state s_header_field_start (set_token_flag x)) ch)"

definition ex_header_value_discard_lws :: "'u settings \<Rightarrow> string \<Rightarrow> char \<Rightarrow> 'u exec \<Rightarrow> 'u step" where
  "ex_header_value_discard_lws S data ch x =
     (if ch = SPC \<or> ch = TAB then Next (goto_state s_header_value_discard_ws x)
      else
        let x1 = set_token_flag x;
            x2 = goto_state s_header_field_start
                   (x1\<lparr> header_value_mark := mark (pos x1) (header_value_mark x1) \<rparr>)
        in cb_header_value S data (pos x2) x2 (\<lambda>x3. Reexec x3 ch))"

text \<open>The \<open>switch\<close> on the result of \<open>on_headers_complete\<close>.\<close>

definition headers_complete :: "'u settings \<Rightarrow> char \<Rightarrow> 'u exec \<Rightarrow> 'u step" where
  "headers_complete S ch x =
     (let finish = (\<lambda>x1. if http_errno (par x1) \<noteq> HPE_OK then ret (pos x1) x1 else Reexec x1 ch) in
      case on_headers_complete S of
        None \<Rightarrow> finish x
      | Some f \<Rightarrow>
          (case f (par x) (usr x) of (r, p1, u1) \<Rightarrow>
             let x1 = x\<lparr> par := p1, usr := u1 \<rparr> in
             if r = 0 then finish x1
             else if r = 2 then
               finish (upd (\<lambda>p. p\<lparr> upgrade := True, flags := flags p OR F_SKIPBODY \<rparr>) x1)
             else if r = 1 then finish (upd (\<lambda>p. p\<lparr> flags := flags p OR F_SKIPBODY \<rparr>) x1)
             else ret (pos x1) (upd (http_errno_update (\<lambda>_. HPE_CB_headers_complete)) x1)))"

definition upgrade_value :: "http_parser \<Rightarrow> bool" where
  "upgrade_value p =
     (if has_flag (flags p) F_UPGRADE \<and> has_flag (flags p) F_CONNECTION_UPGRADE
      then ptype p = HTTP_REQUEST \<or> status_code p = 101
      else pmethod p = HTTP_CONNECT)"

definition ex_headers_almost_done :: "'u settings \<Rightarrow> char \<Rightarrow> 'u exec \<Rightarrow> 'u step" where
  "ex_headers_almost_done S ch x =
     STRICT_CHECK (ch \<noteq> LF) x
       (if has_flag (flags (par x)) F_TRAILING then
          cb_chunk_complete S (pos x) (goto_state s_message_done x) (\<lambda>x1. Reexec x1 ch)
        else if has_flag (flags (par x)) F_CHUNKED \<and> has_flag (flags (par x)) F_CONTENTLENGTH then
          fail HPE_UNEXPECTED_CONTENT_LENGTH x
        else
          headers_complete S ch
            (upd (\<lambda>p. p\<lparr> upgrade := upgrade_value p \<rparr>) (goto_state s_headers_done x)))"

definition new_message :: "'u exec \<Rightarrow> 'u exec" where
  "new_message x = goto_state (NEW_MESSAGE (par x)) x"

definition ex_headers_done :: "'u settings \<Rightarrow> char \<Rightarrow> 'u exec \<Rightarrow> 'u step" where
  "ex_headers_done S ch x =
     STRICT_CHECK (ch \<noteq> LF) x
       (let x1 = upd (nread_update (\<lambda>_. 0)) x; p = par x1;
            hasBody = (has_flag (flags p) F_CHUNKED
                       \<or> (0 < content_length p \<and> content_length p \<noteq> ULLONG_MAX))
        in
        if upgrade p \<and> (pmethod p = HTTP_CONNECT \<or> has_flag (flags p) F_SKIPBODY \<or> \<not> hasBody) then
          cb_message_complete S (pos x1 + 1) (new_message x1) (\<lambda>x2. ret (pos x2 + 1) x2)
        else if has_flag (flags p) F_SKIPBODY then
          cb_message_complete S (pos x1 + 1) (new_message x1) Next
        else if has_flag (flags p) F_CHUNKED then Next (goto_state s_chunk_size_start x1)
        else if content_length p = 0 then
          cb_message_complete S (pos x1 + 1) (new_message x1) Next
        else if content_length p \<noteq> ULLONG_MAX then Next (goto_state s_body_identity x1)
        else if \<not> http_message_needs_eof p then
          cb_message_complete S (pos x1 + 1) (new_message x1) Next
        else Next (goto_state s_body_identity_eof x1))"

section \<open>Bodies and chunks\<close>

text \<open>\<open>MIN(content_length, data + len - p)\<close> bytes are taken; \<open>p\<close> is left on the last of them.\<close>

definition to_read :: "string \<Rightarrow> 'u exec \<Rightarrow> u64" where
  "to_read data x = min (content_length (par x)) (of_nat (length data - pos x))"

definition take_body :: "string \<Rightarrow> 'u exec \<Rightarrow> 'u exec" where
  "take_body data x =
     (let n = to_read data x;
          x1 = x\<lparr> body_mark := mark (pos x) (body_mark x) \<rparr>;
          x2 = upd (content_length_update (\<lambda>c. c - n)) x1
      in x2\<lparr> pos := pos x2 + unat n - 1 \<rparr>)"

definition ex_body_identity :: "'u settings \<Rightarrow> string \<Rightarrow> char \<Rightarrow> 'u exec \<Rightarrow> 'u step" where
  "ex_body_identity S data ch x =
     (if content_length (par x) = 0 \<or> content_length (par x) = ULLONG_MAX then Abort
      else
        let x1 = take_body data x in
        if content_length (par x1) = 0 then
          let x2 = goto_state s_message_done x1
          in cb_body S data (pos x2 + 1) (pos x2) x2 (\<lambda>x3. Reexec x3 ch)
        else Next x1)"

definition ex_body_identity_eof :: "string \<Rightarrow> 'u exec \<Rightarrow> 'u step" where
  "ex_body_identity_eof data x =
     Next (x\<lparr> body_mark := mark (pos x) (body_mark x), pos := length data - 1 \<rparr>)"

definition ex_message_done :: "'u settings \<Rightarrow> 'u exec \<Rightarrow> 'u step" where
  "ex_message_done S x =
     cb_message_complete S (pos x + 1) (new_message x) (\<lambda>x1.
       if upgrade (par x1) then ret (pos x1 + 1) x1 else Next x1)"

definition ex_chunk_size_start :: "char \<Rightarrow> 'u exec \<Rightarrow> 'u step" where
  "ex_chunk_size_start ch x =
     (if nread (par x) \<noteq> 1 \<or> \<not> has_flag (flags (par x)) F_CHUNKED then Abort
      else
        (case unhex (code ch) of
           None \<Rightarrow> fail HPE_INVALID_CHUNK_SIZE x
         | Some v \<Rightarrow>
             Next (goto_state s_chunk_size (upd (content_length_update (\<lambda>_. of_nat v)) x))))"

definition ex_chunk_size :: "char \<Rightarrow> 'u exec \<Rightarrow> 'u step" where
  "ex_chunk_size ch x =
     (if \<not> has_flag (flags (par x)) F_CHUNKED then Abort
      else if ch = CR then Next (goto_state s_chunk_size_almost_done x)
      else
        (case unhex (code ch) of
           None \<Rightarrow>
             if ch = CHR '';'' \<or> ch = SPC then Next (goto_state s_chunk_parameters x)
             else fail HPE_INVALID_CHUNK_SIZE x
         | Some v \<Rightarrow>
             let t = content_length (par x) * 16 + of_nat v in
             if (ULLONG_MAX - 16) div 16 < content_length (par x) then
               fail HPE_INVALID_CONTENT_LENGTH x
             else Next (upd (content_length_update (\<lambda>_. t)) x)))"

definition ex_chunk_parameters :: "char \<Rightarrow> 'u exec \<Rightarrow> 'u step" where
  "ex_chunk_parameters ch x =
     (if \<not> has_flag (flags (par x)) F_CHUNKED then Abort
      else if ch = CR then Next (goto_state s_chunk_size_almost_done x)
      else Next x)"

definition ex_chunk_size_almost_done :: "'u settings \<Rightarrow> char \<Rightarrow> 'u exec \<Rightarrow> 'u step" where
  "ex_chunk_size_almost_done S ch x =
     (if \<not> has_flag (flags (par x)) F_CHUNKED then Abort
      else
        STRICT_CHECK (ch \<noteq> LF) x
          (let x1 = upd (nread_update (\<lambda>_. 0)) x;
               x2 = (if content_length (par x1) = 0
                     then goto_state s_header_field_start
                            (upd (\<lambda>p. p\<lparr> flags := flags p OR F_TRAILING \<rparr>) x1)
                     else goto_state s_chunk_data x1)
           in cb_chunk_header S (pos x2 + 1) x2 Next))"

definition ex_chunk_data :: "string \<Rightarrow> 'u exec \<Rightarrow> 'u step" where
  "ex_chunk_data data x =
     (if \<not> has_flag (flags (par x)) F_CHUNKED then Abort
      else if content_length (par x) = 0 \<or> content_length (par x) = ULLONG_MAX then Abort
      else
        let x1 = take_body data x
        in Next (if content_length (par x1) = 0 then goto_state s_chunk_data_almost_done x1 else x1))"

definition ex_chunk_data_almost_done :: "'u settings \<Rightarrow> string \<Rightarrow> char \<Rightarrow> 'u exec \<Rightarrow> 'u step" where
  "ex_chunk_data_almost_done S data ch x =
     (if \<not> has_flag (flags (par x)) F_CHUNKED \<or> content_length (par x) \<noteq> 0 then Abort
      else
        STRICT_CHECK (ch \<noteq> CR) x
          (cb_body S data (pos x) (pos x + 1) (goto_state s_chunk_data_done x) Next))"

definition ex_chunk_data_done :: "'u settings \<Rightarrow> char \<Rightarrow> 'u exec \<Rightarrow> 'u step" where
  "ex_chunk_data_done S ch x =
     (if \<not> has_flag (flags (par x)) F_CHUNKED then Abort
      else
        STRICT_CHECK (ch \<noteq> LF) x
          (cb_chunk_complete S (pos x + 1)
            (goto_state s_chunk_size_start (upd (nread_update (\<lambda>_. 0)) x)) Next))"

section \<open>The switch and the loop over the bytes\<close>

definition exec_char :: "'u settings \<Rightarrow> string \<Rightarrow> char \<Rightarrow> 'u exec \<Rightarrow> 'u step" where
  "exec_char S data ch x =
     (case st x of
        s_dead \<Rightarrow> ex_dead ch x
      | s_start_req_or_res \<Rightarrow> ex_start_req_or_res S ch x
      | s_res_or_resp_H \<Rightarrow> ex_res_or_resp_H ch x
      | s_start_res \<Rightarrow> ex_start_res S ch x
      | s_res_H \<Rightarrow> ex_res_line ch x
      | s_res_HT \<Rightarrow> ex_res_line ch x
      | s_res_HTT \<Rightarrow> ex_res_line ch x
      | s_res_HTTP \<Rightarrow> ex_res_line ch x
      | s_res_http_major \<Rightarrow> ex_res_line ch x
      | s_res_http_dot \<Rightarrow> ex_res_line ch x
      | s_res_http_minor \<Rightarrow> ex_res_line ch x
      | s_res_http_end \<Rightarrow> ex_res_line ch x
      | s_res_first_status_code \<Rightarrow> ex_res_first_status_code ch x
      | s_res_status_code \<Rightarrow> ex_res_status_code ch x
      | s_res_status_start \<Rightarrow> ex_res_status_start ch x
      | s_res_status \<Rightarrow> ex_res_status S data ch x
      | s_res_line_almost_done \<Rightarrow> ex_const LF s_header_field_start ch x
      | s_start_req \<Rightarrow> ex_start_req S ch x
      | s_req_method \<Rightarrow> ex_req_method ch x
      | s_req_spaces_before_url \<Rightarrow> ex_req_spaces_before_url ch x
      | s_req_schema \<Rightarrow> ex_req_schema ch x
      | s_req_schema_slash \<Rightarrow> ex_req_schema ch x
      | s_req_schema_slash_slash \<Rightarrow> ex_req_schema ch x
      | s_req_server_start \<Rightarrow> ex_req_schema ch x
      | s_req_server \<Rightarrow> ex_req_url S data ch x
      | s_req_server_with_at \<Rightarrow> ex_req_url S data ch x
      | s_req_path \<Rightarrow> ex_req_url S data ch x
      | s_req_query_string_start \<Rightarrow> ex_req_url S data ch x
      | s_req_query_string \<Rightarrow> ex_req_url S data ch x
      | s_req_fragment_start \<Rightarrow> ex_req_url S data ch x
      | s_req_fragment \<Rightarrow> ex_req_url S data ch x
      | s_req_http_start \<Rightarrow> ex_req_http ch x
      | s_req_http_H \<Rightarrow> ex_req_http ch x
      | s_req_http_HT \<Rightarrow> ex_req_http ch x
      | s_req_http_HTT \<Rightarrow> ex_req_http ch x
      | s_req_http_HTTP \<Rightarrow> ex_req_http ch x
      | s_req_http_major \<Rightarrow> ex_req_http ch x
      | s_req_http_dot \<Rightarrow> ex_req_http ch x
      | s_req_http_minor \<Rightarrow> ex_req_http ch x
      | s_req_http_end \<Rightarrow> ex_req_http ch x
      | s_req_line_almost_done \<Rightarrow> ex_req_http ch x
      | s_header_field_start \<Rightarrow> ex_header_field_start ch x
      | s_header_field \<Rightarrow> ex_header_field S data ch x
      | s_header_value_discard_ws \<Rightarrow> ex_header_value_discard_ws ch x
      | s_header_value_discard_ws_almost_done \<Rightarrow> ex_const LF s_header_value_discard_lws ch x
      | s_header_value_discard_lws \<Rightarrow> ex_header_value_discard_lws S data ch x
      | s_header_value_start \<Rightarrow> ex_header_value_start ch x
      | s_header_value \<Rightarrow> ex_header_value S data x
      | s_header_value_lws \<Rightarrow> ex_header_value_lws ch x
      | s_header_almost_done \<Rightarrow> ex_header_almost_done ch x
      | s_chunk_size_start \<Rightarrow> ex_chunk_size_start ch x
      | s_chunk_size \<Rightarrow> ex_chunk_size ch x
      | s_chunk_parameters \<Rightarrow> ex_chunk_parameters ch x
      | s_chunk_size_almost_done \<Rightarrow> ex_chunk_size_almost_done S ch x
      | s_headers_almost_done \<Rightarrow> ex_headers_almost_done S ch x
      | s_headers_done \<Rightarrow> ex_headers_done S ch x
      | s_chunk_data \<Rightarrow> ex_chunk_data data x
      | s_chunk_data_almost_done \<Rightarrow> ex_chunk_data_almost_done S data ch x
      | s_chunk_data_done \<Rightarrow> ex_chunk_data_done S ch x
      | s_body_identity \<Rightarrow> ex_body_identity S data ch x
      | s_body_identity_eof \<Rightarrow> ex_body_identity_eof data x
      | s_message_done \<Rightarrow> ex_message_done S x)"

text \<open>\<open>goto reexecute\<close>, at most \<open>n\<close> times.\<close>

fun reexecute :: "nat \<Rightarrow> 'u settings \<Rightarrow> string \<Rightarrow> char \<Rightarrow> 'u exec \<Rightarrow> 'u step" where
  "reexecute 0 S data ch x = Stuck"
| "reexecute (Suc n) S data ch x =
     (case exec_char S data ch x of
        Reexec x1 ch1 \<Rightarrow> reexecute n S data ch1 x1
      | r \<Rightarrow> r)"

text \<open>One iteration of the loop over the bytes, and the loop with fuel for \<open>n\<close> iterations.\<close>

definition exec_byte :: "'u settings \<Rightarrow> string \<Rightarrow> 'u exec \<Rightarrow> 'u step" where
  "exec_byte S data x =
     (let ch = data ! pos x in
      if PARSING_HEADER (st x) then COUNT_HEADER_SIZE 1 x (reexecute 8 S data ch)
      else reexecute 8 S data ch x)"

definition count_marks :: "'u exec \<Rightarrow> nat" where
  "count_marks x =
     (if header_field_mark x \<noteq> None then 1 else 0) + (if header_value_mark x \<noteq> None then 1 else 0) +
     (if url_mark x \<noteq> None then 1 else 0) + (if body_mark x \<noteq> None then 1 else 0) +
     (if status_mark x \<noteq> None then 1 else 0)"

definition exec_finish :: "'u settings \<Rightarrow> string \<Rightarrow> 'u exec \<Rightarrow> 'u step" where
  "exec_finish S data x =
     (if 1 < count_marks x then Abort
      else
        cb_header_field S data (pos x) x (\<lambda>x1.
        cb_header_value S data (pos x1) x1 (\<lambda>x2.
        cb_url S data (pos x2) x2 (\<lambda>x3.
        cb_body S data (pos x3) (pos x3) x3 (\<lambda>x4.
        cb_status S data (pos x4) x4 (\<lambda>x5.
        ret (length data) x5))))))"

fun exec_loop :: "nat \<Rightarrow> 'u settings \<Rightarrow> string \<Rightarrow> 'u exec \<Rightarrow> 'u step" where
  "exec_loop 0 S data x = (if pos x = length data then exec_finish S data x else Stuck)"
| "exec_loop (Suc n) S data x =
     (if pos x = length data then exec_finish S data x
      else
        (case exec_byte S data x of
           Next x1 \<Rightarrow> exec_loop n S data (x1\<lparr> pos := pos x1 + 1 \<rparr>)
         | r \<Rightarrow> r))"

text \<open>The marks that the state at entry sets.\<close>

definition url_state :: "state \<Rightarrow> bool" where
  "url_state s \<longleftrightarrow>
     s \<in> {s_req_path, s_req_schema, s_req_schema_slash, s_req_schema_slash_slash, s_req_server_start,
          s_req_server, s_req_server_with_at, s_req_query_string_start, s_req_query_string,
          s_req_fragment_start, s_req_fragment}"

definition exec_start :: "http_parser \<Rightarrow> 'u \<Rightarrow> 'u exec" where
  "exec_start p u =
     \<lparr> par = p, usr = u, st = pstate p, lenient = lenient_http_headers p, pos = 0,
       header_field_mark = (if pstate p = s_header_field then Some 0 else None),
       header_value_mark = (if pstate p = s_header_value then Some 0 else None),
       url_mark = (if url_state (pstate p) then Some 0 else None),
       body_mark = None,
       status_mark = (if pstate p = s_res_status then Some 0 else None) \<rparr>"

text \<open>The call with no bytes, which signals the end of the stream.\<close>

definition exec_eof :: "'u settings \<Rightarrow> 'u exec \<Rightarrow> 'u step" where
  "exec_eof S x =
     (case st x of
        s_body_identity_eof \<Rightarrow> cb_message_complete S 0 x (\<lambda>x1. Ret x1 0)
      | s_dead \<Rightarrow> Ret x 0
      | s_start_req_or_res \<Rightarrow> Ret x 0
      | s_start_res \<Rightarrow> Ret x 0
      | s_start_req \<Rightarrow> Ret x 0
      | _ \<Rightarrow> Ret (upd (http_errno_update (\<lambda>_. HPE_INVALID_EOF_STATE)) x) 1)"

definition http_parser_execute :: "'u settings \<Rightarrow> http_parser \<Rightarrow> string \<Rightarrow> 'u \<Rightarrow> 'u step" where
  "http_parser_execute S p data u =
     (if http_errno p \<noteq> HPE_OK then Ret (exec_start p u) 0
      else if data = [] then exec_eof S (exec_start p u)
      else exec_loop (length data) S data (exec_start p u))"

end
