(* ===== verification/HttpSafe.thy ===== *)
theory HttpSafe
  imports HttpExec
begin

text \<open>
  \<open>http_parser_execute\<close> is safe on every input: from a parser in a state of the invariant \<open>hinv\<close> and
  with callbacks that leave the parser to itself (they may pause it, fail, and at the end of a message
  initialise it anew, as the load generator does), no assertion fails, no table is read beyond its end,
  the model's fuel suffices, and the number of bytes reported as parsed is at most the number given.
\<close>

section \<open>Well-behaved callbacks\<close>

definition tame_cb :: "'u http_cb \<Rightarrow> bool" where
  "tame_cb f \<longleftrightarrow> (\<forall>p u. fst (snd (f p u)) \<in> {p, p\<lparr> http_errno := HPE_PAUSED \<rparr>})"

definition tame_data_cb :: "'u http_data_cb \<Rightarrow> bool" where
  "tame_data_cb f \<longleftrightarrow> (\<forall>p s u. fst (snd (f p s u)) \<in> {p, p\<lparr> http_errno := HPE_PAUSED \<rparr>})"

definition tame_end_cb :: "'u http_cb \<Rightarrow> bool" where
  "tame_end_cb f \<longleftrightarrow>
     (\<forall>p u. fst (snd (f p u)) \<in> {p, p\<lparr> http_errno := HPE_PAUSED \<rparr>} \<union> range (http_parser_init p))"

definition tame :: "'u settings \<Rightarrow> bool" where
  "tame S \<longleftrightarrow>
     pred_option tame_cb (on_message_begin S) \<and> pred_option tame_data_cb (on_url S) \<and>
     pred_option tame_data_cb (on_status S) \<and> pred_option tame_data_cb (on_header_field S) \<and>
     pred_option tame_data_cb (on_header_value S) \<and> pred_option tame_cb (on_headers_complete S) \<and>
     pred_option tame_data_cb (on_body S) \<and> pred_option tame_end_cb (on_message_complete S) \<and>
     pred_option tame_cb (on_chunk_header S) \<and> pred_option tame_cb (on_chunk_complete S)"

section \<open>The invariant\<close>

definition field_states :: "header_state set" where
  "field_states =
     {h_general, h_C, h_CO, h_CON, h_matching_connection, h_matching_proxy_connection,
      h_matching_content_length, h_matching_transfer_encoding, h_matching_upgrade,
      h_connection, h_content_length, h_transfer_encoding, h_upgrade}"

abbreviation chunked :: "http_parser \<Rightarrow> bool" where
  "chunked p \<equiv> has_flag (flags p) F_CHUNKED"

text \<open>What holds of the parser in each state; \<open>n\<close> is \<open>nread\<close> in front of a chunk size.\<close>

definition hinv :: "u32 \<Rightarrow> state \<Rightarrow> http_parser \<Rightarrow> bool" where
  "hinv n s p \<longleftrightarrow>
     (case s of
        s_req_method \<Rightarrow> unat (index p) \<le> length (method_string (pmethod p))
      | s_header_field \<Rightarrow> header_state p \<in> field_states
      | s_header_value \<Rightarrow> header_state p \<notin> {h_connection, h_transfer_encoding}
      | s_chunk_size_start \<Rightarrow> nread p = n \<and> chunked p
      | s_chunk_size \<Rightarrow> chunked p \<and> content_length p \<noteq> ULLONG_MAX
      | s_chunk_parameters \<Rightarrow> chunked p \<and> content_length p \<noteq> ULLONG_MAX
      | s_chunk_size_almost_done \<Rightarrow> chunked p \<and> content_length p \<noteq> ULLONG_MAX
      | s_chunk_data \<Rightarrow> chunked p \<and> content_length p \<noteq> 0 \<and> content_length p \<noteq> ULLONG_MAX
      | s_chunk_data_almost_done \<Rightarrow> chunked p \<and> content_length p = 0
      | s_chunk_data_done \<Rightarrow> chunked p
      | s_body_identity \<Rightarrow> content_length p \<noteq> 0 \<and> content_length p \<noteq> ULLONG_MAX
      | _ \<Rightarrow> True)"

lemma hinv_updates [simp]:
  "hinv n s (p\<lparr> pstate := q \<rparr>) = hinv n s p"
  "hinv n s (p\<lparr> http_errno := e \<rparr>) = hinv n s p"
  by (simp_all add: hinv_def split: state.split)

text \<open>Each mark is set only in the states that collect its bytes.\<close>

definition body_state :: "state \<Rightarrow> bool" where
  "body_state s \<longleftrightarrow> s \<in> {s_chunk_data, s_chunk_data_almost_done, s_body_identity, s_body_identity_eof}"

definition marks_ok :: "'u exec \<Rightarrow> bool" where
  "marks_ok x \<longleftrightarrow>
     (header_field_mark x \<noteq> None \<longrightarrow> st x = s_header_field) \<and>
     (header_value_mark x \<noteq> None \<longrightarrow> st x = s_header_value) \<and>
     (url_mark x \<noteq> None \<longrightarrow> url_state (st x)) \<and>
     (body_mark x \<noteq> None \<longrightarrow> body_state (st x)) \<and>
     (status_mark x \<noteq> None \<longrightarrow> st x = s_res_status)"

definition good :: "u32 \<Rightarrow> 'u exec \<Rightarrow> bool" where
  "good n x \<longleftrightarrow> http_errno (par x) = HPE_OK \<and> hinv n (st x) (par x) \<and> marks_ok x"

text \<open>How often a state can still be re-executed.\<close>

definition rank :: "state \<Rightarrow> nat" where
  "rank s =
     (case s of
        s_start_req_or_res \<Rightarrow> 1
      | s_res_status_code \<Rightarrow> 2 | s_res_status_start \<Rightarrow> 1
      | s_header_value \<Rightarrow> 1
      | s_header_value_lws \<Rightarrow> 3 | s_header_value_discard_lws \<Rightarrow> 3
      | s_header_field_start \<Rightarrow> 2 | s_headers_almost_done \<Rightarrow> 1
      | s_body_identity \<Rightarrow> 1
      | _ \<Rightarrow> 0)"

text \<open>A parser one may call again: no error, or paused.\<close>

definition resumable :: "http_parser \<Rightarrow> bool" where
  "resumable p \<longleftrightarrow> (http_errno p \<in> {HPE_OK, HPE_PAUSED} \<longrightarrow> hinv 0 (pstate p) p)"

text \<open>What a step from position \<open>i\<close> and rank \<open>r\<close> on \<open>len\<close> bytes may result in.\<close>

fun step_ok :: "nat \<Rightarrow> nat \<Rightarrow> nat \<Rightarrow> 'u step \<Rightarrow> bool" where
  "step_ok len i r (Next x) \<longleftrightarrow> good 0 x \<and> i \<le> pos x \<and> pos x < len"
| "step_ok len i r (Reexec x ch) \<longleftrightarrow>
     good 1 x \<and> st x \<noteq> s_chunk_size_start \<and> i \<le> pos x \<and> pos x < len \<and> rank (st x) < r"
| "step_ok len i r (Ret x v) \<longleftrightarrow> v \<le> len \<and> resumable (par x)"
| "step_ok len i r Abort \<longleftrightarrow> False"
| "step_ok len i r Stuck \<longleftrightarrow> False"

section \<open>The macros keep to it\<close>

lemmas exec_defs = goto_state_def upd_def save_state_def ret_def fail_def

lemma fail_ok: "e \<noteq> HPE_OK \<Longrightarrow> e \<noteq> HPE_PAUSED \<Longrightarrow> pos x \<le> len \<Longrightarrow> step_ok len i r (fail e x)"
  by (simp add: exec_defs resumable_def)

lemma ret_ok: "v \<le> len \<Longrightarrow> (http_errno (par x) \<in> {HPE_OK, HPE_PAUSED} \<Longrightarrow> hinv 0 (st x) (par x)) \<Longrightarrow>
   step_ok len i r (ret v x)"
  by (simp add: exec_defs resumable_def)

lemma strict_ok: "pos x \<le> len \<Longrightarrow> (\<not> cond \<Longrightarrow> step_ok len i r k) \<Longrightarrow> step_ok len i r (STRICT_CHECK cond x k)"
  by (simp add: STRICT_CHECK_def fail_ok)

lemma count_ok:
  assumes "pos x \<le> len"
    "nread (par x) + of_nat v \<le> of_nat HTTP_MAX_HEADER_SIZE \<Longrightarrow> step_ok len i r (k (upd (nread_update (\<lambda>n. n + of_nat v)) x))"
  shows "step_ok len i r (COUNT_HEADER_SIZE v x k)"
  using assms by (auto simp: COUNT_HEADER_SIZE_def Let_def not_less upd_def intro!: fail_ok)

text \<open>The execution record after a callback that left the parser alone.\<close>

definition called :: "'u exec \<Rightarrow> 'u \<Rightarrow> 'u exec" where
  "called x u = x\<lparr> par := (par x)\<lparr> pstate := st x \<rparr>, usr := u \<rparr>"

lemma after_callback_ok:
  assumes "http_errno (par x) = HPE_OK" "er \<le> len" "hinv 0 (st x) (par x)"
    and "fst (snd res) \<in> {par (save_state x), (par (save_state x))\<lparr> http_errno := HPE_PAUSED \<rparr>}"
    and "\<And>u. step_ok len i r (k (called x u))" "e \<noteq> HPE_OK" "e \<noteq> HPE_PAUSED"
  shows "step_ok len i r (after_callback e er (save_state x) res k)"
proof -
  obtain c p1 u1 where res: "res = (c, p1, u1)" by (cases res) auto
  have same: "x\<lparr> par := (par x)\<lparr> pstate := st x \<rparr>, usr := u1, st := st x \<rparr> = called x u1"
    by (simp add: called_def)
  then show ?thesis using assms
    by (auto simp: after_callback_def res Let_def save_state_def resumable_def same)
qed

lemma notify_ok:
  assumes "http_errno (par x) = HPE_OK" "er \<le> len" "hinv 0 (st x) (par x)" "pred_option tame_cb cb"
    and "step_ok len i r (k x)" "\<And>u. step_ok len i r (k (called x u))" "e \<noteq> HPE_OK" "e \<noteq> HPE_PAUSED"
  shows "step_ok len i r (CALLBACK_NOTIFY cb e er x k)"
proof (cases cb)
  case None
  then show ?thesis using assms(1,5) by (simp add: CALLBACK_NOTIFY_def)
next
  case (Some f)
  have "step_ok len i r (after_callback e er (save_state x) (f (par (save_state x)) (usr x)) k)"
    by (rule after_callback_ok) (use assms Some in \<open>auto simp: tame_cb_def\<close>)
  then show ?thesis using assms(1) Some by (simp add: CALLBACK_NOTIFY_def Let_def save_state_def)
qed

lemma data_ok:
  assumes "http_errno (par x) = HPE_OK" "er \<le> len" "hinv 0 (st x) (par x)" "pred_option tame_data_cb cb"
    and "m = None \<Longrightarrow> step_ok len i r (k x)" "step_ok len i r (k (clear x))"
      "\<And>u. step_ok len i r (k (clear (called x u)))" "e \<noteq> HPE_OK" "e \<noteq> HPE_PAUSED"
  shows "step_ok len i r (CALLBACK_DATA cb e data m clear stop er x k)"
proof (cases m)
  case None
  then show ?thesis using assms(1,5) by (simp add: CALLBACK_DATA_def)
next
  case m: (Some a)
  show ?thesis
  proof (cases cb)
    case None
    then show ?thesis using assms(1,6) m by (simp add: CALLBACK_DATA_def)
  next
    case (Some f)
    have "step_ok len i r (after_callback e er (save_state x)
        (f (par (save_state x)) (take (stop - a) (drop a data)) (usr x)) (\<lambda>x2. k (clear x2)))"
      by (rule after_callback_ok) (use assms Some in \<open>auto simp: tame_data_cb_def\<close>)
    then show ?thesis using assms(1) Some m by (simp add: CALLBACK_DATA_def Let_def save_state_def)
  qed
qed

text \<open>At the end of a message the callback may also initialise the parser.\<close>

definition reborn :: "'u exec \<Rightarrow> http_parser_type \<Rightarrow> 'u \<Rightarrow> 'u exec" where
  "reborn x t u = x\<lparr> par := http_parser_init (par x) t, usr := u, st := pstate (http_parser_init (par x) t) \<rparr>"

lemma hinv_init: "hinv n (pstate (http_parser_init p t)) q"
  by (simp add: hinv_def http_parser_init_def split: state.split)

lemma end_ok:
  assumes "http_errno (par x) = HPE_OK" "er \<le> len" "hinv 0 (st x) (par x)" "pred_option tame_end_cb cb"
    and "step_ok len i r (k x)" "\<And>u. step_ok len i r (k (called x u))"
      "\<And>t u. step_ok len i r (k (reborn x t u))" "e \<noteq> HPE_OK" "e \<noteq> HPE_PAUSED"
  shows "step_ok len i r (CALLBACK_NOTIFY cb e er x k)"
proof (cases cb)
  case None
  then show ?thesis using assms(1,5) by (simp add: CALLBACK_NOTIFY_def)
next
  case (Some f)
  let ?x = "save_state x"
  obtain c p1 u1 where res: "f (par ?x) (usr x) = (c, p1, u1)" by (cases "f (par ?x) (usr x)") auto
  have "fst (snd (f (par ?x) (usr x))) \<in> {par ?x, (par ?x)\<lparr> http_errno := HPE_PAUSED \<rparr>}
      \<union> range (http_parser_init (par ?x))"
    using assms(4) Some unfolding tame_end_cb_def by simp
  moreover have "http_parser_init (par ?x) = http_parser_init (par x)"
    by (rule ext) (simp add: http_parser_init_def save_state_def)
  ultimately have p1: "p1 \<in> {par ?x, (par ?x)\<lparr> http_errno := HPE_PAUSED \<rparr>}
      \<or> (\<exists>t. p1 = http_parser_init (par x) t)"
    unfolding res by auto
  have "step_ok len i r (after_callback e er ?x (c, p1, u1) k)"
    using p1
  proof (elim disjE exE)
    assume "p1 \<in> {par ?x, (par ?x)\<lparr> http_errno := HPE_PAUSED \<rparr>}"
    then show ?thesis using assms by (intro after_callback_ok) auto
  next
    fix t assume t: "p1 = http_parser_init (par x) t"
    have "http_errno p1 = HPE_OK" by (simp add: t http_parser_init_def)
    moreover have "?x\<lparr> par := p1, usr := u1, st := pstate p1 \<rparr> = reborn x t u1"
      by (simp add: reborn_def t save_state_def)
    ultimately show ?thesis using assms(2,7,8,9)
      by (auto simp: after_callback_def Let_def resumable_def)
  qed
  then show ?thesis using assms(1) Some res by (simp add: CALLBACK_NOTIFY_def Let_def save_state_def)
qed


section \<open>Every state keeps to it\<close>

lemmas ok_simps = good_def hinv_def marks_ok_def exec_defs called_def reborn_def url_state_def
  body_state_def rank_def

lemma tame_simps:
  assumes "tame S"
  shows "pred_option tame_cb (on_message_begin S)" "pred_option tame_data_cb (on_url S)"
    "pred_option tame_data_cb (on_status S)" "pred_option tame_data_cb (on_header_field S)"
    "pred_option tame_data_cb (on_header_value S)" "pred_option tame_cb (on_headers_complete S)"
    "pred_option tame_data_cb (on_body S)" "pred_option tame_end_cb (on_message_complete S)"
    "pred_option tame_cb (on_chunk_header S)" "pred_option tame_cb (on_chunk_complete S)"
  using assms by (simp_all add: tame_def)

lemma ex_dead_ok:
  "good 1 x \<Longrightarrow> pos x < len \<Longrightarrow> st x = s_dead \<Longrightarrow> step_ok len (pos x) r (ex_dead ch x)"
  by (auto simp: ex_dead_def ok_simps resumable_def)

lemma ex_start_req_or_res_ok:
  assumes "good 1 x" "pos x < len" "st x = s_start_req_or_res" "tame S"
  shows "step_ok len (pos x) (rank (st x)) (ex_start_req_or_res S ch x)"
  using assms
  by (auto simp: ex_start_req_or_res_def ok_simps begin_message_def Let_def cb_message_begin_def tame_simps
      intro!: notify_ok)

lemma ex_res_or_resp_H_ok:
  assumes "good 1 x" "pos x < len" "st x = s_res_or_resp_H"
  shows "step_ok len (pos x) (rank (st x)) (ex_res_or_resp_H ch x)"
  using assms by (auto simp: ex_res_or_resp_H_def ok_simps resumable_def)

lemma ex_start_res_ok:
  assumes "good 1 x" "pos x < len" "st x = s_start_res" "tame S"
  shows "step_ok len (pos x) (rank (st x)) (ex_start_res S ch x)"
  using assms
  by (auto simp: ex_start_res_def ok_simps begin_message_def Let_def cb_message_begin_def tame_simps
      resumable_def intro!: notify_ok)

lemma ex_const_ok:
  assumes "good 1 x" "pos x < len" "hinv 0 s (par x)" "header_field_mark x = None" "header_value_mark x = None"
    "url_mark x = None" "body_mark x = None" "status_mark x = None"
  shows "step_ok len (pos x) r (ex_const c s ch x)"
  using assms by (auto simp: ex_const_def STRICT_CHECK_def good_def marks_ok_def exec_defs resumable_def)

lemma ex_res_line_ok:
  assumes "good 1 x" "pos x < len"
    "st x \<in> {s_res_H, s_res_HT, s_res_HTT, s_res_HTTP, s_res_http_major, s_res_http_dot, s_res_http_minor, s_res_http_end}"
  shows "step_ok len (pos x) (rank (st x)) (ex_res_line ch x)"
  using assms(3)
  by (elim insertE emptyE; use assms(1,2) in
    \<open>simp add: ex_res_line_def ok_simps resumable_def ex_const_def STRICT_CHECK_def\<close>)

lemma ex_res_first_status_code_ok:
  assumes "good 1 x" "pos x < len" "st x = s_res_first_status_code"
  shows "step_ok len (pos x) (rank (st x)) (ex_res_first_status_code ch x)"
  using assms by (auto simp: ex_res_first_status_code_def ok_simps resumable_def)

lemma ex_res_status_code_ok:
  assumes "good 1 x" "pos x < len" "st x = s_res_status_code"
  shows "step_ok len (pos x) (rank (st x)) (ex_res_status_code ch x)"
  using assms by (auto simp: ex_res_status_code_def ok_simps resumable_def Let_def)

lemma ex_res_status_start_ok:
  assumes "good 1 x" "pos x < len" "st x = s_res_status_start"
  shows "step_ok len (pos x) (rank (st x)) (ex_res_status_start ch x)"
  using assms by (auto simp: ex_res_status_start_def ok_simps resumable_def Let_def mark_def)

lemma ex_res_status_ok:
  assumes "good 1 x" "pos x < len" "st x = s_res_status" "tame S"
  shows "step_ok len (pos x) (rank (st x)) (ex_res_status S data ch x)"
  using assms
  by (auto simp: ex_res_status_def ok_simps cb_status_def tame_simps intro!: data_ok)


lemma method_string_length: "3 \<le> length (method_string m) \<and> length (method_string m) \<le> 11"
  by (cases m) simp_all

lemma index_Suc: "unat (i :: 7 word) < 127 \<Longrightarrow> unat (i + 1) = Suc (unat i)"
  by (simp add: unat_word_ariths)

lemma method_switch_bound: "method_switch m i ch = Some m' \<Longrightarrow> i < 5 \<and> Suc i \<le> length (method_string m')"
  by (auto simp: method_switch_def split: if_splits)

lemma ex_start_req_ok:
  assumes "good 1 x" "pos x < len" "st x = s_start_req" "tame S"
  shows "step_ok len (pos x) (rank (st x)) (ex_start_req S ch x)"
proof -
  have l: "Suc 0 \<le> length (method_string m)" for m
    by (rule order_trans [OF _ conjunct1 [OF method_string_length]]) simp
  show ?thesis using assms
    by (auto simp: ex_start_req_def ok_simps begin_message_def Let_def cb_message_begin_def tame_simps
        resumable_def l split: option.split intro!: notify_ok)
qed

lemma ex_req_method_ok:
  assumes "good 1 x" "pos x < len" "st x = s_req_method"
  shows "step_ok len (pos x) (rank (st x)) (ex_req_method ch x)"
proof -
  let ?i = "unat (index (par x))" and ?m = "method_string (pmethod (par x))"
  have i: "?i \<le> length ?m" using assms(1,3) by (simp add: good_def hinv_def)
  have next_ok: "unat (index (par x) + 1) \<le> length ?m" if "str_at ?m ?i = Some c" "c \<noteq> NUL" for c
  proof -
    have "?i < length ?m" using that by (auto simp: str_at_def split: if_splits)
    moreover from this have "unat (index (par x) + 1) = Suc ?i"
      using method_string_length [of "pmethod (par x)"] by (intro index_Suc) linarith
    ultimately show ?thesis by simp
  qed
  have switch_ok: "unat (index (par x) + 1) \<le> length (method_string m)"
    if "method_switch (pmethod (par x)) ?i ch = Some m" for m
    using method_switch_bound [OF that] by (simp add: index_Suc)
  obtain c where c: "str_at ?m ?i = Some c" using i by (cases "?i < length ?m") (auto simp: str_at_def)
  show ?thesis
    using assms next_ok [OF c] switch_ok c
    by (auto simp: ex_req_method_def ok_simps resumable_def split: option.split)
qed

lemma parse_url_char_state: "parse_url_char s ch \<noteq> s_dead \<Longrightarrow> url_state (parse_url_char s ch)"
  unfolding parse_url_char_def
  by (cases s) (simp_all add: url_state_def url_server_def url_query_def split: if_splits)

lemma hinv_url: "url_state s \<Longrightarrow> hinv n s p"
  by (auto simp: url_state_def hinv_def)

lemma url_state_simps: "url_state s \<Longrightarrow> rank s = 0" "url_state s \<Longrightarrow> s \<noteq> s_header_field"
  "url_state s \<Longrightarrow> s \<noteq> s_header_value" "url_state s \<Longrightarrow> s \<noteq> s_res_status" "url_state s \<Longrightarrow> \<not> body_state s"
  "url_state s \<Longrightarrow> s \<noteq> s_chunk_size_start"
  by (auto simp: url_state_def rank_def body_state_def)

lemma url_char_ok:
  assumes "http_errno (par x) = HPE_OK" "i \<le> pos x" "pos x < len" "header_field_mark x = None"
    "header_value_mark x = None" "body_mark x = None" "status_mark x = None"
  shows "step_ok len i r (url_char ch x)"
proof (cases "parse_url_char (st x) ch = s_dead")
  case True
  then show ?thesis using assms by (simp add: url_char_def exec_defs Let_def resumable_def)
next
  case False
  then have "url_state (parse_url_char (st x) ch)" by (rule parse_url_char_state)
  then show ?thesis using False assms
    by (simp add: url_char_def exec_defs Let_def good_def marks_ok_def hinv_url)
qed

lemma ex_req_spaces_before_url_ok:
  assumes "good 1 x" "pos x < len" "st x = s_req_spaces_before_url"
  shows "step_ok len (pos x) (rank (st x)) (ex_req_spaces_before_url ch x)"
  using assms
  by (auto simp: ex_req_spaces_before_url_def ok_simps Let_def intro!: url_char_ok)

lemma good_url_marks:
  "good n x \<Longrightarrow> url_state (st x) \<Longrightarrow>
   http_errno (par x) = HPE_OK \<and> header_field_mark x = None \<and> header_value_mark x = None
   \<and> body_mark x = None \<and> status_mark x = None"
  using url_state_simps by (fastforce simp: good_def marks_ok_def)

lemma ex_req_schema_ok:
  assumes "good 1 x" "pos x < len" "url_state (st x)"
  shows "step_ok len (pos x) r (ex_req_schema ch x)"
  using assms good_url_marks [OF assms(1,3)]
  by (auto simp: ex_req_schema_def exec_defs resumable_def intro!: url_char_ok)

lemma ex_req_url_ok:
  assumes "good 1 x" "pos x < len" "url_state (st x)" "tame S"
  shows "step_ok len (pos x) r (ex_req_url S data ch x)"
  using assms(2,4) good_url_marks [OF assms(1,3)]
  by (auto simp: ex_req_url_def ok_simps cb_url_def tame_simps intro!: data_ok url_char_ok)

lemma ex_req_http_ok:
  assumes "good 1 x" "pos x < len"
    "st x \<in> {s_req_http_start, s_req_http_H, s_req_http_HT, s_req_http_HTT, s_req_http_HTTP,
             s_req_http_major, s_req_http_dot, s_req_http_minor, s_req_http_end, s_req_line_almost_done}"
  shows "step_ok len (pos x) (rank (st x)) (ex_req_http ch x)"
  using assms(3)
  by (elim insertE emptyE; use assms(1,2) in
    \<open>simp add: ex_req_http_def ok_simps resumable_def ex_const_def STRICT_CHECK_def\<close>)


lemma ex_header_field_start_ok:
  assumes "good 1 x" "pos x < len" "st x = s_header_field_start"
  shows "step_ok len (pos x) (rank (st x)) (ex_header_field_start ch x)"
  using assms
  by (auto simp: ex_header_field_start_def ok_simps Let_def resumable_def mark_def field_states_def)

lemma field_step_ok:
  assumes "header_state p \<in> field_states"
  shows "\<exists>p'. field_step ch c p = Some p' \<and> header_state p' \<in> field_states \<and> http_errno p' = http_errno p"
  using assms unfolding field_states_def
  by (elim insertE emptyE)
    (simp_all add: field_step_def match_field_def match_name_def Let_def split: option.split)

lemma field_loop_ok:
  "header_state p \<in> field_states \<Longrightarrow>
   \<exists>p' ch' k'. field_loop rest ch p k = Some (p', ch', k') \<and> header_state p' \<in> field_states
     \<and> http_errno p' = http_errno p \<and> k \<le> k' \<and> k' \<le> k + length rest"
proof (induction rest arbitrary: ch p k)
  case Nil
  then show ?case by simp
next
  case (Cons c cs)
  show ?case
  proof (cases "TOKEN c = 0")
    case True
    then show ?thesis using Cons.prems by simp
  next
    case False
    obtain p1 where p1: "field_step c (TOKEN c) p = Some p1" "header_state p1 \<in> field_states"
      "http_errno p1 = http_errno p" using field_step_ok [OF Cons.prems] by blast
    obtain p' ch' k' where "field_loop cs c p1 (k + 1) = Some (p', ch', k')" "header_state p' \<in> field_states"
      "http_errno p' = http_errno p1" "k + 1 \<le> k'" "k' \<le> k + 1 + length cs"
      using Cons.IH [OF p1(2), of c "k + 1"] by blast
    then show ?thesis using False p1 by simp
  qed
qed

lemma ex_header_field_ok:
  assumes "good 1 x" "pos x < length data" "st x = s_header_field" "tame S"
  shows "step_ok (length data) (pos x) (rank (st x)) (ex_header_field S data ch x)"
proof -
  have "header_state (par x) \<in> field_states" using assms(1,3) by (simp add: good_def hinv_def)
  from field_loop_ok [OF this, of "drop (pos x) data" ch 0] obtain p1 ch1 k where
    l: "field_loop (drop (pos x) data) ch (par x) 0 = Some (p1, ch1, k)" "header_state p1 \<in> field_states"
      "http_errno p1 = http_errno (par x)" "k \<le> length (drop (pos x) data)" by auto
  then have k: "pos x + k \<le> length data" using assms(2) by simp
  show ?thesis unfolding ex_header_field_def l(1) option.case prod.case
    by (rule count_ok)
      (use assms k l in \<open>auto simp: ok_simps resumable_def cb_header_field_def tame_simps intro!: data_ok\<close>)
qed

lemma ex_header_value_start_ok:
  assumes "good 1 x" "pos x < len" "st x \<in> {s_header_value_start, s_header_value_discard_ws}"
  shows "step_ok len (pos x) r (ex_header_value_start ch x)"
proof -
  have m: "http_errno (par x) = HPE_OK" "header_field_mark x = None" "url_mark x = None"
    "body_mark x = None" "status_mark x = None"
    using assms(3)
    by (elim insertE emptyE; use assms(1) in \<open>simp add: good_def marks_ok_def url_state_def body_state_def\<close>)+
  show ?thesis
    by (cases "header_state (par x)"; use m assms(2) in
      \<open>simp add: ex_header_value_start_def good_def hinv_def marks_ok_def exec_defs Let_def resumable_def mark_def\<close>)
qed

lemma ex_header_value_discard_ws_ok:
  assumes "good 1 x" "pos x < len" "st x = s_header_value_discard_ws"
  shows "step_ok len (pos x) r (ex_header_value_discard_ws ch x)"
proof -
  have v: "step_ok len (pos x) r (ex_header_value_start ch x)"
    by (rule ex_header_value_start_ok) (use assms in simp_all)
  show ?thesis using assms v by (simp add: ex_header_value_discard_ws_def ok_simps)
qed

lemma value_step_ok:
  assumes "h \<notin> {h_connection, h_transfer_encoding}"
  shows "(\<exists>p' h'. value_step ch p h = VGo p' h' \<and> h' \<notin> {h_connection, h_transfer_encoding}
        \<and> http_errno p' = http_errno p)
     \<or> (\<exists>e p'. value_step ch p h = VFail e p' \<and> e \<notin> {HPE_OK, HPE_PAUSED})"
  using assms
  by (cases h)
    (simp_all add: value_step_def Let_def value_content_length_def match_value_def match_name_def
      value_token_start_def value_token_end_def split: option.split)

text \<open>What the loop over a value may result in, on \<open>n\<close> bytes.\<close>

fun value_end_ok :: "http_errno \<Rightarrow> nat \<Rightarrow> value_end \<Rightarrow> bool" where
  "value_end_ok e0 n (VEnd p h k) \<longleftrightarrow>
     http_errno p = e0 \<and> h \<notin> {h_connection, h_transfer_encoding} \<and> k = n"
| "value_end_ok e0 n (VCr p h k) \<longleftrightarrow> http_errno p = e0 \<and> k < n"
| "value_end_ok e0 n (VLf p h k) \<longleftrightarrow> http_errno p = e0 \<and> k < n"
| "value_end_ok e0 n (VErr e p k) \<longleftrightarrow> e \<notin> {HPE_OK, HPE_PAUSED} \<and> k < n"
| "value_end_ok e0 n VAssert \<longleftrightarrow> False"

lemma value_skip_le: "value_skip rest \<le> length rest"
  by (simp add: value_skip_def Let_def)

lemma value_loop_ok:
  "h \<notin> {h_connection, h_transfer_encoding} \<Longrightarrow>
   value_end_ok (http_errno p) (k + length rest) (value_loop l rest p h k)"
proof (induction l rest p h k rule: value_loop.induct)
  case (1 l p h k)
  then show ?case by simp
next
  case (2 l c cs p h k)
  consider (stop) "c = CR \<or> c = LF \<or> (\<not> l \<and> \<not> IS_HEADER_CHAR c)"
    | (skip) "c \<noteq> CR" "c \<noteq> LF" "l \<or> IS_HEADER_CHAR c" "h = h_general"
    | (go) "c \<noteq> CR" "c \<noteq> LF" "l \<or> IS_HEADER_CHAR c" "h \<noteq> h_general" by blast
  then show ?case
  proof cases
    case stop
    then show ?thesis by auto
  next
    case skip
    have "k + value_skip (c # cs) + length (drop (value_skip (c # cs)) (c # cs)) = k + length (c # cs)"
      using value_skip_le [of "c # cs"] by simp
    then show ?thesis using 2(1) skip 2(3) by (simp del: drop.simps)
  next
    case go
    from value_step_ok [OF 2(3), of c p] show ?thesis
    proof (elim disjE exE conjE)
      fix p' h' assume v: "value_step c p h = VGo p' h'" "h' \<notin> {h_connection, h_transfer_encoding}"
        "http_errno p' = http_errno p"
      then show ?thesis using 2(2) [OF _ _ _ _ v(1)] go by simp
    next
      fix e p' assume "value_step c p h = VFail e p'" "e \<notin> {HPE_OK, HPE_PAUSED}"
      then show ?thesis using go by simp
    qed
  qed
qed


lemma ex_header_value_ok:
  assumes "good 1 x" "pos x < length data" "st x = s_header_value" "tame S"
  shows "step_ok (length data) (pos x) (rank (st x)) (ex_header_value S data x)"
proof -
  have m: "http_errno (par x) = HPE_OK" "header_field_mark x = None" "url_mark x = None"
    "body_mark x = None" "status_mark x = None" "header_state (par x) \<notin> {h_connection, h_transfer_encoding}"
    using assms(1,3) by (simp_all add: good_def hinv_def marks_ok_def url_state_def body_state_def)
  have tm: "pred_option tame_data_cb (on_header_value S)" using assms(4) by (rule tame_simps)
  have "value_end_ok HPE_OK (length (drop (pos x) data))
      (value_loop (lenient x) (drop (pos x) data) (par x) (header_state (par x)) 0)"
    using value_loop_ok [OF m(6), where p = "par x" and k = 0 and rest = "drop (pos x) data" and l = "lenient x"] m(1) by simp
  then show ?thesis
  proof (cases "value_loop (lenient x) (drop (pos x) data) (par x) (header_state (par x)) 0")
    case (VEnd p h k)
    then have "http_errno p = HPE_OK" "h \<notin> {h_connection, h_transfer_encoding}" "k = length data - pos x"
      using \<open>value_end_ok _ _ _\<close> by simp_all
    then show ?thesis unfolding ex_header_value_def VEnd value_end.case
      by (intro count_ok) (use assms m in \<open>auto simp add: good_def hinv_def marks_ok_def upd_def\<close>)
  next
    case (VCr p h k)
    then have k: "http_errno p = HPE_OK" "pos x + k < length data" using \<open>value_end_ok _ _ _\<close> by auto
    then show ?thesis unfolding ex_header_value_def VCr value_end.case Let_def cb_header_value_def
      by (intro data_ok count_ok tm)
        (use assms(3) m in \<open>simp_all add: good_def hinv_def marks_ok_def exec_defs called_def\<close>)
  next
    case (VLf p h k)
    then have k: "http_errno p = HPE_OK" "pos x + k < length data" using \<open>value_end_ok _ _ _\<close> by auto
    then show ?thesis unfolding ex_header_value_def VLf value_end.case Let_def cb_header_value_def
      by (intro count_ok data_ok tm)
        (use assms(3) m in \<open>simp_all add: good_def hinv_def marks_ok_def exec_defs called_def rank_def\<close>)
  next
    case (VErr e p k)
    then show ?thesis using \<open>value_end_ok _ _ _\<close> unfolding ex_header_value_def VErr value_end.case
      by (intro fail_ok) auto
  next
    case VAssert
    then show ?thesis using \<open>value_end_ok _ _ _\<close> by simp
  qed
qed

lemma ex_header_almost_done_ok:
  assumes "good 1 x" "pos x < len" "st x = s_header_almost_done"
  shows "step_ok len (pos x) r (ex_header_almost_done ch x)"
  using assms by (simp add: ex_header_almost_done_def ok_simps resumable_def)

lemma ex_header_value_lws_ok:
  assumes "good 1 x" "pos x < len" "st x = s_header_value_lws"
  shows "step_ok len (pos x) (rank (st x)) (ex_header_value_lws ch x)"
  using assms by (simp add: ex_header_value_lws_def ok_simps set_token_flag_def)

lemma ex_header_value_discard_lws_ok:
  assumes "good 1 x" "pos x < len" "st x = s_header_value_discard_lws" "tame S"
  shows "step_ok len (pos x) (rank (st x)) (ex_header_value_discard_lws S data ch x)"
proof (cases "ch = SPC \<or> ch = TAB")
  case True
  then show ?thesis using assms by (simp add: ex_header_value_discard_lws_def ok_simps)
next
  case False
  then show ?thesis
    unfolding ex_header_value_discard_lws_def Let_def cb_header_value_def if_not_P [OF False]
    by (intro data_ok tame_simps assms(4))
      (use assms in \<open>simp_all add: ok_simps set_token_flag_def mark_def\<close>)
qed

lemma headers_complete_ok:
  assumes "http_errno (par x) = HPE_OK" "marks_ok x" "pos x < len" "st x = s_headers_done" "tame S" "0 < r"
  shows "step_ok len (pos x) r (headers_complete S ch x)"
proof (cases "on_headers_complete S")
  case None
  then show ?thesis using assms by (simp add: headers_complete_def good_def hinv_def rank_def)
next
  case (Some f)
  obtain c p u where f: "f (par x) (usr x) = (c, p, u)" by (cases "f (par x) (usr x)")
  have "tame_cb f" using tame_simps(6) [OF assms(5)] Some by simp
  then have "p = par x \<or> p = (par x)\<lparr> http_errno := HPE_PAUSED \<rparr>"
    using f unfolding tame_cb_def by (metis fst_conv insertE singletonD snd_conv)
  then show ?thesis using assms f
    by (elim disjE) (simp_all add: headers_complete_def Some Let_def exec_defs resumable_def good_def hinv_def
        marks_ok_def rank_def)
qed

lemma ex_headers_almost_done_ok:
  assumes "good 1 x" "pos x < len" "st x = s_headers_almost_done" "tame S"
  shows "step_ok len (pos x) (rank (st x)) (ex_headers_almost_done S ch x)"
proof -
  have m: "http_errno (par x) = HPE_OK" "header_field_mark x = None" "header_value_mark x = None"
    "url_mark x = None" "body_mark x = None" "status_mark x = None"
    using assms(1,3) by (simp_all add: good_def marks_ok_def url_state_def body_state_def)
  have c: "step_ok len (pos x) (rank (st x))
      (cb_chunk_complete S (pos x) (goto_state s_message_done x) (\<lambda>x1. Reexec x1 ch))"
    unfolding cb_chunk_complete_def
    by (intro notify_ok tame_simps assms(4))
      (use assms(2,3) m in \<open>simp_all add: good_def hinv_def marks_ok_def exec_defs called_def rank_def\<close>)
  have h: "step_ok len (pos x) (rank (st x))
      (headers_complete S ch (upd (\<lambda>p. p\<lparr> upgrade := upgrade_value p \<rparr>) (goto_state s_headers_done x)))"
    using headers_complete_ok [of "upd (\<lambda>p. p\<lparr> upgrade := upgrade_value p \<rparr>) (goto_state s_headers_done x)"
        len S "rank (st x)" ch] m assms(2,3,4)
    by (simp add: marks_ok_def exec_defs rank_def)
  show ?thesis unfolding ex_headers_almost_done_def
    by (rule strict_ok) (use assms(2) c h in \<open>simp_all add: fail_ok\<close>)
qed

lemma hinv_start: "s \<in> {s_start_req, s_start_res, s_start_req_or_res} \<Longrightarrow> hinv n s q"
  by (auto simp: hinv_def)

lemma new_message_ok: "hinv n (NEW_MESSAGE p) q" "NEW_MESSAGE p \<noteq> s_chunk_size_start"
  by (simp_all add: NEW_MESSAGE_def start_state_def hinv_def)

lemma ex_headers_done_ok:
  assumes "good 1 x" "pos x < len" "st x = s_headers_done" "tame S"
  shows "step_ok len (pos x) r (ex_headers_done S ch x)"
proof -
  have m: "http_errno (par x) = HPE_OK" "header_field_mark x = None" "header_value_mark x = None"
    "url_mark x = None" "body_mark x = None" "status_mark x = None"
    using assms(1,3) by (simp_all add: good_def marks_ok_def url_state_def body_state_def)
  let ?x1 = "upd (nread_update (\<lambda>_. 0)) x"
  have e: "step_ok len (pos x) r (cb_message_complete S (pos ?x1 + 1) (new_message ?x1) k)"
    if "k = Next \<or> k = (\<lambda>x2. ret (pos x2 + 1) x2)" for k
    using that unfolding cb_message_complete_def
    by (elim disjE; intro end_ok tame_simps assms(4))
      (use assms(2) m in \<open>simp_all add: good_def marks_ok_def exec_defs called_def reborn_def new_message_def
         new_message_ok hinv_start resumable_def http_parser_init_def\<close>)
  have n: "step_ok len (pos x) r (Next (goto_state s ?x1))"
    if "hinv 0 s (par ?x1)" for s
    using that assms(2) m by (simp add: good_def marks_ok_def exec_defs)
  show ?thesis unfolding ex_headers_done_def Let_def
    by (rule strict_ok) (use assms(2) e n in \<open>simp_all add: hinv_def exec_defs\<close>)
qed


section \<open>Bodies and chunks keep to it\<close>

text \<open>\<open>take_body\<close> takes at least one byte and stays inside the data and inside the content length.\<close>

lemma to_read_bounds:
  fixes data :: string
  assumes "pos x < length data" "content_length (par x) \<noteq> 0"
  shows "unat (to_read data x) \<le> length data - pos x" "to_read data x \<le> content_length (par x)"
    "length data < 2 ^ 64 \<Longrightarrow> 0 < unat (to_read data x)"
proof -
  let ?d = "length data - pos x"
  have "unat (to_read data x) \<le> unat (of_nat ?d :: u64)"
    by (simp add: to_read_def min_def word_le_nat_alt)
  also have "\<dots> \<le> ?d" by (simp add: unat_of_nat)
  finally show "unat (to_read data x) \<le> ?d" .
  show "to_read data x \<le> content_length (par x)" by (simp add: to_read_def)
  show "0 < unat (to_read data x)" if "length data < 2 ^ 64"
  proof -
    have "unat (of_nat ?d :: u64) = ?d" using that by (simp add: unat_of_nat take_bit_nat_eq_self)
    then have "(of_nat ?d :: u64) \<noteq> 0" using assms(1) by (metis diff_is_0_eq not_le unat_0)
    then show ?thesis using assms(2) by (simp add: to_read_def min_def unat_gt_0)
  qed
qed

lemma sub_not_max: "(n :: u64) \<le> c \<Longrightarrow> c \<noteq> ULLONG_MAX \<Longrightarrow> c - n \<noteq> ULLONG_MAX"
proof
  assume n: "n \<le> c" and c: "c \<noteq> ULLONG_MAX" and eq: "c - n = ULLONG_MAX"
  have "c - n \<le> c" using n by (simp add: word_le_nat_alt unat_sub)
  moreover have "c \<le> ULLONG_MAX" by (simp add: ULLONG_MAX_def)
  ultimately show False using c eq by simp
qed


lemma take_body_ok:
  fixes data :: string
  assumes "good n x" "pos x < length data" "length data < 2 ^ 64" "content_length (par x) \<noteq> 0"
    "content_length (par x) \<noteq> ULLONG_MAX" "st x \<in> {s_body_identity, s_chunk_data}"
  shows "http_errno (par (take_body data x)) = HPE_OK" "header_field_mark (take_body data x) = None"
    "header_value_mark (take_body data x) = None" "url_mark (take_body data x) = None"
    "status_mark (take_body data x) = None" "pos x \<le> pos (take_body data x)"
    "pos (take_body data x) < length data" "content_length (par (take_body data x)) \<noteq> ULLONG_MAX"
    "flags (par (take_body data x)) = flags (par x)" "st (take_body data x) = st x"
proof -
  note b = to_read_bounds [OF assms(2,4)] to_read_bounds(3) [OF assms(2,4,3)]
  have m: "http_errno (par x) = HPE_OK" "header_field_mark x = None" "header_value_mark x = None"
    "url_mark x = None" "status_mark x = None"
    using assms(6)
    by (elim insertE emptyE; use assms(1) in \<open>simp add: good_def marks_ok_def url_state_def body_state_def\<close>)+
  show "http_errno (par (take_body data x)) = HPE_OK" "header_field_mark (take_body data x) = None"
    "header_value_mark (take_body data x) = None" "url_mark (take_body data x) = None"
    "status_mark (take_body data x) = None" "flags (par (take_body data x)) = flags (par x)"
    "st (take_body data x) = st x"
    using m by (simp_all add: take_body_def Let_def exec_defs)
  show "pos x \<le> pos (take_body data x)" "pos (take_body data x) < length data"
    using b assms(2) unfolding take_body_def Let_def exec_defs by auto
  show "content_length (par (take_body data x)) \<noteq> ULLONG_MAX"
    using sub_not_max [OF b(2) assms(5)] by (simp add: take_body_def Let_def exec_defs)
qed

lemma ex_body_identity_ok:
  assumes "good 1 x" "pos x < length data" "st x = s_body_identity" "tame S" "length data < 2 ^ 64"
  shows "step_ok (length data) (pos x) (rank (st x)) (ex_body_identity S data ch x)"
proof -
  have c: "content_length (par x) \<noteq> 0" "content_length (par x) \<noteq> ULLONG_MAX"
    using assms(1,3) by (simp_all add: good_def hinv_def)
  note t = take_body_ok [OF assms(1,2,5) c] assms(3)
  show ?thesis
  proof (cases "content_length (par (take_body data x)) = 0")
    case True
    then show ?thesis using c unfolding ex_body_identity_def Let_def cb_body_def if_P [OF True]
      by (simp only: if_False simp_thms) (intro data_ok tame_simps assms(4);
        use t in \<open>simp add: good_def hinv_def marks_ok_def exec_defs called_def rank_def\<close>)
  next
    case False
    then show ?thesis using c t
      by (simp add: ex_body_identity_def good_def hinv_def marks_ok_def body_state_def)
  qed
qed

lemma ex_body_identity_eof_ok:
  assumes "good 1 x" "pos x < length data" "st x = s_body_identity_eof"
  shows "step_ok (length data) (pos x) r (ex_body_identity_eof data x)"
  using assms by (auto simp: ex_body_identity_eof_def ok_simps)

lemma ex_message_done_ok:
  assumes "good 1 x" "pos x < len" "st x = s_message_done" "tame S"
  shows "step_ok len (pos x) r (ex_message_done S x)"
proof -
  have m: "http_errno (par x) = HPE_OK" "header_field_mark x = None" "header_value_mark x = None"
    "url_mark x = None" "body_mark x = None" "status_mark x = None"
    using assms(1,3) by (simp_all add: good_def marks_ok_def url_state_def body_state_def)
  show ?thesis unfolding ex_message_done_def cb_message_complete_def
    by (intro end_ok tame_simps assms(4))
      (use assms(2) m in \<open>simp_all add: good_def marks_ok_def exec_defs called_def reborn_def new_message_def
         new_message_ok hinv_start resumable_def http_parser_init_def\<close>)
qed

lemma unat_ULLONG_MAX: "unat ULLONG_MAX = 2 ^ 64 - 1"
  by (simp add: ULLONG_MAX_def unsigned_minus_1_eq_mask mask_eq_exp_minus_1)

lemma ex_chunk_size_start_ok:
  assumes "good 1 x" "pos x < len" "st x = s_chunk_size_start"
  shows "step_ok len (pos x) r (ex_chunk_size_start ch x)"
proof -
  have "of_nat v \<noteq> ULLONG_MAX" if "unhex n = Some v" for n v
  proof -
    have v: "v < 16" using that by (auto simp: unhex_def split: if_splits)
    show ?thesis
    proof
      assume "of_nat v = ULLONG_MAX"
      then have "unat (of_nat v :: u64) = unat ULLONG_MAX" by simp
      then show False using v by (simp add: unat_ULLONG_MAX unat_of_nat take_bit_nat_eq_self)
    qed
  qed
  then show ?thesis using assms
    by (simp add: ex_chunk_size_start_def ok_simps resumable_def split: option.split)
qed

lemma chunk_limit:
  fixes c :: u64
  assumes "\<not> (ULLONG_MAX - 16) div 16 < c" "v < 16"
  shows "unat (c * 16 + of_nat v) = unat c * 16 + v" "c * 16 + of_nat v \<noteq> ULLONG_MAX"
proof -
  have "unat ((ULLONG_MAX - 16) div 16 :: u64) = (2 ^ 64 - 17) div 16"
    by (simp add: ULLONG_MAX_def unat_div)
  then have c: "unat c \<le> (2 ^ 64 - 17) div 16" using assms(1) by (simp add: word_less_nat_alt)
  then have "unat (c * 16) = unat c * 16" by (simp add: unat_word_ariths)
  moreover have "unat (of_nat v :: u64) = v" using assms(2) by (simp add: unat_of_nat take_bit_nat_eq_self)
  ultimately show s: "unat (c * 16 + of_nat v) = unat c * 16 + v"
    using c assms(2) by (simp add: unat_word_ariths)
  show "c * 16 + of_nat v \<noteq> ULLONG_MAX"
  proof
    assume "c * 16 + of_nat v = ULLONG_MAX"
    then have "unat c * 16 + v = 2 ^ 64 - 1" using s unat_ULLONG_MAX by metis
    then show False using c assms(2) by simp
  qed
qed


lemma ex_chunk_size_ok:
  assumes "good 1 x" "pos x < len" "st x = s_chunk_size"
  shows "step_ok len (pos x) r (ex_chunk_size ch x)"
proof -
  have v: "v < 16" if "unhex n = Some v" for n v
    using that by (auto simp: unhex_def split: if_splits)
  have "content_length (par x) * 16 + of_nat v \<noteq> ULLONG_MAX"
    if "unhex n = Some v" "\<not> (ULLONG_MAX - 16) div 16 < content_length (par x)" for n v
    using chunk_limit(2) [OF that(2) v [OF that(1)]] .
  then show ?thesis using assms
    by (simp add: ex_chunk_size_def ok_simps resumable_def Let_def split: option.split)
qed

lemma ex_chunk_parameters_ok:
  assumes "good 1 x" "pos x < len" "st x = s_chunk_parameters"
  shows "step_ok len (pos x) r (ex_chunk_parameters ch x)"
  using assms by (simp add: ex_chunk_parameters_def ok_simps)

lemma ex_chunk_size_almost_done_ok:
  assumes "good 1 x" "pos x < len" "st x = s_chunk_size_almost_done" "tame S"
  shows "step_ok len (pos x) r (ex_chunk_size_almost_done S ch x)"
proof -
  have m: "http_errno (par x) = HPE_OK" "header_field_mark x = None" "header_value_mark x = None"
    "url_mark x = None" "body_mark x = None" "status_mark x = None" "chunked (par x)"
    "content_length (par x) \<noteq> ULLONG_MAX"
    using assms(1,3) by (simp_all add: good_def hinv_def marks_ok_def url_state_def body_state_def)
  have k: "step_ok len (pos x) r (cb_chunk_header S (pos x + 1) x2 Next)"
    if "http_errno (par x2) = HPE_OK" "hinv 0 (st x2) (par x2)" "marks_ok x2" "pos x2 = pos x"
      for x2 :: "'a exec"
    unfolding cb_chunk_header_def
    by (intro notify_ok tame_simps assms(4))
      (use that assms(2) in \<open>simp_all add: good_def marks_ok_def called_def\<close>)
  show ?thesis unfolding ex_chunk_size_almost_done_def Let_def
    by (simp only: m(7) if_False simp_thms, rule strict_ok)
      (use assms(2) m k in \<open>simp_all add: hinv_def marks_ok_def exec_defs\<close>)
qed

lemma ex_chunk_data_ok:
  assumes "good 1 x" "pos x < length data" "st x = s_chunk_data" "length data < 2 ^ 64"
  shows "step_ok (length data) (pos x) r (ex_chunk_data data x)"
proof -
  have c: "content_length (par x) \<noteq> 0" "content_length (par x) \<noteq> ULLONG_MAX" "chunked (par x)"
    using assms(1,3) by (simp_all add: good_def hinv_def)
  note t = take_body_ok [OF assms(1,2,4) c(1,2)] assms(3)
  show ?thesis using c t
    by (simp add: ex_chunk_data_def Let_def good_def hinv_def marks_ok_def body_state_def exec_defs)
qed

lemma ex_chunk_data_almost_done_ok:
  assumes "good 1 x" "pos x < length data" "st x = s_chunk_data_almost_done" "tame S"
  shows "step_ok (length data) (pos x) r (ex_chunk_data_almost_done S data ch x)"
proof -
  have m: "http_errno (par x) = HPE_OK" "header_field_mark x = None" "header_value_mark x = None"
    "url_mark x = None" "status_mark x = None" "chunked (par x)" "content_length (par x) = 0"
    using assms(1,3) by (simp_all add: good_def hinv_def marks_ok_def url_state_def body_state_def)
  show ?thesis unfolding ex_chunk_data_almost_done_def cb_body_def
    by (simp only: m if_False simp_thms, intro strict_ok data_ok tame_simps assms(4))
      (use assms(2) m in \<open>simp_all add: good_def hinv_def marks_ok_def exec_defs called_def\<close>)
qed

lemma ex_chunk_data_done_ok:
  assumes "good 1 x" "pos x < len" "st x = s_chunk_data_done" "tame S"
  shows "step_ok len (pos x) r (ex_chunk_data_done S ch x)"
proof -
  have m: "http_errno (par x) = HPE_OK" "header_field_mark x = None" "header_value_mark x = None"
    "url_mark x = None" "body_mark x = None" "status_mark x = None" "chunked (par x)"
    using assms(1,3) by (simp_all add: good_def hinv_def marks_ok_def url_state_def body_state_def)
  show ?thesis unfolding ex_chunk_data_done_def cb_chunk_complete_def
    by (simp only: m if_False simp_thms, intro strict_ok notify_ok tame_simps assms(4))
      (use assms(2) m in \<open>simp_all add: good_def hinv_def marks_ok_def exec_defs called_def\<close>)
qed

section \<open>The switch, the loop and the end of the data\<close>

lemma ex_line_end_ok:
  assumes "good 1 x" "pos x < len" "st x = s_res_line_almost_done"
  shows "step_ok len (pos x) r (ex_const LF s_header_field_start ch x)"
  by (rule ex_const_ok) (use assms in \<open>simp_all add: ok_simps\<close>)

lemma ex_ws_end_ok:
  assumes "good 1 x" "pos x < len" "st x = s_header_value_discard_ws_almost_done"
  shows "step_ok len (pos x) r (ex_const LF s_header_value_discard_lws ch x)"
  by (rule ex_const_ok) (use assms in \<open>simp_all add: ok_simps\<close>)

lemmas ex_ranked = ex_start_req_or_res_ok ex_res_or_resp_H_ok ex_start_res_ok ex_res_line_ok ex_res_first_status_code_ok
  ex_res_status_code_ok ex_res_status_start_ok ex_res_status_ok ex_start_req_ok ex_req_method_ok
  ex_req_spaces_before_url_ok ex_req_http_ok ex_header_field_start_ok ex_header_field_ok
  ex_header_value_discard_lws_ok ex_header_value_ok ex_header_value_lws_ok ex_headers_almost_done_ok
  ex_body_identity_ok

lemmas ex_free = ex_dead_ok ex_line_end_ok ex_req_schema_ok ex_req_url_ok ex_header_value_discard_ws_ok ex_ws_end_ok
  ex_header_value_start_ok ex_header_almost_done_ok ex_headers_done_ok ex_chunk_size_start_ok
  ex_chunk_size_ok ex_chunk_parameters_ok ex_chunk_size_almost_done_ok ex_chunk_data_ok
  ex_chunk_data_almost_done_ok ex_chunk_data_done_ok ex_body_identity_eof_ok ex_message_done_ok

lemma step_ok_rank: "step_ok len i (rank q) s \<Longrightarrow> rank q = r \<Longrightarrow> step_ok len i r s"
  by simp

lemma exec_char_ok:
  assumes "good 1 x" "pos x < length data" "tame S" "length data < 2 ^ 64" "rank (st x) = r"
  shows "step_ok (length data) (pos x) r (exec_char S data ch x)"
  unfolding exec_char_def
  by (cases "st x"; use assms in
    \<open>simp add: ex_free ex_ranked [THEN step_ok_rank] url_state_def\<close>)


lemma step_ok_mono: "step_ok len i r s \<Longrightarrow> j \<le> i \<Longrightarrow> step_ok len j r s"
  by (cases s) auto

lemma reexecute_ok:
  "good 1 x \<Longrightarrow> pos x < length data \<Longrightarrow> tame S \<Longrightarrow> length data < 2 ^ 64 \<Longrightarrow> rank (st x) < n \<Longrightarrow>
   step_ok (length data) (pos x) 0 (reexecute n S data ch x)"
proof (induction n arbitrary: x ch)
  case 0
  then show ?case by simp
next
  case (Suc n)
  have ok: "step_ok (length data) (pos x) (rank (st x)) (exec_char S data ch x)"
    by (rule exec_char_ok [OF Suc.prems(1,2,3,4) refl])
  show ?case
  proof (cases "exec_char S data ch x")
    case (Reexec x1 ch1)
    then have x1: "good 1 x1" "pos x \<le> pos x1" "pos x1 < length data" "rank (st x1) < n"
      using ok Suc.prems(5) by simp_all
    have "step_ok (length data) (pos x1) 0 (reexecute n S data ch1 x1)"
      by (rule Suc.IH) (use x1 Suc.prems in simp_all)
    then show ?thesis using Reexec step_ok_mono [OF _ x1(2)] by simp
  qed (use ok in simp_all)
qed

lemma rank_le: "rank s < 8"
  by (cases s) (simp_all add: rank_def)

lemma hinv_no_chunk_size: "s \<noteq> s_chunk_size_start \<Longrightarrow> hinv n s p \<Longrightarrow> hinv m s p"
  by (cases s) (simp_all add: hinv_def)

lemma hinv_counted: "hinv 0 s p \<Longrightarrow> hinv 1 s (nread_update (\<lambda>n. n + 1) p)"
  by (cases s) (simp_all add: hinv_def)

lemma exec_byte_ok:
  assumes "good 0 x" "pos x < length data" "tame S" "length data < 2 ^ 64"
  shows "step_ok (length data) (pos x) 0 (exec_byte S data x)"
proof (cases "PARSING_HEADER (st x)")
  case True
  let ?x = "upd (nread_update (\<lambda>n. n + of_nat 1)) x"
  have "good 1 ?x" using assms(1) hinv_counted [of "st x" "par x"]
    by (simp add: good_def upd_def marks_ok_def)
  then have "step_ok (length data) (pos x) 0 (reexecute 8 S data (data ! pos x) ?x)"
    using reexecute_ok [of ?x data S 8] assms by (simp add: upd_def rank_le)
  then show ?thesis using True assms(2) unfolding exec_byte_def Let_def by (auto intro!: count_ok)
next
  case False
  then have "st x \<noteq> s_chunk_size_start" by (auto simp: PARSING_HEADER_def)
  then have "good 1 x" using assms(1) hinv_no_chunk_size unfolding good_def by blast
  then show ?thesis using False assms by (simp add: exec_byte_def reexecute_ok rank_le)
qed

text \<open>At the end of the data at most one mark is set, and its callback is the last thing done.\<close>

lemma one_mark: "marks_ok x \<Longrightarrow> count_marks x \<le> 1"
  by (cases "st x") (simp_all add: marks_ok_def count_marks_def url_state_def body_state_def)

definition finishing :: "nat \<Rightarrow> 'u exec \<Rightarrow> bool" where
  "finishing len x \<longleftrightarrow> http_errno (par x) = HPE_OK \<and> hinv 0 (st x) (par x) \<and> pos x = len"

lemma finish_data_ok:
  assumes "finishing len x" "pred_option tame_data_cb cb" "e \<noteq> HPE_OK" "e \<noteq> HPE_PAUSED" "er = len"
    "\<And>y. finishing len y \<Longrightarrow> step_ok len i r (k y)" "\<And>y. finishing len (clear y) = finishing len y"
  shows "step_ok len i r (CALLBACK_DATA cb e data m clear stop er x k)"
  by (rule data_ok) (use assms in \<open>auto simp: finishing_def called_def\<close>)

lemma exec_finish_ok:
  assumes "good 0 x" "pos x = length data" "tame S"
  shows "step_ok (length data) i r (exec_finish S data x)"
proof -
  have "finishing (length data) x" using assms(1,2) by (simp add: finishing_def good_def)
  moreover have "\<not> 1 < count_marks x" using one_mark [of x] assms(1) by (simp add: good_def)
  ultimately show ?thesis
    unfolding exec_finish_def cb_header_field_def cb_header_value_def cb_url_def cb_body_def cb_status_def
    by (simp only: if_False, intro finish_data_ok tame_simps assms(3) ret_ok)
      (simp_all add: finishing_def)
qed

text \<open>The loop returns, and reports at most the bytes it was given.\<close>

definition returns_ok :: "nat \<Rightarrow> 'u step \<Rightarrow> bool" where
  "returns_ok len r \<longleftrightarrow> (\<exists>x v. r = Ret x v \<and> v \<le> len \<and> resumable (par x))"

lemma exec_loop_ok:
  "good 0 x \<Longrightarrow> pos x \<le> length data \<Longrightarrow> length data - pos x \<le> n \<Longrightarrow> tame S \<Longrightarrow> length data < 2 ^ 64 \<Longrightarrow>
   returns_ok (length data) (exec_loop n S data x)"
proof (induction n arbitrary: x)
  case 0
  then show ?case using exec_finish_ok [of x data S "length data" 0]
    by (cases "exec_finish S data x") (auto simp add: returns_ok_def)
next
  case (Suc n)
  show ?case
  proof (cases "pos x = length data")
    case True
    then show ?thesis using exec_finish_ok [of x data S "length data" 0] Suc.prems
      by (cases "exec_finish S data x") (auto simp add: returns_ok_def)
  next
    case False
    then have ok: "step_ok (length data) (pos x) 0 (exec_byte S data x)"
      using Suc.prems by (intro exec_byte_ok) auto
    show ?thesis
    proof (cases "exec_byte S data x")
      case (Next x1)
      then have x1: "good 0 x1" "pos x \<le> pos x1" "pos x1 < length data" using ok by simp_all
      have "returns_ok (length data) (exec_loop n S data (x1\<lparr> pos := pos x1 + 1 \<rparr>))"
        by (rule Suc.IH) (use x1 Suc.prems in \<open>auto simp: good_def marks_ok_def\<close>)
      then show ?thesis using Next False by simp
    qed (use ok False in \<open>simp_all add: returns_ok_def\<close>)
  qed
qed

lemma exec_start_good: "http_errno p = HPE_OK \<Longrightarrow> hinv 0 (pstate p) p \<Longrightarrow> good 0 (exec_start p u)"
  by (simp add: good_def exec_start_def marks_ok_def)

lemma exec_eof_ok:
  assumes "http_errno p = HPE_OK" "hinv 0 (pstate p) p" "tame S"
  shows "\<exists>x v. exec_eof S (exec_start p u) = Ret x v \<and> v \<le> 1 \<and> resumable (par x)"
proof -
  let ?x = "exec_start p u"
  have s: "st ?x = pstate p" "par ?x = p" by (simp_all add: exec_start_def)
  have "step_ok 0 0 0 (cb_message_complete S 0 ?x (\<lambda>x1. Ret x1 0))" if "pstate p = s_body_identity_eof"
    unfolding cb_message_complete_def
    by (intro end_ok tame_simps assms(3))
      (use assms(1,2) that in \<open>simp_all add: exec_start_def hinv_def resumable_def called_def reborn_def hinv_start
          http_parser_init_def\<close>)
  then have eof: "\<exists>x v. cb_message_complete S 0 ?x (\<lambda>x1. Ret x1 0) = Ret x v \<and> v \<le> 1 \<and> resumable (par x)"
    if "pstate p = s_body_identity_eof"
    using that by (cases "cb_message_complete S 0 ?x (\<lambda>x1. Ret x1 0)") auto
  have r: "resumable p" using assms(2) by (simp add: resumable_def)
  show ?thesis
    by (cases "pstate p"; use s eof r in \<open>simp add: exec_eof_def upd_def resumable_def\<close>)
qed


lemma execute_ok:
  assumes "resumable p" "tame S" "length data < 2 ^ 64"
  shows "\<exists>x v. http_parser_execute S p data u = Ret x v \<and> v \<le> max 1 (length data) \<and> resumable (par x)
    \<and> (http_errno p \<noteq> HPE_OK \<longrightarrow> par x = p \<and> usr x = u \<and> v = 0)"
proof (cases "http_errno p = HPE_OK")
  case False
  then show ?thesis using assms(1) by (simp add: http_parser_execute_def exec_start_def)
next
  case True
  then have h: "hinv 0 (pstate p) p" using assms(1) by (simp add: resumable_def)
  show ?thesis
  proof (cases "data = []")
    case True
    then show ?thesis using exec_eof_ok [OF \<open>http_errno p = HPE_OK\<close> h assms(2), of u] \<open>http_errno p = HPE_OK\<close>
      by (simp add: http_parser_execute_def)
  next
    case False
    have "pos (exec_start p u) = 0" by (simp add: exec_start_def)
    then have "returns_ok (length data) (exec_loop (length data) S data (exec_start p u))"
      by (intro exec_loop_ok exec_start_good True h assms(2,3)) simp_all
    then show ?thesis using True False by (auto simp: http_parser_execute_def returns_ok_def)
  qed
qed


section \<open>The theorem\<close>


text \<open>Callbacks like those of the load generator: count the messages and initialise the parser again.\<close>

definition counting_settings :: "nat settings" where
  "counting_settings =
     http_parser_settings_init
       \<lparr> on_message_complete := Some (\<lambda>p u. (0, http_parser_init p HTTP_RESPONSE, u + 1)) \<rparr>"

lemma tame_counting: "tame counting_settings"
  by (simp add: tame_def counting_settings_def http_parser_settings_init_def tame_end_cb_def)

lemma resumable_init: "resumable (http_parser_init p t)"
  by (simp add: resumable_def hinv_init)

definition zero_parser :: http_parser where
  "zero_parser =
     \<lparr> ptype = HTTP_REQUEST, flags = 0, pstate = s_start_req, header_state = h_general, index = 0,
       lenient_http_headers = False, nread = 0, content_length = 0, http_major = 0, http_minor = 0,
       status_code = 0, pmethod = HTTP_DELETE, http_errno = HPE_OK, upgrade = False, pdata = 0 \<rparr>"


end
