(* ===== verification/HttpMessage.thy ===== *)
theory HttpMessage
  imports HttpSafe
begin

text \<open>
  What \<open>http_parser_execute\<close> makes of the parts of a message: the method names, the two numeric
  limits (Content-Length and chunk sizes), the tokens of a Connection header, and the limit on headers.
\<close>

section \<open>Running the loop\<close>

lemma exec_loop_next:
  assumes "exec_byte S data x = Next y" "pos x < length data"
  shows "exec_loop (Suc n) S data x = exec_loop n S data (y\<lparr> pos := pos y + 1 \<rparr>)"
  using assms by simp

lemma exec_loop_ret:
  assumes "exec_byte S data x = Ret y v" "pos x < length data"
  shows "exec_loop (Suc n) S data x = Ret y v"
  using assms by simp

lemma drop_ConsD: "drop i xs = c # cs \<Longrightarrow> i < length xs \<and> xs ! i = c \<and> drop (Suc i) xs = cs"
  by (metis Cons_nth_drop_Suc drop_eq_Nil linorder_not_le list.distinct(1) list.inject)

text \<open>One more byte of a header, while the count is below its limit.\<close>

definition counted :: "'u exec \<Rightarrow> 'u exec" where
  "counted x = upd (nread_update (\<lambda>n. n + 1)) x"

lemma exec_byte_header:
  assumes "PARSING_HEADER (st x)" "unat (nread (par x)) < HTTP_MAX_HEADER_SIZE" "data ! pos x = ch"
  shows "exec_byte S data x = reexecute 8 S data ch (counted x)"
proof -
  have "unat (nread (par x) + 1) = unat (nread (par x)) + 1"
    using assms(2) by (simp add: unat_word_ariths HTTP_MAX_HEADER_SIZE_def)
  then have "\<not> of_nat HTTP_MAX_HEADER_SIZE < nread (par x) + 1"
    using assms(2) by (simp add: word_less_nat_alt HTTP_MAX_HEADER_SIZE_def)
  then show ?thesis using assms(1,3)
    by (simp add: exec_byte_def COUNT_HEADER_SIZE_def counted_def upd_def Let_def)
qed

lemma reexecute_Next: "exec_char S data ch x = Next y \<Longrightarrow> 0 < n \<Longrightarrow> reexecute n S data ch x = Next y"
  by (cases n) simp_all

lemma reexecute_Ret: "exec_char S data ch x = Ret y v \<Longrightarrow> 0 < n \<Longrightarrow> reexecute n S data ch x = Ret y v"
  by (cases n) simp_all

definition no_marks :: "'u exec \<Rightarrow> bool" where
  "no_marks x \<longleftrightarrow> header_field_mark x = None \<and> header_value_mark x = None \<and> url_mark x = None
     \<and> body_mark x = None \<and> status_mark x = None"

text \<open>At the end of the data, without marks, the state is saved and everything was parsed.\<close>

lemma exec_finish_plain:
  assumes "no_marks x" "http_errno (par x) = HPE_OK"
  shows "exec_finish S data x = ret (length data) x"
  using assms
  by (simp add: exec_finish_def no_marks_def count_marks_def cb_header_field_def cb_header_value_def
      cb_url_def cb_body_def cb_status_def CALLBACK_DATA_def)

section \<open>Method names\<close>

text \<open>The words that \<open>s_start_req\<close> and \<open>s_req_method\<close> accept in front of a space.\<close>

definition may_switch :: "char \<Rightarrow> bool" where
  "may_switch c \<longleftrightarrow> (65 \<le> code c \<and> code c \<le> 90) \<or> c = CHR ''-''"

fun method_run :: "http_method \<Rightarrow> nat \<Rightarrow> string \<Rightarrow> http_method option" where
  "method_run m i [] = (if i = length (method_string m) then Some m else None)"
| "method_run m i (c # cs) =
     (if i < length (method_string m) \<and> method_string m ! i = c then method_run m (i + 1) cs
      else if may_switch c then
        (case method_switch m i c of None \<Rightarrow> None | Some m' \<Rightarrow> method_run m' (i + 1) cs)
      else None)"

fun method_of :: "string \<Rightarrow> http_method option" where
  "method_of [] = None"
| "method_of (c # cs) = (case first_method c of None \<Rightarrow> None | Some m \<Rightarrow> method_run m 1 cs)"

lemma method_of_string: "method_of (method_string m) = Some m"
  by (cases m; simp add: first_method_def method_switch_def may_switch_def code_def)

lemma method_switch_prefix:
  "method_switch m i c = Some m' \<Longrightarrow>
   take i (method_string m') = take i (method_string m) \<and> i < length (method_string m') \<and> method_string m' ! i = c"
  unfolding method_switch_def by (auto split: if_splits simp: numeral_eq_Suc)

lemma method_run_sound:
  "i \<le> length (method_string m) \<Longrightarrow> method_run m i w = Some m' \<Longrightarrow> take i (method_string m) @ w = method_string m'"
proof (induction w arbitrary: m i)
  case Nil
  then show ?case by (simp split: if_splits)
next
  case (Cons c cs)
  show ?case
  proof (cases "i < length (method_string m) \<and> method_string m ! i = c")
    case True
    then have "take (i + 1) (method_string m) @ cs = method_string m'" using Cons by simp
    then show ?thesis using True by (simp add: take_Suc_conv_app_nth)
  next
    case False
    then obtain m1 where m1: "method_switch m i c = Some m1" "method_run m1 (i + 1) cs = Some m'"
      using Cons.prems(2) by (auto split: if_splits option.splits)
    note p = method_switch_prefix [OF m1(1)]
    then have "take (i + 1) (method_string m1) @ cs = method_string m'" using Cons.IH m1(2) by simp
    then show ?thesis using p by (simp add: take_Suc_conv_app_nth)
  qed
qed

lemma method_of_iff: "method_of w = Some m \<longleftrightarrow> w = method_string m"
proof
  assume w: "method_of w = Some m"
  then obtain c cs m0 where c: "w = c # cs" "first_method c = Some m0" "method_run m0 1 cs = Some m"
    by (cases w) (auto split: option.splits)
  have "take 1 (method_string m0) = [c]"
    using c(2) by (auto simp: first_method_def split: if_splits)
  then show "w = method_string m" using method_run_sound [OF _ c(3)] c(1) method_string_length [of m0] by simp
qed (simp add: method_of_string)

text \<open>The parser inside a method name of which \<open>i\<close> letters were read.\<close>

definition in_method :: "http_method \<Rightarrow> nat \<Rightarrow> 'u exec \<Rightarrow> bool" where
  "in_method m i x \<longleftrightarrow>
     st x = s_req_method \<and> pmethod (par x) = m \<and> unat (index (par x)) = i \<and> i \<le> length (method_string m)
     \<and> unat (nread (par x)) = i \<and> http_errno (par x) = HPE_OK \<and> no_marks x"

lemma method_string_letters:
  "i < length (method_string m) \<Longrightarrow> method_string m ! i \<noteq> SPC \<and> method_string m ! i \<noteq> NUL"
proof -
  have "list_all (\<lambda>c. c \<noteq> SPC \<and> c \<noteq> NUL) (method_string m)" by (cases m) simp_all
  then show "i < length (method_string m) \<Longrightarrow> ?thesis" by (simp add: list_all_length)
qed

lemma in_method_byte:
  assumes "in_method m i x" "data ! pos x = ch"
  shows "exec_byte S data x = reexecute 8 S data ch (counted x)"
    "exec_char S data ch (counted x) = ex_req_method ch (counted x)" "i < 12"
proof -
  show i: "i < 12" using assms(1) method_string_length [of m] by (simp add: in_method_def)
  show "exec_byte S data x = reexecute 8 S data ch (counted x)"
    by (rule exec_byte_header) (use assms i in \<open>simp_all add: in_method_def PARSING_HEADER_def HTTP_MAX_HEADER_SIZE_def\<close>)
  show "exec_char S data ch (counted x) = ex_req_method ch (counted x)"
    using assms(1) by (simp add: exec_char_def in_method_def counted_def upd_def)
qed

text \<open>The next letter: the next one of the method, or one that turns to another method.\<close>

definition next_method :: "http_method \<Rightarrow> nat \<Rightarrow> char \<Rightarrow> http_method option" where
  "next_method m i c =
     (if i < length (method_string m) \<and> method_string m ! i = c then Some m
      else if may_switch c then method_switch m i c else None)"

lemma method_run_Cons:
  "method_run m i (c # cs) = (case next_method m i c of None \<Rightarrow> None | Some m' \<Rightarrow> method_run m' (i + 1) cs)"
  by (simp add: next_method_def)

lemma unat_Suc_nread: "unat (n :: u32) < 2 ^ 16 \<Longrightarrow> unat (n + 1) = unat n + 1"
  by (simp add: unat_word_ariths)

lemma ex_req_method_letter:
  assumes "unat (index (par x)) = i" "i \<le> length (method_string (pmethod (par x)))" "ch \<noteq> SPC"
  shows "ex_req_method ch x =
    (if ch = NUL then fail HPE_INVALID_METHOD x
     else (case next_method (pmethod (par x)) i ch of
        None \<Rightarrow> fail HPE_INVALID_METHOD x
      | Some m' \<Rightarrow> Next (upd (\<lambda>p. p\<lparr> pmethod := m', index := index p + 1 \<rparr>) x)))"
proof -
  have same: "upd (index_update (\<lambda>i. i + 1)) x = upd (\<lambda>p. p\<lparr> pmethod := pmethod (par x), index := index p + 1 \<rparr>) x"
    by (cases "par x") (simp add: upd_def)
  show ?thesis
    using assms method_string_letters [of i "pmethod (par x)"]
    by (auto simp: ex_req_method_def str_at_def next_method_def may_switch_def same split: option.splits)
qed

lemma in_method_letter:
  assumes "in_method m i x" "data ! pos x = ch" "ch \<noteq> SPC"
  shows "case next_method m i ch of
      None \<Rightarrow> \<exists>y. exec_byte S data x = Ret y (pos x) \<and> http_errno (par y) = HPE_INVALID_METHOD
    | Some m' \<Rightarrow> \<exists>y. exec_byte S data x = Next y \<and> pos y = pos x \<and> in_method m' (i + 1) y"
proof -
  note b = in_method_byte [OF assms(1,2)]
  have n: "unat (nread (par x) + 1) = i + 1" "unat (index (par x) + 1) = i + 1"
    using assms(1) b(3) by (simp_all add: in_method_def unat_Suc_nread index_Suc)
  have fail: "ex_req_method ch (counted x) = fail HPE_INVALID_METHOD (counted x) \<Longrightarrow>
      \<exists>y. exec_byte S data x = Ret y (pos x) \<and> http_errno (par y) = HPE_INVALID_METHOD"
    using b(1,2) by (simp add: exec_defs counted_def reexecute_Ret)
  have move: "\<exists>y. exec_byte S data x = Next y \<and> pos y = pos x \<and> in_method m' (i + 1) y"
    if "ex_req_method ch (counted x) = Next (upd (\<lambda>p. p\<lparr> pmethod := m', index := index p + 1 \<rparr>) (counted x))"
      "i + 1 \<le> length (method_string m')" for m'
    using that b(1,2) n assms(1) by (simp add: in_method_def counted_def upd_def no_marks_def reexecute_Next)
  have st: "ex_req_method ch (counted x) =
      (if ch = NUL then fail HPE_INVALID_METHOD (counted x)
       else (case next_method m i ch of
          None \<Rightarrow> fail HPE_INVALID_METHOD (counted x)
        | Some m' \<Rightarrow> Next (upd (\<lambda>p. p\<lparr> pmethod := m', index := index p + 1 \<rparr>) (counted x))))"
    using ex_req_method_letter [of "counted x" i ch] assms(1,3) by (simp add: in_method_def counted_def upd_def)
  show ?thesis
  proof (cases "next_method m i ch")
    case None
    then show ?thesis using fail st by simp
  next
    case (Some m')
    then have "i + 1 \<le> length (method_string m') \<and> ch \<noteq> NUL"
      using method_string_letters [of i m] method_switch_prefix [of m i ch m']
      by (auto simp: next_method_def may_switch_def code_def split: if_splits)
    then show ?thesis using Some move st by simp
  qed
qed


lemma in_method_space:
  assumes "in_method m i x" "data ! pos x = SPC"
  shows "if i = length (method_string m)
    then \<exists>y. exec_byte S data x = Next y \<and> pos y = pos x \<and> st y = s_req_spaces_before_url
      \<and> pmethod (par y) = m \<and> http_errno (par y) = HPE_OK \<and> no_marks y
    else \<exists>y. exec_byte S data x = Ret y (pos x) \<and> http_errno (par y) = HPE_INVALID_METHOD"
proof -
  note b = in_method_byte [OF assms]
  show ?thesis
  proof (cases "i = length (method_string m)")
    case True
    then have "ex_req_method SPC (counted x)
        = Next (upd (index_update (\<lambda>i. i + 1)) (goto_state s_req_spaces_before_url (counted x)))"
      using assms(1) by (simp add: ex_req_method_def in_method_def counted_def str_at_def upd_def)
    then show ?thesis using b(1,2) True assms(1)
      by (simp add: reexecute_Next in_method_def counted_def exec_defs no_marks_def)
  next
    case False
    then have "ex_req_method SPC (counted x) = fail HPE_INVALID_METHOD (counted x)"
      using assms(1) method_string_letters [of i m]
      by (auto simp: ex_req_method_def in_method_def counted_def str_at_def upd_def code_def)
    then show ?thesis using b(1,2) False by (simp add: exec_defs counted_def reexecute_Ret)
  qed
qed

text \<open>The outcome of a request whose bytes so far are a word and a space.\<close>

definition word_result :: "nat \<Rightarrow> http_method option \<Rightarrow> 'u step \<Rightarrow> bool" where
  "word_result len r s \<longleftrightarrow>
     (case r of
        None \<Rightarrow> \<exists>y v. s = Ret y v \<and> http_errno (par y) = HPE_INVALID_METHOD
      | Some m \<Rightarrow> \<exists>y. s = Ret y len \<and> http_errno (par y) = HPE_OK \<and> pmethod (par y) = m
                   \<and> pstate (par y) = s_req_spaces_before_url)"

lemma method_loop:
  "in_method m i x \<Longrightarrow> drop (pos x) data = w @ [SPC] \<Longrightarrow> SPC \<notin> set w \<Longrightarrow>
   word_result (length data) (method_run m i w) (exec_loop (Suc (length w)) S data x)"
proof (induction w arbitrary: m i x)
  case Nil
  then have d: "pos x < length data" "data ! pos x = SPC" "length data = Suc (pos x)"
    using drop_ConsD [of "pos x" data SPC "[]"] by auto
  show ?case
  proof (cases "i = length (method_string m)")
    case True
    then obtain y where y: "exec_byte S data x = Next y" "pos y = pos x" "st y = s_req_spaces_before_url"
      "pmethod (par y) = m" "http_errno (par y) = HPE_OK" "no_marks y"
      using in_method_space [OF Nil.prems(1) d(2), of S] by auto
    have "exec_loop (Suc 0) S data x = ret (length data) (y\<lparr> pos := pos y + 1 \<rparr>)"
      using y d exec_finish_plain [of "y\<lparr> pos := pos y + 1 \<rparr>" S data]
      by (simp add: no_marks_def del: exec_loop.simps(2) add: exec_loop_next)
    then show ?thesis using y True by (simp add: word_result_def exec_defs)
  next
    case False
    then obtain y where "exec_byte S data x = Ret y (pos x)" "http_errno (par y) = HPE_INVALID_METHOD"
      using in_method_space [OF Nil.prems(1) d(2), of S] by auto
    then show ?thesis using False d(1) by (simp add: word_result_def)
  qed
next
  case (Cons c cs)
  then have d: "pos x < length data" "data ! pos x = c" "drop (Suc (pos x)) data = cs @ [SPC]"
    using drop_ConsD [of "pos x" data c "cs @ [SPC]"] by auto
  have c: "c \<noteq> SPC" using Cons.prems(3) by auto
  note l = in_method_letter [OF Cons.prems(1) d(2) c, of S]
  show ?case
  proof (cases "next_method m i c")
    case None
    then obtain y where "exec_byte S data x = Ret y (pos x)" "http_errno (par y) = HPE_INVALID_METHOD"
      using l by auto
    then show ?thesis using None d(1) unfolding method_run_Cons by (simp add: word_result_def)
  next
    case (Some m')
    then obtain y where y: "exec_byte S data x = Next y" "pos y = pos x" "in_method m' (i + 1) y"
      using l by auto
    have "in_method m' (i + 1) (y\<lparr> pos := pos y + 1 \<rparr>)" using y(3) by (simp add: in_method_def no_marks_def)
    then have "word_result (length data) (method_run m' (i + 1) cs)
        (exec_loop (Suc (length cs)) S data (y\<lparr> pos := pos y + 1 \<rparr>))"
      using Cons.IH [of m' "i + 1" "y\<lparr> pos := pos y + 1 \<rparr>"] d(3) y(2) Cons.prems(3) by simp
    then show ?thesis using Some exec_loop_next [OF y(1) d(1), of "Suc (length cs)"] unfolding method_run_Cons
      by (simp del: exec_loop.simps)
  qed
qed

text \<open>The first letter.\<close>

lemma start_req_letter:
  assumes "st x = s_start_req" "nread (par x) = 0" "http_errno (par x) = HPE_OK" "no_marks x"
    "data ! pos x = c" "\<not> is_crlf c" "on_message_begin S = None"
  shows "case first_method c of
      None \<Rightarrow> \<exists>y. exec_byte S data x = Ret y (pos x) \<and> http_errno (par y) = HPE_INVALID_METHOD
    | Some m \<Rightarrow> \<exists>y. exec_byte S data x = Next y \<and> pos y = pos x \<and> in_method m 1 y"
proof -
  have a: "IS_ALPHA c" if "first_method c = Some m" for m
    using that by (auto simp: first_method_def IS_ALPHA_def LOWER_def code_def split: if_splits)
  have b: "exec_byte S data x = reexecute 8 S data c (counted x)"
    by (rule exec_byte_header) (use assms in \<open>simp_all add: PARSING_HEADER_def HTTP_MAX_HEADER_SIZE_def\<close>)
  have e: "exec_char S data c (counted x) = ex_start_req S c (counted x)"
    using assms(1) by (simp add: exec_char_def counted_def upd_def)
  have l: "Suc 0 \<le> length (method_string m)" for m using method_string_length [of m] by linarith
  show ?thesis
  proof (cases "first_method c")
    case None
    then have "\<exists>y. ex_start_req S c (counted x) = Ret y (pos x) \<and> http_errno (par y) = HPE_INVALID_METHOD"
      using assms(6) by (simp add: ex_start_req_def Let_def exec_defs begin_message_def counted_def)
    then show ?thesis using None b e by (auto simp: reexecute_Ret)
  next
    case (Some m)
    then have "\<exists>y. ex_start_req S c (counted x) = Next y \<and> pos y = pos x \<and> in_method m 1 y"
      using assms a [OF Some] l [of m]
      by (simp add: ex_start_req_def Let_def exec_defs begin_message_def counted_def cb_message_begin_def
          CALLBACK_NOTIFY_def in_method_def no_marks_def)
    then show ?thesis using Some b e by (auto simp: reexecute_Next)
  qed
qed

lemma method_word:
  assumes "w \<noteq> []" "SPC \<notin> set w" "\<not> is_crlf (hd w)"
  shows "word_result (length w + 1) (method_of w)
    (http_parser_execute http_parser_settings_init (http_parser_init p HTTP_REQUEST) (w @ [SPC]) u)"
proof -
  obtain c cs where w: "w = c # cs" using assms(1) by (cases w) auto
  let ?S = http_parser_settings_init and ?x = "exec_start (http_parser_init p HTTP_REQUEST) u"
  have x: "st ?x = s_start_req" "nread (par ?x) = 0" "http_errno (par ?x) = HPE_OK" "no_marks ?x" "pos ?x = 0"
    by (simp_all add: exec_start_def http_parser_init_def no_marks_def url_state_def)
  note l = start_req_letter [OF x(1-4), of "w @ [SPC]" c ?S]
  have run: "http_parser_execute ?S (http_parser_init p HTTP_REQUEST) (w @ [SPC]) u
      = exec_loop (Suc (Suc (length cs))) ?S (w @ [SPC]) ?x"
    by (simp add: http_parser_execute_def http_parser_init_def w del: exec_loop.simps)
  show ?thesis
  proof (cases "first_method c")
    case None
    then obtain y where "exec_byte ?S (w @ [SPC]) ?x = Ret y 0" "http_errno (par y) = HPE_INVALID_METHOD"
      using l x(5) assms(3) w by (auto simp: http_parser_settings_init_def)
    then show ?thesis using None run x(5) w by (simp add: word_result_def)
  next
    case (Some m)
    then obtain y where y: "exec_byte ?S (w @ [SPC]) ?x = Next y" "pos y = 0" "in_method m 1 y"
      using l x(5) assms(3) w by (auto simp: http_parser_settings_init_def)
    have "in_method m 1 (y\<lparr> pos := pos y + 1 \<rparr>)" using y(3) by (simp add: in_method_def no_marks_def)
    then have "word_result (length (w @ [SPC])) (method_run m 1 cs)
        (exec_loop (Suc (length cs)) ?S (w @ [SPC]) (y\<lparr> pos := pos y + 1 \<rparr>))"
      using assms(2) y(2) w by (intro method_loop) simp_all
    then show ?thesis using Some w exec_loop_next [OF y(1), of "Suc (length cs)"] x(5) run
      by (simp del: exec_loop.simps)
  qed
qed

text \<open>C22: The request methods are exactly those of the table: a request parser given a word and a space
  accepts it, with method \<open>m\<close>, if and only if the word is the name of \<open>m\<close>; every other word is refused
  as an invalid method.\<close>

theorem request_methods_exact:
  assumes "w \<noteq> []" "SPC \<notin> set w" "\<not> is_crlf (hd w)"
  shows "\<exists>y v. http_parser_execute http_parser_settings_init (http_parser_init p HTTP_REQUEST) (w @ [SPC]) u = Ret y v
    \<and> (if w \<in> range method_string
       then http_errno (par y) = HPE_OK \<and> v = length w + 1 \<and> pstate (par y) = s_req_spaces_before_url
         \<and> method_string (pmethod (par y)) = w
       else http_errno (par y) = HPE_INVALID_METHOD)"
proof (cases "method_of w")
  case None
  then have "w \<notin> range method_string" using method_of_string by auto
  then show ?thesis using method_word [OF assms, of p u] None by (auto simp: word_result_def)
next
  case (Some m)
  then have "w = method_string m" by (simp add: method_of_iff)
  then show ?thesis using method_word [OF assms, of p u] Some by (auto simp: word_result_def)
qed

theorem request_methods_exact_witness:
  "\<exists>y v. http_parser_execute http_parser_settings_init (http_parser_init zero_parser HTTP_REQUEST)
      (''UNSUBSCRIBE'' @ [SPC]) () = Ret y v
    \<and> http_errno (par y) = HPE_OK \<and> v = 12 \<and> pstate (par y) = s_req_spaces_before_url
    \<and> method_string (pmethod (par y)) = ''UNSUBSCRIBE''"
proof -
  have "''UNSUBSCRIBE'' = method_string HTTP_UNSUBSCRIBE" by simp
  then have "''UNSUBSCRIBE'' \<in> range method_string" by blast
  then show ?thesis using request_methods_exact [of "''UNSUBSCRIBE''" zero_parser "()"]
    by (simp add: is_crlf_def numeral_eq_Suc)
qed


section \<open>Content-Length\<close>

text \<open>The digits after the first, with the limit test in front of each.\<close>

fun add_digits :: "nat \<Rightarrow> string \<Rightarrow> nat option" where
  "add_digits v [] = Some v"
| "add_digits v (d # ds) =
     (if (2 ^ 64 - 11) div 10 < v then None else add_digits (10 * v + digit_val d) ds)"

lemma digits_nat_Cons: "digits_nat (d # ds) = digit_val d * 10 ^ length ds + digits_nat ds"
  by (induction ds rule: rev_induct) (simp_all add: digits_nat_def algebra_simps)

lemma digit_val_less: "isdigit d \<Longrightarrow> digit_val d < 10"
  by (auto simp: isdigit_def digit_val_def)

lemma add_digits_iff:
  "list_all isdigit ds \<Longrightarrow> ds \<noteq> [] \<Longrightarrow>
   add_digits v ds =
     (if v * 10 ^ length ds + digits_nat ds < 2 ^ 64 - 6 then Some (v * 10 ^ length ds + digits_nat ds) else None)"
proof (induction ds arbitrary: v)
  case Nil
  then show ?case by simp
next
  case (Cons d ds)
  have d: "digit_val d < 10" using Cons.prems(1) by (simp add: digit_val_less)
  have e: "v * 10 ^ length (d # ds) + digits_nat (d # ds) = (10 * v + digit_val d) * 10 ^ length ds + digits_nat ds"
    by (simp add: digits_nat_Cons algebra_simps)
  show ?case
  proof (cases "(2 ^ 64 - 11) div 10 < v")
    case True
    have "2 ^ 64 - 6 \<le> 10 * v + digit_val d" using True by simp
    also have "\<dots> \<le> (10 * v + digit_val d) * 10 ^ length ds + digits_nat ds" by (simp add: trans_le_add1)
    finally show ?thesis using True e by simp
  next
    case False
    show ?thesis
    proof (cases "ds = []")
      case True
      then show ?thesis using False d e by simp
    next
      case False': False
      then show ?thesis using False Cons.IH [of "10 * v + digit_val d"] Cons.prems(1) e by simp
    qed
  qed
qed

lemma content_length_step:
  assumes "isdigit d" "\<not> (ULLONG_MAX - 10) div 10 < (c :: u64)"
  shows "unat (c * 10 + of_nat (code d - 48)) = 10 * unat c + digit_val d"
proof -
  have "unat ((ULLONG_MAX - 10) div 10 :: u64) = (2 ^ 64 - 11) div 10"
    by (simp add: ULLONG_MAX_def unat_div)
  then have c: "unat c \<le> (2 ^ 64 - 11) div 10" using assms(2) by (simp add: word_less_nat_alt)
  then have "unat (c * 10) = unat c * 10" by (simp add: unat_word_ariths)
  moreover have "unat (of_nat (code d - 48) :: u64) = digit_val d"
    using digit_val_less [OF assms(1)] by (simp add: unat_of_nat take_bit_nat_eq_self digit_val_def)
  ultimately show ?thesis using c digit_val_less [OF assms(1)] by (simp add: unat_word_ariths)
qed

lemma content_length_limit: "(ULLONG_MAX - 10) div 10 < (c :: u64) \<longleftrightarrow> (2 ^ 64 - 11) div 10 < unat c"
proof -
  have "unat ((ULLONG_MAX - 10) div 10 :: u64) = (2 ^ 64 - 11) div 10"
    by (simp add: ULLONG_MAX_def unat_div)
  then show ?thesis by (simp add: word_less_nat_alt)
qed

lemma digit_plain: "isdigit d \<Longrightarrow> d \<noteq> CR \<and> d \<noteq> LF \<and> d \<noteq> SPC \<and> IS_HEADER_CHAR d \<and> d \<noteq> TAB"
  by (auto simp: isdigit_def IS_HEADER_CHAR_def code_def)

lemma value_loop_digits:
  "list_all isdigit ds \<Longrightarrow>
   (case add_digits (unat (content_length p)) ds of
      None \<Rightarrow> \<exists>p1 k1. value_loop l (ds @ CR # rest) p h_content_length k = VErr HPE_INVALID_CONTENT_LENGTH p1 k1
    | Some v \<Rightarrow> value_loop l (ds @ CR # rest) p h_content_length k
        = VCr (p\<lparr> content_length := of_nat v \<rparr>) h_content_length (k + length ds))"
proof (induction ds arbitrary: p k)
  case Nil
  then show ?case by simp
next
  case (Cons d ds)
  then have d: "isdigit d" "list_all isdigit ds" by simp_all
  note pl = digit_plain [OF d(1)]
  show ?case
  proof (cases "(ULLONG_MAX - 10) div 10 < content_length p")
    case True
    then show ?thesis using pl d(1)
      by (simp add: content_length_limit value_step_def value_content_length_def IS_NUM_def Let_def)
  next
    case False
    let ?p = "p\<lparr> content_length := content_length p * 10 + of_nat (code d - 48) \<rparr>"
    have "value_step d p h_content_length = VGo ?p h_content_length"
      using False pl d(1) by (simp add: value_step_def value_content_length_def IS_NUM_def Let_def)
    then have "value_loop l ((d # ds) @ CR # rest) p h_content_length k
        = value_loop l (ds @ CR # rest) ?p h_content_length (k + 1)"
      using pl by simp
    moreover have "add_digits (unat (content_length p)) (d # ds) = add_digits (unat (content_length ?p)) ds"
      using False content_length_step [OF d(1) False] by (simp add: content_length_limit)
    ultimately show ?thesis using Cons.IH [OF d(2), of ?p "k + 1"] by (simp split: option.splits)
  qed
qed


lemma count_header_fits:
  assumes "unat (nread (par x)) + v \<le> HTTP_MAX_HEADER_SIZE"
  shows "COUNT_HEADER_SIZE v x k = k (upd (nread_update (\<lambda>n. n + of_nat v)) x)"
    "unat (nread (par x) + of_nat v) = unat (nread (par x)) + v"
proof -
  have "unat (of_nat v :: u32) = v"
    using assms by (simp add: unat_of_nat take_bit_nat_eq_self HTTP_MAX_HEADER_SIZE_def)
  then show n: "unat (nread (par x) + of_nat v) = unat (nread (par x)) + v"
    using assms by (simp add: unat_word_ariths HTTP_MAX_HEADER_SIZE_def)
  then have "\<not> of_nat HTTP_MAX_HEADER_SIZE < nread (par x) + of_nat v"
    using assms by (simp add: word_less_nat_alt HTTP_MAX_HEADER_SIZE_def)
  then show "COUNT_HEADER_SIZE v x k = k (upd (nread_update (\<lambda>n. n + of_nat v)) x)"
    by (simp add: COUNT_HEADER_SIZE_def upd_def Let_def)
qed

text \<open>The parser inside a Content-Length value of which the first digit was read.\<close>

definition in_length :: "nat \<Rightarrow> nat \<Rightarrow> 'u exec \<Rightarrow> bool" where
  "in_length n v x \<longleftrightarrow>
     st x = s_header_value \<and> header_state (par x) = h_content_length \<and> http_errno (par x) = HPE_OK
     \<and> unat (content_length (par x)) = v \<and> unat (nread (par x)) = n \<and> has_flag (flags (par x)) F_CONTENTLENGTH
     \<and> header_field_mark x = None \<and> url_mark x = None \<and> body_mark x = None \<and> status_mark x = None"

lemma first_length_digit:
  assumes "st x = s_header_value_discard_ws" "header_state (par x) = h_content_length" "http_errno (par x) = HPE_OK"
    "\<not> has_flag (flags (par x)) F_CONTENTLENGTH" "no_marks x" "unat (nread (par x)) < HTTP_MAX_HEADER_SIZE"
    "data ! pos x = d" "isdigit d"
  shows "\<exists>y. exec_byte S data x = Next y \<and> pos y = pos x \<and> in_length (unat (nread (par x)) + 1) (digit_val d) y"
proof -
  have b: "exec_byte S data x = reexecute 8 S data d (counted x)"
    by (rule exec_byte_header) (use assms in \<open>simp_all add: PARSING_HEADER_def\<close>)
  have v: "unat (of_nat (code d - 48) :: u64) = digit_val d"
    using digit_val_less [OF assms(8)] by (simp add: unat_of_nat take_bit_nat_eq_self digit_val_def)
  have n: "unat (nread (par x) + 1) = unat (nread (par x)) + 1"
    using assms(6) by (simp add: HTTP_MAX_HEADER_SIZE_def unat_word_ariths)
  have "exec_char S data d (counted x) = ex_header_value_start d (counted x)"
    using assms(1) digit_plain [OF assms(8)]
    by (simp add: exec_char_def ex_header_value_discard_ws_def counted_def upd_def)
  moreover have "\<exists>y. ex_header_value_start d (counted x) = Next y \<and> pos y = pos x
      \<and> in_length (unat (nread (par x)) + 1) (digit_val d) y"
    using assms v n
    by (simp add: ex_header_value_start_def Let_def counted_def exec_defs IS_NUM_def in_length_def no_marks_def
        has_flag_def bit.conj_disj_distrib2 F_CONTENTLENGTH_def)
  ultimately show ?thesis using b by (auto simp: reexecute_Next)
qed

lemma rest_of_length:
  assumes "in_length n v x" "drop (pos x) data = ds @ CRLF" "list_all isdigit ds" "on_header_value S = None"
    "n + length ds + 1 \<le> HTTP_MAX_HEADER_SIZE"
  shows "case add_digits v ds of
      None \<Rightarrow> \<exists>y w. exec_byte S data x = Ret y w \<and> http_errno (par y) = HPE_INVALID_CONTENT_LENGTH
    | Some v' \<Rightarrow> \<exists>y. exec_byte S data x = Next y \<and> pos y = pos x + length ds \<and> st y = s_header_almost_done
        \<and> content_length (par y) = of_nat v' \<and> http_errno (par y) = HPE_OK \<and> no_marks y
        \<and> has_flag (flags (par y)) F_CONTENTLENGTH \<and> unat (nread (par y)) = n + 1 + length ds"
proof -
  let ?x = "counted x"
  have n: "unat (nread (par ?x)) = n + 1"
    using assms(1,5) by (simp add: counted_def upd_def in_length_def HTTP_MAX_HEADER_SIZE_def unat_word_ariths)
  have b: "exec_byte S data x = reexecute 8 S data (data ! pos x) ?x"
    by (rule exec_byte_header) (use assms in \<open>simp_all add: PARSING_HEADER_def in_length_def\<close>)
  have e: "exec_char S data (data ! pos x) ?x = ex_header_value S data ?x"
    using assms(1) by (simp add: exec_char_def counted_def upd_def in_length_def)
  have x: "header_state (par ?x) = h_content_length" "unat (content_length (par ?x)) = v" "pos ?x = pos x"
    using assms(1) by (simp_all add: counted_def upd_def in_length_def)
  note l = value_loop_digits [OF assms(3), where l = "lenient ?x" and p = "par ?x" and rest = "[LF]" and k = 0]
  show ?thesis
  proof (cases "add_digits v ds")
    case None
    then obtain p1 k1 where "value_loop (lenient ?x) (drop (pos x) data) (par ?x) (header_state (par ?x)) 0
        = VErr HPE_INVALID_CONTENT_LENGTH p1 k1" using l x assms(2) by auto
    then have "\<exists>y w. ex_header_value S data ?x = Ret y w \<and> http_errno (par y) = HPE_INVALID_CONTENT_LENGTH"
      using x(3) by (simp add: ex_header_value_def exec_defs)
    then show ?thesis using None b e by (auto simp: reexecute_Ret)
  next
    case (Some v')
    let ?p = "(par ?x)\<lparr> content_length := of_nat v', header_state := h_content_length \<rparr>"
    let ?y = "?x\<lparr> par := ?p, st := s_header_almost_done, pos := pos x + length ds, header_value_mark := None \<rparr>"
    have "value_loop (lenient ?x) (drop (pos x) data) (par ?x) (header_state (par ?x)) 0
        = VCr ((par ?x)\<lparr> content_length := of_nat v' \<rparr>) h_content_length (length ds)"
      using l x assms(2) Some by simp
    then have "ex_header_value S data ?x = COUNT_HEADER_SIZE (length ds) ?y Next"
      using assms(1,4) x(3)
      by (cases x; cases "header_value_mark x")
        (simp_all add: ex_header_value_def cb_header_value_def CALLBACK_DATA_def exec_defs Let_def counted_def in_length_def)
    moreover have "unat (nread (par ?y)) + length ds \<le> HTTP_MAX_HEADER_SIZE" using n assms(5) by simp
    note c = count_header_fits [OF this]
    ultimately have "ex_header_value S data ?x = Next (upd (nread_update (\<lambda>n. n + of_nat (length ds))) ?y)"
      using c(1) by simp
    then show ?thesis using Some b e c(2) n assms(1)
      by (simp add: reexecute_Next upd_def no_marks_def in_length_def counted_def)
  qed
qed


lemma header_lf:
  assumes "st x = s_header_almost_done" "http_errno (par x) = HPE_OK" "no_marks x"
    "unat (nread (par x)) < HTTP_MAX_HEADER_SIZE" "data ! pos x = LF"
  shows "exec_byte S data x = Next (goto_state s_header_value_lws (counted x))"
proof -
  have "exec_byte S data x = reexecute 8 S data LF (counted x)"
    by (rule exec_byte_header) (use assms in \<open>simp_all add: PARSING_HEADER_def\<close>)
  moreover have "exec_char S data LF (counted x) = Next (goto_state s_header_value_lws (counted x))"
    using assms(1) by (simp add: exec_char_def ex_header_almost_done_def counted_def upd_def)
  ultimately show ?thesis by (simp add: reexecute_Next)
qed

lemma length_run:
  assumes "in_length n v x" "pos x = Suc 0" "list_all isdigit ds" "n + length ds + 2 \<le> HTTP_MAX_HEADER_SIZE"
    "data = d # ds @ CRLF" "on_header_value S = None"
  shows "\<exists>y w. exec_loop (length ds + 2) S data x = Ret y w
    \<and> (case add_digits v ds of
         None \<Rightarrow> http_errno (par y) = HPE_INVALID_CONTENT_LENGTH
       | Some v' \<Rightarrow> http_errno (par y) = HPE_OK \<and> w = length data \<and> content_length (par y) = of_nat v'
           \<and> has_flag (flags (par y)) F_CONTENTLENGTH \<and> pstate (par y) = s_header_value_lws)"
proof -
  have d: "drop (pos x) data = ds @ CRLF" "pos x < length data" using assms(2,5) by simp_all
  have m: "length ds + 2 = Suc (Suc (length ds))" by simp
  have "n + length ds + 1 \<le> HTTP_MAX_HEADER_SIZE" using assms(4) by simp
  note r = rest_of_length [OF assms(1) d(1) assms(3,6) this]
  show ?thesis
  proof (cases "add_digits v ds")
    case None
    then obtain y w where "exec_byte S data x = Ret y w" "http_errno (par y) = HPE_INVALID_CONTENT_LENGTH"
      using r by auto
    then show ?thesis using None exec_loop_ret [OF _ d(2)] unfolding m by (auto simp del: exec_loop.simps)
  next
    case (Some v')
    then obtain y where y: "exec_byte S data x = Next y" "pos y = pos x + length ds" "st y = s_header_almost_done"
        "content_length (par y) = of_nat v'" "http_errno (par y) = HPE_OK" "no_marks y"
        "has_flag (flags (par y)) F_CONTENTLENGTH" "unat (nread (par y)) = n + 1 + length ds"
      using r by auto
    let ?y = "y\<lparr> pos := pos y + 1 \<rparr>"
    let ?z = "goto_state s_header_value_lws (counted ?y)"
    let ?w = "?z\<lparr> pos := pos ?z + 1 \<rparr>"
    have p: "pos ?y < length data" "data ! pos ?y = LF" using y(2) assms(2,5) by (simp_all add: nth_append)
    have e: "exec_byte S data ?y = Next ?z"
      by (rule header_lf) (use y assms(4) p in \<open>simp_all add: no_marks_def\<close>)
    have w: "pos ?w = length data" "no_marks ?w" "http_errno (par ?w) = HPE_OK"
      using y assms(2,5) by (simp_all add: no_marks_def counted_def exec_defs)
    have "exec_loop (Suc (Suc (length ds))) S data x = exec_loop (length ds) S data ?w"
      using exec_loop_next [OF y(1) d(2)] exec_loop_next [OF e p(1)] by simp
    also have "\<dots> = exec_finish S data ?w" using w(1) by (cases "length ds") simp_all
    also have "\<dots> = ret (length data) ?w" by (rule exec_finish_plain [OF w(2,3)])
    finally show ?thesis using Some y unfolding m by (simp add: exec_defs counted_def)
  qed
qed

lemma add_digits_start:
  assumes "list_all isdigit (d # ds)"
  shows "add_digits (digit_val d) ds =
    (if digits_nat (d # ds) < 2 ^ 64 - 6 then Some (digits_nat (d # ds)) else None)"
proof (cases "ds = []")
  case True
  then show ?thesis using digit_val_less [of d] assms by (simp add: digits_nat_Cons digits_nat_def)
next
  case False
  then show ?thesis using add_digits_iff [of ds "digit_val d"] assms by (simp add: digits_nat_Cons)
qed

text \<open>C19: A Content-Length is read exactly or refused.  From the state in front of the value, a value of
  digits and its line end give a parser whose 64-bit \<open>content_length\<close> is the number written, as long as
  that number is below \<open>2 ^ 64 - 6\<close>; every larger number is an invalid Content-Length.  So the
  accumulation never wraps around, whatever the number of digits.\<close>

theorem content_length_exact:
  assumes "pstate p = s_header_value_discard_ws" "header_state p = h_content_length" "http_errno p = HPE_OK"
    "\<not> has_flag (flags p) F_CONTENTLENGTH" "list_all isdigit ds" "ds \<noteq> []"
    "unat (nread p) + length ds + 2 \<le> HTTP_MAX_HEADER_SIZE"
  shows "\<exists>x v. http_parser_execute http_parser_settings_init p (ds @ CRLF) u = Ret x v
    \<and> (if digits_nat ds < 2 ^ 64 - 6
       then http_errno (par x) = HPE_OK \<and> v = length ds + 2 \<and> unat (content_length (par x)) = digits_nat ds
         \<and> has_flag (flags (par x)) F_CONTENTLENGTH \<and> pstate (par x) = s_header_value_lws
       else http_errno (par x) = HPE_INVALID_CONTENT_LENGTH)"
proof -
  let ?S = "http_parser_settings_init :: 'a settings" and ?x = "exec_start p u" and ?data = "ds @ CRLF"
  obtain d es where ds: "ds = d # es" using assms(6) by (cases ds) auto
  have x: "st ?x = s_header_value_discard_ws" "par ?x = p" "no_marks ?x" "pos ?x = 0" "?data ! 0 = d"
    using assms(1) by (simp_all add: exec_start_def no_marks_def url_state_def ds)
  have dg: "isdigit d" "list_all isdigit es" using assms(5) ds by simp_all
  have "unat (nread p) < HTTP_MAX_HEADER_SIZE" using assms(7) by simp
  then obtain y where y: "exec_byte ?S ?data ?x = Next y" "pos y = 0" "in_length (unat (nread p) + 1) (digit_val d) y"
    using first_length_digit [of ?x ?data d ?S] x assms(2,3,4) dg(1) by auto
  let ?y = "y\<lparr> pos := pos y + 1 \<rparr>"
  have "in_length (unat (nread p) + 1) (digit_val d) ?y" using y(3) by (simp add: in_length_def)
  then obtain z w where z: "exec_loop (length es + 2) ?S ?data ?y = Ret z w"
      "case add_digits (digit_val d) es of
         None \<Rightarrow> http_errno (par z) = HPE_INVALID_CONTENT_LENGTH
       | Some v' \<Rightarrow> http_errno (par z) = HPE_OK \<and> w = length ?data \<and> content_length (par z) = of_nat v'
           \<and> has_flag (flags (par z)) F_CONTENTLENGTH \<and> pstate (par z) = s_header_value_lws"
    using length_run [of "unat (nread p) + 1" "digit_val d" ?y es ?data d ?S] y(2) dg(2) assms(7) ds
    by (auto simp: http_parser_settings_init_def)
  have "http_parser_execute ?S p ?data u = exec_loop (Suc (length es + 2)) ?S ?data ?x"
    using assms(3) ds by (simp add: http_parser_execute_def del: exec_loop.simps)
  also have "\<dots> = Ret z w" using exec_loop_next [OF y(1)] x(4) ds z(1) by (simp del: exec_loop.simps)
  finally have "http_parser_execute ?S p ?data u = Ret z w" .
  then show ?thesis using z(2) add_digits_start [of d es] assms(5) ds
    by (auto simp: unat_of_nat take_bit_nat_eq_self split: if_splits)
qed

text \<open>A parser in front of a Content-Length value.\<close>

definition length_parser :: http_parser where
  "length_parser =
     (http_parser_init zero_parser HTTP_RESPONSE)
       \<lparr> pstate := s_header_value_discard_ws, header_state := h_content_length \<rparr>"

theorem content_length_exact_witness:
  "\<exists>x v. http_parser_execute http_parser_settings_init length_parser (''18446744073709551610'' @ CRLF) () = Ret x v
    \<and> http_errno (par x) = HPE_INVALID_CONTENT_LENGTH"
proof -
  let ?ds = "''18446744073709551610''"
  have v: "\<not> digits_nat ?ds < 2 ^ 64 - 6" by (simp add: digits_nat_def digit_val_def code_def)
  show ?thesis
    using content_length_exact [of length_parser ?ds "()"] v
    by (simp add: length_parser_def http_parser_init_def has_flag_def isdigit_def code_def HTTP_MAX_HEADER_SIZE_def)
qed

end
