(* ===== verification/HttpUrl.thy ===== *)
theory HttpUrl
  imports HttpBase
begin

text \<open>
  The URL parser of \<open>http_parser.c\<close>: \<open>http_parser_parse_url\<close> walks the automaton \<open>parse_url_char\<close> and
  records where each part of the URL lies; \<open>http_parse_host\<close> then splits the host part into user
  information, host and port.  A buffer is the bytes from \<open>buf\<close> to the end of the object it lies in,
  so that a read behind \<open>buflen\<close> is a read the model shows.
\<close>

section \<open>The result structure\<close>

datatype http_parser_url_fields =
  UF_SCHEMA | UF_HOST | UF_PORT | UF_PATH | UF_QUERY | UF_FRAGMENT | UF_USERINFO

fun uf_num :: "http_parser_url_fields \<Rightarrow> nat" where
  "uf_num UF_SCHEMA = 0"
| "uf_num UF_HOST = 1"
| "uf_num UF_PORT = 2"
| "uf_num UF_PATH = 3"
| "uf_num UF_QUERY = 4"
| "uf_num UF_FRAGMENT = 5"
| "uf_num UF_USERINFO = 6"

record url_field =
  off :: u16
  len :: u16

record http_parser_url =
  field_set :: u16
  port :: u16
  field_data :: "http_parser_url_fields \<Rightarrow> url_field"

definition has_field :: "http_parser_url \<Rightarrow> http_parser_url_fields \<Rightarrow> bool" where
  "has_field u f \<longleftrightarrow> bit (field_set u) (uf_num f)"

definition http_parser_url_init :: http_parser_url where
  "http_parser_url_init =
     \<lparr> field_set = 0, port = 0, field_data = (\<lambda>f. \<lparr> off = 0, len = 0 \<rparr>) \<rparr>"

text \<open>Setting a field that starts at offset \<open>i\<close>, with \<open>n\<close> bytes so far, and \<open>len++\<close>.\<close>

definition open_field :: "http_parser_url_fields \<Rightarrow> nat \<Rightarrow> u16 \<Rightarrow> http_parser_url \<Rightarrow> http_parser_url" where
  "open_field f i n u =
     u\<lparr> field_data := (field_data u)(f := \<lparr> off = of_nat i, len = n \<rparr>),
        field_set := field_set u OR push_bit (uf_num f) 1 \<rparr>"

definition grow_field :: "http_parser_url_fields \<Rightarrow> http_parser_url \<Rightarrow> http_parser_url" where
  "grow_field f u = u\<lparr> field_data := (field_data u)(f := (field_data u f)\<lparr> len := len (field_data u f) + 1 \<rparr>) \<rparr>"

definition move_field :: "http_parser_url_fields \<Rightarrow> nat \<Rightarrow> http_parser_url \<Rightarrow> http_parser_url" where
  "move_field f i u = u\<lparr> field_data := (field_data u)(f := (field_data u f)\<lparr> off := of_nat i \<rparr>) \<rparr>"

section \<open>The host\<close>

definition host_v6_char :: "http_host_state \<Rightarrow> char \<Rightarrow> http_host_state" where
  "host_v6_char s ch =
     (if IS_HEX ch \<or> ch = CHR '':'' \<or> ch = CHR ''.'' then s_http_host_v6
      else if s = s_http_host_v6 \<and> ch = CHR ''%'' then s_http_host_v6_zone_start
      else s_http_host_dead)"

definition host_zone_char :: "char \<Rightarrow> http_host_state" where
  "host_zone_char ch =
     (if IS_ALPHANUM ch \<or> ch = CHR ''%'' \<or> ch = CHR ''.'' \<or> ch = CHR ''-'' \<or> ch = CHR ''_'' \<or> ch = CHR ''~''
      then s_http_host_v6_zone else s_http_host_dead)"

definition host_end_char :: "char \<Rightarrow> http_host_state" where
  "host_end_char ch = (if ch = CHR '':'' then s_http_host_port_start else s_http_host_dead)"

definition http_parse_host_char :: "http_host_state \<Rightarrow> char \<Rightarrow> http_host_state" where
  "http_parse_host_char s ch =
     (case s of
        s_http_userinfo \<Rightarrow>
          if ch = CHR ''@'' then s_http_host_start
          else if IS_USERINFO_CHAR ch then s_http_userinfo else s_http_host_dead
      | s_http_userinfo_start \<Rightarrow>
          if ch = CHR ''@'' then s_http_host_start
          else if IS_USERINFO_CHAR ch then s_http_userinfo else s_http_host_dead
      | s_http_host_start \<Rightarrow>
          if ch = CHR ''['' then s_http_host_v6_start
          else if IS_HOST_CHAR ch then s_http_host else s_http_host_dead
      | s_http_host \<Rightarrow> if IS_HOST_CHAR ch then s_http_host else host_end_char ch
      | s_http_host_v6_end \<Rightarrow> host_end_char ch
      | s_http_host_v6 \<Rightarrow> if ch = CHR '']'' then s_http_host_v6_end else host_v6_char s ch
      | s_http_host_v6_start \<Rightarrow> host_v6_char s ch
      | s_http_host_v6_zone \<Rightarrow> if ch = CHR '']'' then s_http_host_v6_end else host_zone_char ch
      | s_http_host_v6_zone_start \<Rightarrow> host_zone_char ch
      | s_http_host_port \<Rightarrow> if IS_NUM ch then s_http_host_port else s_http_host_dead
      | s_http_host_port_start \<Rightarrow> if IS_NUM ch then s_http_host_port else s_http_host_dead
      | _ \<Rightarrow> s_http_host_dead)"

text \<open>What the byte at offset \<open>i\<close> does to the structure, on the way from \<open>s\<close> to \<open>new_s\<close>.\<close>

definition host_update :: "http_host_state \<Rightarrow> http_host_state \<Rightarrow> nat \<Rightarrow> http_parser_url \<Rightarrow> http_parser_url" where
  "host_update s new_s i u =
     (case new_s of
        s_http_host \<Rightarrow>
          grow_field UF_HOST (if s \<noteq> s_http_host then move_field UF_HOST i u else u)
      | s_http_host_v6 \<Rightarrow>
          grow_field UF_HOST (if s \<noteq> s_http_host_v6 then move_field UF_HOST i u else u)
      | s_http_host_v6_zone_start \<Rightarrow> grow_field UF_HOST u
      | s_http_host_v6_zone \<Rightarrow> grow_field UF_HOST u
      | s_http_host_port \<Rightarrow>
          grow_field UF_PORT (if s \<noteq> s_http_host_port then open_field UF_PORT i 0 u else u)
      | s_http_userinfo \<Rightarrow>
          grow_field UF_USERINFO (if s \<noteq> s_http_userinfo then open_field UF_USERINFO i 0 u else u)
      | _ \<Rightarrow> u)"

text \<open>The loop over the bytes of the host part, the first of them at offset \<open>i\<close>.\<close>

fun host_loop :: "string \<Rightarrow> nat \<Rightarrow> http_host_state \<Rightarrow> http_parser_url \<Rightarrow> http_host_state \<times> http_parser_url" where
  "host_loop [] i s u = (s, u)"
| "host_loop (c # cs) i s u =
     (let new_s = http_parse_host_char s c in
      if new_s = s_http_host_dead then (s_http_host_dead, u)
      else host_loop cs (i + 1) new_s (host_update s new_s i u))"

definition host_end_ok :: "http_host_state \<Rightarrow> bool" where
  "host_end_ok s \<longleftrightarrow> s \<in> {s_http_host, s_http_host_v6_end, s_http_host_port}"

text \<open>\<open>None\<close> is the failed assertion.\<close>

definition http_parse_host :: "string \<Rightarrow> http_parser_url \<Rightarrow> bool \<Rightarrow> (int \<times> http_parser_url) option" where
  "http_parse_host buf u found_at =
     (let o1 = unat (off (field_data u UF_HOST)); n = unat (len (field_data u UF_HOST)) in
      if \<not> has_field u UF_HOST then None
      else
        (case host_loop (take n (drop o1 buf)) o1
                (if found_at then s_http_userinfo_start else s_http_host_start)
                (u\<lparr> field_data := (field_data u)(UF_HOST := (field_data u UF_HOST)\<lparr> len := 0 \<rparr>) \<rparr>) of
           (s, u1) \<Rightarrow> Some (if host_end_ok s then 0 else 1, u1)))"

section \<open>The URL\<close>

text \<open>
  \<open>strtoul(s, NULL, 10)\<close> on a 64-bit \<open>unsigned long\<close>: a value out of range is \<open>ULONG_MAX\<close>, a minus sign
  negates in the unsigned type.
\<close>

definition strtoul :: "string \<Rightarrow> u64" where
  "strtoul s =
     (let s' = dropWhile isspace s;
          ds = (if deref s' = CHR ''-'' \<or> deref s' = CHR ''+'' then tl s' else s');
          v = digits_nat (takeWhile isdigit ds)
      in if 2 ^ 64 \<le> v then - 1 else if deref s' = CHR ''-'' then - of_nat v else of_nat v)"

text \<open>The \<open>switch\<close> on the state behind a byte: an error, a delimiter, a byte of a field, or the failed assertion.\<close>

datatype url_byte = UDead | UDelimiter | UField http_parser_url_fields | UUnexpected

definition url_byte_of :: "state \<Rightarrow> url_byte" where
  "url_byte_of s =
     (case s of
        s_dead \<Rightarrow> UDead
      | s_req_schema_slash \<Rightarrow> UDelimiter
      | s_req_schema_slash_slash \<Rightarrow> UDelimiter
      | s_req_server_start \<Rightarrow> UDelimiter
      | s_req_query_string_start \<Rightarrow> UDelimiter
      | s_req_fragment_start \<Rightarrow> UDelimiter
      | s_req_schema \<Rightarrow> UField UF_SCHEMA
      | s_req_server_with_at \<Rightarrow> UField UF_HOST
      | s_req_server \<Rightarrow> UField UF_HOST
      | s_req_path \<Rightarrow> UField UF_PATH
      | s_req_query_string \<Rightarrow> UField UF_QUERY
      | s_req_fragment \<Rightarrow> UField UF_FRAGMENT
      | _ \<Rightarrow> UUnexpected)"

datatype url_end = UOk http_parser_url bool | UBad http_parser_url | UAssert

text \<open>The loop over the bytes, the first of them at offset \<open>i\<close>; \<open>old_uf\<close> is \<open>None\<close> for \<open>UF_MAX\<close>.\<close>

fun url_loop ::
    "string \<Rightarrow> nat \<Rightarrow> state \<Rightarrow> http_parser_url_fields option \<Rightarrow> bool \<Rightarrow> http_parser_url \<Rightarrow> url_end" where
  "url_loop [] i s old_uf found_at u = UOk u found_at"
| "url_loop (c # cs) i s old_uf found_at u =
     (let s1 = parse_url_char s c; at = (found_at \<or> s1 = s_req_server_with_at) in
      case url_byte_of s1 of
        UDead \<Rightarrow> UBad u
      | UUnexpected \<Rightarrow> UAssert
      | UDelimiter \<Rightarrow> url_loop cs (i + 1) s1 old_uf found_at u
      | UField uf \<Rightarrow>
          if old_uf = Some uf then url_loop cs (i + 1) s1 old_uf at (grow_field uf u)
          else url_loop cs (i + 1) s1 (Some uf) at (open_field uf i 1 u))"

text \<open>The checks behind the loop.\<close>

definition url_finish :: "string \<Rightarrow> bool \<Rightarrow> http_parser_url \<Rightarrow> int \<times> http_parser_url" where
  "url_finish buf is_connect u =
     (if is_connect \<and> field_set u \<noteq> (push_bit (uf_num UF_HOST) 1 OR push_bit (uf_num UF_PORT) 1) then (1, u)
      else if has_field u UF_PORT then
        let v = strtoul (cstr (drop (unat (off (field_data u UF_PORT))) buf)) in
        if 0xffff < v then (1, u) else (0, u\<lparr> port := ucast v \<rparr>)
      else (0, u))"

definition http_parser_parse_url ::
    "string \<Rightarrow> nat \<Rightarrow> bool \<Rightarrow> http_parser_url \<Rightarrow> (int \<times> http_parser_url) option" where
  "http_parser_parse_url buf buflen is_connect u =
     (case url_loop (take buflen buf) 0 (if is_connect then s_req_server_start else s_req_spaces_before_url)
             None False (u\<lparr> port := 0, field_set := 0 \<rparr>) of
        UAssert \<Rightarrow> None
      | UBad u1 \<Rightarrow> Some (1, u1)
      | UOk u1 found_at \<Rightarrow>
          if has_field u1 UF_SCHEMA \<and> \<not> has_field u1 UF_HOST then Some (1, u1)
          else if has_field u1 UF_HOST then
            (case http_parse_host buf u1 found_at of
               None \<Rightarrow> None
             | Some (r, u2) \<Rightarrow> if r \<noteq> 0 then Some (1, u2) else Some (url_finish buf is_connect u2))
          else Some (url_finish buf is_connect u1))"


section \<open>Fields as parts of the buffer\<close>

definition part :: "string \<Rightarrow> http_parser_url \<Rightarrow> http_parser_url_fields \<Rightarrow> string" where
  "part buf u f = take (unat (len (field_data u f))) (drop (unat (off (field_data u f))) buf)"

lemma uf_num_inject [simp]: "uf_num f = uf_num g \<longleftrightarrow> f = g"
  by (cases f; cases g) simp_all

lemma uf_num_less [simp]: "uf_num f < 16"
  by (cases f) simp_all

lemma has_open_field [simp]: "has_field (open_field g i n u) f \<longleftrightarrow> f = g \<or> has_field u f"
  by (auto simp: has_field_def open_field_def bit_or_iff bit_exp_iff possible_bit_word)

lemma has_field_simps [simp]:
  "has_field (grow_field g u) f = has_field u f"
  "has_field (move_field g i u) f = has_field u f"
  "has_field (u\<lparr> field_data := d \<rparr>) f = has_field u f"
  "has_field (u\<lparr> port := v \<rparr>) f = has_field u f"
  "\<not> has_field (u\<lparr> port := v, field_set := 0 \<rparr>) f"
  by (simp_all add: has_field_def grow_field_def move_field_def)

lemma field_data_open [simp]:
  "field_data (open_field g i n u) f = (if f = g then \<lparr> off = of_nat i, len = n \<rparr> else field_data u f)"
  by (simp add: open_field_def)

lemma field_data_grow:
  "field_data (grow_field g u) f = (if f = g then (field_data u g)\<lparr> len := len (field_data u g) + 1 \<rparr> else field_data u f)"
  by (simp add: grow_field_def)

lemma field_data_move:
  "field_data (move_field g i u) f = (if f = g then (field_data u g)\<lparr> off := of_nat i \<rparr> else field_data u f)"
  by (simp add: move_field_def)

lemma grow_open [simp]: "grow_field f (open_field f i n u) = open_field f i (n + 1) u"
  by (simp add: grow_field_def open_field_def)

lemma unat_of_nat16: "n < 2 ^ 16 \<Longrightarrow> unat (of_nat n :: u16) = n"
  by (simp add: unat_of_nat take_bit_nat_eq_self)

section \<open>Runs of bytes of one field\<close>

lemma url_run:
  assumes "url_byte_of s = UField uf" "s \<noteq> s_req_server_with_at"
  shows "\<forall>c \<in> set cs. parse_url_char s c = s \<Longrightarrow>
    url_loop (cs @ rest) i s (Some uf) at (open_field uf j n u)
      = url_loop rest (i + length cs) s (Some uf) at (open_field uf j (n + of_nat (length cs)) u)"
proof (induction cs arbitrary: i n)
  case Nil
  then show ?case by simp
next
  case (Cons c cs)
  then show ?case using assms by (simp add: add.assoc add.commute [of "1 :: u16"])
qed

text \<open>A run that opens a field: its first byte leads from \<open>s0\<close> to \<open>s\<close>, the others stay there.\<close>

lemma url_field_run:
  assumes "url_byte_of s = UField uf" "s \<noteq> s_req_server_with_at" "w \<noteq> []" "parse_url_char s0 (hd w) = s"
    "\<forall>c \<in> set w. parse_url_char s c = s" "old \<noteq> Some uf"
  shows "url_loop (w @ rest) i s0 old at u
    = url_loop rest (i + length w) s (Some uf) at (open_field uf i (of_nat (length w)) u)"
proof -
  obtain c cs where w: "w = c # cs" using assms(3) by (cases w) auto
  have "url_loop (w @ rest) i s0 old at u = url_loop (cs @ rest) (i + 1) s (Some uf) at (open_field uf i 1 u)"
    using assms w by simp
  also have "\<dots> = url_loop rest (i + 1 + length cs) s (Some uf) at (open_field uf i (1 + of_nat (length cs)) u)"
    by (rule url_run) (use assms(1,2,5) w in simp_all)
  finally show ?thesis using w by simp
qed

lemma url_delimiter:
  assumes "url_byte_of (parse_url_char s c) = UDelimiter"
  shows "url_loop (c # rest) i s old at u = url_loop rest (i + 1) (parse_url_char s c) old at u"
  using assms by simp

lemma host_run:
  assumes "s = s_http_host \<and> f = UF_HOST \<or> s = s_http_host_port \<and> f = UF_PORT"
  shows "\<forall>c \<in> set cs. http_parse_host_char s c = s \<Longrightarrow>
    host_loop (cs @ rest) i s u = host_loop rest (i + length cs) s ((grow_field f ^^ length cs) u)"
proof (induction cs arbitrary: i u)
  case Nil
  then show ?case by simp
next
  case (Cons c cs)
  then have "host_loop ((c # cs) @ rest) i s u = host_loop (cs @ rest) (i + 1) s (grow_field f u)"
    using assms by (auto simp: host_update_def)
  then show ?case using Cons by (simp add: funpow_swap1)
qed

lemma grow_n:
  "has_field ((grow_field f ^^ n) u) g = has_field u g"
  "field_data ((grow_field f ^^ n) u) g =
     (if g = f then (field_data u f)\<lparr> len := len (field_data u f) + of_nat n \<rparr> else field_data u g)"
  "field_set ((grow_field f ^^ n) u) = field_set u"
  by (induction n arbitrary: g) (auto simp: field_data_grow grow_field_def)


section \<open>Characters that stay in a field\<close>

lemmas url_classes = IS_HOST_CHAR_def IS_USERINFO_CHAR_def IS_ALPHANUM_def IS_ALPHA_def IS_NUM_def IS_MARK_def
  LOWER_def isdigit_def code_def

lemma host_char_not:
  "IS_HOST_CHAR c \<Longrightarrow> c \<notin> {SPC, CR, LF, TAB, FF, CHR ''/'', CHR ''?'', CHR ''@'', CHR ''['', CHR '':''}"
  by (auto simp: url_classes)

lemma alpha_not: "IS_ALPHA c \<Longrightarrow> c \<notin> {SPC, CR, LF, TAB, FF, CHR ''/'', CHR ''*'', CHR '':''}"
  by (auto simp: url_classes)

lemma url_char_not: "IS_URL_CHAR c \<Longrightarrow> c \<notin> {SPC, CR, LF, TAB, FF, CHR ''?'', CHR ''#''}"
proof -
  have "\<not> IS_URL_CHAR d" if "d \<in> {SPC, CR, LF, TAB, FF, CHR ''?'', CHR ''#''}" for d
    using that
    by (elim insertE emptyE) (simp_all add: IS_URL_CHAR_def BIT_AT_def normal_url_char_def code_def)
  then show "IS_URL_CHAR c \<Longrightarrow> ?thesis" by blast
qed

definition host_text_char :: "char \<Rightarrow> bool" where
  "host_text_char c \<longleftrightarrow> IS_HOST_CHAR c \<or> isdigit c \<or> c = CHR '':''"

lemma digit_host_char: "isdigit c \<Longrightarrow> IS_HOST_CHAR c"
  by (simp add: IS_HOST_CHAR_def IS_ALPHANUM_def IS_NUM_def)

lemma host_text_stays:
  assumes "host_text_char c"
  shows "parse_url_char s_req_server c = s_req_server" "parse_url_char s_req_server_start c = s_req_server"
proof -
  have u: "IS_USERINFO_CHAR c" using assms
    by (auto simp: host_text_char_def IS_HOST_CHAR_def IS_USERINFO_CHAR_def IS_MARK_def IS_ALPHANUM_def IS_NUM_def)
  have n: "c \<notin> {SPC, CR, LF, TAB, FF, CHR ''/'', CHR ''?'', CHR ''@''}"
    using assms host_char_not [of c] digit_host_char [of c] unfolding host_text_char_def by auto
  show "parse_url_char s_req_server c = s_req_server" "parse_url_char s_req_server_start c = s_req_server"
    using u n by (simp_all add: parse_url_char_def url_server_def)
qed

lemma schema_stays:
  assumes "IS_ALPHA c"
  shows "parse_url_char s_req_schema c = s_req_schema" "parse_url_char s_req_spaces_before_url c = s_req_schema"
  using alpha_not [OF assms] assms by (simp_all add: parse_url_char_def)

lemma path_stays: "IS_URL_CHAR c \<Longrightarrow> parse_url_char s_req_path c = s_req_path"
  using url_char_not [of c] by (simp add: parse_url_char_def)

lemma query_stays:
  assumes "IS_URL_CHAR c \<or> c = CHR ''?''"
  shows "parse_url_char s_req_query_string c = s_req_query_string"
    "parse_url_char s_req_query_string_start c = s_req_query_string"
  using url_char_not [of c] assms by (auto simp: parse_url_char_def url_query_def)

lemma fragment_stays:
  assumes "IS_URL_CHAR c \<or> c = CHR ''?'' \<or> c = CHR ''#''"
  shows "parse_url_char s_req_fragment c = s_req_fragment"
    "c \<noteq> CHR ''#'' \<Longrightarrow> parse_url_char s_req_fragment_start c = s_req_fragment"
  using url_char_not [of c] assms by (auto simp: parse_url_char_def)

section \<open>The parts of a URL, one after the other\<close>

fun text_opt :: "char \<Rightarrow> string option \<Rightarrow> string" where
  "text_opt c None = []"
| "text_opt c (Some w) = c # w"

fun opt_field :: "http_parser_url_fields \<Rightarrow> nat \<Rightarrow> string option \<Rightarrow> http_parser_url \<Rightarrow> http_parser_url" where
  "opt_field f i None u = u"
| "opt_field f i (Some w) u = open_field f i (of_nat (length w)) u"

lemma url_schema:
  assumes "sch \<noteq> []" "\<forall>c \<in> set sch. IS_ALPHA c"
  shows "url_loop (sch @ ''://'' @ rest) 0 s_req_spaces_before_url None at u
    = url_loop rest (length sch + 3) s_req_server_start (Some UF_SCHEMA) at (open_field UF_SCHEMA 0 (of_nat (length sch)) u)"
proof -
  have h: "IS_ALPHA (hd sch)" using assms by simp
  have d: "url_loop (''://'' @ rest) i s_req_schema old at v = url_loop rest (i + 3) s_req_server_start old at v" for i old v
  proof -
    have "\<not> IS_ALPHA CHR '':''" by (simp add: IS_ALPHA_def LOWER_def code_def)
    then have "parse_url_char s_req_schema CHR '':'' = s_req_schema_slash"
      "parse_url_char s_req_schema_slash CHR ''/'' = s_req_schema_slash_slash"
      "parse_url_char s_req_schema_slash_slash CHR ''/'' = s_req_server_start"
      by (simp_all add: parse_url_char_def)
    then show ?thesis by (simp add: url_byte_of_def eval_nat_numeral)
  qed
  have "url_loop (sch @ ''://'' @ rest) 0 s_req_spaces_before_url None at u
      = url_loop (''://'' @ rest) (0 + length sch) s_req_schema (Some UF_SCHEMA) at (open_field UF_SCHEMA 0 (of_nat (length sch)) u)"
    by (rule url_field_run) (use assms h in \<open>auto simp: url_byte_of_def schema_stays\<close>)
  then show ?thesis using d by simp
qed

lemma url_host:
  assumes "w \<noteq> []" "\<forall>c \<in> set w. host_text_char c"
  shows "url_loop (w @ rest) i s_req_server_start (Some UF_SCHEMA) at u
    = url_loop rest (i + length w) s_req_server (Some UF_HOST) at (open_field UF_HOST i (of_nat (length w)) u)"
  by (rule url_field_run) (use assms in \<open>auto simp: url_byte_of_def host_text_stays\<close>)

lemma url_path:
  assumes "\<forall>c \<in> set w. IS_URL_CHAR c"
  shows "url_loop ((CHR ''/'' # w) @ rest) i s_req_server (Some UF_HOST) at u
    = url_loop rest (i + length (CHR ''/'' # w)) s_req_path (Some UF_PATH) at
        (open_field UF_PATH i (of_nat (length (CHR ''/'' # w))) u)"
proof -
  have "IS_URL_CHAR (CHR ''/'')" by (simp add: IS_URL_CHAR_def BIT_AT_def normal_url_char_def code_def)
  then have "\<forall>c \<in> set (CHR ''/'' # w). parse_url_char s_req_path c = s_req_path" using assms path_stays by simp
  moreover have "parse_url_char s_req_server (hd (CHR ''/'' # w)) = s_req_path"
    by (simp add: parse_url_char_def url_server_def)
  ultimately show ?thesis by (intro url_field_run) (simp_all add: url_byte_of_def)
qed

lemma url_query:
  assumes "pred_option (\<lambda>w. w \<noteq> [] \<and> (\<forall>c \<in> set w. IS_URL_CHAR c \<or> c = CHR ''?'')) q"
  shows "\<exists>s. url_loop (text_opt CHR ''?'' q @ rest) i s_req_path (Some UF_PATH) at u
      = url_loop rest (i + length (text_opt CHR ''?'' q)) s (Some (if q = None then UF_PATH else UF_QUERY)) at
          (opt_field UF_QUERY (i + 1) q u)
    \<and> s \<in> {s_req_path, s_req_query_string}"
proof (cases q)
  case None
  then show ?thesis by auto
next
  case (Some w)
  have "\<not> IS_URL_CHAR (CHR ''?'')" using url_char_not by blast
  then have p: "parse_url_char s_req_path CHR ''?'' = s_req_query_string_start" by (simp add: parse_url_char_def)
  have "url_loop (w @ rest) (i + 1) s_req_query_string_start (Some UF_PATH) at u
      = url_loop rest (i + 1 + length w) s_req_query_string (Some UF_QUERY) at (open_field UF_QUERY (i + 1) (of_nat (length w)) u)"
    by (rule url_field_run) (use assms Some in \<open>auto simp: url_byte_of_def query_stays\<close>)
  then show ?thesis using Some p by (auto simp: url_byte_of_def)
qed

lemma url_fragment:
  assumes "pred_option (\<lambda>w. w \<noteq> [] \<and> hd w \<noteq> CHR ''#'' \<and> (\<forall>c \<in> set w. IS_URL_CHAR c \<or> c = CHR ''?'' \<or> c = CHR ''#'')) f"
    "s \<in> {s_req_path, s_req_query_string}" "old \<noteq> Some UF_FRAGMENT"
  shows "url_loop (text_opt CHR ''#'' f) i s old at u = UOk (opt_field UF_FRAGMENT (i + 1) f u) at"
proof (cases f)
  case None
  then show ?thesis by simp
next
  case (Some w)
  have "\<not> IS_URL_CHAR (CHR ''#'')" using url_char_not by blast
  then have p: "parse_url_char s CHR ''#'' = s_req_fragment_start"
    using assms(2) by (auto simp: parse_url_char_def url_query_def)
  have h: "parse_url_char s_req_fragment_start (hd w) = s_req_fragment"
    by (rule fragment_stays(2)) (use assms(1) Some hd_in_set [of w] in auto)
  have "url_loop (w @ []) (i + 1) s_req_fragment_start old at u
      = url_loop [] (i + 1 + length w) s_req_fragment (Some UF_FRAGMENT) at (open_field UF_FRAGMENT (i + 1) (of_nat (length w)) u)"
    by (rule url_field_run) (use assms(1,3) Some h in \<open>simp_all add: url_byte_of_def fragment_stays\<close>)
  then show ?thesis using Some p by (simp add: url_byte_of_def)
qed


section \<open>Splitting the host\<close>

lemma host_stays:
  "IS_HOST_CHAR c \<Longrightarrow> http_parse_host_char s_http_host c = s_http_host"
  "IS_HOST_CHAR c \<Longrightarrow> http_parse_host_char s_http_host_start c = s_http_host"
  "isdigit c \<Longrightarrow> http_parse_host_char s_http_host_port c = s_http_host_port"
  "isdigit c \<Longrightarrow> http_parse_host_char s_http_host_port_start c = s_http_host_port"
  using host_char_not [of c] by (auto simp: http_parse_host_char_def IS_NUM_def)

text \<open>The structure after the host part: the host without its port, and the port.\<close>

definition split_host :: "nat \<Rightarrow> string \<Rightarrow> string option \<Rightarrow> http_parser_url \<Rightarrow> http_parser_url" where
  "split_host i h prt u =
     (let u1 = (grow_field UF_HOST ^^ length h)
                 (move_field UF_HOST i (u\<lparr> field_data := (field_data u)(UF_HOST := (field_data u UF_HOST)\<lparr> len := 0 \<rparr>) \<rparr>))
      in case prt of
           None \<Rightarrow> u1
         | Some w \<Rightarrow> (grow_field UF_PORT ^^ length w) (open_field UF_PORT (i + length h + 1) 0 u1))"

lemma split_host_fields:
  "has_field (split_host i h prt u) f \<longleftrightarrow> has_field u f \<or> (f = UF_PORT \<and> prt \<noteq> None)"
  "field_data (split_host i h prt u) f =
     (if f = UF_HOST then \<lparr> off = of_nat i, len = of_nat (length h) \<rparr>
      else if f = UF_PORT then
        (case prt of None \<Rightarrow> field_data u f | Some w \<Rightarrow> \<lparr> off = of_nat (i + length h + 1), len = of_nat (length w) \<rparr>)
      else field_data u f)"
  by (auto simp: split_host_def Let_def grow_n field_data_move split: option.split)

lemma host_first:
  assumes "h \<noteq> []" "\<forall>c \<in> set h. IS_HOST_CHAR c"
  shows "host_loop (h @ rest) i s_http_host_start u
    = host_loop rest (i + length h) s_http_host ((grow_field UF_HOST ^^ length h) (move_field UF_HOST i u))"
proof -
  obtain c cs where h: "h = c # cs" using assms(1) by (cases h) auto
  have "host_loop (h @ rest) i s_http_host_start u
      = host_loop (cs @ rest) (i + 1) s_http_host (grow_field UF_HOST (move_field UF_HOST i u))"
    using assms(2) h by (simp add: host_stays host_update_def)
  also have "\<dots> = host_loop rest (i + 1 + length cs) s_http_host
      ((grow_field UF_HOST ^^ length cs) (grow_field UF_HOST (move_field UF_HOST i u)))"
    by (rule host_run) (use assms(2) h in \<open>auto simp: host_stays\<close>)
  finally show ?thesis by (simp add: h funpow_swap1)
qed

lemma host_port:
  assumes "w \<noteq> []" "list_all isdigit w"
  shows "host_loop (CHR '':'' # w) i s_http_host u
    = (s_http_host_port, (grow_field UF_PORT ^^ length w) (open_field UF_PORT (i + 1) 0 u))"
proof -
  obtain c cs where w: "w = c # cs" using assms(1) by (cases w) auto
  have "\<not> IS_HOST_CHAR CHR '':''" using host_char_not [of "CHR '':''"] by auto
  then have "http_parse_host_char s_http_host CHR '':'' = s_http_host_port_start"
    by (simp add: http_parse_host_char_def host_end_char_def)
  moreover have "http_parse_host_char s_http_host_port_start c = s_http_host_port"
    using assms(2) w by (simp add: host_stays)
  ultimately have "host_loop (CHR '':'' # w) i s_http_host u
      = host_loop (cs @ []) (i + 2) s_http_host_port (grow_field UF_PORT (open_field UF_PORT (i + 1) 0 u))"
    unfolding w by (simp add: host_update_def eval_nat_numeral del: grow_open)
  also have "\<dots> = host_loop [] (i + 2 + length cs) s_http_host_port
      ((grow_field UF_PORT ^^ length cs) (grow_field UF_PORT (open_field UF_PORT (i + 1) 0 u)))"
    by (rule host_run) (use assms(2) w in \<open>auto simp: host_stays list_all_iff\<close>)
  finally show ?thesis by (simp add: w funpow_swap1 del: grow_open)
qed

lemma parse_host_splits:
  assumes "h \<noteq> []" "\<forall>c \<in> set h. IS_HOST_CHAR c" "pred_option (\<lambda>w. w \<noteq> [] \<and> list_all isdigit w) prt"
    "has_field u UF_HOST" "part buf u UF_HOST = h @ text_opt CHR '':'' prt"
  shows "http_parse_host buf u False = Some (0, split_host (unat (off (field_data u UF_HOST))) h prt u)"
proof -
  let ?i = "unat (off (field_data u UF_HOST))"
  let ?u = "u\<lparr> field_data := (field_data u)(UF_HOST := (field_data u UF_HOST)\<lparr> len := 0 \<rparr>) \<rparr>"
  have "host_loop (part buf u UF_HOST) ?i s_http_host_start ?u
      = (if prt = None then s_http_host else s_http_host_port, split_host ?i h prt u)"
    unfolding assms(5) host_first [OF assms(1,2)]
    using assms(3) by (cases prt) (simp_all add: split_host_def Let_def host_port del: host_loop.simps(2))
  then show ?thesis using assms(4) by (simp add: http_parse_host_def part_def Let_def host_end_ok_def)
qed

lemma strtoul_digits:
  assumes "w \<noteq> []" "list_all isdigit w" "rest \<noteq> [] \<longrightarrow> \<not> isdigit (hd rest)"
  shows "strtoul (cstr (w @ rest)) = (if 2 ^ 64 \<le> digits_nat w then - 1 else of_nat (digits_nat w))"
proof -
  obtain c cs where w: "w = c # cs" using assms(1) by (cases w) auto
  have c: "isdigit c" "\<not> isspace c" "c \<noteq> CHR ''-''" "c \<noteq> CHR ''+''"
    using assms(2) w isdigit_not_space [of c] by (auto simp: isdigit_def code_def)
  have n: "NUL \<notin> set w" using assms(2) by (auto simp: list_all_iff isdigit_def code_def)
  have cs: "cstr (w @ rest) = w @ cstr rest"
    using n by (induction w) (auto simp: cstr_def)
  have t: "takeWhile isdigit (w @ cstr rest) = w"
    using assms(2,3) by (cases rest) (auto simp: list_all_iff cstr_def takeWhile_append)
  have "dropWhile isspace (w @ cstr rest) = w @ cstr rest" using c w by simp
  moreover have "deref (w @ cstr rest) = c" by (simp add: w deref_def)
  ultimately show ?thesis using cs t c by (simp add: strtoul_def Let_def)
qed


section \<open>Round trip\<close>

definition url_text ::
    "string \<Rightarrow> string \<Rightarrow> string option \<Rightarrow> string \<Rightarrow> string option \<Rightarrow> string option \<Rightarrow> string" where
  "url_text sch h prt path q f =
     sch @ ''://'' @ (h @ text_opt CHR '':'' prt) @ (CHR ''/'' # path) @ text_opt CHR ''?'' q @ text_opt CHR ''#'' f"

definition url_parts_ok ::
    "string \<Rightarrow> string \<Rightarrow> string option \<Rightarrow> string \<Rightarrow> string option \<Rightarrow> string option \<Rightarrow> bool" where
  "url_parts_ok sch h prt path q f \<longleftrightarrow>
     sch \<noteq> [] \<and> (\<forall>c \<in> set sch. IS_ALPHA c) \<and>
     h \<noteq> [] \<and> (\<forall>c \<in> set h. IS_HOST_CHAR c) \<and>
     pred_option (\<lambda>w. w \<noteq> [] \<and> list_all isdigit w) prt \<and>
     (\<forall>c \<in> set path. IS_URL_CHAR c) \<and>
     pred_option (\<lambda>w. w \<noteq> [] \<and> (\<forall>c \<in> set w. IS_URL_CHAR c \<or> c = CHR ''?'')) q \<and>
     pred_option (\<lambda>w. w \<noteq> [] \<and> hd w \<noteq> CHR ''#''
       \<and> (\<forall>c \<in> set w. IS_URL_CHAR c \<or> c = CHR ''?'' \<or> c = CHR ''#'')) f"

text \<open>The structure the loop leaves for such a text, and the one behind the host.\<close>

definition looped ::
    "string \<Rightarrow> string \<Rightarrow> string option \<Rightarrow> string \<Rightarrow> string option \<Rightarrow> string option \<Rightarrow> http_parser_url \<Rightarrow> http_parser_url" where
  "looped sch h prt path q f u =
     (let i2 = length sch + 3;
          i3 = i2 + length (h @ text_opt CHR '':'' prt);
          i4 = i3 + length (CHR ''/'' # path);
          i5 = i4 + length (text_opt CHR ''?'' q)
      in opt_field UF_FRAGMENT (i5 + 1) f
          (opt_field UF_QUERY (i4 + 1) q
            (open_field UF_PATH i3 (of_nat (length (CHR ''/'' # path)))
              (open_field UF_HOST i2 (of_nat (length (h @ text_opt CHR '':'' prt)))
                (open_field UF_SCHEMA 0 (of_nat (length sch)) u)))))"

lemma url_loop_text:
  assumes "url_parts_ok sch h prt path q f"
  shows "url_loop (url_text sch h prt path q f) 0 s_req_spaces_before_url None False u
    = UOk (looped sch h prt path q f u) False"
proof -
  note p = assms [unfolded url_parts_ok_def]
  let ?hp = "h @ text_opt CHR '':'' prt" and ?p = "CHR ''/'' # path"
  have hp: "?hp \<noteq> []" "\<forall>c \<in> set ?hp. host_text_char c"
    using p by (cases prt; auto simp: host_text_char_def list_all_iff)+
  have qf: "url_loop (text_opt CHR ''?'' q @ text_opt CHR ''#'' f) i s_req_path (Some UF_PATH) at v
      = UOk (opt_field UF_FRAGMENT (i + length (text_opt CHR ''?'' q) + 1) f (opt_field UF_QUERY (i + 1) q v)) at" for i at v
  proof -
    obtain s where s: "url_loop (text_opt CHR ''?'' q @ text_opt CHR ''#'' f) i s_req_path (Some UF_PATH) at v
      = url_loop (text_opt CHR ''#'' f) (i + length (text_opt CHR ''?'' q)) s (Some (if q = None then UF_PATH else UF_QUERY)) at
          (opt_field UF_QUERY (i + 1) q v)" "s \<in> {s_req_path, s_req_query_string}"
      using url_query p by blast
    show ?thesis unfolding s(1) by (rule url_fragment) (use p s(2) in auto)
  qed
  have "url_loop (url_text sch h prt path q f) 0 s_req_spaces_before_url None False u
      = url_loop (?hp @ ?p @ text_opt CHR ''?'' q @ text_opt CHR ''#'' f) (length sch + 3) s_req_server_start
          (Some UF_SCHEMA) False (open_field UF_SCHEMA 0 (of_nat (length sch)) u)"
    unfolding url_text_def by (rule url_schema) (use p in auto)
  also have "\<dots> = url_loop (?p @ text_opt CHR ''?'' q @ text_opt CHR ''#'' f) (length sch + 3 + length ?hp) s_req_server
          (Some UF_HOST) False (open_field UF_HOST (length sch + 3) (of_nat (length ?hp))
            (open_field UF_SCHEMA 0 (of_nat (length sch)) u))"
    by (rule url_host) (use hp in auto)
  also have "\<dots> = url_loop (text_opt CHR ''?'' q @ text_opt CHR ''#'' f)
          (length sch + 3 + length ?hp + length ?p) s_req_path (Some UF_PATH) False
          (open_field UF_PATH (length sch + 3 + length ?hp) (of_nat (length ?p))
            (open_field UF_HOST (length sch + 3) (of_nat (length ?hp)) (open_field UF_SCHEMA 0 (of_nat (length sch)) u)))"
    by (rule url_path) (use p in auto)
  finally show ?thesis unfolding qf looped_def Let_def .
qed

lemma part_at:
  assumes "buf = a @ w @ b" "length buf < 2 ^ 16" "off (field_data u f) = of_nat (length a)"
    "len (field_data u f) = of_nat (length w)"
  shows "part buf u f = w"
  using assms by (simp add: part_def unat_of_nat16)

lemma opt_field_simps:
  "has_field (opt_field g i w u) f \<longleftrightarrow> has_field u f \<or> (f = g \<and> w \<noteq> None)"
  "f \<noteq> g \<Longrightarrow> field_data (opt_field g i w u) f = field_data u f"
  by (cases w; auto)+

lemma field_set_of_has: "field_set u = 0 \<Longrightarrow> \<not> has_field u f"
  by (simp add: has_field_def)


text \<open>What a parsed structure says of the parts it was parsed from.\<close>

definition parsed_as ::
    "string \<Rightarrow> http_parser_url \<Rightarrow> string \<Rightarrow> string \<Rightarrow> string option \<Rightarrow> string \<Rightarrow> string option \<Rightarrow> string option \<Rightarrow> bool" where
  "parsed_as buf v sch h prt path q f \<longleftrightarrow>
     (\<forall>g. has_field v g \<longleftrightarrow> g \<in> {UF_SCHEMA, UF_HOST, UF_PATH} \<or> (g = UF_PORT \<and> prt \<noteq> None)
         \<or> (g = UF_QUERY \<and> q \<noteq> None) \<or> (g = UF_FRAGMENT \<and> f \<noteq> None)) \<and>
     part buf v UF_SCHEMA = sch \<and> part buf v UF_HOST = h \<and> part buf v UF_PATH = CHR ''/'' # path \<and>
     pred_option (\<lambda>w. part buf v UF_QUERY = w) q \<and> pred_option (\<lambda>w. part buf v UF_FRAGMENT = w) f \<and>
     (case prt of None \<Rightarrow> port v = 0 | Some w \<Rightarrow> part buf v UF_PORT = w \<and> unat (port v) = digits_nat w)"


definition parsed_url ::
    "string \<Rightarrow> string \<Rightarrow> string option \<Rightarrow> string \<Rightarrow> string option \<Rightarrow> string option \<Rightarrow> http_parser_url \<Rightarrow> http_parser_url" where
  "parsed_url sch h prt path q f u =
     split_host (length sch + 3) h prt (looped sch h prt path q f (u\<lparr> port := 0, field_set := 0 \<rparr>))"

lemma parsed_url_has:
  "has_field (parsed_url sch h prt path q f u) g \<longleftrightarrow>
     g \<in> {UF_SCHEMA, UF_HOST, UF_PATH} \<or> (g = UF_PORT \<and> prt \<noteq> None)
     \<or> (g = UF_QUERY \<and> q \<noteq> None) \<or> (g = UF_FRAGMENT \<and> f \<noteq> None)"
  by (auto simp: parsed_url_def split_host_fields looped_def Let_def opt_field_simps)

lemma parsed_url_data:
  fixes sch h path :: string and prt q f :: "string option"
  defines "i3 \<equiv> length sch + 3 + length (h @ text_opt CHR '':'' prt)"
  defines "i4 \<equiv> i3 + length (CHR ''/'' # path)"
  defines "i5 \<equiv> i4 + length (text_opt CHR ''?'' q)"
  shows "field_data (parsed_url sch h prt path q f u) UF_SCHEMA = \<lparr> off = 0, len = of_nat (length sch) \<rparr>"
    "field_data (parsed_url sch h prt path q f u) UF_HOST = \<lparr> off = of_nat (length sch + 3), len = of_nat (length h) \<rparr>"
    "field_data (parsed_url sch h (Some w) path q f u) UF_PORT
       = \<lparr> off = of_nat (length sch + 3 + length h + 1), len = of_nat (length w) \<rparr>"
    "field_data (parsed_url sch h prt path q f u) UF_PATH = \<lparr> off = of_nat i3, len = of_nat (length (CHR ''/'' # path)) \<rparr>"
    "q = Some w \<Longrightarrow> field_data (parsed_url sch h prt path q f u) UF_QUERY = \<lparr> off = of_nat (i4 + 1), len = of_nat (length w) \<rparr>"
    "f = Some w \<Longrightarrow> field_data (parsed_url sch h prt path q f u) UF_FRAGMENT = \<lparr> off = of_nat (i5 + 1), len = of_nat (length w) \<rparr>"
  unfolding i3_def i4_def i5_def
  by (simp_all add: parsed_url_def split_host_fields looped_def Let_def opt_field_simps)

lemma parsed_url_parts:
  fixes u :: http_parser_url
  assumes "buf = url_text sch h prt path q f" "length buf < 2 ^ 16"
  defines "v \<equiv> parsed_url sch h prt path q f u"
  shows "part buf v UF_SCHEMA = sch" "part buf v UF_HOST = h" "part buf v UF_PATH = CHR ''/'' # path"
    "pred_option (\<lambda>w. part buf v UF_QUERY = w) q" "pred_option (\<lambda>w. part buf v UF_FRAGMENT = w) f"
    "pred_option (\<lambda>w. part buf v UF_PORT = w) prt"
proof -
  note d = parsed_url_data(1,2,4,5,6) [where sch = sch and h = h and prt = prt and path = path and q = q and f = f and u = u,
      folded v_def]
  note at = part_at [OF _ assms(2), where u = v]
  show "part buf v UF_SCHEMA = sch"
    by (rule at [where a = "[]"]) (simp_all add: assms(1) url_text_def d)
  show "part buf v UF_HOST = h"
    by (rule at [where a = "sch @ ''://''"]) (simp_all add: assms(1) url_text_def d)
  show "part buf v UF_PATH = CHR ''/'' # path"
    by (rule at [where a = "sch @ ''://'' @ h @ text_opt CHR '':'' prt"]) (simp_all add: assms(1) url_text_def d)
  show "pred_option (\<lambda>w. part buf v UF_QUERY = w) q"
  proof (cases q)
    case (Some w)
    then have "part buf v UF_QUERY = w"
      by (intro at [where a = "sch @ ''://'' @ (h @ text_opt CHR '':'' prt) @ (CHR ''/'' # path) @ ''?''"])
        (simp_all add: assms(1) url_text_def d)
    then show ?thesis by (simp add: Some)
  qed simp
  show "pred_option (\<lambda>w. part buf v UF_FRAGMENT = w) f"
  proof (cases f)
    case (Some w)
    then have "part buf v UF_FRAGMENT = w"
      by (intro at [where a = "sch @ ''://'' @ (h @ text_opt CHR '':'' prt) @ (CHR ''/'' # path) @ text_opt CHR ''?'' q @ ''#''"])
        (simp_all add: assms(1) url_text_def d)
    then show ?thesis by (simp add: Some)
  qed simp
  show "pred_option (\<lambda>w. part buf v UF_PORT = w) prt"
  proof (cases prt)
    case (Some w)
    then have "field_data v UF_PORT = \<lparr> off = of_nat (length sch + 3 + length h + 1), len = of_nat (length w) \<rparr>"
      by (simp add: v_def parsed_url_data(3))
    then have "part buf v UF_PORT = w"
      by (intro at [where a = "sch @ ''://'' @ h @ '':''"]) (simp_all add: assms(1) url_text_def Some)
    then show ?thesis by (simp add: Some)
  qed simp
qed

lemma parse_host_text:
  fixes u :: http_parser_url
  assumes "url_parts_ok sch h prt path q f" "buf = url_text sch h prt path q f" "length buf < 2 ^ 16"
  defines "v \<equiv> looped sch h prt path q f (u\<lparr> port := 0, field_set := 0 \<rparr>)"
  shows "http_parse_host buf v False = Some (0, parsed_url sch h prt path q f u)"
proof -
  have d: "field_data v UF_HOST = \<lparr> off = of_nat (length sch + 3), len = of_nat (length (h @ text_opt CHR '':'' prt)) \<rparr>"
    "has_field v UF_HOST"
    by (simp_all add: v_def looped_def Let_def opt_field_simps)
  have "part buf v UF_HOST = h @ text_opt CHR '':'' prt"
    by (rule part_at [OF _ assms(3), where a = "sch @ ''://''"]) (simp_all add: assms(2) url_text_def d)
  moreover have "unat (off (field_data v UF_HOST)) = length sch + 3"
    unfolding d(1) using unat_of_nat16 [of "length sch + 3"] assms(2,3) by (simp add: url_text_def)
  ultimately show ?thesis using parse_host_splits [of h prt v buf] assms(1) d(2)
    unfolding url_parts_ok_def parsed_url_def v_def by simp
qed


lemma port_tail:
  assumes "url_parts_ok sch h (Some w) path q f" "buf = url_text sch h (Some w) path q f" "length buf < 2 ^ 16"
  shows "strtoul (cstr (drop (unat (off (field_data (parsed_url sch h (Some w) path q f u) UF_PORT))) buf))
    = (if 2 ^ 64 \<le> digits_nat w then - 1 else of_nat (digits_nat w))"
proof -
  have o: "unat (off (field_data (parsed_url sch h (Some w) path q f u) UF_PORT)) = length (sch @ ''://'' @ h @ '':'')"
    unfolding parsed_url_data(3) using unat_of_nat16 [of "length sch + 3 + length h + 1"] assms(2,3)
    by (simp add: url_text_def)
  have "buf = (sch @ ''://'' @ h @ '':'') @ w @ (CHR ''/'' # path) @ text_opt CHR ''?'' q @ text_opt CHR ''#'' f"
    using assms(2) by (simp add: url_text_def)
  then have "buf = (sch @ ''://'' @ h @ '':'') @ (w @ (CHR ''/'' # path @ text_opt CHR ''?'' q @ text_opt CHR ''#'' f))"
    by simp
  then have "drop (length (sch @ ''://'' @ h @ '':'')) buf = w @ (CHR ''/'' # path @ text_opt CHR ''?'' q @ text_opt CHR ''#'' f)"
    by (metis append_eq_conv_conj)
  then show ?thesis unfolding o
    using strtoul_digits [of w "CHR ''/'' # path @ text_opt CHR ''?'' q @ text_opt CHR ''#'' f"] assms(1)
    by (simp add: url_parts_ok_def isdigit_def code_def)
qed

lemma port_limit:
  fixes n :: nat
  shows "0xffff < (if 2 ^ 64 \<le> n then - 1 else of_nat n :: u64) \<longleftrightarrow> \<not> n < 2 ^ 16"
    "n < 2 ^ 16 \<Longrightarrow> unat (ucast (of_nat n :: u64) :: u16) = n"
proof -
  show "0xffff < (if 2 ^ 64 \<le> n then - 1 else of_nat n :: u64) \<longleftrightarrow> \<not> n < 2 ^ 16"
    by (auto simp: word_less_nat_alt unat_of_nat take_bit_nat_eq_self unsigned_minus_1_eq_mask mask_eq_exp_minus_1)
  show "unat (ucast (of_nat n :: u64) :: u16) = n" if "n < 2 ^ 16"
    using that by (simp add: unsigned_ucast_eq unat_of_nat take_bit_nat_eq_self)
qed

lemma part_port [simp]: "part buf (v\<lparr> port := x \<rparr>) g = part buf v g"
  by (simp add: part_def)

lemma parsed_url_port: "port (parsed_url sch h prt path q f u) = 0"
proof -
  have n: "port ((grow_field g ^^ n) w) = port w" for g n w
    by (induction n) (simp_all add: grow_field_def)
  have o: "port (opt_field g i x w) = port w" "port (open_field g i y w) = port w" for g i x y w
    by (cases x; simp add: open_field_def)+
  show ?thesis
    by (cases prt) (simp_all add: parsed_url_def split_host_def Let_def n o move_field_def looped_def)
qed

text \<open>Also where the path starts.\<close>

lemma parses_url_text:
  assumes "url_parts_ok sch h prt path q f" "length (url_text sch h prt path q f) < 2 ^ 16"
  shows "\<exists>r v. http_parser_parse_url (url_text sch h prt path q f) (length (url_text sch h prt path q f)) False u = Some (r, v)
    \<and> (if pred_option (\<lambda>w. digits_nat w < 2 ^ 16) prt
       then r = 0 \<and> parsed_as (url_text sch h prt path q f) v sch h prt path q f
         \<and> unat (off (field_data v UF_PATH)) = length (sch @ ''://'' @ h @ text_opt CHR '':'' prt) else r = 1)"
proof -
  let ?b = "url_text sch h prt path q f" and ?v = "parsed_url sch h prt path q f u"
  have l: "has_field (looped sch h prt path q f w) UF_HOST" for w
    by (simp add: looped_def Let_def opt_field_simps)
  have run: "http_parser_parse_url ?b (length ?b) False u = Some (url_finish ?b False ?v)"
    by (simp add: http_parser_parse_url_def url_loop_text [OF assms(1)] l parse_host_text [OF assms(1) refl assms(2)])
  have o: "unat (off (field_data ?v UF_PATH)) = length (sch @ ''://'' @ h @ text_opt CHR '':'' prt)"
    unfolding parsed_url_data(4) using assms(2) by (simp add: unat_of_nat16 url_text_def del: of_nat_add)
  note parts = parsed_url_parts [OF refl assms(2), of u]
  show ?thesis
  proof (cases prt)
    case None
    then have "url_finish ?b False ?v = (0, ?v)" by (simp add: url_finish_def parsed_url_has)
    then show ?thesis using run parts None o by (simp add: parsed_as_def parsed_url_has parsed_url_port)
  next
    case (Some w)
    let ?n = "digits_nat w"
    have t: "strtoul (cstr (drop (unat (off (field_data ?v UF_PORT))) ?b)) = (if 2 ^ 64 \<le> ?n then - 1 else of_nat ?n)"
      using port_tail [of sch h w path q f] assms Some by simp
    have fin: "url_finish ?b False ?v
        = (if ?n < 2 ^ 16 then (0, ?v\<lparr> port := ucast (of_nat ?n :: u64) \<rparr>) else (1, ?v))"
      unfolding url_finish_def t Let_def port_limit(1) using Some by (simp add: parsed_url_has)
    show ?thesis
    proof (cases "?n < 2 ^ 16")
      case True
      then show ?thesis using run fin parts Some o port_limit(2) [OF True]
        by (simp add: parsed_as_def parsed_url_has)
    next
      case False
      then show ?thesis using run fin Some by simp
    qed
  qed
qed

text \<open>C20: Parsing undoes printing.  A URL written as schema, host, optional port, path, optional query and
  optional fragment, each of its own characters and all of it shorter than 64 KiB, is parsed into exactly
  these parts: the fields that are set are the parts that were written, each field delimits its part, and
  \<open>port\<close> is the number of the port.  The only refusal is a port of \<open>2 ^ 16\<close> or more.\<close>

theorem url_round_trip:
  assumes "url_parts_ok sch h prt path q f" "length (url_text sch h prt path q f) < 2 ^ 16"
  shows "\<exists>r v. http_parser_parse_url (url_text sch h prt path q f) (length (url_text sch h prt path q f)) False u = Some (r, v)
    \<and> (if pred_option (\<lambda>w. digits_nat w < 2 ^ 16) prt
       then r = 0 \<and> parsed_as (url_text sch h prt path q f) v sch h prt path q f else r = 1)"
  using parses_url_text [OF assms, of u] by (auto split: if_splits)

theorem url_round_trip_witness:
  "\<exists>v. http_parser_parse_url ''http://localhost:8080/a?q'' 25 False http_parser_url_init = Some (0, v)
    \<and> part ''http://localhost:8080/a?q'' v UF_HOST = ''localhost'' \<and> unat (port v) = 8080"
proof -
  have u: "IS_URL_CHAR CHR ''a''" "IS_URL_CHAR CHR ''q''"
    by (simp_all add: IS_URL_CHAR_def BIT_AT_def normal_url_char_def code_def)
  have ok: "url_parts_ok ''http'' ''localhost'' (Some ''8080'') ''a'' (Some ''q'') None"
    using u by (simp add: url_parts_ok_def url_classes)
  have t: "url_text ''http'' ''localhost'' (Some ''8080'') ''a'' (Some ''q'') None = ''http://localhost:8080/a?q''"
    by (simp add: url_text_def)
  have n: "digits_nat ''8080'' = 8080" by (simp add: digits_nat_def digit_val_def code_def)
  have l: "length ''http://localhost:8080/a?q'' = 25" by simp
  show ?thesis using url_round_trip [OF ok, of http_parser_url_init] unfolding t l parsed_as_def by (auto simp: n)
qed

section \<open>Every field lies inside the URL\<close>

text \<open>The fields of a structure lie in front of offset \<open>i\<close>; those of \<open>F\<close> are empty so far.\<close>

definition field_end :: "http_parser_url \<Rightarrow> http_parser_url_fields \<Rightarrow> nat" where
  "field_end u f = unat (off (field_data u f)) + unat (len (field_data u f))"

definition inside :: "nat \<Rightarrow> http_parser_url \<Rightarrow> bool" where
  "inside i u \<longleftrightarrow> (\<forall>f. has_field u f \<longrightarrow> 0 < unat (len (field_data u f)) \<and> field_end u f \<le> i)"

lemma inside_mono: "inside i u \<Longrightarrow> i \<le> j \<Longrightarrow> inside j u"
  by (meson inside_def le_trans)

lemma inside_open: "inside i u \<Longrightarrow> i + 1 < 2 ^ 16 \<Longrightarrow> inside (i + 1) (open_field f i 1 u)"
  by (auto simp: inside_def field_end_def unat_of_nat16 le_SucI)

lemma len_Suc: "unat (n :: u16) < 2 ^ 16 - 1 \<Longrightarrow> unat (n + 1) = unat n + 1"
  by (simp add: unat_word_ariths)

lemma inside_grow:
  assumes "inside i u" "field_end u f = i" "i + 1 < 2 ^ 16"
  shows "inside (i + 1) (grow_field f u)" "field_end (grow_field f u) f = i + 1"
proof -
  have n: "unat (len (field_data u f) + 1) = unat (len (field_data u f)) + 1"
    by (rule len_Suc) (use assms(2,3) in \<open>simp add: field_end_def\<close>)
  show "field_end (grow_field f u) f = i + 1"
    using n assms(2) by (simp add: field_end_def field_data_grow)
  show "inside (i + 1) (grow_field f u)"
    unfolding inside_def
  proof (intro allI impI)
    fix g assume "has_field (grow_field f u) g"
    then show "0 < unat (len (field_data (grow_field f u) g)) \<and> field_end (grow_field f u) g \<le> i + 1"
      using assms(1,2) n by (cases "g = f") (auto simp: inside_def field_end_def field_data_grow le_SucI)
  qed
qed

text \<open>The states of the loop in the order of the parts of a URL.\<close>

definition phase :: "state \<Rightarrow> nat" where
  "phase s =
     (case s of
        s_req_spaces_before_url \<Rightarrow> 0
      | s_req_schema \<Rightarrow> 1
      | s_req_schema_slash \<Rightarrow> 2 | s_req_schema_slash_slash \<Rightarrow> 2 | s_req_server_start \<Rightarrow> 2
      | s_req_server \<Rightarrow> 3 | s_req_server_with_at \<Rightarrow> 3
      | s_req_path \<Rightarrow> 4
      | s_req_query_string_start \<Rightarrow> 5 | s_req_query_string \<Rightarrow> 6
      | s_req_fragment_start \<Rightarrow> 7 | s_req_fragment \<Rightarrow> 8
      | _ \<Rightarrow> 9)"

fun field_phase :: "http_parser_url_fields \<Rightarrow> nat" where
  "field_phase UF_SCHEMA = 1"
| "field_phase UF_HOST = 3"
| "field_phase UF_PATH = 4"
| "field_phase UF_QUERY = 6"
| "field_phase UF_FRAGMENT = 8"
| "field_phase _ = 10"

lemma phase_mono:
  "phase s < 9 \<Longrightarrow> parse_url_char s c \<noteq> s_dead \<Longrightarrow>
   phase s \<le> phase (parse_url_char s c) \<and> phase (parse_url_char s c) < 9 \<and> parse_url_char s c \<noteq> s_req_spaces_before_url"
  unfolding parse_url_char_def
  by (cases s) (auto simp: phase_def url_server_def url_query_def split: if_splits)

lemma url_byte_phase:
  "phase s < 9 \<Longrightarrow> url_byte_of s = UField f \<longleftrightarrow> field_phase f = phase s"
  "phase s < 9 \<Longrightarrow> s \<noteq> s_req_spaces_before_url \<Longrightarrow> url_byte_of s \<noteq> UUnexpected \<and> url_byte_of s \<noteq> UDead"
  "url_byte_of s_dead = UDead"
  by (cases s; cases f; simp add: phase_def url_byte_of_def)+


definition looping :: "nat \<Rightarrow> state \<Rightarrow> http_parser_url_fields option \<Rightarrow> http_parser_url \<Rightarrow> bool" where
  "looping i s old u \<longleftrightarrow>
     phase s < 9 \<and> inside i u \<and> (\<forall>f. old = Some f \<longrightarrow> field_phase f \<le> phase s)
     \<and> (\<forall>f. url_byte_of s = UField f \<longrightarrow> old = Some f \<and> field_end u f = i)
     \<and> (\<forall>f. has_field u f \<longrightarrow> field_phase f < 9)"

lemma looping_field:
  assumes "phase s < 9" "inside i u" "url_byte_of s = UField f" "field_end u f = i" "\<forall>g. has_field u g \<longrightarrow> field_phase g < 9"
  shows "looping i s (Some f) u"
  using assms url_byte_phase(1) [OF assms(1), of f] by (simp add: looping_def)

fun url_end_ok :: "nat \<Rightarrow> url_end \<Rightarrow> bool" where
  "url_end_ok n (UOk v a) \<longleftrightarrow> inside n v \<and> (\<forall>f. has_field v f \<longrightarrow> field_phase f < 9)"
| "url_end_ok n (UBad v) \<longleftrightarrow> True"
| "url_end_ok n UAssert \<longleftrightarrow> False"

text \<open>The loop never fails its assertion, and keeps the fields inside what it has read.\<close>

lemma url_loop_inside:
  "looping i s old u \<Longrightarrow> i + length cs < 2 ^ 16 \<Longrightarrow>
   url_end_ok (i + length cs) (url_loop cs i s old at u)"
proof (induction cs arbitrary: i s old at u)
  case Nil
  then show ?case by (simp add: looping_def)
next
  case (Cons c cs)
  let ?s = "parse_url_char s c"
  note l = Cons.prems(1) [unfolded looping_def]
  show ?case
  proof (cases "?s = s_dead")
    case True
    then show ?thesis by (simp add: Let_def url_byte_phase)
  next
    case False
    then have p: "phase s \<le> phase ?s" "phase ?s < 9" "?s \<noteq> s_req_spaces_before_url"
      using phase_mono [of s c] l by auto
    show ?thesis
    proof (cases "url_byte_of ?s")
      case UDelimiter
      have "inside (i + 1) u" using l inside_mono by auto
      then have "looping (i + 1) ?s old u" using l p UDelimiter by (auto simp: looping_def)
      then show ?thesis using Cons.IH [of "i + 1" ?s old u "at"] Cons.prems(2) UDelimiter by (simp add: Let_def)
    next
      case (UField f)
      have lu: "inside i u" "\<forall>g. has_field u g \<longrightarrow> field_phase g < 9" using l by blast+
      have i: "i + 1 < 2 ^ 16" using Cons.prems(2) by simp
      have f: "field_phase f = phase ?s" using url_byte_phase(1) [OF p(2)] UField by blast
      show ?thesis
      proof (cases "old = Some f")
        case True
        then have "phase s = phase ?s" using l f p(1) by (metis le_antisym)
        then have "url_byte_of s = UField f" using url_byte_phase(1) [of s f] l f by simp
        then have "field_end u f = i" using l by blast
        note g = inside_grow [OF lu(1) this i]
        have "looping (i + 1) ?s old (grow_field f u)"
          unfolding True by (rule looping_field [OF p(2) g(1) UField g(2)]) (use lu(2) in simp)
        then show ?thesis
          using Cons.IH [of "i + 1" ?s old "grow_field f u" "at \<or> ?s = s_req_server_with_at"] Cons.prems(2) UField True
          by (simp add: Let_def)
      next
        case False
        have "inside (i + 1) (open_field f i 1 u)" using lu(1) i by (rule inside_open)
        moreover have "field_end (open_field f i 1 u) f = i + 1"
          using i by (simp add: field_end_def unat_of_nat16)
        moreover have "\<forall>g. has_field (open_field f i 1 u) g \<longrightarrow> field_phase g < 9"
          using lu(2) f p(2) by auto
        ultimately have "looping (i + 1) ?s (Some f) (open_field f i 1 u)"
          using looping_field [OF p(2) _ UField] by blast
        then show ?thesis
          using Cons.IH [of "i + 1" ?s "Some f" "open_field f i 1 u" "at \<or> ?s = s_req_server_with_at"]
            Cons.prems(2) UField False by (simp add: Let_def)
      qed
    qed (use url_byte_phase(2) [OF p(2,3)] in simp_all)
  qed
qed

text \<open>The host: what lies where in each state of its automaton.\<close>

definition sides :: "nat \<Rightarrow> http_parser_url \<Rightarrow> bool" where
  "sides n u \<longleftrightarrow> (\<forall>f. f \<noteq> UF_HOST \<longrightarrow> has_field u f \<longrightarrow> 0 < unat (len (field_data u f)) \<and> field_end u f \<le> n)"

definition hosting :: "nat \<Rightarrow> nat \<Rightarrow> http_host_state \<Rightarrow> http_parser_url \<Rightarrow> bool" where
  "hosting n i s u \<longleftrightarrow>
     sides n u \<and>
     (s = s_http_userinfo \<longrightarrow> has_field u UF_USERINFO \<and> field_end u UF_USERINFO = i) \<and>
     (s = s_http_host_port \<longrightarrow> has_field u UF_PORT \<and> field_end u UF_PORT = i) \<and>
     (s \<in> {s_http_host, s_http_host_v6, s_http_host_v6_zone_start, s_http_host_v6_zone} \<longrightarrow>
        0 < unat (len (field_data u UF_HOST)) \<and> field_end u UF_HOST = i) \<and>
     (s \<in> {s_http_host_v6_end, s_http_host_port_start, s_http_host_port} \<longrightarrow>
        0 < unat (len (field_data u UF_HOST)) \<and> field_end u UF_HOST \<le> i) \<and>
     (s \<in> {s_http_userinfo_start, s_http_userinfo, s_http_host_start, s_http_host_v6_start} \<longrightarrow>
        unat (len (field_data u UF_HOST)) = 0)"


lemma grow_empty:
  fixes u :: http_parser_url
  assumes "i < 2 ^ 16"
  shows "field_data (open_field f i 0 u) f = \<lparr> off = of_nat i, len = 0 \<rparr>"
    "unat (len (field_data u UF_HOST)) = 0 \<Longrightarrow>
     field_end (grow_field UF_HOST (move_field UF_HOST i u)) UF_HOST = i + 1 \<and>
     0 < unat (len (field_data (grow_field UF_HOST (move_field UF_HOST i u)) UF_HOST))"
proof -
  show "field_data (open_field f i 0 u) f = \<lparr> off = of_nat i, len = 0 \<rparr>" by simp
  assume "unat (len (field_data u UF_HOST)) = 0"
  then have "len (field_data u UF_HOST) = 0" by (simp add: unat_eq_0)
  then show "field_end (grow_field UF_HOST (move_field UF_HOST i u)) UF_HOST = i + 1 \<and>
     0 < unat (len (field_data (grow_field UF_HOST (move_field UF_HOST i u)) UF_HOST))"
    using assms by (simp add: field_end_def field_data_grow field_data_move unat_of_nat16)
qed

lemma field_end_other:
  "f \<noteq> g \<Longrightarrow> field_end (grow_field g u) f = field_end u f"
  "f \<noteq> g \<Longrightarrow> field_end (move_field g i u) f = field_end u f"
  "f \<noteq> g \<Longrightarrow> field_end (open_field g i n u) f = field_end u f"
  by (simp_all add: field_end_def field_data_grow field_data_move)

lemma grow_len:
  assumes "field_end u f = i" "i + 1 < 2 ^ 16"
  shows "field_end (grow_field f u) f = i + 1" "0 < unat (len (field_data (grow_field f u) f))"
proof -
  have "unat (len (field_data u f) + 1) = unat (len (field_data u f)) + 1"
    by (rule len_Suc) (use assms in \<open>simp add: field_end_def\<close>)
  then show "field_end (grow_field f u) f = i + 1" "0 < unat (len (field_data (grow_field f u) f))"
    using assms(1) by (simp_all add: field_end_def field_data_grow)
qed

lemma open_len:
  "i + 1 < 2 ^ 16 \<Longrightarrow> field_end (open_field f i 1 u) f = i + 1"
  "0 < unat (len (field_data (open_field f i 1 u) f))"
  by (simp_all add: field_end_def unat_of_nat16)

text \<open>The steps of the host automaton that do not fail.\<close>

inductive host_step :: "http_host_state \<Rightarrow> http_host_state \<Rightarrow> bool" where
  "host_step s_http_userinfo_start s_http_userinfo"
| "host_step s_http_userinfo s_http_userinfo"
| "host_step s_http_userinfo_start s_http_host_start"
| "host_step s_http_userinfo s_http_host_start"
| "host_step s_http_host_start s_http_host_v6_start"
| "host_step s_http_host_start s_http_host"
| "host_step s_http_host s_http_host"
| "host_step s_http_host s_http_host_port_start"
| "host_step s_http_host_v6_end s_http_host_port_start"
| "host_step s_http_host_v6_start s_http_host_v6"
| "host_step s_http_host_v6 s_http_host_v6"
| "host_step s_http_host_v6 s_http_host_v6_end"
| "host_step s_http_host_v6 s_http_host_v6_zone_start"
| "host_step s_http_host_v6_zone_start s_http_host_v6_zone"
| "host_step s_http_host_v6_zone s_http_host_v6_zone"
| "host_step s_http_host_v6_zone s_http_host_v6_end"
| "host_step s_http_host_port_start s_http_host_port"
| "host_step s_http_host_port s_http_host_port"

inductive_cases host_step_fromE: "host_step s t"

lemma host_char_step:
  "http_parse_host_char s c \<noteq> s_http_host_dead \<Longrightarrow> host_step s (http_parse_host_char s c)"
  by (cases s) (auto simp: http_parse_host_char_def host_end_char_def host_v6_char_def host_zone_char_def intro: host_step.intros)

lemma sides_host:
  "sides n (grow_field UF_HOST u) = sides n u" "sides n (move_field UF_HOST i u) = sides n u"
  by (auto simp: sides_def field_end_def field_data_grow field_data_move)

lemma sides_open: "sides n u \<Longrightarrow> i + 1 \<le> n \<Longrightarrow> n < 2 ^ 16 \<Longrightarrow> sides n (open_field f i 1 u)"
  by (auto simp: sides_def field_end_def unat_of_nat16)

lemma sides_grow:
  assumes "sides n u" "field_end u f = i" "i + 1 \<le> n" "n < 2 ^ 16"
  shows "sides n (grow_field f u)"
  unfolding sides_def
proof (intro allI impI)
  fix g assume "g \<noteq> UF_HOST" "has_field (grow_field f u) g"
  then show "0 < unat (len (field_data (grow_field f u) g)) \<and> field_end (grow_field f u) g \<le> n"
    using assms grow_len [OF assms(2)] field_end_other(1) [of g f u]
    by (cases "g = f") (simp_all add: sides_def field_data_grow)
qed

lemma hosting_step:
  assumes "host_step s t" "hosting n i s u" "i < n" "n < 2 ^ 16"
  shows "hosting n (i + 1) t (host_update s t i u)"
proof -
  have i: "i < 2 ^ 16" "i + 1 < 2 ^ 16" "i + 1 \<le> n" using assms(3,4) by auto
  note facts = hosting_def host_update_def sides_host field_end_other field_data_grow field_data_move
  show ?thesis using assms(1)
  proof cases
    case 1 then show ?thesis using assms(2,4) i open_len(1) [OF i(2)] open_len(2) sides_open [of n u i] by (simp add: facts)
  next
    case 2 then show ?thesis using assms(2,4) i grow_len [OF _ i(2)] sides_grow [of n u _ i] by (simp add: facts)
  next
    case 17 then show ?thesis using assms(2,4) i open_len(1) [OF i(2)] open_len(2) sides_open [of n u i] by (simp add: facts)
  next
    case 18 then show ?thesis using assms(2,4) i grow_len [OF _ i(2)] sides_grow [of n u _ i] by (simp add: facts)
  next
    case 6 then show ?thesis using assms(2) grow_empty(2) [OF i(1), of u] by (simp add: facts)
  next
    case 10 then show ?thesis using assms(2) grow_empty(2) [OF i(1), of u] by (simp add: facts)
  qed (use assms(2) grow_len [OF _ i(2), of u UF_HOST] in \<open>simp_all add: facts\<close>)
qed


lemma host_loop_inside:
  "hosting n i s u \<Longrightarrow> i + length cs \<le> n \<Longrightarrow> n < 2 ^ 16 \<Longrightarrow> host_loop cs i s u = (t, v) \<Longrightarrow> t \<noteq> s_http_host_dead \<Longrightarrow>
   hosting n (i + length cs) t v"
proof (induction cs arbitrary: i s u)
  case Nil
  then show ?case by simp
next
  case (Cons c cs)
  let ?s = "http_parse_host_char s c"
  have d: "?s \<noteq> s_http_host_dead" using Cons.prems(4,5) by (auto simp: Let_def)
  have "hosting n (i + 1) ?s (host_update s ?s i u)"
    by (rule hosting_step [OF host_char_step [OF d] Cons.prems(1)]) (use Cons.prems(2,3) in simp_all)
  then show ?case using Cons.IH [of "i + 1" ?s "host_update s ?s i u"] Cons.prems d by (simp add: Let_def)
qed

lemma host_update_keeps: "has_field u UF_HOST \<Longrightarrow> has_field (host_update s t i u) UF_HOST"
  by (simp add: host_update_def split: http_host_state.split)

lemma host_loop_keeps:
  "host_loop cs i s u = (t, v) \<Longrightarrow> has_field u UF_HOST \<Longrightarrow> has_field v UF_HOST"
proof (induction cs arbitrary: i s u)
  case Nil
  then show ?case by simp
next
  case (Cons c cs)
  show ?case
  proof (cases "http_parse_host_char s c = s_http_host_dead")
    case True
    then show ?thesis using Cons.prems by simp
  next
    case False
    then show ?thesis using Cons.IH [OF _ host_update_keeps [OF Cons.prems(2)]] Cons.prems(1) by (simp add: Let_def)
  qed
qed

text \<open>The fields behind \<open>http_parse_host\<close>, when it succeeds.\<close>

lemma parse_host_inside:
  assumes "inside n u" "n < 2 ^ 16" "n \<le> length buf" "has_field u UF_HOST" "\<forall>f. has_field u f \<longrightarrow> field_phase f < 9"
  shows "\<exists>r v. http_parse_host buf u at = Some (r, v) \<and> (r = 0 \<longrightarrow> inside n v \<and> has_field v UF_HOST)"
proof -
  let ?o = "unat (off (field_data u UF_HOST))" and ?n = "unat (len (field_data u UF_HOST))"
  let ?u = "u\<lparr> field_data := (field_data u)(UF_HOST := (field_data u UF_HOST)\<lparr> len := 0 \<rparr>) \<rparr>"
  let ?s = "if at then s_http_userinfo_start else s_http_host_start"
  obtain t v where run: "host_loop (take ?n (drop ?o buf)) ?o ?s ?u = (t, v)" by (cases "host_loop (take ?n (drop ?o buf)) ?o ?s ?u")
  have e: "?o + ?n \<le> n" using assms(1,4) by (simp add: inside_def field_end_def)
  then have l: "?o + length (take ?n (drop ?o buf)) = ?o + ?n" using assms(3) by simp
  have "sides n ?u" using assms(1) by (simp add: sides_def inside_def field_end_def)
  then have h: "hosting n ?o ?s ?u" by (simp add: hosting_def)
  have "inside n v \<and> has_field v UF_HOST" if ok: "host_end_ok t"
  proof -
    have "t \<noteq> s_http_host_dead" using ok by (auto simp: host_end_ok_def)
    then have v: "hosting n (?o + ?n) t v" using host_loop_inside [OF h _ assms(2) run] e l by simp
    have "0 < unat (len (field_data v UF_HOST)) \<and> field_end v UF_HOST \<le> n"
      using ok unfolding host_end_ok_def by (elim insertE emptyE; use v e in \<open>simp add: hosting_def\<close>)
    moreover have "sides n v" using v by (simp add: hosting_def)
    moreover have "has_field v UF_HOST" using host_loop_keeps [OF run] assms(4) by simp
    ultimately show ?thesis unfolding inside_def sides_def by metis
  qed
  then show ?thesis using run assms(4) by (simp add: http_parse_host_def Let_def)
qed

lemma url_finish_fields:
  "snd (url_finish buf c u) = u \<or> (\<exists>x. snd (url_finish buf c u) = u\<lparr> port := x \<rparr>)"
  by (auto simp: url_finish_def Let_def)

lemma inside_port [simp]: "inside n (u\<lparr> port := x \<rparr>) = inside n u"
  by (simp add: inside_def field_end_def)

lemma parse_url_inside:
  assumes "buflen < 2 ^ 16" "buflen \<le> length buf"
  shows "\<exists>r v. http_parser_parse_url buf buflen is_connect u = Some (r, v)
    \<and> (r = 0 \<longrightarrow>
        (\<forall>f. has_field v f \<longrightarrow> 0 < unat (len (field_data v f))
            \<and> unat (off (field_data v f)) + unat (len (field_data v f)) \<le> buflen)
        \<and> (has_field v UF_SCHEMA \<longrightarrow> has_field v UF_HOST))"
proof -
  let ?s = "if is_connect then s_req_server_start else s_req_spaces_before_url"
  let ?u = "u\<lparr> port := 0, field_set := 0 \<rparr>"
  have l: "0 + length (take buflen buf) = buflen" using assms(2) by simp
  have "looping 0 ?s None ?u" by (simp add: looping_def inside_def phase_def url_byte_of_def)
  then have "url_end_ok (0 + length (take buflen buf)) (url_loop (take buflen buf) 0 ?s None False ?u)"
    by (rule url_loop_inside) (use assms l in simp)
  then have ok: "url_end_ok buflen (url_loop (take buflen buf) 0 ?s None False ?u)" unfolding l .
  have fin: "inside buflen (snd (url_finish buf is_connect v)) \<and> has_field (snd (url_finish buf is_connect v)) f = has_field v f"
    if "inside buflen v" for v f
    using url_finish_fields [of buf is_connect v] that by auto
  show ?thesis
  proof (cases "url_loop (take buflen buf) 0 ?s None False ?u")
    case UAssert
    then show ?thesis using ok by simp
  next
    case (UBad v)
    then show ?thesis by (simp add: http_parser_parse_url_def)
  next
    case (UOk v a)
    then have v: "inside buflen v" "\<forall>f. has_field v f \<longrightarrow> field_phase f < 9" using ok by simp_all
    show ?thesis
    proof (cases "has_field v UF_HOST")
      case True
      obtain r w where w: "http_parse_host buf v a = Some (r, w)" "r = 0 \<longrightarrow> inside buflen w \<and> has_field w UF_HOST"
        using parse_host_inside [OF v(1) assms True v(2), of a] by blast
      show ?thesis using UOk True w fin [of w]
        by (cases "url_finish buf is_connect w") (auto simp: http_parser_parse_url_def inside_def field_end_def)
    next
      case False
      then show ?thesis using UOk v(1) fin [of v]
        by (cases "url_finish buf is_connect v") (auto simp: http_parser_parse_url_def inside_def field_end_def)
    qed
  qed
qed

text \<open>C21: For any bytes below 64 KiB the URL parser fails no assertion, and when it succeeds every field it
  reports is non-empty and lies inside the URL; a URL with a schema has a host.\<close>

theorem url_fields_in_range:
  assumes "buflen < 2 ^ 16" "buflen \<le> length buf"
  shows "\<exists>r v. http_parser_parse_url buf buflen is_connect u = Some (r, v)
    \<and> (r = 0 \<longrightarrow>
        (\<forall>f. has_field v f \<longrightarrow> 0 < unat (len (field_data v f))
            \<and> unat (off (field_data v f)) + unat (len (field_data v f)) \<le> buflen)
        \<and> (has_field v UF_SCHEMA \<longrightarrow> has_field v UF_HOST))"
  by (rule parse_url_inside [OF assms])

theorem url_fields_in_range_witness:
  "\<exists>r v. http_parser_parse_url ''http://u:p@h:1/x'' 16 False http_parser_url_init = Some (r, v)
    \<and> (r = 0 \<longrightarrow> has_field v UF_SCHEMA \<longrightarrow> has_field v UF_HOST)"
  using url_fields_in_range [of 16 "''http://u:p@h:1/x''" False http_parser_url_init] by auto


section \<open>The port is read behind the end\<close>

text \<open>The port is converted by \<open>strtoul\<close> on the buffer, not on the URL: digits that happen to follow the
  last byte of a URL ending in a port are taken for more digits of the port.\<close>

lemma url_port_reads_past_end:
  assumes "w \<noteq> []" "list_all isdigit (w @ w')" "digits_nat (w @ w') < 2 ^ 16" "length (w @ w') < 2 ^ 15"
  shows "\<exists>v. http_parser_parse_url (''http://h:'' @ w @ w') (9 + length w) False u = Some (0, v)
    \<and> part (''http://h:'' @ w @ w') v UF_PORT = w \<and> unat (port v) = digits_nat (w @ w')"
proof -
  let ?b = "''http://h:'' @ w @ w'" and ?u = "u\<lparr> port := 0, field_set := 0 \<rparr>"
  let ?v = "open_field UF_HOST 7 (of_nat (length (''h:'' @ w))) (open_field UF_SCHEMA 0 4 ?u)"
  let ?h = "split_host 7 ''h'' (Some w) ?v"
  have d: "list_all isdigit w" using assms(2) by simp
  have "\<forall>c \<in> set (''h:'' @ w). host_text_char c"
    using d by (auto simp: host_text_char_def list_all_iff IS_HOST_CHAR_def IS_ALPHANUM_def IS_ALPHA_def LOWER_def code_def)
  note h = url_host [OF _ this, of "[]" 7 False "open_field UF_SCHEMA 0 4 ?u"]
  have "\<forall>c \<in> set ''http''. IS_ALPHA c" by (simp add: IS_ALPHA_def LOWER_def code_def)
  note s = url_schema [OF _ this, of "''h:'' @ w" False ?u]
  have t: "take (9 + length w) ?b = ''http'' @ ''://'' @ (''h:'' @ w)" by (simp add: numeral_eq_Suc)
  have loop: "url_loop (take (9 + length w) ?b) 0 s_req_spaces_before_url None False ?u = UOk ?v False"
    unfolding t using s h by (simp add: numeral_eq_Suc del: url_loop.simps(2))
  have l: "unat (of_nat (length (''h:'' @ w)) :: u16) = length w + 2"
    using unat_of_nat16 [of "length w + 2"] assms(4) by (simp add: add.commute)
  have small: "length ?b < 2 ^ 16" using assms(4) by simp
  have p: "part ?b ?v UF_HOST = ''h'' @ text_opt CHR '':'' (Some w)"
    by (rule part_at [OF _ small, where a = "''http://''" and b = w']) simp_all
  have host: "http_parse_host ?b ?v False = Some (0, ?h)"
    using parse_host_splits [OF _ _ _ _ p] d assms(1) by (simp add: IS_HOST_CHAR_def IS_ALPHANUM_def IS_ALPHA_def LOWER_def code_def)
  have o: "field_data ?h UF_PORT = \<lparr> off = 9, len = of_nat (length w) \<rparr>"
    by (simp add: split_host_fields)
  have "cstr (drop 9 ?b) = cstr ((w @ w') @ [])" by (simp add: numeral_eq_Suc)
  then have "strtoul (cstr (drop 9 ?b)) = of_nat (digits_nat (w @ w'))"
    using strtoul_digits [of "w @ w'" "[]"] assms(1,2,3) by simp
  then have fin: "url_finish ?b False ?h = (0, ?h\<lparr> port := ucast (of_nat (digits_nat (w @ w')) :: u64) \<rparr>)"
    using port_limit(1) [of "digits_nat (w @ w')"] assms(3) by (simp add: url_finish_def o split_host_fields)
  have "part ?b ?h UF_PORT = w"
    by (rule part_at [OF _ small, where a = "''http://h:''" and b = w']) (simp_all add: split_host_fields)
  then show ?thesis using loop host fin port_limit(2) [OF assms(3)]
    by (simp add: http_parser_parse_url_def)
qed

lemma url_port_reads_past_end_witness:
  "\<exists>v. http_parser_parse_url ''http://h:8090'' 11 False http_parser_url_init = Some (0, v)
    \<and> part ''http://h:8090'' v UF_PORT = ''80'' \<and> unat (port v) = 8090"
proof -
  have e: "''http://h:'' @ ''80'' @ ''90'' = ''http://h:8090''" "9 + length ''80'' = 11" "''80'' @ ''90'' = ''8090''"
    "digits_nat ''8090'' = 8090" by (simp_all add: digits_nat_def digit_val_def code_def)
  have "\<exists>v. http_parser_parse_url (''http://h:'' @ ''80'' @ ''90'') (9 + length ''80'') False http_parser_url_init = Some (0, v)
      \<and> part (''http://h:'' @ ''80'' @ ''90'') v UF_PORT = ''80'' \<and> unat (port v) = digits_nat (''80'' @ ''90'')"
    by (rule url_port_reads_past_end) (simp_all add: isdigit_def code_def digits_nat_def digit_val_def)
  then show ?thesis unfolding e by simp
qed

end
