(* ===== verification/HttpRuns.thy ===== *)
theory HttpRuns
  imports HttpMessage HttpUrl
begin

text \<open>
  Runs of \<open>http_parser_execute\<close> over the bytes of whole messages: the loop as a relation between states, triples \<open>reads S P w Q\<close>
  over it (the bytes \<open>w\<close> lead from a state of \<open>P\<close> into one of \<open>Q\<close>), applications that listen, and the request line.
\<close>

section \<open>The loop as a relation\<close>

inductive advances :: "'u settings \<Rightarrow> string \<Rightarrow> 'u exec \<Rightarrow> 'u exec \<Rightarrow> bool" for S data where
  here: "advances S data x x"
| byte: "exec_byte S data x = Next y \<Longrightarrow> pos x < length data \<Longrightarrow> pos x \<le> pos y \<Longrightarrow>
    advances S data (y\<lparr> pos := pos y + 1 \<rparr>) z \<Longrightarrow> advances S data x z"

lemma advances_trans: "advances S data x y \<Longrightarrow> advances S data y z \<Longrightarrow> advances S data x z"
  by (induction rule: advances.induct) (auto intro: advances.byte)

lemma advances_one:
  "exec_byte S data x = Next y \<Longrightarrow> pos x < length data \<Longrightarrow> pos x \<le> pos y \<Longrightarrow>
   advances S data x (y\<lparr> pos := pos y + 1 \<rparr>)"
  by (rule advances.byte) (auto intro: advances.here)

lemma advances_loop: "advances S data x y \<Longrightarrow> \<exists>n. n + pos x \<le> pos y \<and> (\<forall>m. exec_loop (n + m) S data x = exec_loop m S data y)"
proof (induction rule: advances.induct)
  case (here x)
  then show ?case by (intro exI [of _ 0]) simp
next
  case (byte x y z)
  then obtain n where n: "n + (pos y + 1) \<le> pos z"
    "\<And>m. exec_loop (n + m) S data (y\<lparr> pos := pos y + 1 \<rparr>) = exec_loop m S data z" by auto
  have "exec_loop (Suc n + m) S data x = exec_loop m S data z" for m
    using exec_loop_next [OF byte.hyps(1,2), of "n + m"] n(2) by (simp del: exec_loop.simps)
  then show ?case using n(1) byte.hyps(3) by (intro exI [of _ "Suc n"]) auto
qed

text \<open>A run that reaches the end of the data, with nothing left open, parses all of it.\<close>

lemma advances_end:
  assumes "advances S data x y" "pos x = 0" "pos y = length data" "no_marks y" "http_errno (par y) = HPE_OK"
  shows "exec_loop (length data) S data x = Ret (save_state y) (length data)"
proof -
  obtain n where n: "n \<le> length data" "\<And>m. exec_loop (n + m) S data x = exec_loop m S data y"
    using advances_loop [OF assms(1)] assms(2,3) by auto
  have "exec_loop (length data) S data x = exec_loop (length data - n) S data y" using n(1) n(2) [of "length data - n"] by simp
  also have "\<dots> = exec_finish S data y" using assms(3) by (cases "length data - n") simp_all
  also have "\<dots> = ret (length data) y" by (rule exec_finish_plain [OF assms(4,5)])
  finally show ?thesis by (simp add: ret_def)
qed

section \<open>Reading a word\<close>

text \<open>In a state of \<open>P\<close>, the bytes \<open>w\<close> are consumed and leave the parser in one of \<open>Q\<close>.\<close>

definition reads :: "'u settings \<Rightarrow> ('u exec \<Rightarrow> bool) \<Rightarrow> string \<Rightarrow> ('u exec \<Rightarrow> bool) \<Rightarrow> bool" where
  "reads S P w Q \<longleftrightarrow>
     (\<forall>data rest x. P x \<longrightarrow> drop (pos x) data = w @ rest \<longrightarrow> length data < 2 ^ 64 \<longrightarrow>
        (\<exists>y. advances S data x y \<and> pos y = pos x + length w \<and> Q y))"

lemma readsI:
  "(\<And>data rest x. P x \<Longrightarrow> drop (pos x) data = w @ rest \<Longrightarrow> length data < 2 ^ 64 \<Longrightarrow>
     \<exists>y. advances S data x y \<and> pos y = pos x + length w \<and> Q y) \<Longrightarrow>
   reads S P w Q"
  by (simp add: reads_def)

lemma readsE:
  assumes "reads S P w Q" "P x" "drop (pos x) data = w @ rest" "length data < 2 ^ 64"
  obtains y where "advances S data x y" "pos y = pos x + length w" "Q y" "drop (pos y) data = rest"
proof -
  obtain y where y: "advances S data x y" "pos y = pos x + length w" "Q y"
    using assms unfolding reads_def by blast
  have "drop (pos y) data = drop (length w) (drop (pos x) data)" using y(2) by (simp add: add.commute)
  then show ?thesis using that y assms(3) by simp
qed

lemma reads_append:
  assumes "reads S P v Q" "reads S Q w R"
  shows "reads S P (v @ w) R"
proof (rule readsI)
  fix data rest x
  assume x: "P x" "drop (pos x) data = (v @ w) @ rest" and l: "length data < 2 ^ 64"
  from x(2) have d: "drop (pos x) data = v @ (w @ rest)" by simp
  obtain y where y: "advances S data x y" "pos y = pos x + length v" "Q y" "drop (pos y) data = w @ rest"
    by (rule readsE [OF assms(1) x(1) d l])
  obtain z where z: "advances S data y z" "pos z = pos y + length w" "R z" by (rule readsE [OF assms(2) y(3,4) l])
  show "\<exists>z. advances S data x z \<and> pos z = pos x + length (v @ w) \<and> R z"
    using advances_trans [OF y(1) z(1)] z(2,3) y(2) by (intro exI [of _ z]) simp
qed

lemma reads_Cons: "reads S P [c] Q \<Longrightarrow> reads S Q w R \<Longrightarrow> reads S P (c # w) R"
  using reads_append [of S P "[c]" Q w R] by simp

lemma reads_Nil: "reads S P [] P"
  by (rule readsI) (auto intro: advances.here)

lemma reads_weaken: "reads S P w Q \<Longrightarrow> (\<And>x. P' x \<Longrightarrow> P x) \<Longrightarrow> (\<And>x. Q x \<Longrightarrow> Q' x) \<Longrightarrow> reads S P' w Q'"
  unfolding reads_def by blast

text \<open>One byte of the header.\<close>

definition in_header :: "nat \<Rightarrow> 'u exec \<Rightarrow> bool" where
  "in_header n x \<longleftrightarrow> unat (nread (par x)) = n \<and> http_errno (par x) = HPE_OK"

lemma header_byte:
  assumes "PARSING_HEADER (st x)" "in_header n x" "n < HTTP_MAX_HEADER_SIZE" "drop (pos x) data = c # rest"
    "in_header (n + 1) (counted x) \<Longrightarrow> reexecute 8 S data c (counted x) = Next y" "pos y = pos x"
  shows "advances S data x (y\<lparr> pos := pos x + 1 \<rparr>)" "in_header (n + 1) (counted x)"
proof -
  have d: "pos x < length data" "data ! pos x = c" using drop_ConsD [OF assms(4)] by auto
  have h: "unat (nread (par x)) = n" "http_errno (par x) = HPE_OK" using assms(2) by (simp_all add: in_header_def)
  have b: "exec_byte S data x = reexecute 8 S data c (counted x)"
    by (rule exec_byte_header) (use assms(1,3) h d(2) in simp_all)
  have "unat (nread (par x) + 1) = n + 1"
    using h(1) assms(3) by (simp add: unat_word_ariths HTTP_MAX_HEADER_SIZE_def)
  then show c: "in_header (n + 1) (counted x)" using h(2) by (simp add: in_header_def counted_def upd_def)
  have "exec_byte S data x = Next y" using b assms(5) [OF c] by simp
  then show "advances S data x (y\<lparr> pos := pos x + 1 \<rparr>)" 
    using advances_one [OF _ d(1), of S y] assms(6) by simp
qed

lemma reads_byte:
  assumes "\<And>x. P x \<Longrightarrow> PARSING_HEADER (st x) \<and> in_header n x" "n < HTTP_MAX_HEADER_SIZE"
    "\<And>data x. P x \<Longrightarrow> in_header (n + 1) (counted x) \<Longrightarrow> reexecute 8 S data c (counted x) = Next (F x) \<and> pos (F x) = pos x"
    "\<And>x. P x \<Longrightarrow> in_header (n + 1) (counted x) \<Longrightarrow> Q ((F x)\<lparr> pos := pos x + 1 \<rparr>)"
  shows "reads S P [c] Q"
proof (rule readsI)
  fix data rest x
  assume x: "P x" "drop (pos x) data = [c] @ rest"
  have h: "PARSING_HEADER (st x)" "in_header n x" "drop (pos x) data = c # rest" using assms(1) [OF x(1)] x(2) by simp_all
  have "in_header (n + 1) (counted x)"
    using h(2) assms(2) by (simp add: in_header_def counted_def upd_def unat_word_ariths HTTP_MAX_HEADER_SIZE_def)
  note F = assms(3) [OF x(1) this, of data] assms(4) [OF x(1) this]
  note a = header_byte(1) [OF h(1,2) assms(2) h(3), of S "F x"]
  show "\<exists>y. advances S data x y \<and> pos y = pos x + length [c] \<and> Q y"
    using a F by (intro exI [of _ "(F x)\<lparr> pos := pos x + 1 \<rparr>"]) simp
qed

section \<open>An application that listens\<close>

text \<open>
  What the callbacks hear.  A listener registers some of the callbacks; each of them passes the event to the
  application's function, returns 0 and leaves the parser as it is.  At the end of a message the callback is \<open>ends\<close>; what
  is required of it is stated below.
\<close>

datatype kind = KBegin | KUrl | KStatus | KField | KValue | KHeaders | KBody | KDone

datatype event =
    Begin | Url string | Status string | Name string | Value string | Headers | Body string
  | Asked http_method | Answered u16

fun kind_of :: "event \<Rightarrow> kind" where
  "kind_of Begin = KBegin"
| "kind_of (Url _) = KUrl"
| "kind_of (Status _) = KStatus"
| "kind_of (Name _) = KField"
| "kind_of (Value _) = KValue"
| "kind_of Headers = KHeaders"
| "kind_of (Body _) = KBody"
| "kind_of (Asked _) = KDone"
| "kind_of (Answered _) = KDone"

definition done_event :: "http_parser \<Rightarrow> event" where
  "done_event p = (if ptype p = HTTP_RESPONSE then Answered (status_code p) else Asked (pmethod p))"

record 'u listener =
  hears :: "kind \<Rightarrow> bool"
  takes :: "event \<Rightarrow> 'u \<Rightarrow> 'u"
  fin :: "http_parser \<Rightarrow> http_parser"
  ends :: "http_parser \<Rightarrow> 'u \<Rightarrow> int \<times> http_parser \<times> 'u"

definition reg :: "bool \<Rightarrow> 'a \<Rightarrow> 'a option" where
  "reg b a = (if b then Some a else None)"

definition hear :: "'u listener \<Rightarrow> event \<Rightarrow> 'u \<Rightarrow> 'u" where
  "hear L e u = (if hears L (kind_of e) then takes L e u else u)"

definition listening :: "'u listener \<Rightarrow> 'u settings" where
  "listening L =
     \<lparr> on_message_begin = reg (hears L KBegin) (\<lambda>p u. (0, p, takes L Begin u)),
       on_url = reg (hears L KUrl) (\<lambda>p d u. (0, p, takes L (Url d) u)),
       on_status = reg (hears L KStatus) (\<lambda>p d u. (0, p, takes L (Status d) u)),
       on_header_field = reg (hears L KField) (\<lambda>p d u. (0, p, takes L (Name d) u)),
       on_header_value = reg (hears L KValue) (\<lambda>p d u. (0, p, takes L (Value d) u)),
       on_headers_complete = reg (hears L KHeaders) (\<lambda>p u. (0, p, takes L Headers u)),
       on_body = reg (hears L KBody) (\<lambda>p d u. (0, p, takes L (Body d) u)),
       on_message_complete = reg (hears L KDone) (ends L),
       on_chunk_header = None, on_chunk_complete = None \<rparr>"

text \<open>The local state after an event: a registered callback is called with the state saved in the parser.\<close>

definition told :: "'u listener \<Rightarrow> event \<Rightarrow> 'u exec \<Rightarrow> 'u exec" where
  "told L e x = (if hears L (kind_of e) then (save_state x)\<lparr> usr := takes L e (usr x) \<rparr> else x)"

lemma told_simps [simp]:
  "st (told L e x) = st x" "pos (told L e x) = pos x" "usr (told L e x) = hear L e (usr x)"
  "no_marks (told L e x) = no_marks x" "in_header n (told L e x) = in_header n x"
  "ptype (par (told L e x)) = ptype (par x)" "flags (par (told L e x)) = flags (par x)"
  "header_state (par (told L e x)) = header_state (par x)" "index (par (told L e x)) = index (par x)"
  "nread (par (told L e x)) = nread (par x)" "content_length (par (told L e x)) = content_length (par x)"
  "http_major (par (told L e x)) = http_major (par x)" "http_minor (par (told L e x)) = http_minor (par x)"
  "status_code (par (told L e x)) = status_code (par x)" "pmethod (par (told L e x)) = pmethod (par x)"
  "http_errno (par (told L e x)) = http_errno (par x)" "upgrade (par (told L e x)) = upgrade (par x)"
  "pdata (par (told L e x)) = pdata (par x)" "lenient (told L e x) = lenient x"
  "header_field_mark (told L e x) = header_field_mark x" "header_value_mark (told L e x) = header_value_mark x"
  "url_mark (told L e x) = url_mark x" "body_mark (told L e x) = body_mark x" "status_mark (told L e x) = status_mark x"
  by (simp_all add: told_def save_state_def hear_def no_marks_def in_header_def)

lemma cb_begin_listening:
  "http_errno (par x) = HPE_OK \<Longrightarrow> cb_message_begin (listening L) er x k = k (told L Begin x)"
  by (cases x) (simp add: cb_message_begin_def CALLBACK_NOTIFY_def listening_def reg_def told_def save_state_def after_callback_def)

lemma cb_data_listening:
  assumes "http_errno (par x) = HPE_OK" "m = Some i" "kind_of (E (take (stop - i) (drop i data))) = K"
  shows "CALLBACK_DATA (reg (hears L K) (\<lambda>p d u. (0, p, takes L (E d) u))) e data m clear stop er x k
    = k (clear (told L (E (take (stop - i) (drop i data))) x))"
  using assms by (cases x) (simp add: CALLBACK_DATA_def reg_def told_def save_state_def after_callback_def Let_def)

lemma cb_url_listening:
  "http_errno (par x) = HPE_OK \<Longrightarrow> url_mark x = Some i \<Longrightarrow>
   cb_url (listening L) data er x k = k ((told L (Url (take (pos x - i) (drop i data))) x)\<lparr> url_mark := None \<rparr>)"
  unfolding cb_url_def listening_def settings.simps by (rule cb_data_listening) simp_all

lemma cb_status_listening:
  "http_errno (par x) = HPE_OK \<Longrightarrow> status_mark x = Some i \<Longrightarrow>
   cb_status (listening L) data er x k = k ((told L (Status (take (pos x - i) (drop i data))) x)\<lparr> status_mark := None \<rparr>)"
  unfolding cb_status_def listening_def settings.simps by (rule cb_data_listening) simp_all

lemma cb_field_listening:
  "http_errno (par x) = HPE_OK \<Longrightarrow> header_field_mark x = Some i \<Longrightarrow>
   cb_header_field (listening L) data er x k
     = k ((told L (Name (take (pos x - i) (drop i data))) x)\<lparr> header_field_mark := None \<rparr>)"
  unfolding cb_header_field_def listening_def settings.simps by (rule cb_data_listening) simp_all

lemma cb_value_listening:
  "http_errno (par x) = HPE_OK \<Longrightarrow> header_value_mark x = Some i \<Longrightarrow>
   cb_header_value (listening L) data er x k
     = k ((told L (Value (take (pos x - i) (drop i data))) x)\<lparr> header_value_mark := None \<rparr>)"
  unfolding cb_header_value_def listening_def settings.simps by (rule cb_data_listening) simp_all

lemma cb_body_listening:
  "http_errno (par x) = HPE_OK \<Longrightarrow> body_mark x = Some i \<Longrightarrow>
   cb_body (listening L) data stop er x k
     = k ((told L (Body (take (stop - i) (drop i data))) x)\<lparr> body_mark := None \<rparr>)"
  unfolding cb_body_def listening_def settings.simps by (rule cb_data_listening) simp_all


section \<open>The state between the parts of a message\<close>

text \<open>What a message has said so far, and what the application made of it.\<close>

record 'u said =
  sd_type :: http_parser_type
  sd_flags :: u8
  sd_length :: u64
  sd_major :: u16
  sd_minor :: u16
  sd_status :: u16
  sd_method :: http_method
  sd_data :: nat
  sd_user :: 'u

definition said_by :: "'u exec \<Rightarrow> 'u said" where
  "said_by x =
     \<lparr> sd_type = ptype (par x), sd_flags = flags (par x), sd_length = content_length (par x),
       sd_major = http_major (par x), sd_minor = http_minor (par x), sd_status = status_code (par x),
       sd_method = pmethod (par x), sd_data = pdata (par x), sd_user = usr x \<rparr>"

lemma said_byD:
  "said_by x = m \<Longrightarrow> ptype (par x) = sd_type m \<and> flags (par x) = sd_flags m \<and> content_length (par x) = sd_length m
    \<and> http_major (par x) = sd_major m \<and> http_minor (par x) = sd_minor m \<and> status_code (par x) = sd_status m
    \<and> pmethod (par x) = sd_method m \<and> pdata (par x) = sd_data m \<and> usr x = sd_user m"
  by (auto simp: said_by_def)

lemma said_told [simp]: "said_by (told L e x) = (said_by x)\<lparr> sd_user := hear L e (usr x) \<rparr>"
  by (simp add: said_by_def)

lemma counted_simps [simp]:
  "st (counted x) = st x" "pos (counted x) = pos x" "said_by (counted x) = said_by x" "usr (counted x) = usr x"
  "no_marks (counted x) = no_marks x" "lenient (counted x) = lenient x"
  "header_field_mark (counted x) = header_field_mark x" "header_value_mark (counted x) = header_value_mark x"
  "url_mark (counted x) = url_mark x" "body_mark (counted x) = body_mark x" "status_mark (counted x) = status_mark x"
  "pmethod (par (counted x)) = pmethod (par x)" "index (par (counted x)) = index (par x)"
  "header_state (par (counted x)) = header_state (par x)" "http_errno (par (counted x)) = http_errno (par x)"
  "flags (par (counted x)) = flags (par x)" "content_length (par (counted x)) = content_length (par x)"
  "ptype (par (counted x)) = ptype (par x)" "http_major (par (counted x)) = http_major (par x)"
  "http_minor (par (counted x)) = http_minor (par x)" "status_code (par (counted x)) = status_code (par x)"
  "pdata (par (counted x)) = pdata (par x)"
  by (simp_all add: counted_def upd_def said_by_def no_marks_def)

lemma goto_simps [simp]:
  "st (goto_state s x) = s" "pos (goto_state s x) = pos x" "said_by (goto_state s x) = said_by x"
  "usr (goto_state s x) = usr x" "par (goto_state s x) = par x"
  "no_marks (goto_state s x) = no_marks x" "in_header n (goto_state s x) = in_header n x"
  "header_field_mark (goto_state s x) = header_field_mark x" "header_value_mark (goto_state s x) = header_value_mark x"
  "url_mark (goto_state s x) = url_mark x" "body_mark (goto_state s x) = body_mark x"
  "status_mark (goto_state s x) = status_mark x"
  by (simp_all add: goto_state_def said_by_def no_marks_def in_header_def)

lemma upd_simps [simp]:
  "st (upd f x) = st x" "pos (upd f x) = pos x" "usr (upd f x) = usr x" "par (upd f x) = f (par x)"
  "no_marks (upd f x) = no_marks x"
  "header_field_mark (upd f x) = header_field_mark x" "header_value_mark (upd f x) = header_value_mark x"
  "url_mark (upd f x) = url_mark x" "body_mark (upd f x) = body_mark x" "status_mark (upd f x) = status_mark x"
  by (simp_all add: upd_def no_marks_def)

lemma pos_simps [simp]:
  "said_by (x\<lparr> pos := i \<rparr>) = said_by x" "no_marks (x\<lparr> pos := i \<rparr>) = no_marks x" "in_header n (x\<lparr> pos := i \<rparr>) = in_header n x"
  by (simp_all add: said_by_def no_marks_def in_header_def)

text \<open>In state \<open>s\<close> after \<open>n\<close> bytes of the header, with no data for a callback open.\<close>

definition ready :: "state \<Rightarrow> nat \<Rightarrow> 'u said \<Rightarrow> 'u exec \<Rightarrow> bool" where
  "ready s n m x \<longleftrightarrow> st x = s \<and> in_header n x \<and> said_by x = m \<and> no_marks x"

lemma ready_byte:
  assumes "PARSING_HEADER s" "n < HTTP_MAX_HEADER_SIZE"
    "\<And>data x. st x = s \<Longrightarrow> exec_char S data c x = Next (goto_state s' (upd f x))"
    "\<And>p. nread (f p) = nread p \<and> http_errno (f p) = http_errno p"
    "\<And>x. said_by (upd f x) = h (said_by x)"
  shows "reads S (ready s n m) [c] (ready s' (n + 1) (h m))"
  by (rule reads_byte [where F = "\<lambda>x. goto_state s' (upd f (counted x))" and n = n])
    (use assms in \<open>auto simp: ready_def in_header_def reexecute_Next\<close>)

section \<open>The request line\<close>

text \<open>After \<open>i\<close> letters of a method name.\<close>

definition naming :: "nat \<Rightarrow> nat \<Rightarrow> 'u said \<Rightarrow> 'u exec \<Rightarrow> bool" where
  "naming i n m x \<longleftrightarrow> ready s_req_method n m x \<and> unat (index (par x)) = i"

lemma first_letter:
  assumes "first_method c = Some k" "n < HTTP_MAX_HEADER_SIZE"
  shows "reads (listening L) (ready s_start_req n m) [c]
    (naming 1 (n + 1) (m\<lparr> sd_flags := 0, sd_length := ULLONG_MAX, sd_method := k, sd_user := hear L Begin (sd_user m) \<rparr>))"
proof -
  let ?G = "\<lambda>x. goto_state s_req_method (upd (\<lambda>p. p\<lparr> flags := 0, content_length := ULLONG_MAX, index := 1, pmethod := k \<rparr>) x)"
  have c: "\<not> is_crlf c" "IS_ALPHA c"
    using assms(1) by (auto simp: first_method_def IS_ALPHA_def LOWER_def code_def is_crlf_def split: if_splits)
  have "exec_char (listening L) data c x = Next (told L Begin (?G x))"
    if "st x = s_start_req" "http_errno (par x) = HPE_OK" for data x
    using that c assms(1)
    by (simp add: exec_char_def ex_start_req_def begin_message_def Let_def cb_begin_listening goto_state_def upd_def)
  then show ?thesis using assms(2)
    by (intro reads_byte [where F = "\<lambda>x. told L Begin (?G (counted x))" and n = n])
      (auto simp: naming_def ready_def in_header_def reexecute_Next PARSING_HEADER_def said_by_def)
qed

lemma next_letter:
  assumes "next_method (sd_method m) i c = Some k" "c \<noteq> SPC" "i \<le> length (method_string (sd_method m))"
    "n < HTTP_MAX_HEADER_SIZE"
  shows "reads S (naming i n m) [c] (naming (i + 1) (n + 1) (m\<lparr> sd_method := k \<rparr>))"
proof -
  have c: "c \<noteq> NUL"
    using assms(1) method_string_letters [of i "sd_method m"] by (auto simp: next_method_def may_switch_def code_def split: if_splits)
  have i: "i < 12" using assms(3) method_string_length [of "sd_method m"] by simp
  let ?F = "\<lambda>x. upd (\<lambda>p. p\<lparr> pmethod := k, index := index p + 1 \<rparr>) (counted x)"
  have "exec_char S data c (counted x) = Next (?F x)" if "naming i n m x" for data x
  proof -
    have x: "unat (index (par (counted x))) = i" "pmethod (par (counted x)) = sd_method m" "st (counted x) = s_req_method"
      using that said_byD [of x m] by (simp_all add: naming_def ready_def)
    show ?thesis using ex_req_method_letter [of "counted x" i c] x assms(1-3) c by (simp add: exec_char_def)
  qed
  then show ?thesis using assms(4) i
    by (intro reads_byte [where F = ?F and n = n])
      (auto simp: naming_def ready_def in_header_def reexecute_Next PARSING_HEADER_def said_by_def index_Suc)
qed

lemma method_letters:
  "method_run (sd_method m) i w = Some k \<Longrightarrow> SPC \<notin> set w \<Longrightarrow> i \<le> length (method_string (sd_method m)) \<Longrightarrow>
   n + length w \<le> HTTP_MAX_HEADER_SIZE \<Longrightarrow>
   reads S (naming i n m) w (naming (length (method_string k)) (n + length w) (m\<lparr> sd_method := k \<rparr>))"
proof (induction w arbitrary: i n m)
  case Nil
  then have "length (method_string k) = i" "m\<lparr> sd_method := k \<rparr> = m" by (auto split: if_splits)
  then show ?case by (simp add: reads_Nil)
next
  case (Cons c w)
  obtain k1 where k1: "next_method (sd_method m) i c = Some k1" "method_run k1 (i + 1) w = Some k"
    using Cons.prems(1) unfolding method_run_Cons by (auto split: option.splits)
  have "i + 1 \<le> length (method_string k1)"
    using k1(1) method_switch_prefix [of "sd_method m" i c k1] by (auto simp: next_method_def split: if_splits)
  then have "reads S (naming (i + 1) (n + 1) (m\<lparr> sd_method := k1 \<rparr>)) w
      (naming (length (method_string k)) (n + 1 + length w) (m\<lparr> sd_method := k1, sd_method := k \<rparr>))"
    using Cons.IH [of "m\<lparr> sd_method := k1 \<rparr>" "i + 1" "n + 1"] k1(2) Cons.prems(2,4) by simp
  moreover have "reads S (naming i n m) [c] (naming (i + 1) (n + 1) (m\<lparr> sd_method := k1 \<rparr>))"
    by (rule next_letter [OF k1(1)]) (use Cons.prems in auto)
  ultimately show ?case using reads_Cons by fastforce
qed

lemma method_end:
  assumes "n < HTTP_MAX_HEADER_SIZE"
  shows "reads S (naming (length (method_string (sd_method m))) n m) [SPC] (ready s_req_spaces_before_url (n + 1) m)"
proof -
  let ?F = "\<lambda>x. upd (index_update (\<lambda>i. i + 1)) (goto_state s_req_spaces_before_url (counted x))"
  have "exec_char S data SPC (counted x) = Next (?F x)" if "naming (length (method_string (sd_method m))) n m x" for data x
    using that said_byD [of x m]
    by (simp add: naming_def ready_def exec_char_def ex_req_method_def str_at_def)
  then show ?thesis using assms
    by (intro reads_byte [where F = ?F and n = n])
      (auto simp: naming_def ready_def in_header_def reexecute_Next PARSING_HEADER_def said_by_def)
qed

text \<open>What the message says when it begins with method \<open>k\<close>.\<close>

definition begun :: "'u listener \<Rightarrow> http_method \<Rightarrow> 'u said \<Rightarrow> 'u said" where
  "begun L k m = m\<lparr> sd_flags := 0, sd_length := ULLONG_MAX, sd_method := k, sd_user := hear L Begin (sd_user m) \<rparr>"

lemma method_reads:
  "reads (listening L) (ready s_start_req 0 m) (method_string k @ [SPC])
     (ready s_req_spaces_before_url (length (method_string k) + 1) (begun L k m))"
proof -
  have k: "method_of (method_string k) = Some k" by (simp add: method_of_iff)
  then obtain c w k0 where w: "method_string k = c # w" "first_method c = Some k0" "method_run k0 1 w = Some k"
    by (cases "method_string k") (auto split: option.splits)
  have "SPC \<notin> set (method_string k)" by (metis in_set_conv_nth method_string_letters)
  then have l: "length (method_string k) \<le> 12" "SPC \<notin> set w" "1 \<le> length (method_string k0)"
    using method_string_length [of k] method_string_length [of k0] w(1) by auto
  let ?m = "begun L k0 m"
  have 1: "reads (listening L) (ready s_start_req 0 m) [c] (naming 1 1 ?m)"
    using first_letter [OF w(2), of 0 L m] by (simp add: begun_def HTTP_MAX_HEADER_SIZE_def)
  have 2: "reads (listening L) (naming 1 1 ?m) w (naming (length (method_string k)) (1 + length w) (?m\<lparr> sd_method := k \<rparr>))"
    by (rule method_letters) (use w(1,3) l in \<open>auto simp: begun_def HTTP_MAX_HEADER_SIZE_def\<close>)
  have 3: "reads (listening L) (naming (length (method_string k)) (1 + length w) (?m\<lparr> sd_method := k \<rparr>)) [SPC]
      (ready s_req_spaces_before_url (1 + length w + 1) (?m\<lparr> sd_method := k \<rparr>))"
    using method_end [of "1 + length w" "listening L" "?m\<lparr> sd_method := k \<rparr>"] l(1) w(1)
    by (simp add: HTTP_MAX_HEADER_SIZE_def)
  have e: "?m\<lparr> sd_method := k \<rparr> = begun L k m" by (simp add: begun_def)
  show ?thesis using reads_append [OF reads_Cons [OF 1 2] 3] w(1) unfolding e by simp
qed


text \<open>Inside the target of a request, which began at \<open>i\<close>.\<close>

definition path_states :: "state set" where
  "path_states = {s_req_path, s_req_query_string_start, s_req_query_string, s_req_fragment_start, s_req_fragment}"

definition in_target :: "nat \<Rightarrow> nat \<Rightarrow> 'u said \<Rightarrow> 'u exec \<Rightarrow> bool" where
  "in_target i n m x \<longleftrightarrow>
     st x \<in> path_states \<and> in_header n x \<and> said_by x = m \<and> url_mark x = Some i
     \<and> header_field_mark x = None \<and> header_value_mark x = None \<and> body_mark x = None \<and> status_mark x = None"

definition path_char :: "char \<Rightarrow> bool" where
  "path_char c \<longleftrightarrow> IS_URL_CHAR c \<or> c = CHR ''?'' \<or> c = CHR ''#''"

lemma path_char_step:
  assumes "s \<in> path_states" "path_char c"
  shows "parse_url_char s c \<in> path_states" "c \<noteq> SPC" "\<not> is_crlf c"
proof -
  have c: "c \<notin> {SPC, TAB, CR, LF, FF}" using assms(2) url_char_not [of c] by (auto simp: path_char_def)
  then show "c \<noteq> SPC" "\<not> is_crlf c" by (auto simp: is_crlf_def)
  show "parse_url_char s c \<in> path_states"
    using assms c unfolding path_states_def path_char_def
    by (elim insertE emptyE disjE) (simp_all add: parse_url_char_def url_query_def)
qed

lemma path_states_header: "s \<in> path_states \<Longrightarrow> PARSING_HEADER s \<and> s \<noteq> s_dead"
  by (auto simp: path_states_def PARSING_HEADER_def)

lemma target_start:
  assumes "sd_method m \<noteq> HTTP_CONNECT" "n < HTTP_MAX_HEADER_SIZE"
  shows "reads S (\<lambda>x. ready s_req_spaces_before_url n m x \<and> pos x = i) [CHR ''/''] (in_target i (n + 1) m)"
proof -
  let ?F = "\<lambda>x. goto_state s_req_path ((counted x)\<lparr> url_mark := Some (pos x) \<rparr>)"
  have "exec_char S data (CHR ''/'') (counted x) = Next (?F x)" if "ready s_req_spaces_before_url n m x" for data x
    using that said_byD [of x m] assms(1)
    by (simp add: ready_def exec_char_def ex_req_spaces_before_url_def Let_def url_char_def parse_url_char_def mark_def
        no_marks_def goto_state_def)
  then show ?thesis using assms(2)
    by (intro reads_byte [where F = ?F and n = n])
      (auto simp: in_target_def ready_def in_header_def reexecute_Next PARSING_HEADER_def said_by_def path_states_def no_marks_def)
qed

lemma target_char:
  assumes "path_char c" "n < HTTP_MAX_HEADER_SIZE"
  shows "reads S (in_target i n m) [c] (in_target i (n + 1) m)"
proof -
  let ?F = "\<lambda>x. goto_state (parse_url_char (st x) c) (counted x)"
  have "exec_char S data c (counted x) = Next (?F x)" if "in_target i n m x" for data x
    using that path_char_step [OF _ assms(1), of "st x"] path_states_header [of "parse_url_char (st x) c"]
    by (auto simp: in_target_def exec_char_def ex_req_url_def url_char_def Let_def path_states_def)
  then show ?thesis using assms path_char_step [OF _ assms(1)]
    by (intro reads_byte [where F = ?F and n = n])
      (auto simp: in_target_def in_header_def reexecute_Next path_states_header said_by_def goto_state_def)
qed

lemma target_chars:
  "list_all path_char w \<Longrightarrow> n + length w \<le> HTTP_MAX_HEADER_SIZE \<Longrightarrow>
   reads S (in_target i n m) w (in_target i (n + length w) m)"
proof (induction w arbitrary: n)
  case Nil
  then show ?case by (simp add: reads_Nil)
next
  case (Cons c w)
  have "reads S (in_target i (n + 1) m) w (in_target i (n + 1 + length w) m)"
    by (rule Cons.IH) (use Cons.prems in auto)
  with target_char [of c n S i m] show ?case using Cons.prems reads_Cons by fastforce
qed

definition good_target :: "string \<Rightarrow> bool" where
  "good_target t \<longleftrightarrow> t \<noteq> [] \<and> hd t = CHR ''/'' \<and> list_all path_char (tl t)"

lemma target_reads:
  assumes "good_target t" "sd_method m \<noteq> HTTP_CONNECT" "n + length t < HTTP_MAX_HEADER_SIZE"
  shows "reads (listening L) (ready s_req_spaces_before_url n m) (t @ [SPC])
    (ready s_req_http_start (n + length t + 1) (m\<lparr> sd_user := hear L (Url t) (sd_user m) \<rparr>))"
proof (rule readsI)
  fix data rest x
  assume x: "ready s_req_spaces_before_url n m x" "drop (pos x) data = (t @ [SPC]) @ rest" "length data < 2 ^ 64"
  obtain w where w: "t = CHR ''/'' # w" "list_all path_char w"
    using assms(1) by (cases t) (auto simp: good_target_def)
  have "reads (listening L) (\<lambda>y. ready s_req_spaces_before_url n m y \<and> pos y = pos x) (CHR ''/'' # w)
      (in_target (pos x) (n + 1 + length w) m)"
    by (rule reads_Cons [OF target_start target_chars]) (use assms(2,3) w in auto)
  then obtain y where y: "advances (listening L) data x y" "pos y = pos x + length t" "in_target (pos x) (n + length t) m y"
      "drop (pos y) data = SPC # rest"
    by (rule readsE [of _ _ _ _ x data "SPC # rest"]) (use x w(1) in auto)
  let ?z = "(told L (Url t) (goto_state s_req_http_start (counted y)))\<lparr> url_mark := None \<rparr>"
  have t: "take (length t) (drop (pos x) data) = t" using x(2) by simp
  have "exec_char (listening L) data SPC (counted y) = ex_req_url (listening L) data SPC (counted y)"
    using y(3) by (auto simp: exec_char_def in_target_def path_states_def)
  also have "\<dots> = Next ?z"
    using y(2,3) t cb_url_listening [of "goto_state s_req_http_start (counted y)" "pos x" L data "pos y + 1" Next]
    by (simp add: ex_req_url_def in_target_def in_header_def goto_state_def)
  finally have e: "exec_char (listening L) data SPC (counted y) = Next ?z" .
  have p: "PARSING_HEADER (st y)" "in_header (n + length t) y" "n + length t < HTTP_MAX_HEADER_SIZE"
    using y(3) path_states_header [of "st y"] assms(3) by (auto simp: in_target_def)
  note a = header_byte [OF p y(4) reexecute_Next [OF e], simplified]
  have "ready s_req_http_start (n + length t + 1) (m\<lparr> sd_user := hear L (Url t) (sd_user m) \<rparr>) (?z\<lparr> pos := pos y + 1 \<rparr>)"
    using a(2) y(3) by (auto simp: ready_def in_target_def in_header_def no_marks_def said_by_def)
  then show "\<exists>z. advances (listening L) data x z \<and> pos z = pos x + length (t @ [SPC])
      \<and> ready s_req_http_start (n + length t + 1) (m\<lparr> sd_user := hear L (Url t) (sd_user m) \<rparr>) z"
    using advances_trans [OF y(1) a(1)] y(2) by (intro exI [of _ "?z\<lparr> pos := pos y + 1 \<rparr>"]) simp
qed


lemma ready_const:
  assumes "PARSING_HEADER s" "n < HTTP_MAX_HEADER_SIZE" "\<And>data x. st x = s \<Longrightarrow> exec_char S data c x = Next (goto_state s' x)"
  shows "reads S (ready s n m) [c] (ready s' (n + 1) m)"
  by (rule ready_byte [where f = "\<lambda>p. p" and h = "\<lambda>m. m"]) (use assms in \<open>simp_all add: upd_def\<close>)

lemma version_byte:
  assumes "n < HTTP_MAX_HEADER_SIZE"
  shows "reads S (ready s_req_http_start n m) [CHR ''H''] (ready s_req_http_H (n + 1) m)"
    "reads S (ready s_req_http_H n m) [CHR ''T''] (ready s_req_http_HT (n + 1) m)"
    "reads S (ready s_req_http_HT n m) [CHR ''T''] (ready s_req_http_HTT (n + 1) m)"
    "reads S (ready s_req_http_HTT n m) [CHR ''P''] (ready s_req_http_HTTP (n + 1) m)"
    "reads S (ready s_req_http_HTTP n m) [CHR ''/''] (ready s_req_http_major (n + 1) m)"
    "reads S (ready s_req_http_dot n m) [CHR ''.''] (ready s_req_http_minor (n + 1) m)"
    "reads S (ready s_req_http_end n m) [CR] (ready s_req_line_almost_done (n + 1) m)"
    "reads S (ready s_req_line_almost_done n m) [LF] (ready s_header_field_start (n + 1) m)"
  by (rule ready_const [OF _ assms];
      simp add: PARSING_HEADER_def exec_char_def ex_req_http_def ex_const_def STRICT_CHECK_def)+

lemma version_digit:
  assumes "n < HTTP_MAX_HEADER_SIZE"
  shows "reads S (ready s_req_http_major n m) [CHR ''1''] (ready s_req_http_dot (n + 1) (m\<lparr> sd_major := 1 \<rparr>))"
    "reads S (ready s_req_http_minor n m) [CHR ''1''] (ready s_req_http_end (n + 1) (m\<lparr> sd_minor := 1 \<rparr>))"
  by (rule ready_byte [OF _ assms, where f = "http_major_update (\<lambda>_. 1)"] ready_byte [OF _ assms, where f = "http_minor_update (\<lambda>_. 1)"];
      simp add: PARSING_HEADER_def exec_char_def ex_req_http_def IS_NUM_def isdigit_def code_def digit16_def said_by_def)+

lemma version_reads:
  assumes "n + 10 \<le> HTTP_MAX_HEADER_SIZE"
  shows "reads S (ready s_req_http_start n m) (''HTTP/1.1'' @ CRLF)
    (ready s_header_field_start (n + 10) (m\<lparr> sd_major := 1, sd_minor := 1 \<rparr>))"
proof -
  have "reads S (ready s_req_http_start n m) [CHR ''H'', CHR ''T'', CHR ''T'', CHR ''P'', CHR ''/'', CHR ''1'', CHR ''.'', CHR ''1'', CR, LF]
    (ready s_header_field_start (n + 1 + 1 + 1 + 1 + 1 + 1 + 1 + 1 + 1 + 1) (m\<lparr> sd_major := 1 \<rparr>\<lparr> sd_minor := 1 \<rparr>))"
    by (intro reads_Cons [OF version_byte(1)] reads_Cons [OF version_byte(2)] reads_Cons [OF version_byte(3)]
        reads_Cons [OF version_byte(4)] reads_Cons [OF version_byte(5)] reads_Cons [OF version_digit(1)]
        reads_Cons [OF version_byte(6)] reads_Cons [OF version_digit(2)] reads_Cons [OF version_byte(7)] version_byte(8))
      (use assms in linarith)+
  moreover have "n + 1 + 1 + 1 + 1 + 1 + 1 + 1 + 1 + 1 + 1 = n + 10" by presburger
  ultimately show ?thesis by (simp only: append_Cons append_Nil)
qed

end
