(* ===== verification/HttpFields.thy ===== *)
theory HttpFields
  imports HttpRuns
begin

text \<open>
  Header lines: which names the parser recognises, where it takes a value to end, and what a line adds to what a message
  has said.
\<close>

section \<open>Header names\<close>

text \<open>The names that steer the parser, and the state in which a name leaves it.\<close>

definition framing_names :: "string list" where
  "framing_names = [CONNECTION, PROXY_CONNECTION, CONTENT_LENGTH, TRANSFER_ENCODING, UPGRADE]"

definition name_state :: "string \<Rightarrow> header_state" where
  "name_state w =
     (if w = CONNECTION \<or> w = PROXY_CONNECTION then h_connection
      else if w = CONTENT_LENGTH then h_content_length
      else if w = TRANSFER_ENCODING then h_transfer_encoding
      else if w = UPGRADE then h_upgrade
      else h_general)"

definition lowered :: "string \<Rightarrow> string" where
  "lowered w = map (\<lambda>c. char_of (TOKEN c)) w"

text \<open>In state \<open>h\<close> with index \<open>i\<close> after the letters \<open>w\<close> of a name.\<close>

definition partway :: "string \<Rightarrow> nat \<Rightarrow> string \<Rightarrow> nat \<Rightarrow> bool" where
  "partway w i str low \<longleftrightarrow> w = take (i + 1) str \<and> low \<le> i \<and> i + 1 < length str"

definition in_name :: "string \<Rightarrow> nat \<Rightarrow> header_state \<Rightarrow> bool" where
  "in_name w i h \<longleftrightarrow>
     (case h of
        h_general \<Rightarrow> (\<forall>str \<in> set framing_names. take (length w) str \<noteq> w)
      | h_C \<Rightarrow> w = ''c'' \<and> i = 0
      | h_CO \<Rightarrow> w = ''co'' \<and> i = 1
      | h_CON \<Rightarrow> w = ''con'' \<and> i = 2
      | h_matching_connection \<Rightarrow> partway w i CONNECTION 3
      | h_matching_proxy_connection \<Rightarrow> partway w i PROXY_CONNECTION 0
      | h_matching_content_length \<Rightarrow> partway w i CONTENT_LENGTH 3
      | h_matching_transfer_encoding \<Rightarrow> partway w i TRANSFER_ENCODING 0
      | h_matching_upgrade \<Rightarrow> partway w i UPGRADE 0
      | h_connection \<Rightarrow> w = CONNECTION \<or> w = PROXY_CONNECTION
      | h_content_length \<Rightarrow> w = CONTENT_LENGTH
      | h_transfer_encoding \<Rightarrow> w = TRANSFER_ENCODING
      | h_upgrade \<Rightarrow> w = UPGRADE
      | _ \<Rightarrow> False)"

lemmas name_strings = CONNECTION_def PROXY_CONNECTION_def CONTENT_LENGTH_def TRANSFER_ENCODING_def UPGRADE_def

lemma partway_miss:
  assumes "partway w i str low" "str ! (i + 1) \<noteq> c"
    "\<And>s. s \<in> set framing_names \<Longrightarrow> s \<noteq> str \<Longrightarrow> take (low + 1) s \<noteq> take (low + 1) str"
  shows "\<forall>s \<in> set framing_names. take (length (w @ [c])) s \<noteq> w @ [c]"
proof
  fix s
  assume s: "s \<in> set framing_names"
  have w: "w = take (i + 1) str" "low \<le> i" "i + 1 < length str" using assms(1) by (simp_all add: partway_def)
  then have l: "length (w @ [c]) = i + 2" by simp
  show "take (length (w @ [c])) s \<noteq> w @ [c]"
  proof
    assume e: "take (length (w @ [c])) s = w @ [c]"
    show False
    proof (cases "s = str")
      case True
      have "take (i + 2) str ! (i + 1) = (w @ [c]) ! (i + 1)" using e l True by simp
      then show False using w assms(2) by (simp add: nth_append)
    next
      case False
      have "take (low + 1) (take (i + 2) s) = take (low + 1) (w @ [c])" using e l by simp
      then have "take (low + 1) s = take (low + 1) str" using w by (simp add: min_def split: if_splits)
      then show False using assms(3) [OF s False] by simp
    qed
  qed
qed

lemma partway_hit:
  assumes "partway w i str low" "str ! (i + 1) = c"
  shows "if i + 2 = length str then w @ [c] = str else partway (w @ [c]) (i + 1) str low"
proof -
  have w: "w = take (i + 1) str" "low \<le> i" "i + 1 < length str" using assms(1) by (simp_all add: partway_def)
  then have "take (i + 2) str = w @ [c]" using take_Suc_conv_app_nth [of "i + 1" str] assms(2) by simp
  then show ?thesis using w by (auto simp: partway_def)
qed

lemma TOKEN_less: "TOKEN c < 256"
proof -
  have "\<forall>n \<in> set tokens. n < 256" by (simp add: tokens_def)
  moreover have "length tokens = 256" by (simp add: tokens_def)
  ultimately show ?thesis using code_less [of c] by (simp add: TOKEN_def)
qed


lemma match_field_partway:
  assumes "partway w i str low" "unat (index p) = i" "length str < 20"
  shows "header_state (match_field str f c p) =
      (if str ! (i + 1) \<noteq> char_of c then h_general else if i + 2 = length str then f else header_state p)"
    "unat (index (match_field str f c p)) = i + 1"
proof -
  have w: "i + 1 < length str" using assms(1) by (simp add: partway_def)
  then have n: "unat (index p + 1) = i + 1" using assms(2,3) by (simp add: index_Suc)
  have m: "match_name str f h_general (i + 1) c =
      (if str ! (i + 1) \<noteq> char_of c then Some h_general else if i + 2 = length str then Some f else None)"
    using w by (auto simp: match_name_def str_at_def)
  show "header_state (match_field str f c p) =
      (if str ! (i + 1) \<noteq> char_of c then h_general else if i + 2 = length str then f else header_state p)"
    using n m by (simp add: match_field_def Let_def)
  show "unat (index (match_field str f c p)) = i + 1"
    using n m by (simp add: match_field_def Let_def split: option.split)
qed

lemma in_name_match:
  assumes "partway w (unat (index p)) str low" "length str < 20" "header_state p = h"
    "\<And>s. s \<in> set framing_names \<Longrightarrow> s \<noteq> str \<Longrightarrow> take (low + 1) s \<noteq> take (low + 1) str"
    "\<And>w i. partway w i str low \<Longrightarrow> in_name w i h" "\<And>i. in_name str i f"
  shows "in_name (w @ [char_of c]) (unat (index (match_field str f c p))) (header_state (match_field str f c p))"
proof -
  let ?i = "unat (index p)"
  note m = match_field_partway [OF assms(1) refl assms(2), of f c]
  show ?thesis
  proof (cases "str ! (?i + 1) = char_of c")
    case True
    then show ?thesis using m partway_hit [OF assms(1) True] assms(3,5,6) by (auto split: if_splits)
  next
    case False
    then show ?thesis using m partway_miss [OF assms(1) False assms(4)] by (simp add: in_name_def)
  qed
qed

lemma in_name_longer:
  "\<forall>s \<in> set framing_names. take (length w) s \<noteq> w \<Longrightarrow> \<forall>s \<in> set framing_names. take (length (w @ [c])) s \<noteq> w @ [c]"
  by (metis append_eq_conv_conj append_take_drop_id append.assoc)

lemma match_field_shape:
  "match_field str f c p = p\<lparr> index := index (match_field str f c p), header_state := header_state (match_field str f c p) \<rparr>"
  by (cases p) (simp add: match_field_def Let_def split: option.split)

lemma names_differ:
  "s \<in> set framing_names \<Longrightarrow> s \<noteq> CONNECTION \<Longrightarrow> take (3 + 1) s \<noteq> take (3 + 1) CONNECTION"
  "s \<in> set framing_names \<Longrightarrow> s \<noteq> CONTENT_LENGTH \<Longrightarrow> take (3 + 1) s \<noteq> take (3 + 1) CONTENT_LENGTH"
  "s \<in> set framing_names \<Longrightarrow> s \<noteq> PROXY_CONNECTION \<Longrightarrow> take (0 + 1) s \<noteq> take (0 + 1) PROXY_CONNECTION"
  "s \<in> set framing_names \<Longrightarrow> s \<noteq> TRANSFER_ENCODING \<Longrightarrow> take (0 + 1) s \<noteq> take (0 + 1) TRANSFER_ENCODING"
  "s \<in> set framing_names \<Longrightarrow> s \<noteq> UPGRADE \<Longrightarrow> take (0 + 1) s \<noteq> take (0 + 1) UPGRADE"
proof -
  have "\<forall>s \<in> set framing_names. s = CONNECTION \<or> take (3 + 1) s \<noteq> take (3 + 1) CONNECTION"
    "\<forall>s \<in> set framing_names. s = CONTENT_LENGTH \<or> take (3 + 1) s \<noteq> take (3 + 1) CONTENT_LENGTH"
    "\<forall>s \<in> set framing_names. s = PROXY_CONNECTION \<or> take (0 + 1) s \<noteq> take (0 + 1) PROXY_CONNECTION"
    "\<forall>s \<in> set framing_names. s = TRANSFER_ENCODING \<or> take (0 + 1) s \<noteq> take (0 + 1) TRANSFER_ENCODING"
    "\<forall>s \<in> set framing_names. s = UPGRADE \<or> take (0 + 1) s \<noteq> take (0 + 1) UPGRADE"
    by code_simp+
  then show
    "s \<in> set framing_names \<Longrightarrow> s \<noteq> CONNECTION \<Longrightarrow> take (3 + 1) s \<noteq> take (3 + 1) CONNECTION"
    "s \<in> set framing_names \<Longrightarrow> s \<noteq> CONTENT_LENGTH \<Longrightarrow> take (3 + 1) s \<noteq> take (3 + 1) CONTENT_LENGTH"
    "s \<in> set framing_names \<Longrightarrow> s \<noteq> PROXY_CONNECTION \<Longrightarrow> take (0 + 1) s \<noteq> take (0 + 1) PROXY_CONNECTION"
    "s \<in> set framing_names \<Longrightarrow> s \<noteq> TRANSFER_ENCODING \<Longrightarrow> take (0 + 1) s \<noteq> take (0 + 1) TRANSFER_ENCODING"
    "s \<in> set framing_names \<Longrightarrow> s \<noteq> UPGRADE \<Longrightarrow> take (0 + 1) s \<noteq> take (0 + 1) UPGRADE"
    by blast+
qed

lemma in_name_simps:
  "in_name w i h_matching_connection = partway w i CONNECTION 3"
  "in_name w i h_matching_content_length = partway w i CONTENT_LENGTH 3"
  "in_name w i h_matching_proxy_connection = partway w i PROXY_CONNECTION 0"
  "in_name w i h_matching_transfer_encoding = partway w i TRANSFER_ENCODING 0"
  "in_name w i h_matching_upgrade = partway w i UPGRADE 0"
  "in_name w i h_connection \<longleftrightarrow> w = CONNECTION \<or> w = PROXY_CONNECTION" "in_name w i h_content_length \<longleftrightarrow> w = CONTENT_LENGTH"
  "in_name w i h_transfer_encoding \<longleftrightarrow> w = TRANSFER_ENCODING" "in_name w i h_upgrade \<longleftrightarrow> w = UPGRADE"
  by (simp_all add: in_name_def)

lemma names_short: "length CONNECTION < 20" "length CONTENT_LENGTH < 20" "length PROXY_CONNECTION < 20"
    "length TRANSFER_ENCODING < 20" "length UPGRADE < 20"
  by (simp_all add: name_strings)

lemma in_name_matching:
  assumes "in_name w (unat (index p)) (header_state p)"
  shows
    "header_state p = h_matching_connection \<Longrightarrow>
      in_name (w @ [char_of c]) (unat (index (match_field CONNECTION h_connection c p))) (header_state (match_field CONNECTION h_connection c p))"
    "header_state p = h_matching_content_length \<Longrightarrow>
      in_name (w @ [char_of c]) (unat (index (match_field CONTENT_LENGTH h_content_length c p))) (header_state (match_field CONTENT_LENGTH h_content_length c p))"
    "header_state p = h_matching_proxy_connection \<Longrightarrow>
      in_name (w @ [char_of c]) (unat (index (match_field PROXY_CONNECTION h_connection c p))) (header_state (match_field PROXY_CONNECTION h_connection c p))"
    "header_state p = h_matching_transfer_encoding \<Longrightarrow>
      in_name (w @ [char_of c]) (unat (index (match_field TRANSFER_ENCODING h_transfer_encoding c p))) (header_state (match_field TRANSFER_ENCODING h_transfer_encoding c p))"
    "header_state p = h_matching_upgrade \<Longrightarrow>
      in_name (w @ [char_of c]) (unat (index (match_field UPGRADE h_upgrade c p))) (header_state (match_field UPGRADE h_upgrade c p))"
  using assms
  by (auto simp: in_name_simps intro!: in_name_match [OF _ names_short(1) _ names_differ(1)] in_name_match [OF _ names_short(2) _ names_differ(2)]
      in_name_match [OF _ names_short(3) _ names_differ(3)] in_name_match [OF _ names_short(4) _ names_differ(4)]
      in_name_match [OF _ names_short(5) _ names_differ(5)])

lemma TOKEN_SPC: "TOKEN SPC = 0"
  by code_simp

lemma in_name_step:
  assumes "in_name w (unat (index p)) (header_state p)" "TOKEN ch \<noteq> 0"
  shows "\<exists>p'. field_step ch (TOKEN ch) p = Some p'
    \<and> in_name (w @ [char_of (TOKEN ch)]) (unat (index p')) (header_state p')
    \<and> p' = p\<lparr> index := index p', header_state := header_state p' \<rparr>"
proof -
  obtain t where t: "TOKEN ch = code t" "char_of (TOKEN ch) = t" using code_char_of [OF TOKEN_less [of ch]] by metis
  have ch: "ch \<noteq> SPC" using assms(2) TOKEN_SPC by auto
  show ?thesis
  proof (cases "header_state p")
    case h_general
    then show ?thesis using assms(1) in_name_longer [of w t] t by (simp add: field_step_def in_name_def)
  next
    case h_C
    then show ?thesis using assms(1) t
      by (auto simp: field_step_def in_name_def framing_names_def name_strings index_Suc)
  next
    case h_CO
    then show ?thesis using assms(1) t
      by (auto simp: field_step_def in_name_def framing_names_def name_strings index_Suc)
  next
    case h_CON
    then show ?thesis using assms(1) t
      by (auto simp: field_step_def in_name_def framing_names_def name_strings index_Suc partway_def)
  next
    case h_matching_connection
    then show ?thesis using in_name_matching(1) [OF assms(1), of "TOKEN ch"] match_field_shape [of CONNECTION]
      by (simp add: field_step_def)
  next
    case h_matching_content_length
    then show ?thesis using in_name_matching(2) [OF assms(1), of "TOKEN ch"] match_field_shape [of CONTENT_LENGTH]
      by (simp add: field_step_def)
  next
    case h_matching_proxy_connection
    then show ?thesis using in_name_matching(3) [OF assms(1), of "TOKEN ch"] match_field_shape [of PROXY_CONNECTION]
      by (simp add: field_step_def)
  next
    case h_matching_transfer_encoding
    then show ?thesis using in_name_matching(4) [OF assms(1), of "TOKEN ch"] match_field_shape [of TRANSFER_ENCODING]
      by (simp add: field_step_def)
  next
    case h_matching_upgrade
    then show ?thesis using in_name_matching(5) [OF assms(1), of "TOKEN ch"] match_field_shape [of UPGRADE]
      by (simp add: field_step_def)
  qed (use assms(1) ch t in \<open>auto simp: field_step_def in_name_def framing_names_def name_strings\<close>)
qed


lemma partway_not_name:
  assumes "partway w i str low" "\<And>s. s \<in> set framing_names \<Longrightarrow> s \<noteq> str \<Longrightarrow> take (low + 1) s \<noteq> take (low + 1) str"
  shows "w \<notin> set framing_names"
proof
  assume w: "w \<in> set framing_names"
  have p: "w = take (i + 1) str" "low \<le> i" "i + 1 < length str" using assms(1) by (simp_all add: partway_def)
  then have "length w < length str" by simp
  then have "w \<noteq> str" by auto
  moreover have "take (low + 1) w = take (low + 1) str" using p(1,2) by (simp add: min_def)
  ultimately show False using assms(2) [OF w] by simp
qed

text \<open>The state after a name says which of the names it was.\<close>

definition recognised :: "header_state \<Rightarrow> header_state" where
  "recognised h = (if h \<in> {h_connection, h_content_length, h_transfer_encoding, h_upgrade} then h else h_general)"

lemma name_state_general: "w \<notin> set framing_names \<Longrightarrow> name_state w = h_general"
  by (simp add: name_state_def framing_names_def)

lemma recognised_name: "in_name w i h \<Longrightarrow> recognised h = name_state w"
proof (cases h)
  assume h: "h = h_general" "in_name w i h"
  then have "w \<notin> set framing_names" by (force simp: in_name_def)
  then show ?thesis using h by (simp add: recognised_def name_state_general)
next
  assume h: "h = h_C" "in_name w i h"
  then show ?thesis by (simp add: recognised_def name_state_def in_name_def name_strings)
next
  assume h: "h = h_CO" "in_name w i h"
  then show ?thesis by (simp add: recognised_def name_state_def in_name_def name_strings)
next
  assume h: "h = h_CON" "in_name w i h"
  then show ?thesis by (simp add: recognised_def name_state_def in_name_def name_strings)
next
  assume h: "h = h_matching_connection" "in_name w i h"
  then show ?thesis
    using partway_not_name [OF _ names_differ(1)] by (simp add: recognised_def in_name_simps name_state_general)
next
  assume h: "h = h_matching_content_length" "in_name w i h"
  then show ?thesis
    using partway_not_name [OF _ names_differ(2)] by (simp add: recognised_def in_name_simps name_state_general)
next
  assume h: "h = h_matching_proxy_connection" "in_name w i h"
  then show ?thesis
    using partway_not_name [OF _ names_differ(3)] by (simp add: recognised_def in_name_simps name_state_general)
next
  assume h: "h = h_matching_transfer_encoding" "in_name w i h"
  then show ?thesis
    using partway_not_name [OF _ names_differ(4)] by (simp add: recognised_def in_name_simps name_state_general)
next
  assume h: "h = h_matching_upgrade" "in_name w i h"
  then show ?thesis
    using partway_not_name [OF _ names_differ(5)] by (simp add: recognised_def in_name_simps name_state_general)
qed (auto simp: recognised_def name_state_def in_name_def name_strings)

lemma field_loop_name:
  "list_all (\<lambda>c. TOKEN c \<noteq> 0) v \<Longrightarrow> TOKEN e = 0 \<Longrightarrow> in_name w (unat (index p)) (header_state p) \<Longrightarrow>
   \<exists>p'. field_loop (v @ e # rest) ch p k = Some (p', e, k + length v)
     \<and> in_name (w @ lowered v) (unat (index p')) (header_state p')
     \<and> p' = p\<lparr> index := index p', header_state := header_state p' \<rparr>"
proof (induction v arbitrary: w p ch k)
  case Nil
  then show ?case by (simp add: lowered_def)
next
  case (Cons c v)
  obtain p1 where p1: "field_step c (TOKEN c) p = Some p1"
      "in_name (w @ [char_of (TOKEN c)]) (unat (index p1)) (header_state p1)"
      "p1 = p\<lparr> index := index p1, header_state := header_state p1 \<rparr>"
    using in_name_step [OF Cons.prems(3), of c] Cons.prems(1) by auto
  obtain p2 where p2: "field_loop (v @ e # rest) c p1 (k + 1) = Some (p2, e, k + 1 + length v)"
      "in_name ((w @ [char_of (TOKEN c)]) @ lowered v) (unat (index p2)) (header_state p2)"
      "p2 = p1\<lparr> index := index p2, header_state := header_state p2 \<rparr>"
    using Cons.IH [OF _ Cons.prems(2) p1(2), of c "k + 1"] Cons.prems(1) by auto
  have "p2 = p\<lparr> index := index p2, header_state := header_state p2 \<rparr>"
    by (subst p2(3), subst p1(3)) simp
  then show ?case using p1(1) p2 Cons.prems(1) by (simp add: lowered_def)
qed

text \<open>The first letter of a name.\<close>

lemma first_field_letter:
  assumes "TOKEN c \<noteq> 0" "\<not> is_crlf c"
  shows "\<exists>h. ex_header_field_start c x =
      Next (goto_state s_header_field
        (upd (\<lambda>p. p\<lparr> index := 0, header_state := h \<rparr>) (x\<lparr> header_field_mark := mark (pos x) (header_field_mark x) \<rparr>)))
    \<and> in_name (lowered [c]) 0 h"
proof -
  obtain t where t: "TOKEN c = code t" "char_of (TOKEN c) = t" using code_char_of [OF TOKEN_less [of c]] by metis
  let ?h = "if t = CHR ''c'' then h_C else if t = CHR ''p'' then h_matching_proxy_connection
    else if t = CHR ''t'' then h_matching_transfer_encoding else if t = CHR ''u'' then h_matching_upgrade else h_general"
  have "ex_header_field_start c x =
      Next (goto_state s_header_field
        (upd (\<lambda>p. p\<lparr> index := 0, header_state := ?h \<rparr>) (x\<lparr> header_field_mark := mark (pos x) (header_field_mark x) \<rparr>)))"
    using assms t by (simp add: ex_header_field_start_def is_crlf_def Let_def goto_state_def upd_def)
  moreover have "in_name [t] 0 ?h" by (simp add: in_name_def partway_def framing_names_def name_strings)
  ultimately show ?thesis using t by (intro exI [of _ ?h]) (simp add: lowered_def)
qed


section \<open>Header lines\<close>

text \<open>
  At the start of a header line.  The parser may still have to look at this line before it knows that the value of the
  line before it is over; then the flag of that value, and an empty value, are still to be recorded.
\<close>

definition line :: "'u listener \<Rightarrow> nat \<Rightarrow> 'u said \<Rightarrow> 'u exec \<Rightarrow> bool" where
  "line L n m x \<longleftrightarrow> in_header n x \<and> no_marks x \<and>
     (st x = s_header_field_start \<and> said_by x = m
      \<or> st x = s_header_value_lws \<and> said_by (set_token_flag x) = m
      \<or> st x = s_header_value_discard_lws
         \<and> (said_by (set_token_flag x))\<lparr> sd_user := hear L (Value []) (usr x) \<rparr> = m)"

lemma set_token_flag_simps [simp]:
  "st (set_token_flag x) = st x" "pos (set_token_flag x) = pos x" "usr (set_token_flag x) = usr x"
  "in_header n (set_token_flag x) = in_header n x" "no_marks (set_token_flag x) = no_marks x"
  "said_by (set_token_flag (x\<lparr> pos := i \<rparr>)) = said_by (set_token_flag x)"
  "said_by (set_token_flag (counted x)) = said_by (set_token_flag x)"
  "said_by (set_token_flag (goto_state s x)) = said_by (set_token_flag x)"
  by (simp_all add: set_token_flag_def in_header_def said_by_def)

lemma reexecute_again: "exec_char S data c x = Reexec y d \<Longrightarrow> reexecute (Suc n) S data c x = reexecute n S data d y"
  by simp

lemma line_first:
  assumes "line L n m x" "c \<noteq> SPC" "c \<noteq> TAB" "in_header (n + 1) (counted x)"
  obtains y k where "reexecute 8 (listening L) data c (counted x) = reexecute (k + 3) (listening L) data c y"
    "ready s_header_field_start (n + 1) m y" "pos y = pos x"
proof -
  have m: "no_marks x" using assms(1) by (simp add: line_def)
  have eight: "8 = Suc (4 + 3)" "5 + 3 = (8 :: nat)" by simp_all
  consider "st x = s_header_field_start" "said_by x = m"
    | "st x = s_header_value_lws" "said_by (set_token_flag x) = m"
    | "st x = s_header_value_discard_lws" "(said_by (set_token_flag x))\<lparr> sd_user := hear L (Value []) (usr x) \<rparr> = m"
    using assms(1) by (auto simp: line_def)
  then show ?thesis
  proof cases
    case 1
    then show ?thesis using that [of 5 "counted x"] eight(2) assms(4) m by (simp add: ready_def)
  next
    case 2
    let ?y = "goto_state s_header_field_start (set_token_flag (counted x))"
    have "exec_char (listening L) data c (counted x) = Reexec ?y c"
      using 2(1) assms(2,3) by (simp add: exec_char_def ex_header_value_lws_def)
    then have "reexecute 8 (listening L) data c (counted x) = reexecute (4 + 3) (listening L) data c ?y"
      unfolding eight(1) by (rule reexecute_again)
    then show ?thesis using that [of 4 ?y] 2(2) assms(4) m by (simp add: ready_def)
  next
    case 3
    let ?z = "goto_state s_header_field_start ((set_token_flag (counted x))\<lparr> header_value_mark := Some (pos x) \<rparr>)"
    let ?y = "(told L (Value []) ?z)\<lparr> header_value_mark := None \<rparr>"
    have v: "header_value_mark (set_token_flag (counted x)) = None"
      using m by (simp add: set_token_flag_def upd_def no_marks_def)
    have z: "http_errno (par ?z) = HPE_OK" "header_value_mark ?z = Some (pos x)" "pos ?z = pos x"
      using assms(4) by (simp_all add: in_header_def set_token_flag_def)
    have "exec_char (listening L) data c (counted x) = Reexec ?y c"
      using 3(1) assms(2,3) v cb_value_listening [OF z(1,2), of L data "pos x" "\<lambda>y. Reexec y c"] z(3)
      by (simp add: exec_char_def ex_header_value_discard_lws_def Let_def mark_def)
    then have "reexecute 8 (listening L) data c (counted x) = reexecute (4 + 3) (listening L) data c ?y"
      unfolding eight(1) by (rule reexecute_again)
    moreover have "ready s_header_field_start (n + 1) m ?y"
      using 3(2) assms(4) m by (auto simp: ready_def in_header_def no_marks_def said_by_def set_token_flag_def)
    ultimately show ?thesis using that [of 4 ?y] by simp
  qed
qed

text \<open>In front of the value of a header called \<open>w\<close>.\<close>

definition named :: "string \<Rightarrow> nat \<Rightarrow> 'u said \<Rightarrow> 'u exec \<Rightarrow> bool" where
  "named w n m x \<longleftrightarrow> ready s_header_value_discard_ws n m x \<and> (\<exists>i. in_name w i (header_state (par x)))"

text \<open>The rest of a name, from its second letter to the colon.\<close>

lemma rest_of_name:
  assumes "st x = s_header_field" "in_header n x" "header_field_mark x = Some i" "said_by x = m"
    "header_value_mark x = None" "url_mark x = None" "body_mark x = None" "status_mark x = None"
    "in_name w (unat (index (par x))) (header_state (par x))" "list_all (\<lambda>c. TOKEN c \<noteq> 0) v"
    "drop (pos x) data = v @ CHR '':'' # rest" "n + length v + 1 \<le> HTTP_MAX_HEADER_SIZE"
    "take (pos x + length v - i) (drop i data) = name"
  shows "\<exists>y. advances (listening L) data x y \<and> pos y = pos x + length v + 1
    \<and> named (w @ lowered v) (n + length v + 1) (m\<lparr> sd_user := hear L (Name name) (sd_user m) \<rparr>) y"
proof -
  have colon: "TOKEN (CHR '':'') = 0" by code_simp
  obtain c cs where c: "drop (pos x) data = c # cs" using assms(11) by (cases v) auto
  let ?x = "counted x"
  obtain j h where p: "field_loop (v @ CHR '':'' # rest) c (par ?x) 0
        = Some ((par ?x)\<lparr> index := j, header_state := h \<rparr>, CHR '':'', length v)"
      "in_name (w @ lowered v) (unat j) h"
    using field_loop_name [OF assms(10) colon, of w "par ?x" rest c 0] assms(9) by auto
  let ?p = "(par ?x)\<lparr> index := j, header_state := h \<rparr>"
  have "in_header (n + 1) ?x" using assms(2,12)
    by (simp add: in_header_def counted_def unat_word_ariths HTTP_MAX_HEADER_SIZE_def)
  then have h: "unat (nread (par ?x)) = n + 1" "http_errno (par ?x) = HPE_OK" by (simp_all add: in_header_def)
  let ?y = "?x\<lparr> par := ?p, pos := pos x + length v \<rparr>"
  have y: "unat (nread (par ?y)) + length v \<le> HTTP_MAX_HEADER_SIZE" "http_errno (par ?y) = HPE_OK"
    "unat (nread (par ?y)) = n + 1"
    using h assms(12) by simp_all
  note cnt = count_header_fits [OF y(1)]
  let ?z = "goto_state s_header_value_discard_ws (upd (nread_update (\<lambda>n. n + of_nat (length v))) ?y)"
  let ?w = "(told L (Name name) ?z)\<lparr> header_field_mark := None \<rparr>"
  have z: "http_errno (par ?z) = HPE_OK" "header_field_mark ?z = Some i" "pos ?z = pos x + length v"
    using y(2) assms(3) by (simp_all add: upd_def)
  have len: "pos x + length v < length data" using assms(11)
    by (metis add.commute drop_drop drop_eq_Nil append_eq_conv_conj linorder_not_le list.distinct(1))
  have "exec_char (listening L) data c ?x = ex_header_field (listening L) data c ?x"
    using assms(1) by (simp add: exec_char_def)
  also have "\<dots> = Next ?w"
    using p(1) assms(11,13) cnt(1) len cb_field_listening [OF z(1,2), of L data "pos ?z + 1" Next] z(3)
    by (simp add: ex_header_field_def)
  finally have "exec_char (listening L) data c ?x = Next ?w" .
  moreover have "exec_byte (listening L) data x = reexecute 8 (listening L) data c ?x"
    by (rule exec_byte_header)
      (use assms(1,2,12) drop_ConsD [OF c] in \<open>simp_all add: PARSING_HEADER_def in_header_def\<close>)
  ultimately have "exec_byte (listening L) data x = Next ?w" by (simp add: reexecute_Next)
  then have a: "advances (listening L) data x (?w\<lparr> pos := pos x + length v + 1 \<rparr>)"
using advances_one [of "listening L" data x ?w] drop_ConsD [OF c] by simp
  have "in_header (n + length v + 1) ?w" using cnt(2) y by (simp add: in_header_def)
  moreover have "said_by ?w = m\<lparr> sd_user := hear L (Name name) (sd_user m) \<rparr>"
    using assms(4) by (auto simp: said_by_def)
  ultimately have "named (w @ lowered v) (n + length v + 1) (m\<lparr> sd_user := hear L (Name name) (sd_user m) \<rparr>)
      (?w\<lparr> pos := pos x + length v + 1 \<rparr>)"
    using assms(5-8) p(2) by (auto simp: named_def ready_def no_marks_def)
  then show ?thesis using a by (intro exI [of _ "?w\<lparr> pos := pos x + length v + 1 \<rparr>"]) simp
qed


lemma token_plain: "TOKEN c \<noteq> 0 \<Longrightarrow> c \<noteq> SPC \<and> c \<noteq> TAB \<and> \<not> is_crlf c"
proof -
  have "TOKEN SPC = 0" "TOKEN TAB = 0" "TOKEN CR = 0" "TOKEN LF = 0" by code_simp+
  then show "TOKEN c \<noteq> 0 \<Longrightarrow> ?thesis" by (auto simp: is_crlf_def)
qed

lemma name_reads:
  assumes "list_all (\<lambda>c. TOKEN c \<noteq> 0) name" "name \<noteq> []" "n + length name + 1 \<le> HTTP_MAX_HEADER_SIZE"
  shows "reads (listening L) (line L n m) (name @ [CHR '':''])
    (named (lowered name) (n + length name + 1) (m\<lparr> sd_user := hear L (Name name) (sd_user m) \<rparr>))"
proof (rule readsI)
  fix data rest x
  assume x: "line L n m x" "drop (pos x) data = (name @ [CHR '':'']) @ rest"
  obtain c v where c: "name = c # v" "TOKEN c \<noteq> 0" "list_all (\<lambda>c. TOKEN c \<noteq> 0) v" using assms(1,2) by (cases name) auto
  note pl = token_plain [OF c(2)]
  have d: "drop (pos x) data = c # v @ CHR '':'' # rest" using x(2) c(1) by simp
  have h: "PARSING_HEADER (st x)" "in_header n x" "n < HTTP_MAX_HEADER_SIZE"
    using x(1) assms(3) by (auto simp: line_def PARSING_HEADER_def)
  have cnt: "in_header (n + 1) (counted x)" using h(2,3)
    by (simp add: in_header_def counted_def unat_word_ariths HTTP_MAX_HEADER_SIZE_def)
  obtain y k where y: "reexecute 8 (listening L) data c (counted x) = reexecute (k + 3) (listening L) data c y"
      "ready s_header_field_start (n + 1) m y" "pos y = pos x"
    by (rule line_first [OF x(1) _ _ cnt, of c data]) (use pl in auto)
  obtain hs where z: "ex_header_field_start c y =
      Next (goto_state s_header_field
        (upd (\<lambda>p. p\<lparr> index := 0, header_state := hs \<rparr>) (y\<lparr> header_field_mark := mark (pos y) (header_field_mark y) \<rparr>)))"
      "in_name (lowered [c]) 0 hs"
    using first_field_letter [OF c(2), of y] pl by blast
  let ?z = "goto_state s_header_field
        (upd (\<lambda>p. p\<lparr> index := 0, header_state := hs \<rparr>) (y\<lparr> header_field_mark := mark (pos y) (header_field_mark y) \<rparr>))"
  have "exec_char (listening L) data c y = Next ?z" using y(2) z(1) by (simp add: ready_def exec_char_def)
  then have e: "reexecute 8 (listening L) data c (counted x) = Next ?z" using y(1) by (simp add: reexecute_Next)
  have a: "advances (listening L) data x (?z\<lparr> pos := pos x + 1 \<rparr>)"
    by (rule header_byte(1) [OF h d e]) (simp add: y(3))
  have t: "take (pos (?z\<lparr> pos := pos x + 1 \<rparr>) + length v - pos x) (drop (pos x) data) = name"
    using x(2) c(1) by simp
  have d': "drop (pos (?z\<lparr> pos := pos x + 1 \<rparr>)) data = v @ CHR '':'' # rest" using drop_ConsD [OF d] by simp
  have "\<exists>w. advances (listening L) data (?z\<lparr> pos := pos x + 1 \<rparr>) w \<and> pos w = pos (?z\<lparr> pos := pos x + 1 \<rparr>) + length v + 1
      \<and> named (lowered [c] @ lowered v) (n + 1 + length v + 1) (m\<lparr> sd_user := hear L (Name name) (sd_user m) \<rparr>) w"
    by (rule rest_of_name [OF _ _ _ _ _ _ _ _ _ c(3) d' _ t])
      (use y(2,3) z(2) assms(3) c(1) in \<open>auto simp: ready_def in_header_def no_marks_def mark_def said_by_def\<close>)
  then obtain w where w: "advances (listening L) data (?z\<lparr> pos := pos x + 1 \<rparr>) w" "pos w = pos x + length name + 1"
      "named (lowered name) (n + length name + 1) (m\<lparr> sd_user := hear L (Name name) (sd_user m) \<rparr>) w"
    using c(1) by (auto simp: lowered_def)
  then show "\<exists>w. advances (listening L) data x w \<and> pos w = pos x + length (name @ [CHR '':''])
      \<and> named (lowered name) (n + length name + 1) (m\<lparr> sd_user := hear L (Name name) (sd_user m) \<rparr>) w"
    using advances_trans [OF a w(1)] by auto
qed

section \<open>Header values\<close>

lemma skip_space:
  assumes "n < HTTP_MAX_HEADER_SIZE"
  shows "reads S (named w n m) [SPC] (named w (n + 1) m)"
proof -
  have "exec_char S data SPC (counted x) = Next (counted x)" if "named w n m x" for data x
    using that by (simp add: named_def ready_def exec_char_def ex_header_value_discard_ws_def)
  then show ?thesis using assms
    by (intro reads_byte [where F = counted and n = n])
      (auto simp: named_def ready_def in_header_def reexecute_Next PARSING_HEADER_def said_by_def)
qed

text \<open>An empty value.\<close>

lemma empty_value:
  assumes "n + 2 \<le> HTTP_MAX_HEADER_SIZE" "name_state w = h_general"
  shows "reads (listening L) (named w n m) CRLF (line L (n + 2) (m\<lparr> sd_user := hear L (Value []) (sd_user m) \<rparr>))"
proof -
  let ?P = "\<lambda>x. ready s_header_value_discard_ws_almost_done (n + 1) m x \<and> token_flag (header_state (par x)) = 0"
  have flag: "token_flag (header_state (par x)) = 0" if "named w n m x" for x
    using that by (auto simp: named_def in_name_def token_flag_def split: header_state.splits)
  have "exec_char (listening L) data CR (counted x) = Next (goto_state s_header_value_discard_ws_almost_done (counted x))"
    if "named w n m x" for data x
    using that by (simp add: named_def ready_def exec_char_def ex_header_value_discard_ws_def)
  then have 1: "reads (listening L) (named w n m) [CR] ?P"
    using assms(1) flag
    by (intro reads_byte [where F = "\<lambda>x. goto_state s_header_value_discard_ws_almost_done (counted x)" and n = n])
      (auto simp: named_def ready_def in_header_def reexecute_Next PARSING_HEADER_def said_by_def)
  have "exec_char (listening L) data LF (counted x) = Next (goto_state s_header_value_discard_lws (counted x))" if "?P x" for data x
    using that by (simp add: ready_def exec_char_def ex_const_def STRICT_CHECK_def)
  then have 2: "reads (listening L) ?P [LF] (line L (n + 2) (m\<lparr> sd_user := hear L (Value []) (sd_user m) \<rparr>))"
    using assms(1)
    by (intro reads_byte [where F = "\<lambda>x. goto_state s_header_value_discard_lws (counted x)" and n = "n + 1"])
      (auto simp: line_def ready_def in_header_def reexecute_Next PARSING_HEADER_def said_by_def set_token_flag_def)
  show ?thesis using reads_Cons [OF 1 2] .
qed


text \<open>A value of a header that does not steer the parser.\<close>

definition value_char :: "char \<Rightarrow> bool" where
  "value_char c \<longleftrightarrow> IS_HEADER_CHAR c \<and> \<not> is_crlf c"

lemma value_loop_general:
  assumes "list_all value_char v" "length v < HTTP_MAX_HEADER_SIZE"
  shows "value_loop l (v @ CR # rest) p h_general k = VCr p h_general (k + length v)"
proof (cases v)
  case Nil
  then show ?thesis by simp
next
  case (Cons c cs)
  let ?w = "take (min (length (v @ CR # rest)) HTTP_MAX_HEADER_SIZE) (v @ CR # rest)"
  have w: "?w = v @ CR # take (min (length (v @ CR # rest)) HTTP_MAX_HEADER_SIZE - Suc (length v)) rest"
    using assms(2) by (simp add: take_Cons' min_def)
  have "length (takeWhile (\<lambda>c. \<not> is_crlf c) ?w) = length v"
    using assms(1) unfolding w by (subst takeWhile_append2) (auto simp: list_all_iff value_char_def is_crlf_def)
  moreover have "length v < length ?w" unfolding w by simp
  ultimately have "value_skip (v @ CR # rest) = length v" by (simp only: value_skip_def Let_def if_True)
  then show ?thesis using assms(1) Cons by (simp add: value_char_def is_crlf_def)
qed

lemma value_start_general:
  assumes "in_name w i (header_state (par x))" "name_state w = h_general"
  shows "ex_header_value_start c x = Next (upd (\<lambda>p. p\<lparr> index := 0, header_state := h_general \<rparr>)
    (goto_state s_header_value (x\<lparr> header_value_mark := mark (pos x) (header_value_mark x) \<rparr>)))"
proof -
  have "recognised (header_state (par x)) = h_general" using recognised_name [OF assms(1)] assms(2) by simp
  moreover have "header_state (par x) \<noteq> h_matching_connection_token_start" using assms(1) by (auto simp: in_name_def)
  ultimately show ?thesis
    by (cases "header_state (par x)") (simp_all add: ex_header_value_start_def recognised_def Let_def upd_def goto_state_def)
qed

text \<open>The rest of a value and its CR, when the loop over it ends with parser \<open>p\<close> and state \<open>h\<close>.\<close>

lemma rest_of_value:
  assumes "st x = s_header_value" "in_header n x" "header_value_mark x = Some i"
    "header_field_mark x = None" "url_mark x = None" "body_mark x = None" "status_mark x = None"
    "value_loop (lenient x) (v @ CR # rest) (par (counted x)) (header_state (par x)) 0
       = VCr ((par (counted x))\<lparr> index := j, content_length := cl \<rparr>) h (length v)"
    "drop (pos x) data = v @ CR # rest" "n + length v + 1 \<le> HTTP_MAX_HEADER_SIZE"
    "take (pos x + length v - i) (drop i data) = w"
  shows "\<exists>y. advances (listening L) data x y \<and> pos y = pos x + length v + 1 \<and> header_state (par y) = h
    \<and> ready s_header_almost_done (n + length v + 1)
        ((said_by x)\<lparr> sd_length := cl, sd_user := hear L (Value w) (usr x) \<rparr>) y"
proof -
  obtain c cs where c: "drop (pos x) data = c # cs" using assms(9) by (cases v) auto
  let ?x = "counted x"
  have "in_header (n + 1) ?x" using assms(2,10)
    by (simp add: in_header_def counted_def unat_word_ariths HTTP_MAX_HEADER_SIZE_def)
  then have h: "unat (nread (par ?x)) = n + 1" "http_errno (par ?x) = HPE_OK" by (simp_all add: in_header_def)
  let ?p = "(par ?x)\<lparr> index := j, content_length := cl, header_state := h \<rparr>"
  let ?y = "goto_state s_header_almost_done (?x\<lparr> par := ?p, pos := pos x + length v \<rparr>)"
  let ?z = "upd (header_state_update (\<lambda>_. h)) ((told L (Value w) ?y)\<lparr> header_value_mark := None \<rparr>)"
  have z: "unat (nread (par ?z)) + length v \<le> HTTP_MAX_HEADER_SIZE" using h(1) assms(10) by simp
  note cnt = count_header_fits [OF z]
  let ?w = "upd (nread_update (\<lambda>n. n + of_nat (length v))) ?z"
  have y: "http_errno (par ?y) = HPE_OK" "header_value_mark ?y = Some i" "pos ?y = pos x + length v"
    using h(2) assms(3) by simp_all
  have "exec_char (listening L) data c ?x = ex_header_value (listening L) data ?x"
    using assms(1) by (simp add: exec_char_def)
  also have "\<dots> = cb_header_value (listening L) data (pos ?y + 1) ?y
      (\<lambda>x2. COUNT_HEADER_SIZE (length v) (upd (header_state_update (\<lambda>_. h)) x2) Next)"
    using assms(8,9) by (simp add: ex_header_value_def Let_def)
  also have "\<dots> = COUNT_HEADER_SIZE (length v) ?z Next"
    unfolding cb_value_listening [OF y(1,2)] y(3) assms(11) ..
  finally have "exec_char (listening L) data c ?x = Next ?w" using cnt(1) by simp
  moreover have "exec_byte (listening L) data x = reexecute 8 (listening L) data c ?x"
    by (rule exec_byte_header)
      (use assms(1,2,10) drop_ConsD [OF c] in \<open>simp_all add: PARSING_HEADER_def in_header_def\<close>)
  ultimately have "exec_byte (listening L) data x = Next ?w" by (simp add: reexecute_Next)
  then have a: "advances (listening L) data x (?w\<lparr> pos := pos x + length v + 1 \<rparr>)"
    using advances_one [of "listening L" data x ?w] drop_ConsD [OF c] by simp
  have "in_header (n + length v + 1) ?w" using cnt(2) h by (simp add: in_header_def)
  moreover have "said_by ?w = (said_by x)\<lparr> sd_length := cl, sd_user := hear L (Value w) (usr x) \<rparr>"
    by (simp add: said_by_def)
  ultimately have "ready s_header_almost_done (n + length v + 1)
      ((said_by x)\<lparr> sd_length := cl, sd_user := hear L (Value w) (usr x) \<rparr>) (?w\<lparr> pos := pos x + length v + 1 \<rparr>)"
    using assms(4-7) by (simp add: ready_def no_marks_def)
  then show ?thesis using a by (intro exI [of _ "?w\<lparr> pos := pos x + length v + 1 \<rparr>"]) simp
qed

lemma value_line_end:
  assumes "n < HTTP_MAX_HEADER_SIZE"
  shows "reads S (\<lambda>x. ready s_header_almost_done n m x \<and> header_state (par x) = h) [LF]
    (line L (n + 1) (m\<lparr> sd_flags := sd_flags m OR token_flag h \<rparr>))"
proof -
  have "exec_char S data LF x = Next (goto_state s_header_value_lws x)" if "st x = s_header_almost_done" for data x
    using that by (simp add: exec_char_def ex_header_almost_done_def)
  then show ?thesis using assms
    by (intro reads_byte [where F = "\<lambda>x. goto_state s_header_value_lws (counted x)" and n = n])
      (auto simp: line_def ready_def in_header_def reexecute_Next PARSING_HEADER_def said_by_def set_token_flag_def)
qed


lemma value_reads:
  assumes "c \<noteq> SPC" "c \<noteq> TAB" "\<not> is_crlf c" "n + length v + 3 \<le> HTTP_MAX_HEADER_SIZE"
    "\<And>x. named nm n m x \<Longrightarrow> ex_header_value_start c (counted x) =
       Next (upd (\<lambda>p. p\<lparr> index := 0, flags := fl, content_length := cl0, header_state := hs \<rparr>)
         (goto_state s_header_value ((counted x)\<lparr> header_value_mark := mark (pos x) (header_value_mark x) \<rparr>)))"
    "\<And>l p rest. index p = 0 \<Longrightarrow> content_length p = cl0 \<Longrightarrow>
       \<exists>j. value_loop l (v @ CR # rest) p hs 0 = VCr (p\<lparr> index := j, content_length := cl \<rparr>) h (length v)"
  shows "reads (listening L) (named nm n m) ((c # v) @ CRLF)
    (line L (n + length v + 3)
      (m\<lparr> sd_flags := fl OR token_flag h, sd_length := cl, sd_user := hear L (Value (c # v)) (sd_user m) \<rparr>))"
proof -
  let ?m = "m\<lparr> sd_flags := fl, sd_length := cl, sd_user := hear L (Value (c # v)) (sd_user m) \<rparr>"
  have "reads (listening L) (named nm n m) ((c # v) @ [CR])
    (\<lambda>x. ready s_header_almost_done (n + length v + 2) ?m x \<and> header_state (par x) = h)"
  proof (rule readsI)
    fix data rest x
    assume x: "named nm n m x" "drop (pos x) data = ((c # v) @ [CR]) @ rest"
    let ?z = "upd (\<lambda>p. p\<lparr> index := 0, flags := fl, content_length := cl0, header_state := hs \<rparr>)
         (goto_state s_header_value ((counted x)\<lparr> header_value_mark := mark (pos x) (header_value_mark x) \<rparr>))"
    have d: "drop (pos x) data = c # v @ CR # rest" using x(2) by simp
    have r: "ready s_header_value_discard_ws n m x" using x(1) by (simp add: named_def)
    then have h: "PARSING_HEADER (st x)" "in_header n x" "n < HTTP_MAX_HEADER_SIZE"
      using assms(4) by (auto simp: ready_def PARSING_HEADER_def)
    have "exec_char (listening L) data c (counted x) = Next ?z"
      using r assms(1-3) assms(5) [OF x(1)]
      by (simp add: ready_def exec_char_def ex_header_value_discard_ws_def is_crlf_def)
    then have e: "reexecute 8 (listening L) data c (counted x) = Next ?z" by (simp add: reexecute_Next)
    note a = header_byte [OF h d e, simplified]
    let ?y = "?z\<lparr> pos := pos x + 1 \<rparr>"
    have mk: "header_value_mark x = None" using r by (simp add: ready_def no_marks_def)
    obtain j where j: "value_loop (lenient ?y) (v @ CR # rest) (par (counted ?y)) (header_state (par ?y)) 0
        = VCr ((par (counted ?y))\<lparr> index := j, content_length := cl \<rparr>) h (length v)"
      using assms(6) [of "par (counted ?y)" "lenient ?y" rest] by auto
    have "\<exists>y. advances (listening L) data ?y y \<and> pos y = pos ?y + length v + 1 \<and> header_state (par y) = h
      \<and> ready s_header_almost_done (n + 1 + length v + 1)
          ((said_by ?y)\<lparr> sd_length := cl, sd_user := hear L (Value (c # v)) (usr ?y) \<rparr>) y"
      by (rule rest_of_value [OF _ _ _ _ _ _ _ j, where i = "pos x"])
        (use a(2) mk r d assms(4) drop_ConsD [OF d] in \<open>auto simp: ready_def in_header_def no_marks_def mark_def\<close>)
    moreover have "(said_by ?y)\<lparr> sd_length := cl, sd_user := hear L (Value (c # v)) (usr ?y) \<rparr> = ?m"
      using r by (auto simp: ready_def said_by_def)
    ultimately obtain y where y: "advances (listening L) data ?y y" "pos y = pos ?y + length v + 1" "header_state (par y) = h"
        "ready s_header_almost_done (n + 1 + length v + 1) ?m y"
      by auto
    then show "\<exists>y. advances (listening L) data x y \<and> pos y = pos x + length ((c # v) @ [CR])
        \<and> ready s_header_almost_done (n + length v + 2) ?m y \<and> header_state (par y) = h"
      using advances_trans [OF a(1)] by (intro exI [of _ y]) simp
  qed
  moreover have "reads (listening L) (\<lambda>x. ready s_header_almost_done (n + length v + 2) ?m x \<and> header_state (par x) = h) [LF]
      (line L (n + length v + 2 + 1) (?m\<lparr> sd_flags := sd_flags ?m OR token_flag h \<rparr>))"
    by (rule value_line_end) (use assms(4) in simp)
  ultimately have "reads (listening L) (named nm n m) (((c # v) @ [CR]) @ [LF])
      (line L (n + length v + 2 + 1) (?m\<lparr> sd_flags := sd_flags ?m OR token_flag h \<rparr>))"
    by (rule reads_append)
  moreover have "n + length v + 2 + 1 = n + length v + 3" by simp
  moreover have "?m\<lparr> sd_flags := sd_flags ?m OR token_flag h \<rparr>
      = m\<lparr> sd_flags := fl OR token_flag h, sd_length := cl, sd_user := hear L (Value (c # v)) (sd_user m) \<rparr>" by simp
  ultimately show ?thesis by (simp only: append_Cons append_Nil append_assoc)
qed

lemma general_value:
  assumes "list_all value_char w" "w = [] \<or> hd w \<noteq> SPC \<and> hd w \<noteq> TAB" "name_state nm = h_general"
    "n + length w + 2 \<le> HTTP_MAX_HEADER_SIZE"
  shows "reads (listening L) (named nm n m) (w @ CRLF)
    (line L (n + length w + 2) (m\<lparr> sd_user := hear L (Value w) (sd_user m) \<rparr>))"
proof (cases w)
  case Nil
  then show ?thesis using empty_value [OF _ assms(3), of n L m] assms(4) by simp
next
  case (Cons c v)
  have start: "ex_header_value_start c (counted x) =
      Next (upd (\<lambda>p. p\<lparr> index := 0, flags := sd_flags m, content_length := sd_length m, header_state := h_general \<rparr>)
        (goto_state s_header_value ((counted x)\<lparr> header_value_mark := mark (pos x) (header_value_mark x) \<rparr>)))"
    if x: "named nm n m x" for x
  proof -
    obtain i where i: "in_name nm i (header_state (par (counted x)))" using x by (auto simp: named_def)
    have f: "flags (par (counted x)) = sd_flags m" "content_length (par (counted x)) = sd_length m"
      using x said_byD [of x m] by (simp_all add: named_def ready_def)
    have "p\<lparr> index := 0, header_state := h_general \<rparr>
        = p\<lparr> index := 0, flags := flags p, content_length := content_length p, header_state := h_general \<rparr>" for p
      by (cases p) simp
    then have "(par (counted x))\<lparr> index := 0, header_state := h_general \<rparr>
        = (par (counted x))\<lparr> index := 0, flags := sd_flags m, content_length := sd_length m, header_state := h_general \<rparr>"
      unfolding f [symmetric] .
    then show ?thesis using value_start_general [OF i assms(3), of c] by (simp add: upd_def goto_state_def)
  qed
  have loop: "\<exists>j. value_loop l (v @ CR # rest) p h_general 0 = VCr (p\<lparr> index := j, content_length := sd_length m \<rparr>) h_general (length v)"
    if "content_length p = sd_length m" for l p rest
    using value_loop_general [of v l rest p 0] assms(1,4) Cons that by (intro exI [of _ "index p"]) (cases p; simp)
  have flag: "token_flag h_general = 0" by (simp add: token_flag_def)
  have same: "m\<lparr> sd_flags := sd_flags m OR token_flag h_general, sd_length := sd_length m, sd_user := hear L (Value (c # v)) (sd_user m) \<rparr>
      = m\<lparr> sd_user := hear L (Value (c # v)) (sd_user m) \<rparr>"
    by (cases m) (simp add: flag)
  have "reads (listening L) (named nm n m) ((c # v) @ CRLF)
    (line L (n + length v + 3) (m\<lparr> sd_flags := sd_flags m OR token_flag h_general, sd_length := sd_length m, sd_user := hear L (Value (c # v)) (sd_user m) \<rparr>))"
    by (rule value_reads [OF _ _ _ _ start loop]) (use assms Cons in \<open>auto simp: value_char_def\<close>)
  then show ?thesis unfolding same Cons by (simp add: numeral_3_eq_3)
qed

end
