(* ===== verification/HttpRoundtrip.thy ===== *)
theory HttpRoundtrip
  imports HttpFields
begin

text \<open>
  Whole messages.  Requests and responses are printed as text; a parser that reads the text of any number of them, one after
  the other, tells its application just what was printed.
\<close>

section \<open>Between messages\<close>

text \<open>In front of a message of type \<open>t\<close>, with \<open>u\<close> what the application made of the messages before, and its data \<open>d\<close>.\<close>

definition border :: "http_parser_type \<Rightarrow> nat \<Rightarrow> 'u \<Rightarrow> 'u exec \<Rightarrow> bool" where
  "border t d u x \<longleftrightarrow>
     (\<exists>m. ready (if t = HTTP_REQUEST then s_start_req else s_start_res) 0 m x \<and> sd_type m = t \<and> sd_user m = u \<and> sd_data m = d
       \<and> sd_method m \<noteq> HTTP_CONNECT)"

text \<open>
  The end of a message that keeps the connection may leave the parser alone or initialise it again; it returns 0.
\<close>

definition good_end :: "'u listener \<Rightarrow> http_parser_type \<Rightarrow> nat \<Rightarrow> bool" where
  "good_end L t d \<longleftrightarrow>
     (\<forall>p. fin L p = p \<or> fin L p = http_parser_init p (ptype p))
     \<and> (\<forall>p u. http_should_keep_alive p \<longrightarrow> ptype p = t \<longrightarrow> pdata p = d \<longrightarrow> ends L p u = (0, fin L p, takes L (done_event p) u))"

definition finished :: "'u listener \<Rightarrow> 'u exec \<Rightarrow> 'u exec" where
  "finished L x =
     (if hears L KDone then
        (save_state x)\<lparr> par := fin L (par (save_state x)), usr := takes L (done_event (par x)) (usr x),
                         st := pstate (fin L (par (save_state x))) \<rparr>
      else x)"

lemma finished_pos [simp]: "pos (finished L x) = pos x"
  by (simp add: finished_def save_state_def)

lemma border_pos [simp]: "border t d u (x\<lparr> pos := i \<rparr>) = border t d u x"
  by (simp add: border_def ready_def)

lemma done_event_save [simp]: "done_event (par (save_state x)) = done_event (par x)"
  by (simp add: done_event_def save_state_def)

lemma kind_of_done [simp]: "kind_of (done_event p) = KDone"
  by (simp add: done_event_def)

lemma new_message_simps [simp]:
  "par (new_message x) = par x" "usr (new_message x) = usr x" "pos (new_message x) = pos x" "no_marks (new_message x) = no_marks x"
  by (simp_all add: new_message_def)

lemma keep_alive_save [simp]: "http_should_keep_alive (p\<lparr> pstate := s \<rparr>) = http_should_keep_alive p"
  by (simp add: http_should_keep_alive_def http_message_needs_eof_def)

lemma cb_complete_listening:
  assumes "http_errno (par x) = HPE_OK" "good_end L (ptype (par x)) (pdata (par x))" "http_should_keep_alive (par x)"
  shows "cb_message_complete (listening L) er x k = k (finished L x)"
proof -
  let ?p = "par (save_state x)"
  have "http_errno (fin L ?p) = HPE_OK"
    using assms(1,2) by (auto simp: good_end_def save_state_def http_parser_init_def dest: spec [of _ ?p])
  moreover have "ends L ?p (usr x) = (0, fin L ?p, takes L (done_event (par x)) (usr x))"
  proof -
    have "http_should_keep_alive ?p" "pdata ?p = pdata (par x)" "ptype ?p = ptype (par x)" using assms(3) by (simp_all add: save_state_def)
    then show ?thesis using assms(2) by (simp add: good_end_def)
  qed
  ultimately show ?thesis using assms(1)
    by (simp add: cb_message_complete_def CALLBACK_NOTIFY_def listening_def reg_def finished_def after_callback_def
        Let_def save_state_def)
qed

lemma finish_message:
  assumes "in_header 0 x" "no_marks x" "ptype (par x) = t" "t \<noteq> HTTP_BOTH" "pmethod (par x) \<noteq> HTTP_CONNECT"
    "http_should_keep_alive (par x)" "good_end L (ptype (par x)) (pdata (par x))"
  shows "border t (pdata (par x)) (hear L (done_event (par x)) (usr x)) (finished L (new_message x))"
proof -
  let ?x = "new_message x"
  have n: "par ?x = par x" "usr ?x = usr x" "no_marks ?x" "st ?x = (if t = HTTP_REQUEST then s_start_req else s_start_res)"
    using assms(2,3,6) by (simp_all add: new_message_def NEW_MESSAGE_def start_state_def)
  have nr: "nread (par x) = 0" using assms(1) by (simp add: in_header_def unsigned_eq_0_iff)
  show ?thesis
  proof (cases "hears L KDone")
    case False
    then show ?thesis using n assms
      by (auto simp: finished_def hear_def border_def ready_def said_by_def in_header_def)
  next
    case True
    let ?p = "par (save_state ?x)"
    from assms(7) consider "fin L ?p = ?p" | "fin L ?p = http_parser_init ?p (ptype ?p)" by (auto simp: good_end_def)
    then show ?thesis
    proof cases
      case 1
      then show ?thesis using True n assms
        by (auto simp: finished_def hear_def border_def ready_def said_by_def in_header_def save_state_def no_marks_def)
    next
      case 2
      then show ?thesis using True n assms
        by (cases t) (auto simp: finished_def hear_def border_def ready_def said_by_def in_header_def save_state_def no_marks_def
            http_parser_init_def)
    qed
  qed
qed

section \<open>The end of the headers\<close>

text \<open>The flags of a message with or without a Content-Length, and with no other framing header.\<close>

definition plain_flags :: "u8 \<Rightarrow> bool" where
  "plain_flags fl \<longleftrightarrow> fl = 0 \<or> fl = F_CONTENTLENGTH"

lemma plain_flags_has:
  assumes "plain_flags fl"
  shows "\<not> has_flag fl F_CHUNKED" "\<not> has_flag fl F_CONNECTION_KEEP_ALIVE" "\<not> has_flag fl F_CONNECTION_CLOSE"
    "\<not> has_flag fl F_CONNECTION_UPGRADE" "\<not> has_flag fl F_TRAILING" "\<not> has_flag fl F_UPGRADE" "\<not> has_flag fl F_SKIPBODY"
  using assms
  by (auto simp: plain_flags_def has_flag_def F_CONTENTLENGTH_def F_CHUNKED_def F_CONNECTION_KEEP_ALIVE_def
      F_CONNECTION_CLOSE_def F_CONNECTION_UPGRADE_def F_TRAILING_def F_UPGRADE_def F_SKIPBODY_def)

lemma headers_cr:
  assumes "n < HTTP_MAX_HEADER_SIZE"
  shows "reads (listening L) (line L n m) [CR] (ready s_headers_almost_done (n + 1) m)"
proof (rule readsI)
  fix data rest x
  assume x: "line L n m x" "drop (pos x) data = [CR] @ rest"
  have h: "PARSING_HEADER (st x)" "in_header n x" "drop (pos x) data = CR # rest"
    using x by (auto simp: line_def PARSING_HEADER_def)
  have cnt: "in_header (n + 1) (counted x)" using h(2) assms
    by (simp add: in_header_def counted_def unat_word_ariths HTTP_MAX_HEADER_SIZE_def)
  obtain y k where y: "reexecute 8 (listening L) data CR (counted x) = reexecute (k + 3) (listening L) data CR y"
      "ready s_header_field_start (n + 1) m y" "pos y = pos x"
    by (rule line_first [OF x(1) _ _ cnt, of CR data]) auto
  have "exec_char (listening L) data CR y = Next (goto_state s_headers_almost_done y)"
    using y(2) by (simp add: ready_def exec_char_def ex_header_field_start_def)
  then have e: "reexecute 8 (listening L) data CR (counted x) = Next (goto_state s_headers_almost_done y)"
    using y(1) by (simp add: reexecute_Next)
  note a = header_byte(1) [OF h(1,2) assms h(3) e]
  show "\<exists>y. advances (listening L) data x y \<and> pos y = pos x + length [CR] \<and> ready s_headers_almost_done (n + 1) m y"
    using a y(2,3) by (intro exI [of _ "(goto_state s_headers_almost_done y)\<lparr> pos := pos x + 1 \<rparr>"]) (simp add: ready_def)
qed

text \<open>What the end of the headers does: \<open>on_headers_complete\<close>, and the state in which the last byte is read again.\<close>

definition headed :: "'u listener \<Rightarrow> 'u exec \<Rightarrow> 'u exec" where
  "headed L x = (upd (\<lambda>p. p\<lparr> upgrade := False \<rparr>) (goto_state s_headers_done x))\<lparr> usr := hear L Headers (usr x) \<rparr>"

lemma headers_lf:
  assumes "ready s_headers_almost_done n m x" "plain_flags (sd_flags m)" "sd_method m \<noteq> HTTP_CONNECT"
  shows "exec_char (listening L) data LF x = Reexec (headed L x) LF"
proof -
  have x: "st x = s_headers_almost_done" "flags (par x) = sd_flags m" "pmethod (par x) = sd_method m" "http_errno (par x) = HPE_OK"
    using assms(1) said_byD [of x m] by (simp_all add: ready_def in_header_def)
  have u: "upgrade_value (par x) = False" using x assms(2,3) plain_flags_has by (simp add: upgrade_value_def)
  show ?thesis using x u plain_flags_has [OF assms(2)]
    by (simp add: exec_char_def ex_headers_almost_done_def STRICT_CHECK_def headers_complete_def listening_def reg_def
        headed_def hear_def Let_def upd_def goto_state_def)
qed


definition said_done :: "'u said \<Rightarrow> event" where
  "said_done m = (if sd_type m = HTTP_RESPONSE then Answered (sd_status m) else Asked (sd_method m))"

lemma said_done_simps [simp]: "said_done (m\<lparr> sd_user := u \<rparr>) = said_done m" "said_done (m\<lparr> sd_length := n \<rparr>) = said_done m"
  by (simp_all add: said_done_def)

lemma done_event_said: "said_by x = m \<Longrightarrow> done_event (par x) = said_done m"
  by (auto simp: done_event_def said_done_def said_by_def)

lemma said_finished:
  assumes "said_by x = m" "in_header 0 x" "no_marks x" "sd_type m \<noteq> HTTP_BOTH" "sd_method m \<noteq> HTTP_CONNECT"
    "http_should_keep_alive (par x)" "good_end L (sd_type m) (sd_data m)"
  shows "border (sd_type m) (sd_data m) (hear L (said_done m) (sd_user m)) (finished L (new_message x))"
proof -
  have "done_event (par x) = said_done m" "ptype (par x) = sd_type m" "pmethod (par x) = sd_method m" "usr x = sd_user m"
    "pdata (par x) = sd_data m"
    using assms(1) done_event_said [of x m] said_byD [of x m] by auto
  then show ?thesis using finish_message [OF assms(2,3) _ assms(4) _ assms(6)] assms(5,7) by simp
qed

lemma reexecute_twice:
  "exec_char S data c x = Reexec y d \<Longrightarrow> exec_char S data d y = Next z \<Longrightarrow> reexecute 8 S data c x = Next z"
  using reexecute_again [of S data c x y d 7] by (simp add: reexecute_Next)

lemma headers_end:
  assumes "n < HTTP_MAX_HEADER_SIZE" "plain_flags (sd_flags m)" "sd_method m \<noteq> HTTP_CONNECT" "sd_major m = 1" "sd_minor m = 1"
    "sd_type m \<noteq> HTTP_BOTH" "sd_length m = 0 \<or> sd_length m = ULLONG_MAX \<and> sd_type m = HTTP_REQUEST" "good_end L (sd_type m) (sd_data m)"
  shows "reads (listening L) (ready s_headers_almost_done n m) [LF]
    (border (sd_type m) (sd_data m) (hear L (said_done m) (hear L Headers (sd_user m))))"
proof -
  let ?z = "\<lambda>x. upd (nread_update (\<lambda>_. 0)) (headed L (counted x))"
  have r: "ready s_headers_almost_done (n + 1) m (counted x)"
    if "ready s_headers_almost_done n m x" "in_header (n + 1) (counted x)" for x
    using that by (simp add: ready_def)
  have p: "pos (finished L (new_message (?z x))) = pos x" for x by (simp add: new_message_def headed_def)
  have z: "said_by (?z x) = m\<lparr> sd_user := hear L Headers (sd_user m) \<rparr>" "in_header 0 (?z x)" "no_marks (?z x)"
    if "ready s_headers_almost_done n m x" for x
    using that by (auto simp: ready_def said_by_def headed_def in_header_def no_marks_def goto_state_def upd_def counted_def)
  have keep: "http_should_keep_alive (par (?z x))" if "ready s_headers_almost_done n m x" for x
    using said_byD [OF z(1) [OF that]] assms(2,4,5,7) plain_flags_has [OF assms(2)]
    by (auto simp: http_should_keep_alive_def http_message_needs_eof_def ULLONG_MAX_def)
  have "exec_char (listening L) data LF (headed L (counted x)) = Next (finished L (new_message (?z x)))"
    if x: "ready s_headers_almost_done n m x" for data x
  proof -
    note s = said_byD [OF z(1) [OF x]]
    have up: "upgrade (par (?z x)) = False" by (simp add: headed_def)
    have e: "http_errno (par (new_message (?z x))) = HPE_OK"
      using z(2) [OF x] by (simp add: in_header_def new_message_def)
    have eof: "\<not> http_message_needs_eof (par (?z x))" if "sd_length m \<noteq> 0"
      using s assms(7) that by (simp add: http_message_needs_eof_def)
    have "st (headed L (counted x)) = s_headers_done" by (simp add: headed_def)
    then have "exec_char (listening L) data LF (headed L (counted x)) = ex_headers_done (listening L) LF (headed L (counted x))"
      by (simp add: exec_char_def)
    also have "\<dots> = Next (finished L (new_message (?z x)))"
      unfolding ex_headers_done_def STRICT_CHECK_def Let_def
      using up eof s plain_flags_has [OF assms(2)] assms(7) cb_complete_listening [OF e] keep [OF x] assms(8)
      by (cases "sd_length m = 0") simp_all
    finally show ?thesis .
  qed
  moreover have "border (sd_type m) (sd_data m) (hear L (said_done m) (hear L Headers (sd_user m))) (finished L (new_message (?z x)))"
    if x: "ready s_headers_almost_done n m x" for x
    using said_finished [OF z [OF x] _ _ keep [OF x]] assms(3,6,8) by simp
  ultimately show ?thesis using assms(1) headers_lf [OF r assms(2,3)] p
    by (intro reads_byte [where F = "\<lambda>x. finished L (new_message (?z x))" and n = n])
      (auto simp: PARSING_HEADER_def ready_def intro: reexecute_twice)
qed

text \<open>With a body to come.\<close>

definition in_body :: "'u said \<Rightarrow> 'u exec \<Rightarrow> bool" where
  "in_body m x \<longleftrightarrow> ready s_body_identity 0 m x \<and> \<not> upgrade (par x)"

lemma headers_body:
  assumes "n < HTTP_MAX_HEADER_SIZE" "plain_flags (sd_flags m)" "sd_method m \<noteq> HTTP_CONNECT"
    "sd_length m \<noteq> 0" "sd_length m \<noteq> ULLONG_MAX"
  shows "reads (listening L) (ready s_headers_almost_done n m) [LF] (in_body (m\<lparr> sd_user := hear L Headers (sd_user m) \<rparr>))"
proof -
  let ?z = "\<lambda>x. goto_state s_body_identity (upd (nread_update (\<lambda>_. 0)) (headed L (counted x)))"
  have r: "ready s_headers_almost_done (n + 1) m (counted x)"
    if "ready s_headers_almost_done n m x" "in_header (n + 1) (counted x)" for x
    using that by (simp add: ready_def)
  have z: "in_body (m\<lparr> sd_user := hear L Headers (sd_user m) \<rparr>) (?z x)" if "ready s_headers_almost_done n m x" for x
    using that by (auto simp: in_body_def ready_def said_by_def headed_def in_header_def no_marks_def goto_state_def upd_def counted_def)
  have "exec_char (listening L) data LF (headed L (counted x)) = Next (?z x)"
    if x: "ready s_headers_almost_done n m x" for data x
  proof -
    have s: "said_by (?z x) = m\<lparr> sd_user := hear L Headers (sd_user m) \<rparr>" using z [OF x] by (simp add: in_body_def ready_def)
    have "st (headed L (counted x)) = s_headers_done" by (simp add: headed_def)
    then have "exec_char (listening L) data LF (headed L (counted x)) = ex_headers_done (listening L) LF (headed L (counted x))"
      by (simp add: exec_char_def)
    also have "\<dots> = Next (?z x)"
      unfolding ex_headers_done_def STRICT_CHECK_def Let_def
      using said_byD [OF s] plain_flags_has [OF assms(2)] assms(4,5) by (simp add: headed_def)
    finally show ?thesis .
  qed
  then show ?thesis using assms(1) headers_lf [OF r assms(2,3)] z
    by (intro reads_byte [where F = ?z and n = n])
      (auto simp: PARSING_HEADER_def ready_def headed_def in_body_def intro: reexecute_twice)
qed

section \<open>The body\<close>

lemma body_reads:
  assumes "b \<noteq> []" "sd_length m = of_nat (length b)" "length b < 2 ^ 64 - 1" "plain_flags (sd_flags m)"
    "sd_method m \<noteq> HTTP_CONNECT" "sd_major m = 1" "sd_minor m = 1" "sd_type m \<noteq> HTTP_BOTH" "good_end L (sd_type m) (sd_data m)"
  shows "reads (listening L) (in_body m) b (border (sd_type m) (sd_data m) (hear L (said_done m) (hear L (Body b) (sd_user m))))"
proof (rule readsI)
  fix data rest x
  assume x: "in_body m x" "drop (pos x) data = b @ rest" and l: "length data < 2 ^ 64"
  obtain c cs where c: "b = c # cs" using assms(1) by (cases b) auto
  have d: "pos x < length data" "data ! pos x = c" using x(2) drop_ConsD [of "pos x" data c] c by auto
  have r: "st x = s_body_identity" "content_length (par x) = of_nat (length b)" "http_errno (par x) = HPE_OK" "body_mark x = None"
    "upgrade (par x) = False"
    using x(1) said_byD [of x m] assms(2) by (auto simp: in_body_def ready_def in_header_def no_marks_def)
  have len: "unat (of_nat (length b) :: u64) = length b" "length b \<le> length data - pos x"
    using assms(3) arg_cong [OF x(2), of length] by (simp_all add: unat_of_nat take_bit_nat_eq_self)
  have rest: "unat (of_nat (length data - pos x) :: u64) = length data - pos x"
    using l by (simp add: unat_of_nat take_bit_nat_eq_self)
  have tr: "to_read data x = of_nat (length b)"
    unfolding to_read_def r(2) using len rest by (simp add: min_def word_le_nat_alt)
  have nz: "content_length (par x) \<noteq> 0" "content_length (par x) \<noteq> ULLONG_MAX"
  proof -
    have "unat (content_length (par x)) \<noteq> 0" using r(2) len(1) c by simp
    then show "content_length (par x) \<noteq> 0" by auto
    have "unat (content_length (par x)) \<noteq> unat ULLONG_MAX" using r(2) len(1) assms(3)
      by (simp add: ULLONG_MAX_def unsigned_minus_1_eq_mask mask_eq_exp_minus_1)
    then show "content_length (par x) \<noteq> ULLONG_MAX" by auto
  qed
  let ?y = "take_body data x"
  let ?z = "(told L (Body b) (goto_state s_message_done ?y))\<lparr> body_mark := None \<rparr>"
  have y: "content_length (par ?y) = 0" "body_mark ?y = Some (pos x)" "pos ?y = pos x + length b - 1"
    "http_errno (par ?y) = HPE_OK"
    using r tr len(1) by (simp_all add: take_body_def Let_def mark_def upd_def)
  have t: "take (pos ?y + 1 - pos x) (drop (pos x) data) = b" using y(3) c x(2) by simp
  have "exec_char (listening L) data c x = ex_body_identity (listening L) data c x" using r(1) by (simp add: exec_char_def)
  also have "\<dots> = Reexec ?z c"
    using nz y(1) cb_body_listening [of "goto_state s_message_done ?y" "pos x" L data "pos ?y + 1" "pos ?y"] y t
    by (simp add: ex_body_identity_def Let_def)
  finally have 1: "exec_char (listening L) data c x = Reexec ?z c" .
  have zs: "said_by ?z = m\<lparr> sd_length := 0, sd_user := hear L (Body b) (sd_user m) \<rparr>" "in_header 0 ?z" "no_marks ?z"
    "upgrade (par ?z) = False"
    using x(1) y(1) r(5)
    by (auto simp: in_body_def ready_def said_by_def in_header_def no_marks_def take_body_def Let_def upd_def goto_state_def)
  let ?w = "finished L (new_message ?z)"
  have e: "http_errno (par (new_message ?z)) = HPE_OK" using zs(2) by (simp add: in_header_def new_message_def)
  have keep: "http_should_keep_alive (par ?z)"
    using said_byD [OF zs(1)] assms(4,6,7) plain_flags_has [OF assms(4)]
    by (simp add: http_should_keep_alive_def http_message_needs_eof_def ULLONG_MAX_def)
  have wu: "upgrade (par ?w) = False"
    using zs(4) assms(9)
    by (auto simp: finished_def new_message_def good_end_def save_state_def http_parser_init_def
        dest: spec [of _ "par (save_state (new_message ?z))"])
  have "exec_char (listening L) data c ?z = Next ?w"
    using cb_complete_listening [OF e] keep said_byD [OF zs(1)] assms(9) wu by (simp add: exec_char_def ex_message_done_def)
  then have "reexecute 8 (listening L) data c x = Next ?w" by (rule reexecute_twice [OF 1])
  then have "exec_byte (listening L) data x = Next ?w" using d(2) r(1) by (simp add: exec_byte_def PARSING_HEADER_def)
  moreover have pw: "pos ?w = pos x + length b - 1" using y(3) by (simp add: finished_def new_message_def save_state_def)
  ultimately have a: "advances (listening L) data x (?w\<lparr> pos := pos x + length b - 1 + 1 \<rparr>)"
    using advances_one [of "listening L" data x ?w] d(1) c by simp
  have "border (sd_type m) (sd_data m) (hear L (said_done m) (hear L (Body b) (sd_user m))) ?w"
    using said_finished [OF zs(1-3) _ _ keep] assms(5,8,9) by simp
  then show "\<exists>y. advances (listening L) data x y \<and> pos y = pos x + length b
      \<and> border (sd_type m) (sd_data m) (hear L (said_done m) (hear L (Body b) (sd_user m))) y"
    using a c by (intro exI [of _ "?w\<lparr> pos := pos x + length b - 1 + 1 \<rparr>"]) (simp add: border_def ready_def)
qed


section \<open>Content-Length\<close>

lemma length_value:
  assumes "list_all isdigit ds" "ds \<noteq> []" "digits_nat ds < 2 ^ 64 - 6" "name_state nm = h_content_length"
    "\<not> has_flag (sd_flags m) F_CONTENTLENGTH" "n + length ds + 2 \<le> HTTP_MAX_HEADER_SIZE"
  shows "reads (listening L) (named nm n m) (ds @ CRLF)
    (line L (n + length ds + 2)
      (m\<lparr> sd_flags := sd_flags m OR F_CONTENTLENGTH, sd_length := of_nat (digits_nat ds),
          sd_user := hear L (Value ds) (sd_user m) \<rparr>))"
proof -
  obtain d es where ds: "ds = d # es" using assms(2) by (cases ds) auto
  have dg: "isdigit d" "list_all isdigit es" using assms(1) ds by simp_all
  have v: "unat (of_nat (code d - 48) :: u64) = digit_val d"
    using digit_val_less [OF dg(1)] by (simp add: unat_of_nat take_bit_nat_eq_self digit_val_def)
  let ?fl = "sd_flags m OR F_CONTENTLENGTH" and ?cl0 = "of_nat (code d - 48) :: u64"
  have start: "ex_header_value_start d (counted x) =
      Next (upd (\<lambda>p. p\<lparr> index := 0, flags := ?fl, content_length := ?cl0, header_state := h_content_length \<rparr>)
        (goto_state s_header_value ((counted x)\<lparr> header_value_mark := mark (pos x) (header_value_mark x) \<rparr>)))"
    if x: "named nm n m x" for x
  proof -
    obtain i where i: "in_name nm i (header_state (par (counted x)))" using x by (auto simp: named_def)
    have h: "header_state (par (counted x)) = h_content_length"
      using recognised_name [OF i] assms(4) by (simp add: recognised_def split: if_splits)
    have f: "flags (par (counted x)) = sd_flags m" using x said_byD [of x m] by (simp add: named_def ready_def)
    have "p\<lparr> index := 0, flags := flags p OR F_CONTENTLENGTH, content_length := ?cl0 \<rparr>
        = p\<lparr> index := 0, flags := ?fl, content_length := ?cl0, header_state := h_content_length \<rparr>"
      if "flags p = sd_flags m" "header_state p = h_content_length" for p
      using that by (cases p) simp
    from this [OF f h] show ?thesis using h f assms(5) dg(1)
      by (simp add: ex_header_value_start_def Let_def IS_NUM_def upd_def goto_state_def)
  qed
  have loop: "\<exists>j. value_loop l (es @ CR # rest) p h_content_length 0
      = VCr (p\<lparr> index := j, content_length := of_nat (digits_nat ds) \<rparr>) h_content_length (length es)"
    if "content_length p = ?cl0" for l p rest
    using value_loop_digits [OF dg(2), where p = p and l = l and rest = rest and k = 0] add_digits_start [of d es] assms(1,3) that v unfolding ds
    by (intro exI [of _ "index p"]) (cases p; simp)
  have flag: "token_flag h_content_length = 0" by (simp add: token_flag_def)
  have "reads (listening L) (named nm n m) ((d # es) @ CRLF)
    (line L (n + length es + 3)
      (m\<lparr> sd_flags := ?fl OR token_flag h_content_length, sd_length := of_nat (digits_nat ds),
          sd_user := hear L (Value (d # es)) (sd_user m) \<rparr>))"
    by (rule value_reads [OF _ _ _ _ start loop]) (use assms(6) ds digit_plain [OF dg(1)] in \<open>auto simp: is_crlf_def\<close>)
  moreover have "n + length es + 3 = n + length ds + 2" using ds by simp
  ultimately show ?thesis unfolding flag ds [symmetric] by simp
qed

section \<open>Headers\<close>

text \<open>The header lines of a message that do not steer the parser.\<close>

definition good_header :: "string \<times> string \<Rightarrow> bool" where
  "good_header h \<longleftrightarrow>
     fst h \<noteq> [] \<and> list_all (\<lambda>c. TOKEN c \<noteq> 0) (fst h) \<and> lowered (fst h) \<notin> set framing_names
     \<and> list_all value_char (snd h) \<and> (snd h = [] \<or> hd (snd h) \<noteq> SPC \<and> hd (snd h) \<noteq> TAB)"

definition header_line :: "string \<times> string \<Rightarrow> string" where
  "header_line h = fst h @ '': '' @ snd h @ CRLF"

definition header_events :: "string \<times> string \<Rightarrow> event list" where
  "header_events h = [Name (fst h), Value (snd h)]"

lemma named_value:
  assumes "list_all (\<lambda>c. TOKEN c \<noteq> 0) name" "name \<noteq> []" "n + length name + 2 \<le> HTTP_MAX_HEADER_SIZE"
    "reads (listening L) (named (lowered name) (n + length name + 2) (m\<lparr> sd_user := hear L (Name name) (sd_user m) \<rparr>)) w Q"
  shows "reads (listening L) (line L n m) (name @ '': '' @ w) Q"
proof -
  let ?m = "m\<lparr> sd_user := hear L (Name name) (sd_user m) \<rparr>"
  have 1: "reads (listening L) (line L n m) (name @ [CHR '':'']) (named (lowered name) (n + length name + 1) ?m)"
    by (rule name_reads) (use assms(1-3) in simp_all)
  have 2: "reads (listening L) (named (lowered name) (n + length name + 1) ?m) [SPC] (named (lowered name) (n + length name + 2) ?m)"
    using skip_space [of "n + length name + 1" "listening L" "lowered name" ?m] assms(3) by simp
  show ?thesis using reads_append [OF reads_append [OF 1 2] assms(4)] by simp
qed

lemma header_reads:
  assumes "good_header h" "n + length (header_line h) \<le> HTTP_MAX_HEADER_SIZE"
  shows "reads (listening L) (line L n m) (header_line h)
    (line L (n + length (header_line h)) (m\<lparr> sd_user := fold (hear L) (header_events h) (sd_user m) \<rparr>))"
proof -
  let ?m = "m\<lparr> sd_user := hear L (Name (fst h)) (sd_user m) \<rparr>"
  have "name_state (lowered (fst h)) = h_general"
    using assms(1) by (simp add: good_header_def name_state_general)
  then have "reads (listening L) (named (lowered (fst h)) (n + length (fst h) + 2) ?m) (snd h @ CRLF)
      (line L (n + length (fst h) + 2 + length (snd h) + 2) (?m\<lparr> sd_user := hear L (Value (snd h)) (sd_user ?m) \<rparr>))"
    using assms by (intro general_value) (auto simp: good_header_def header_line_def)
  then have "reads (listening L) (line L n m) (fst h @ '': '' @ snd h @ CRLF)
      (line L (n + length (fst h) + 2 + length (snd h) + 2) (?m\<lparr> sd_user := hear L (Value (snd h)) (sd_user ?m) \<rparr>))"
    using assms by (intro named_value) (auto simp: good_header_def header_line_def)
  moreover have "n + length (fst h) + 2 + length (snd h) + 2 = n + length (header_line h)" by (simp add: header_line_def)
  ultimately show ?thesis by (simp add: header_line_def header_events_def add.assoc)
qed

lemma headers_reads:
  "list_all good_header hs \<Longrightarrow> n + length (concat (map header_line hs)) \<le> HTTP_MAX_HEADER_SIZE \<Longrightarrow>
   reads (listening L) (line L n m) (concat (map header_line hs))
     (line L (n + length (concat (map header_line hs)))
       (m\<lparr> sd_user := fold (hear L) (concat (map header_events hs)) (sd_user m) \<rparr>))"
proof (induction hs arbitrary: n m)
  case Nil
  then show ?case by (simp add: reads_Nil)
next
  case (Cons h hs)
  let ?m = "m\<lparr> sd_user := fold (hear L) (header_events h) (sd_user m) \<rparr>"
  have 1: "reads (listening L) (line L n m) (header_line h) (line L (n + length (header_line h)) ?m)"
    by (rule header_reads) (use Cons.prems in auto)
  have 2: "reads (listening L) (line L (n + length (header_line h)) ?m) (concat (map header_line hs))
     (line L (n + length (header_line h) + length (concat (map header_line hs)))
       (?m\<lparr> sd_user := fold (hear L) (concat (map header_events hs)) (sd_user ?m) \<rparr>))"
    by (rule Cons.IH) (use Cons.prems in auto)
  show ?case using reads_append [OF 1 2] by (simp add: add.assoc)
qed


text \<open>The header and the bytes of an optional body.\<close>

definition body_header :: "string option \<Rightarrow> (string \<times> string) list" where
  "body_header b = (case b of None \<Rightarrow> [] | Some w \<Rightarrow> [(''Content-Length'', show_nat (length w))])"

definition body_bytes :: "string option \<Rightarrow> string" where
  "body_bytes b = (case b of None \<Rightarrow> [] | Some w \<Rightarrow> w)"

definition body_events :: "string option \<Rightarrow> event list" where
  "body_events b = (if body_bytes b = [] then [] else [Body (body_bytes b)])"

text \<open>From the first header to the end of a message.\<close>

definition tail_head :: "(string \<times> string) list \<Rightarrow> string option \<Rightarrow> string" where
  "tail_head hs b = concat (map header_line (hs @ body_header b)) @ CRLF"

definition tail_events :: "(string \<times> string) list \<Rightarrow> string option \<Rightarrow> event list" where
  "tail_events hs b = concat (map header_events (hs @ body_header b)) @ Headers # body_events b"

definition said_body :: "string option \<Rightarrow> 'u said \<Rightarrow> 'u said" where
  "said_body b m = (case b of
      None \<Rightarrow> m
    | Some w \<Rightarrow> m\<lparr> sd_flags := sd_flags m OR F_CONTENTLENGTH, sd_length := of_nat (length w) \<rparr>)"

lemma token_letter:
  "97 \<le> code c \<Longrightarrow> code c \<le> 122 \<Longrightarrow> TOKEN c = code c"
  "65 \<le> code c \<Longrightarrow> code c \<le> 90 \<Longrightarrow> TOKEN c = code c + 32"
  by (auto simp: TOKEN_def tokens_def nth_append nth_Cons' simp del: upt_rec_numeral)

lemma token_dash: "TOKEN (CHR ''-'') = 45"
  by (simp add: TOKEN_def tokens_def nth_append code_def del: upt_rec_numeral)

lemma length_name:
  "list_all (\<lambda>c. TOKEN c \<noteq> 0) ''Content-Length''" "name_state (lowered ''Content-Length'') = h_content_length"
  by (simp_all add: token_letter token_dash lowered_def name_state_def name_strings code_def char_of_def bit_0)

lemma body_header_reads:
  assumes "sd_flags m = 0" "n + length (concat (map header_line (body_header b))) \<le> HTTP_MAX_HEADER_SIZE"
    "length (body_bytes b) < 2 ^ 64 - 6"
  shows "reads (listening L) (line L n m) (concat (map header_line (body_header b)))
    (line L (n + length (concat (map header_line (body_header b))))
      ((said_body b m)\<lparr> sd_user := fold (hear L) (concat (map header_events (body_header b))) (sd_user m) \<rparr>))"
proof (cases b)
  case None
  then show ?thesis by (simp add: body_header_def said_body_def reads_Nil)
next
  case (Some w)
  let ?name = "''Content-Length''" and ?ds = "show_nat (length w)"
  let ?m = "m\<lparr> sd_user := hear L (Name ?name) (sd_user m) \<rparr>"
  note name = length_name
  have l: "concat (map header_line (body_header b)) = ?name @ '': '' @ ?ds @ CRLF"
    by (simp add: Some body_header_def header_line_def)
  have ds: "list_all isdigit ?ds" "digits_nat ?ds < 2 ^ 64 - 6" "\<not> has_flag (sd_flags ?m) F_CONTENTLENGTH"
    using show_nat_digits [of "length w"] assms(1,3) by (simp_all add: list_all_iff Some body_bytes_def has_flag_def)
  have sz: "n + length ?name + 2 + length ?ds + 2 \<le> HTTP_MAX_HEADER_SIZE" using assms(2) unfolding l by simp
  have "reads (listening L) (named (lowered ?name) (n + length ?name + 2) ?m) (?ds @ CRLF)
    (line L (n + length ?name + 2 + length ?ds + 2)
      (?m\<lparr> sd_flags := sd_flags ?m OR F_CONTENTLENGTH, sd_length := of_nat (digits_nat ?ds),
          sd_user := hear L (Value ?ds) (sd_user ?m) \<rparr>))"
    by (rule length_value [OF ds(1) _ ds(2) name(2) ds(3)]) (use sz in simp_all)
  then have "reads (listening L) (line L n m) (?name @ '': '' @ ?ds @ CRLF)
    (line L (n + length ?name + 2 + length ?ds + 2)
      (?m\<lparr> sd_flags := sd_flags ?m OR F_CONTENTLENGTH, sd_length := of_nat (digits_nat ?ds),
          sd_user := hear L (Value ?ds) (sd_user ?m) \<rparr>))"
    by (rule named_value [OF name(1), rotated 2]) (use sz in simp_all)
  moreover have "n + length ?name + 2 + length ?ds + 2 = n + length (?name @ '': '' @ ?ds @ CRLF)" by simp
  moreover have "?m\<lparr> sd_flags := sd_flags ?m OR F_CONTENTLENGTH, sd_length := of_nat (digits_nat ?ds),
          sd_user := hear L (Value ?ds) (sd_user ?m) \<rparr>
      = (said_body b m)\<lparr> sd_user := fold (hear L) (concat (map header_events (body_header b))) (sd_user m) \<rparr>"
    by (simp add: Some said_body_def body_header_def header_events_def)
  ultimately show ?thesis unfolding l by (simp only:)
qed

text \<open>A message is finished at its last byte, with a body or without.\<close>

lemma tail_reads:
  assumes "list_all good_header hs" "n + length (tail_head hs b) \<le> HTTP_MAX_HEADER_SIZE" "length (body_bytes b) < 2 ^ 64 - 6"
    "sd_flags m = 0" "sd_length m = ULLONG_MAX" "b = None \<Longrightarrow> sd_type m = HTTP_REQUEST" "sd_type m \<noteq> HTTP_BOTH"
    "sd_method m \<noteq> HTTP_CONNECT" "sd_major m = 1" "sd_minor m = 1" "good_end L (sd_type m) (sd_data m)"
  shows "reads (listening L) (line L n m) (tail_head hs b @ body_bytes b)
    (border (sd_type m) (sd_data m) (fold (hear L) (tail_events hs b @ [said_done m]) (sd_user m)))"
proof -
  let ?h = "concat (map header_line hs)" and ?b = "concat (map header_line (body_header b))"
  let ?m1 = "m\<lparr> sd_user := fold (hear L) (concat (map header_events hs)) (sd_user m) \<rparr>"
  let ?m2 = "(said_body b ?m1)\<lparr> sd_user := fold (hear L) (concat (map header_events (body_header b))) (sd_user ?m1) \<rparr>"
  let ?n = "n + length ?h + length ?b"
  have sz: "?n + 2 \<le> HTTP_MAX_HEADER_SIZE" using assms(2) by (simp add: tail_head_def)
  have 1: "reads (listening L) (line L n m) ?h (line L (n + length ?h) ?m1)"
    by (rule headers_reads [OF assms(1)]) (use sz in simp)
  have 2: "reads (listening L) (line L (n + length ?h) ?m1) ?b (line L ?n ?m2)"
    by (rule body_header_reads) (use assms(3,4) sz in simp_all)
  have 3: "reads (listening L) (line L ?n ?m2) [CR] (ready s_headers_almost_done (?n + 1) ?m2)"
    by (rule headers_cr) (use sz in simp)
  have m2: "plain_flags (sd_flags ?m2)" "sd_method ?m2 \<noteq> HTTP_CONNECT" "sd_major ?m2 = 1" "sd_minor ?m2 = 1"
    "sd_type ?m2 = sd_type m" "said_done ?m2 = said_done m" "sd_data ?m2 = sd_data m"
    using assms(4,8-10) by (simp_all add: said_body_def plain_flags_def said_done_def split: option.split)
  note head = reads_append [OF 1 reads_append [OF 2 3]]
  let ?u = "fold (hear L) (concat (map header_events (hs @ body_header b))) (sd_user m)"
  have u: "sd_user ?m2 = ?u" by simp
  show ?thesis
  proof (cases "body_bytes b = []")
    case True
    then have "sd_length ?m2 = 0 \<or> sd_length ?m2 = ULLONG_MAX \<and> sd_type ?m2 = HTTP_REQUEST"
      using assms(5,6) by (cases b) (simp_all add: said_body_def body_bytes_def)
    then have "reads (listening L) (ready s_headers_almost_done (?n + 1) ?m2) [LF]
        (border (sd_type ?m2) (sd_data ?m2) (hear L (said_done ?m2) (hear L Headers (sd_user ?m2))))"
      by (intro headers_end) (use sz m2 assms(7,11) in simp_all)
    from reads_append [OF head this] show ?thesis unfolding m2(5-7) u
      by (simp add: tail_head_def tail_events_def body_events_def True)
  next
    case False
    then obtain w where w: "b = Some w" "w \<noteq> []" by (cases b) (auto simp: body_bytes_def)
    have len: "unat (sd_length ?m2) = length w" "length w < 2 ^ 64 - 1"
      using w assms(3) by (simp_all add: said_body_def body_bytes_def unat_of_nat take_bit_nat_eq_self)
    have "unat ULLONG_MAX = 2 ^ 64 - 1" by (simp add: ULLONG_MAX_def unsigned_minus_1_eq_mask mask_eq_exp_minus_1)
    then have "unat (sd_length ?m2) \<noteq> unat (0 :: u64)" "unat (sd_length ?m2) \<noteq> unat ULLONG_MAX"
      using len(2) w(2) unfolding len(1) by simp_all
    then have nz: "sd_length ?m2 \<noteq> 0" "sd_length ?m2 \<noteq> ULLONG_MAX" by fastforce+
    let ?m3 = "?m2\<lparr> sd_user := hear L Headers (sd_user ?m2) \<rparr>"
    have 4: "reads (listening L) (ready s_headers_almost_done (?n + 1) ?m2) [LF] (in_body ?m3)"
      by (rule headers_body) (use sz m2 nz in simp_all)
    have 5: "reads (listening L) (in_body ?m3) w (border (sd_type ?m3) (sd_data ?m3) (hear L (said_done ?m3) (hear L (Body w) (sd_user ?m3))))"
      by (rule body_reads) (use w len(2) m2 assms(7,11) in \<open>simp_all add: said_body_def\<close>)
    have m3: "sd_type ?m3 = sd_type m" "said_done ?m3 = said_done m" "sd_data ?m3 = sd_data m" "sd_user ?m3 = hear L Headers ?u"
      using m2(5-7) by simp_all
    from reads_append [OF reads_append [OF head 4] 5] show ?thesis unfolding m3
      by (simp add: tail_head_def tail_events_def body_events_def body_bytes_def w)
  qed
qed


section \<open>Requests\<close>

record request =
  rq_method :: http_method
  rq_target :: string
  rq_headers :: "(string \<times> string) list"
  rq_body :: "string option"

definition request_line :: "request \<Rightarrow> string" where
  "request_line r = method_string (rq_method r) @ SPC # rq_target r @ SPC # ''HTTP/1.1'' @ CRLF"

definition request_bytes :: "request \<Rightarrow> string" where
  "request_bytes r = request_line r @ tail_head (rq_headers r) (rq_body r) @ body_bytes (rq_body r)"

definition request_events :: "request \<Rightarrow> event list" where
  "request_events r = Begin # Url (rq_target r) # tail_events (rq_headers r) (rq_body r) @ [Asked (rq_method r)]"

definition good_request :: "request \<Rightarrow> bool" where
  "good_request r \<longleftrightarrow>
     rq_method r \<noteq> HTTP_CONNECT \<and> good_target (rq_target r) \<and> list_all good_header (rq_headers r)
     \<and> length (request_line r @ tail_head (rq_headers r) (rq_body r)) \<le> HTTP_MAX_HEADER_SIZE
     \<and> length (body_bytes (rq_body r)) < 2 ^ 64 - 6"

lemma reads_ex: "(\<And>m. A m \<Longrightarrow> reads S (P m) w Q) \<Longrightarrow> reads S (\<lambda>x. \<exists>m. P m x \<and> A m) w Q"
  unfolding reads_def by blast

lemma ready_line: "ready s_header_field_start n m x \<Longrightarrow> line L n m x"
  by (simp add: ready_def line_def)

lemma request_reads:
  assumes "good_request r" "good_end L HTTP_REQUEST d"
  shows "reads (listening L) (border HTTP_REQUEST d u) (request_bytes r)
    (border HTTP_REQUEST d (fold (hear L) (request_events r) u))"
proof -
  let ?k = "method_string (rq_method r)" and ?t = "rq_target r"
  have g: "rq_method r \<noteq> HTTP_CONNECT" "good_target ?t" "list_all good_header (rq_headers r)" "length (body_bytes (rq_body r)) < 2 ^ 64 - 6"
    using assms(1) by (simp_all add: good_request_def)
  have sz: "length ?k + length ?t + 12 + length (tail_head (rq_headers r) (rq_body r)) \<le> HTTP_MAX_HEADER_SIZE"
    using assms(1) by (simp add: good_request_def request_line_def)
  have "reads (listening L) (ready s_start_req 0 m) (request_bytes r) (border HTTP_REQUEST d (fold (hear L) (request_events r) u))"
    if m: "sd_type m = HTTP_REQUEST \<and> sd_user m = u \<and> sd_data m = d \<and> sd_method m \<noteq> HTTP_CONNECT" for m
  proof -
    let ?m1 = "begun L (rq_method r) m"
    let ?m2 = "?m1\<lparr> sd_user := hear L (Url ?t) (sd_user ?m1) \<rparr>"
    let ?m3 = "?m2\<lparr> sd_major := 1, sd_minor := 1 \<rparr>"
    let ?n = "length ?k + 1 + length ?t + 1"
    have 1: "reads (listening L) (ready s_start_req 0 m) (?k @ [SPC]) (ready s_req_spaces_before_url (length ?k + 1) ?m1)"
      by (rule method_reads)
    have 2: "reads (listening L) (ready s_req_spaces_before_url (length ?k + 1) ?m1) (?t @ [SPC]) (ready s_req_http_start ?n ?m2)"
      by (rule target_reads [OF g(2)]) (use g(1) sz in \<open>simp_all add: begun_def\<close>)
    have 3: "reads (listening L) (ready s_req_http_start ?n ?m2) (''HTTP/1.1'' @ CRLF) (ready s_header_field_start (?n + 10) ?m3)"
      by (rule version_reads) (use sz in simp)
    have 4: "reads (listening L) (line L (?n + 10) ?m3) (tail_head (rq_headers r) (rq_body r) @ body_bytes (rq_body r))
      (border (sd_type ?m3) (sd_data ?m3) (fold (hear L) (tail_events (rq_headers r) (rq_body r) @ [said_done ?m3]) (sd_user ?m3)))"
      by (rule tail_reads [OF g(3) _ g(4)]) (use g(1) sz m assms(2) in \<open>simp_all add: begun_def\<close>)
    note 4 = reads_weaken [OF 4 ready_line]
    have m3: "sd_type ?m3 = HTTP_REQUEST" "sd_data ?m3 = d" "said_done ?m3 = Asked (rq_method r)" "sd_user ?m3 = hear L (Url ?t) (hear L Begin u)"
      using m by (simp_all add: begun_def said_done_def)
    have "request_bytes r = (?k @ [SPC]) @ (?t @ [SPC]) @ (''HTTP/1.1'' @ CRLF) @ tail_head (rq_headers r) (rq_body r) @ body_bytes (rq_body r)"
      by (simp add: request_bytes_def request_line_def)
    moreover have "fold (hear L) (request_events r) u
        = fold (hear L) (tail_events (rq_headers r) (rq_body r) @ [Asked (rq_method r)]) (hear L (Url ?t) (hear L Begin u))"
      by (simp add: request_events_def)
    ultimately show ?thesis
      using reads_append [OF 1 reads_append [OF 2 reads_append [OF 3 4]]] unfolding m3 by (simp only:)
  qed
  then show ?thesis unfolding border_def if_P [OF refl] by (rule reads_ex)
qed

lemma many_reads:
  assumes "\<And>r u. r \<in> set rs \<Longrightarrow> reads S (P u) (print r) (P (fold f (say r) u))"
  shows "reads S (P u) (concat (map print rs)) (P (fold f (concat (map say rs)) u))"
  using assms
proof (induction rs arbitrary: u)
  case Nil
  then show ?case by (simp add: reads_Nil)
next
  case (Cons r rs)
  have "reads S (P u) (print r) (P (fold f (say r) u))" by (rule Cons.prems) simp
  moreover have "reads S (P (fold f (say r) u)) (concat (map print rs)) (P (fold f (concat (map say rs)) (fold f (say r) u)))"
    by (rule Cons.IH) (rule Cons.prems, simp)
  ultimately show ?case using reads_append by fastforce
qed

text \<open>A parser in front of a message, and a whole input that is read: the parser is then in front of the next message.\<close>

definition fresh_parser :: "http_parser_type \<Rightarrow> http_parser \<Rightarrow> bool" where
  "fresh_parser t p \<longleftrightarrow>
     t \<noteq> HTTP_BOTH \<and> ptype p = t \<and> pstate p = (if t = HTTP_REQUEST then s_start_req else s_start_res) \<and> nread p = 0
     \<and> http_errno p = HPE_OK \<and> pmethod p \<noteq> HTTP_CONNECT"

lemma fresh_init: "t \<noteq> HTTP_BOTH \<Longrightarrow> fresh_parser t (http_parser_init p t)"
  by (cases t) (simp_all add: fresh_parser_def http_parser_init_def)

lemma execute_reads:
  assumes "reads (listening L) (border t (pdata p) u) data (border t (pdata p) u')" "length data < 2 ^ 64" "fresh_parser t p"
  shows "\<exists>x. http_parser_execute (listening L) p data u = Ret x (length data)
    \<and> usr x = u' \<and> fresh_parser t (par x) \<and> pdata (par x) = pdata p"
proof -
  let ?s = "if t = HTTP_REQUEST then s_start_req else s_start_res"
  let ?x = "exec_start p u"
  have st: "pstate p = ?s" "http_errno p = HPE_OK" using assms(3) by (simp_all add: fresh_parser_def)
  have "border t (pdata p) u ?x"
    using assms(3) by (auto simp: fresh_parser_def border_def ready_def exec_start_def in_header_def no_marks_def said_by_def url_state_def)
  moreover have "drop (pos ?x) data = data @ []" by (simp add: exec_start_def)
  ultimately obtain y where y: "advances (listening L) data ?x y" "pos y = pos ?x + length data" "border t (pdata p) u' y"
    by (rule readsE [OF assms(1)]) (use assms(2) in auto)
  then obtain m where "said_by y = m" "st y = ?s" "in_header 0 y" "no_marks y" "sd_type m = t" "sd_user m = u'"
      "sd_data m = pdata p" "sd_method m \<noteq> HTTP_CONNECT"
    by (auto simp: border_def ready_def)
  then have b: "st y = ?s" "usr y = u'" "no_marks y" "http_errno (par y) = HPE_OK" "nread (par y) = 0" "ptype (par y) = t"
      "pdata (par y) = pdata p" "pmethod (par y) \<noteq> HTTP_CONNECT"
    using said_byD [of y m] by (auto simp: in_header_def unsigned_eq_0_iff)
  have p0: "pos ?x = 0" by (simp add: exec_start_def)
  show ?thesis
  proof (cases "data = []")
    case True
    from y(1) have "y = ?x"
      by cases (use True in auto)
    then have "usr ?x = u'" "st ?x = ?s" "par ?x = p" using b by (simp_all add: exec_start_def)
    moreover have "http_parser_execute (listening L) p data u = Ret ?x 0"
      using True st calculation(2) by (simp add: http_parser_execute_def exec_eof_def)
    ultimately show ?thesis using True assms(3) by simp
  next
    case False
    have "http_parser_execute (listening L) p data u = Ret (save_state y) (length data)"
      using advances_end [OF y(1) p0 _ b(3,4)] y(2) p0 st False by (simp add: http_parser_execute_def)
    then show ?thesis using b assms(3) by (simp add: save_state_def fresh_parser_def)
  qed
qed

lemma requests_parsed:
  assumes "list_all good_request rs" "good_end L HTTP_REQUEST (pdata p)" "length (concat (map request_bytes rs)) < 2 ^ 64" "fresh_parser HTTP_REQUEST p"
  shows "\<exists>x. http_parser_execute (listening L) p (concat (map request_bytes rs)) u = Ret x (length (concat (map request_bytes rs)))
    \<and> usr x = fold (hear L) (concat (map request_events rs)) u \<and> fresh_parser HTTP_REQUEST (par x) \<and> pdata (par x) = pdata p"
proof -
  have "reads (listening L) (border HTTP_REQUEST (pdata p) u) (concat (map request_bytes rs))
      (border HTTP_REQUEST (pdata p) (fold (hear L) (concat (map request_events rs)) u))"
    by (rule many_reads, rule request_reads) (use assms(1,2) in \<open>auto simp: list_all_iff\<close>)
  then show ?thesis by (rule execute_reads [OF _ assms(3,4)])
qed


section \<open>Responses\<close>

lemma response_byte:
  assumes "n < HTTP_MAX_HEADER_SIZE"
  shows "reads S (ready s_res_H n m) [CHR ''T''] (ready s_res_HT (n + 1) m)"
    "reads S (ready s_res_HT n m) [CHR ''T''] (ready s_res_HTT (n + 1) m)"
    "reads S (ready s_res_HTT n m) [CHR ''P''] (ready s_res_HTTP (n + 1) m)"
    "reads S (ready s_res_HTTP n m) [CHR ''/''] (ready s_res_http_major (n + 1) m)"
    "reads S (ready s_res_http_dot n m) [CHR ''.''] (ready s_res_http_minor (n + 1) m)"
    "reads S (ready s_res_http_end n m) [SPC] (ready s_res_first_status_code (n + 1) m)"
    "reads S (ready s_res_status_code n m) [SPC] (ready s_res_status_start (n + 1) m)"
    "reads S (ready s_res_line_almost_done n m) [LF] (ready s_header_field_start (n + 1) m)"
  by (rule ready_const [OF _ assms];
      simp add: PARSING_HEADER_def exec_char_def ex_res_line_def ex_res_status_code_def ex_const_def STRICT_CHECK_def
        IS_NUM_def isdigit_def code_def)+

lemma response_digit:
  assumes "n < HTTP_MAX_HEADER_SIZE"
  shows "reads S (ready s_res_http_major n m) [CHR ''1''] (ready s_res_http_dot (n + 1) (m\<lparr> sd_major := 1 \<rparr>))"
    "reads S (ready s_res_http_minor n m) [CHR ''1''] (ready s_res_http_end (n + 1) (m\<lparr> sd_minor := 1 \<rparr>))"
  by (rule ready_byte [OF _ assms, where f = "http_major_update (\<lambda>_. 1)"] ready_byte [OF _ assms, where f = "http_minor_update (\<lambda>_. 1)"];
      simp add: PARSING_HEADER_def exec_char_def ex_res_line_def IS_NUM_def isdigit_def code_def digit16_def said_by_def)+

text \<open>What a response says when it begins.\<close>

definition answered :: "'u listener \<Rightarrow> 'u said \<Rightarrow> 'u said" where
  "answered L m = m\<lparr> sd_flags := 0, sd_length := ULLONG_MAX, sd_user := hear L Begin (sd_user m) \<rparr>"

lemma response_start:
  "reads (listening L) (ready s_start_res 0 m) [CHR ''H''] (ready s_res_H 1 (answered L m))"
proof -
  let ?F = "\<lambda>x. told L Begin (goto_state s_res_H (begin_message (counted x)))"
  have "exec_char (listening L) data (CHR ''H'') x = Next (told L Begin (goto_state s_res_H (begin_message x)))"
    if "st x = s_start_res" "http_errno (par x) = HPE_OK" for data x
    using that by (simp add: exec_char_def ex_start_res_def Let_def cb_begin_listening begin_message_def)
  then show ?thesis
    by (intro reads_byte [where F = ?F and n = 0])
      (auto simp: ready_def in_header_def reexecute_Next PARSING_HEADER_def said_by_def answered_def begin_message_def
        HTTP_MAX_HEADER_SIZE_def)
qed

lemma response_version:
  "reads (listening L) (ready s_start_res 0 m) ''HTTP/1.1 ''
    (ready s_res_first_status_code 9 ((answered L m)\<lparr> sd_major := 1, sd_minor := 1 \<rparr>))"
proof -
  have "reads (listening L) (ready s_start_res 0 m)
      [CHR ''H'', CHR ''T'', CHR ''T'', CHR ''P'', CHR ''/'', CHR ''1'', CHR ''.'', CHR ''1'', SPC]
    (ready s_res_first_status_code (1 + 1 + 1 + 1 + 1 + 1 + 1 + 1 + 1) ((answered L m)\<lparr> sd_major := 1 \<rparr>\<lparr> sd_minor := 1 \<rparr>))"
    by (intro reads_Cons [OF response_start] reads_Cons [OF response_byte(1)] reads_Cons [OF response_byte(2)]
        reads_Cons [OF response_byte(3)] reads_Cons [OF response_byte(4)] reads_Cons [OF response_digit(1)]
        reads_Cons [OF response_byte(5)] reads_Cons [OF response_digit(2)] response_byte(6))
      (simp_all add: HTTP_MAX_HEADER_SIZE_def)
  moreover have "1 + 1 + 1 + 1 + 1 + 1 + 1 + 1 + 1 = (9 :: nat)" by simp
  ultimately show ?thesis by (simp only:)
qed

lemma digit16_val: "digit16 d = of_nat (digit_val d)"
  by (simp add: digit16_def digit_val_def)

lemma first_status_digit:
  assumes "isdigit d" "n < HTTP_MAX_HEADER_SIZE"
  shows "reads S (ready s_res_first_status_code n m) [d] (ready s_res_status_code (n + 1) (m\<lparr> sd_status := of_nat (digit_val d) \<rparr>))"
  by (rule ready_byte [OF _ assms(2), where f = "status_code_update (\<lambda>_. of_nat (digit_val d))"])
    (use assms(1) in \<open>simp_all add: PARSING_HEADER_def exec_char_def ex_res_first_status_code_def IS_NUM_def digit16_val said_by_def\<close>)

lemma status_digits:
  "list_all isdigit ds \<Longrightarrow> v * 10 ^ length ds + digits_nat ds \<le> 999 \<Longrightarrow> n + length ds \<le> HTTP_MAX_HEADER_SIZE \<Longrightarrow>
   sd_status m = of_nat v \<Longrightarrow>
   reads S (ready s_res_status_code n m) ds
     (ready s_res_status_code (n + length ds) (m\<lparr> sd_status := of_nat (v * 10 ^ length ds + digits_nat ds) \<rparr>))"
proof (induction ds arbitrary: v n m)
  case Nil
  then have "m\<lparr> sd_status := of_nat v \<rparr> = m" by (cases m) simp
  then show ?case by (simp add: reads_Nil digits_nat_def)
next
  case (Cons d ds)
  let ?v = "v * 10 + digit_val d"
  have e: "v * 10 ^ length (d # ds) + digits_nat (d # ds) = ?v * 10 ^ length ds + digits_nat ds"
    by (simp add: digits_nat_Cons algebra_simps)
  have "?v \<le> ?v * 10 ^ length ds" by simp
  then have v: "?v \<le> 999" using Cons.prems(2) unfolding e by linarith
  have w: "unat (of_nat ?v :: u16) = ?v" using v by (simp only: unat_of_nat) (simp add: take_bit_nat_eq_self)
  have "\<not> (999 :: u16) < of_nat ?v" unfolding word_less_nat_alt w using v by simp
  then have lim: "\<not> (999 :: u16) < of_nat v * 10 + of_nat (digit_val d)" by simp
  let ?F = "\<lambda>x. upd (status_code_update (\<lambda>_. of_nat ?v)) (counted x)"
  have "exec_char S data d (counted x) = Next (?F x)" if "ready s_res_status_code n m x" for data x
    using that said_byD [of x m] Cons.prems(1,4) lim
    by (simp add: ready_def exec_char_def ex_res_status_code_def IS_NUM_def Let_def digit16_val upd_def)
  then have 1: "reads S (ready s_res_status_code n m) [d] (ready s_res_status_code (n + 1) (m\<lparr> sd_status := of_nat ?v \<rparr>))"
    using Cons.prems(3)
    by (intro reads_byte [where F = ?F and n = n])
      (auto simp: ready_def in_header_def reexecute_Next PARSING_HEADER_def said_by_def)
  have "reads S (ready s_res_status_code (n + 1) (m\<lparr> sd_status := of_nat ?v \<rparr>)) ds
     (ready s_res_status_code (n + 1 + length ds)
       (m\<lparr> sd_status := of_nat ?v, sd_status := of_nat (?v * 10 ^ length ds + digits_nat ds) \<rparr>))"
    by (rule Cons.IH) (use Cons.prems e in auto)
  from reads_Cons [OF 1 this] show ?case unfolding e by (simp del: of_nat_add of_nat_mult of_nat_power)
qed

text \<open>The reason phrase, which began at \<open>i\<close>.\<close>

definition in_reason :: "nat \<Rightarrow> nat \<Rightarrow> 'u said \<Rightarrow> 'u exec \<Rightarrow> bool" where
  "in_reason i n m x \<longleftrightarrow>
     st x = s_res_status \<and> in_header n x \<and> said_by x = m \<and> status_mark x = Some i
     \<and> header_field_mark x = None \<and> header_value_mark x = None \<and> body_mark x = None \<and> url_mark x = None"

lemma reason_start:
  assumes "\<not> is_crlf c" "n < HTTP_MAX_HEADER_SIZE"
  shows "reads S (\<lambda>x. ready s_res_status_start n m x \<and> pos x = i) [c] (in_reason i (n + 1) m)"
proof -
  let ?F = "\<lambda>x. goto_state s_res_status (upd (index_update (\<lambda>_. 0)) ((counted x)\<lparr> status_mark := Some (pos x) \<rparr>))"
  have "exec_char S data c (counted x) = Next (?F x)" if "ready s_res_status_start n m x" for data x
    using that assms(1)
    by (simp add: ready_def exec_char_def ex_res_status_start_def Let_def mark_def no_marks_def)
  then show ?thesis using assms(2)
    by (intro reads_byte [where F = ?F and n = n])
      (auto simp: in_reason_def ready_def in_header_def reexecute_Next PARSING_HEADER_def said_by_def no_marks_def)
qed

lemma reason_chars:
  "list_all (\<lambda>c. \<not> is_crlf c) w \<Longrightarrow> n + length w \<le> HTTP_MAX_HEADER_SIZE \<Longrightarrow>
   reads S (in_reason i n m) w (in_reason i (n + length w) m)"
proof (induction w arbitrary: n)
  case Nil
  then show ?case by (simp add: reads_Nil)
next
  case (Cons c w)
  have "exec_char S data c (counted x) = Next (counted x)" if "in_reason i n m x" for data x
    using that Cons.prems(1) by (simp add: in_reason_def exec_char_def ex_res_status_def is_crlf_def)
  then have 1: "reads S (in_reason i n m) [c] (in_reason i (n + 1) m)" using Cons.prems(2)
    by (intro reads_byte [where F = counted and n = n])
      (auto simp: in_reason_def in_header_def reexecute_Next PARSING_HEADER_def said_by_def)
  have "reads S (in_reason i (n + 1) m) w (in_reason i (n + 1 + length w) m)"
    by (rule Cons.IH) (use Cons.prems in auto)
  from reads_Cons [OF 1 this] show ?case by simp
qed

lemma reason_cr:
  assumes "in_reason i n m x" "drop (pos x) data = CR # rest" "n < HTTP_MAX_HEADER_SIZE" "take (pos x - i) (drop i data) = w"
  shows "exec_char (listening L) data CR (counted x)
    = Next ((told L (Status w) (goto_state s_res_line_almost_done (counted x)))\<lparr> status_mark := None \<rparr>)"
  using assms cb_status_listening [of "goto_state s_res_line_almost_done (counted x)" i L data "pos x + 1" Next]
  by (simp add: in_reason_def exec_char_def ex_res_status_def in_header_def)


lemma reason_reads:
  assumes "list_all (\<lambda>c. \<not> is_crlf c) w" "n + length w + 2 \<le> HTTP_MAX_HEADER_SIZE"
  shows "reads (listening L) (ready s_res_status_start n m) (w @ CRLF)
    (ready s_header_field_start (n + length w + 2) (m\<lparr> sd_user := hear L (Status w) (sd_user m) \<rparr>))"
proof -
  let ?m = "m\<lparr> sd_user := hear L (Status w) (sd_user m) \<rparr>"
  let ?F = "\<lambda>x. (told L (Status w) (goto_state s_res_line_almost_done x))\<lparr> status_mark := None \<rparr>"
  have "reads (listening L) (ready s_res_status_start n m) (w @ [CR]) (ready s_res_line_almost_done (n + length w + 1) ?m)"
  proof (rule readsI)
    fix data rest x
    assume x: "ready s_res_status_start n m x" "drop (pos x) data = (w @ [CR]) @ rest" and l: "length data < 2 ^ 64"
    show "\<exists>y. advances (listening L) data x y \<and> pos y = pos x + length (w @ [CR])
        \<and> ready s_res_line_almost_done (n + length w + 1) ?m y"
    proof (cases w)
      case Nil
      let ?x = "goto_state s_res_status (upd (index_update (\<lambda>_. 0)) ((counted x)\<lparr> status_mark := Some (pos x) \<rparr>))"
      have d: "drop (pos x) data = CR # rest" using x(2) Nil by simp
      have h: "PARSING_HEADER (st x)" "in_header n x" "n < HTTP_MAX_HEADER_SIZE"
        using x(1) assms(2) by (auto simp: ready_def PARSING_HEADER_def)
      have 1: "exec_char (listening L) data CR (counted x) = Reexec ?x CR"
        using x(1) by (simp add: ready_def exec_char_def ex_res_status_start_def Let_def mark_def no_marks_def is_crlf_def)
      have 2: "exec_char (listening L) data CR ?x = Next (?F ?x)"
        using h(2) Nil cb_status_listening [of "goto_state s_res_line_almost_done ?x" "pos x" L data "pos x + 1" Next]
        by (simp add: exec_char_def ex_res_status_def in_header_def)
      note a = header_byte [OF h d reexecute_twice [OF 1 2], simplified]
      have "ready s_res_line_almost_done (n + length w + 1) ?m ((?F ?x)\<lparr> pos := pos x + 1 \<rparr>)"
        using a(2) x(1) Nil by (auto simp: ready_def in_header_def no_marks_def said_by_def)
      then show ?thesis using a(1) Nil by (intro exI [of _ "(?F ?x)\<lparr> pos := pos x + 1 \<rparr>"]) simp
    next
      case (Cons c v)
      have "reads (listening L) (\<lambda>y. ready s_res_status_start n m y \<and> pos y = pos x) (c # v) (in_reason (pos x) (n + 1 + length v) m)"
        by (rule reads_Cons [OF reason_start reason_chars]) (use assms Cons in auto)
      then obtain y where y: "advances (listening L) data x y" "pos y = pos x + length w" "in_reason (pos x) (n + length w) m y"
          "drop (pos y) data = CR # rest"
        by (rule readsE [of _ _ _ _ x data "CR # rest"]) (use x l Cons in auto)
      have t: "take (pos y - pos x) (drop (pos x) data) = w" using x(2) y(2) by simp
      have h: "PARSING_HEADER (st y)" "in_header (n + length w) y" "n + length w < HTTP_MAX_HEADER_SIZE"
        using y(3) assms(2) by (auto simp: in_reason_def PARSING_HEADER_def)
      note a = header_byte [OF h y(4) reexecute_Next [OF reason_cr [OF y(3,4) h(3) t]], simplified]
      have "ready s_res_line_almost_done (n + length w + 1) ?m ((?F (counted y))\<lparr> pos := pos y + 1 \<rparr>)"
        using a(2) y(3) by (auto simp: ready_def in_reason_def in_header_def no_marks_def said_by_def)
      then show ?thesis using advances_trans [OF y(1) a(1)] y(2)
        by (intro exI [of _ "(?F (counted y))\<lparr> pos := pos y + 1 \<rparr>"]) simp
    qed
  qed
  moreover have "reads (listening L) (ready s_res_line_almost_done (n + length w + 1) ?m) [LF]
      (ready s_header_field_start (n + length w + 2) ?m)"
    using response_byte(8) [of "n + length w + 1" "listening L" ?m] assms(2) by simp
  ultimately show ?thesis using reads_append by fastforce
qed

record response =
  rs_status :: nat
  rs_reason :: string
  rs_headers :: "(string \<times> string) list"
  rs_body :: string

definition response_line :: "response \<Rightarrow> string" where
  "response_line r = ''HTTP/1.1 '' @ show_nat (rs_status r) @ SPC # rs_reason r @ CRLF"

definition response_bytes :: "response \<Rightarrow> string" where
  "response_bytes r = response_line r @ tail_head (rs_headers r) (Some (rs_body r)) @ rs_body r"

definition response_events :: "response \<Rightarrow> event list" where
  "response_events r =
     Begin # Status (rs_reason r) # tail_events (rs_headers r) (Some (rs_body r)) @ [Answered (of_nat (rs_status r))]"

definition good_response :: "response \<Rightarrow> bool" where
  "good_response r \<longleftrightarrow>
     rs_status r \<le> 999 \<and> list_all (\<lambda>c. \<not> is_crlf c) (rs_reason r) \<and> list_all good_header (rs_headers r)
     \<and> length (response_line r @ tail_head (rs_headers r) (Some (rs_body r))) \<le> HTTP_MAX_HEADER_SIZE
     \<and> length (rs_body r) < 2 ^ 64 - 6"

lemma status_reads:
  assumes "s \<le> 999" "n + length (show_nat s) < HTTP_MAX_HEADER_SIZE"
  shows "reads S (ready s_res_first_status_code n m) (show_nat s @ [SPC])
    (ready s_res_status_start (n + length (show_nat s) + 1) (m\<lparr> sd_status := of_nat s \<rparr>))"
proof -
  obtain d ds where ds: "show_nat s = d # ds" by (cases "show_nat s") auto
  have dg: "isdigit d" "list_all isdigit ds" using show_nat_digits [of s] ds by (simp_all add: list_all_iff)
  have e: "digit_val d * 10 ^ length ds + digits_nat ds = s"
    using show_nat_roundtrip [of s] ds by (simp add: digits_nat_Cons)
  let ?m = "m\<lparr> sd_status := of_nat (digit_val d) \<rparr>"
  have 1: "reads S (ready s_res_first_status_code n m) [d] (ready s_res_status_code (n + 1) ?m)"
    by (rule first_status_digit [OF dg(1)]) (use assms(2) in simp)
  have "reads S (ready s_res_status_code (n + 1) ?m) ds
     (ready s_res_status_code (n + 1 + length ds) (?m\<lparr> sd_status := of_nat (digit_val d * 10 ^ length ds + digits_nat ds) \<rparr>))"
    by (rule status_digits [OF dg(2)]) (use assms ds e in simp_all)
  then have 2: "reads S (ready s_res_status_code (n + 1) ?m) ds (ready s_res_status_code (n + length (show_nat s)) (m\<lparr> sd_status := of_nat s \<rparr>))"
    unfolding e ds by simp
  have 3: "reads S (ready s_res_status_code (n + length (show_nat s)) (m\<lparr> sd_status := of_nat s \<rparr>)) [SPC]
      (ready s_res_status_start (n + length (show_nat s) + 1) (m\<lparr> sd_status := of_nat s \<rparr>))"
    by (rule response_byte(7)) (rule assms(2))
  show ?thesis using reads_append [OF reads_Cons [OF 1 2] 3] ds by simp
qed

lemma response_reads:
  assumes "good_response r" "good_end L HTTP_RESPONSE d"
  shows "reads (listening L) (border HTTP_RESPONSE d u) (response_bytes r)
    (border HTTP_RESPONSE d (fold (hear L) (response_events r) u))"
proof -
  let ?s = "show_nat (rs_status r)" and ?w = "rs_reason r" and ?b = "Some (rs_body r)"
  have g: "rs_status r \<le> 999" "list_all (\<lambda>c. \<not> is_crlf c) ?w" "list_all good_header (rs_headers r)"
      "length (body_bytes ?b) < 2 ^ 64 - 6"
    using assms(1) by (simp_all add: good_response_def body_bytes_def)
  have sz: "9 + length ?s + 1 + length ?w + 2 + length (tail_head (rs_headers r) ?b) \<le> HTTP_MAX_HEADER_SIZE"
    using assms(1) by (simp add: good_response_def response_line_def)
  have "reads (listening L) (ready s_start_res 0 m) (response_bytes r) (border HTTP_RESPONSE d (fold (hear L) (response_events r) u))"
    if m: "sd_type m = HTTP_RESPONSE \<and> sd_user m = u \<and> sd_data m = d \<and> sd_method m \<noteq> HTTP_CONNECT" for m
  proof -
    let ?m1 = "(answered L m)\<lparr> sd_major := 1, sd_minor := 1 \<rparr>"
    let ?m2 = "?m1\<lparr> sd_status := of_nat (rs_status r) \<rparr>"
    let ?m3 = "?m2\<lparr> sd_user := hear L (Status ?w) (sd_user ?m2) \<rparr>"
    let ?n = "9 + length ?s + 1"
    have 1: "reads (listening L) (ready s_start_res 0 m) ''HTTP/1.1 '' (ready s_res_first_status_code 9 ?m1)"
      by (rule response_version)
    have 2: "reads (listening L) (ready s_res_first_status_code 9 ?m1) (?s @ [SPC]) (ready s_res_status_start ?n ?m2)"
      by (rule status_reads [OF g(1)]) (use sz in simp)
    have 3: "reads (listening L) (ready s_res_status_start ?n ?m2) (?w @ CRLF) (ready s_header_field_start (?n + length ?w + 2) ?m3)"
      by (rule reason_reads [OF g(2)]) (use sz in simp)
    have 4: "reads (listening L) (line L (?n + length ?w + 2) ?m3) (tail_head (rs_headers r) ?b @ body_bytes ?b)
      (border (sd_type ?m3) (sd_data ?m3) (fold (hear L) (tail_events (rs_headers r) ?b @ [said_done ?m3]) (sd_user ?m3)))"
      by (rule tail_reads [OF g(3) _ g(4)]) (use sz m assms(2) in \<open>simp_all add: answered_def\<close>)
    note 4 = reads_weaken [OF 4 ready_line]
    have m3: "sd_type ?m3 = HTTP_RESPONSE" "sd_data ?m3 = d" "said_done ?m3 = Answered (of_nat (rs_status r))"
      "sd_user ?m3 = hear L (Status ?w) (hear L Begin u)"
      using m by (simp_all add: answered_def said_done_def)
    have "response_bytes r = ''HTTP/1.1 '' @ (?s @ [SPC]) @ (?w @ CRLF) @ tail_head (rs_headers r) ?b @ body_bytes ?b"
      by (simp add: response_bytes_def response_line_def body_bytes_def)
    moreover have "fold (hear L) (response_events r) u
        = fold (hear L) (tail_events (rs_headers r) ?b @ [Answered (of_nat (rs_status r))]) (hear L (Status ?w) (hear L Begin u))"
      by (simp add: response_events_def)
    ultimately show ?thesis
      using reads_append [OF 1 reads_append [OF 2 reads_append [OF 3 4]]] unfolding m3 by (simp only:)
  qed
  then have "reads (listening L) (\<lambda>x. \<exists>m. ready s_start_res 0 m x \<and> sd_type m = HTTP_RESPONSE \<and> sd_user m = u \<and> sd_data m = d \<and> sd_method m \<noteq> HTTP_CONNECT)
      (response_bytes r) (border HTTP_RESPONSE d (fold (hear L) (response_events r) u))"
    by (rule reads_ex)
  then show ?thesis unfolding border_def by simp
qed

lemma responses_parsed:
  assumes "list_all good_response rs" "good_end L HTTP_RESPONSE (pdata p)" "length (concat (map response_bytes rs)) < 2 ^ 64" "fresh_parser HTTP_RESPONSE p"
  shows "\<exists>x. http_parser_execute (listening L) p (concat (map response_bytes rs)) u = Ret x (length (concat (map response_bytes rs)))
    \<and> usr x = fold (hear L) (concat (map response_events rs)) u \<and> fresh_parser HTTP_RESPONSE (par x) \<and> pdata (par x) = pdata p"
proof -
  have "reads (listening L) (border HTTP_RESPONSE (pdata p) u) (concat (map response_bytes rs))
      (border HTTP_RESPONSE (pdata p) (fold (hear L) (concat (map response_events rs)) u))"
    by (rule many_reads, rule response_reads) (use assms(1,2) in \<open>auto simp: list_all_iff\<close>)
  then show ?thesis by (rule execute_reads [OF _ assms(3,4)])
qed


section \<open>The theorems\<close>

text \<open>C17: Requests survive printing and parsing.  Any number of requests - each with a method other than \<open>CONNECT\<close>, an absolute
  path with query and fragment, any headers but the five that steer the parser, and optionally a body
  with its length - written one after the other and given to a fresh request parser are taken to the last
  byte, and the application hears exactly what was written, in order: the beginning of each request, its
  target, each name and value, the end of its headers, its body and its end with the method.  The parser is then
  in front of the next request.\<close>

theorem requests_roundtrip:
  assumes "list_all good_request rs" "good_end L HTTP_REQUEST (pdata p)" "length (concat (map request_bytes rs)) < 2 ^ 64"
  shows "\<exists>x. http_parser_execute (listening L) (http_parser_init p HTTP_REQUEST) (concat (map request_bytes rs)) u
      = Ret x (length (concat (map request_bytes rs)))
    \<and> usr x = fold (hear L) (concat (map request_events rs)) u
    \<and> fresh_parser HTTP_REQUEST (par x)"
  using requests_parsed [OF assms(1) _ assms(3) fresh_init] assms(2)
  by (fastforce simp: http_parser_init_def)

text \<open>An application that notes everything.\<close>

definition recorder :: "event list listener" where
  "recorder =
     \<lparr> hears = (\<lambda>k. True), takes = (\<lambda>e es. es @ [e]), fin = (\<lambda>p. p), ends = (\<lambda>p es. (0, p, es @ [done_event p])) \<rparr>"

lemma recorder_end: "good_end recorder t d"
  by (simp add: good_end_def recorder_def)

lemma recorder_hears: "fold (hear recorder) es u = u @ es"
  by (induction es arbitrary: u) (simp_all add: hear_def recorder_def)

definition sample_requests :: "request list" where
  "sample_requests =
     [\<lparr> rq_method = HTTP_GET, rq_target = ''/'', rq_headers = [(''Host'', ''a'')], rq_body = None \<rparr>,
      \<lparr> rq_method = HTTP_MSEARCH, rq_target = ''/?'', rq_headers = [], rq_body = Some ''x'' \<rparr>]"

lemma sample_header: "good_header (''Host'', ''a'')"
  by (simp add: good_header_def token_letter lowered_def framing_names_def name_strings code_def char_of_def bit_0
      value_char_def IS_HEADER_CHAR_def is_crlf_def)

lemmas tail_eval = tail_head_def body_header_def header_line_def body_bytes_def show_nat.simps HTTP_MAX_HEADER_SIZE_def

lemma sample_requests_good: "list_all good_request sample_requests" "length (concat (map request_bytes sample_requests)) < 2 ^ 64"
  by (simp_all add: sample_requests_def good_request_def request_bytes_def good_target_def path_char_def sample_header request_line_def tail_eval)

theorem requests_roundtrip_witness:
  "\<exists>x. http_parser_execute (listening recorder) (http_parser_init zero_parser HTTP_REQUEST) (concat (map request_bytes sample_requests)) []
      = Ret x (length (concat (map request_bytes sample_requests)))
    \<and> usr x = [Begin, Url ''/'', Name ''Host'', Value ''a'', Headers, Asked HTTP_GET,
               Begin, Url ''/?'', Name ''Content-Length'', Value ''1'', Headers, Body ''x'', Asked HTTP_MSEARCH]
    \<and> fresh_parser HTTP_REQUEST (par x)"
proof -
  have e: "concat (map request_events sample_requests) =
      [Begin, Url ''/'', Name ''Host'', Value ''a'', Headers, Asked HTTP_GET,
       Begin, Url ''/?'', Name ''Content-Length'', Value ''1'', Headers, Body ''x'', Asked HTTP_MSEARCH]"
    by (simp add: sample_requests_def request_events_def tail_events_def header_events_def body_header_def body_events_def
        body_bytes_def show_nat.simps char_of_def bit_0)
  show ?thesis
    using requests_roundtrip [OF sample_requests_good(1) recorder_end sample_requests_good(2), of zero_parser "[]"]
    unfolding recorder_hears e by simp
qed

text \<open>C18: Responses survive printing and parsing.  Any number of responses - each with a status of at most three digits, a
  reason phrase, any headers but the five that steer the parser, and a body with its length - given one
  after the other to a fresh response parser are taken to the last byte, and the application hears exactly
  what was written, in order; each response ends with its body, however many follow, and the parser is then
  in front of the next one.\<close>

theorem responses_roundtrip:
  assumes "list_all good_response rs" "good_end L HTTP_RESPONSE (pdata p)" "length (concat (map response_bytes rs)) < 2 ^ 64"
  shows "\<exists>x. http_parser_execute (listening L) (http_parser_init p HTTP_RESPONSE) (concat (map response_bytes rs)) u
      = Ret x (length (concat (map response_bytes rs)))
    \<and> usr x = fold (hear L) (concat (map response_events rs)) u
    \<and> fresh_parser HTTP_RESPONSE (par x)"
  using responses_parsed [OF assms(1) _ assms(3) fresh_init] assms(2)
  by (fastforce simp: http_parser_init_def)

definition sample_response :: response where
  "sample_response = \<lparr> rs_status = 404, rs_reason = ''Not Found'', rs_headers = [(''Host'', ''a'')], rs_body = ''x'' \<rparr>"

lemma sample_response_good: "good_response sample_response" "length (response_bytes sample_response) < 2 ^ 64"
  by (simp_all add: sample_response_def good_response_def response_bytes_def sample_header response_line_def is_crlf_def tail_eval)

theorem responses_roundtrip_witness:
  "\<exists>x. http_parser_execute (listening recorder) (http_parser_init zero_parser HTTP_RESPONSE) (response_bytes sample_response) []
      = Ret x (length (response_bytes sample_response))
    \<and> usr x = [Begin, Status ''Not Found'', Name ''Host'', Value ''a'', Name ''Content-Length'', Value ''1'', Headers,
               Body ''x'', Answered 404]
    \<and> fresh_parser HTTP_RESPONSE (par x)"
proof -
  have e: "response_events sample_response = [Begin, Status ''Not Found'', Name ''Host'', Value ''a'',
      Name ''Content-Length'', Value ''1'', Headers, Body ''x'', Answered 404]"
    by (simp add: sample_response_def response_events_def tail_events_def header_events_def body_header_def body_events_def
        body_bytes_def show_nat.simps char_of_def bit_0)
  show ?thesis
    using responses_roundtrip [of "[sample_response]" recorder zero_parser "[]"] sample_response_good recorder_end
    unfolding recorder_hears by (simp add: e)
qed

end
