(* ===== verification/WrkPoll.thy ===== *)
theory WrkPoll
  imports Runs "HOL-Library.Word" "HOL-Library.Signed_Division"
begin

unbundle bit_operations_syntax

text \<open>
  The four polling back ends of the event loop, \<open>tools/wrk/src/ae_epoll.c\<close>, \<open>ae_kqueue.c\<close>, \<open>ae_select.c\<close>
  and \<open>ae_evport.c\<close>, one of which \<open>ae.c\<close> includes.  The interface they share is the record \<open>ae_api\<close>, its
  contract the locale \<open>poll_backend\<close>: what is registered with the kernel for each descriptor.  Three back
  ends meet it; the one for event ports does not.
\<close>

section \<open>Masks and the interface\<close>

type_synonym mask = "32 word"

definition AE_NONE :: mask where "AE_NONE = 0"
definition AE_READABLE :: mask where "AE_READABLE = 1"
definition AE_WRITABLE :: mask where "AE_WRITABLE = 2"

lemmas ae_masks = AE_NONE_def AE_READABLE_def AE_WRITABLE_def

text \<open>\<open>if (a) mask |= bit;\<close>, the idiom of all back ends.\<close>

definition or_if :: "mask \<Rightarrow> bool \<Rightarrow> mask \<Rightarrow> mask" where
  "or_if m b bits = (if b then m OR bits else m)"

text \<open>\<open>mask & bit\<close> as a condition.\<close>

definition has :: "mask \<Rightarrow> mask \<Rightarrow> bool" where
  "has m b \<longleftrightarrow> m AND b \<noteq> 0"

text \<open>
  The functions of a back end.  Of the event loop they read the mask of the descriptor (adding,
  deleting) or \<open>maxfd\<close> and all masks (polling); the entries they write to \<open>fired\<close> are their result.  \<open>'a\<close> is the
  state of the back end with the part of the kernel behind it, \<open>'k\<close> what the kernel answers to a poll, as a
  function of the time it may wait (\<open>None\<close>: for ever).
\<close>

type_synonym timeval = "int \<times> int"

record ('a, 'k) ae_api =
  aeApiCreate :: "int \<Rightarrow> 'a option"
  aeApiResize :: "'a \<Rightarrow> int \<Rightarrow> 'a \<times> int"
  aeApiAddEvent :: "'a \<Rightarrow> mask \<Rightarrow> int \<Rightarrow> mask \<Rightarrow> ('a \<times> int) outcome"
  aeApiDelEvent :: "'a \<Rightarrow> mask \<Rightarrow> int \<Rightarrow> mask \<Rightarrow> 'a outcome"
  aeApiPoll :: "'a \<Rightarrow> int \<Rightarrow> mask list \<Rightarrow> timeval option \<Rightarrow> 'k \<Rightarrow> ('a \<times> (int \<times> mask) list) outcome"

section \<open>epoll\<close>

text \<open>
  The kernel side of an epoll instance: the events it watches for each descriptor, and the descriptors it
  would accept (open, of a kind that can be polled, with memory for one more).
\<close>

record epoll =
  ep_interest :: "int \<Rightarrow> u32 option"
  ep_accepts :: "int \<Rightarrow> bool"

definition EPOLLIN :: u32 where "EPOLLIN = 1"
definition EPOLLOUT :: u32 where "EPOLLOUT = 4"
definition EPOLLERR :: u32 where "EPOLLERR = 8"
definition EPOLLHUP :: u32 where "EPOLLHUP = 16"

datatype epoll_op = EPOLL_CTL_ADD | EPOLL_CTL_MOD | EPOLL_CTL_DEL

fun epoll_ctl :: "epoll \<Rightarrow> epoll_op \<Rightarrow> int \<Rightarrow> u32 \<Rightarrow> epoll \<times> int" where
  "epoll_ctl k EPOLL_CTL_ADD fd ev =
     (if ep_accepts k fd \<and> ep_interest k fd = None then (k\<lparr> ep_interest := (ep_interest k)(fd := Some ev) \<rparr>, 0)
      else (k, -1))"
| "epoll_ctl k EPOLL_CTL_MOD fd ev =
     (if ep_interest k fd \<noteq> None then (k\<lparr> ep_interest := (ep_interest k)(fd := Some ev) \<rparr>, 0) else (k, -1))"
| "epoll_ctl k EPOLL_CTL_DEL fd ev =
     (if ep_interest k fd \<noteq> None then (k\<lparr> ep_interest := (ep_interest k)(fd := None) \<rparr>, 0) else (k, -1))"

text \<open>The events asked for a mask.\<close>

definition epoll_events :: "mask \<Rightarrow> u32" where
  "epoll_events m = or_if (or_if 0 (has m AE_READABLE) EPOLLIN) (has m AE_WRITABLE) EPOLLOUT"

text \<open>\<open>epoll_create\<close> answers with an empty instance or -1; the argument says which descriptors it accepts.\<close>

definition epoll_api_create :: "(int \<Rightarrow> bool) option \<Rightarrow> int \<Rightarrow> epoll option" where
  "epoll_api_create created setsize = map_option (\<lambda>acc. \<lparr> ep_interest = (\<lambda>_. None), ep_accepts = acc \<rparr>) created"

definition epoll_api_resize :: "epoll \<Rightarrow> int \<Rightarrow> epoll \<times> int" where
  "epoll_api_resize st setsize = (st, 0)"

definition epoll_api_add :: "epoll \<Rightarrow> mask \<Rightarrow> int \<Rightarrow> mask \<Rightarrow> (epoll \<times> int) outcome" where
  "epoll_api_add st old fd m =
     Ok (let op = (if old = AE_NONE then EPOLL_CTL_ADD else EPOLL_CTL_MOD);
             (st', r) = epoll_ctl st op fd (epoll_events (m OR old))
         in (st', if r = -1 then -1 else 0))"

definition epoll_api_del :: "epoll \<Rightarrow> mask \<Rightarrow> int \<Rightarrow> mask \<Rightarrow> epoll outcome" where
  "epoll_api_del st old fd delmask =
     Ok (let m = old AND NOT delmask
         in fst (if m \<noteq> AE_NONE then epoll_ctl st EPOLL_CTL_MOD fd (epoll_events m)
                 else epoll_ctl st EPOLL_CTL_DEL fd (epoll_events m)))"

text \<open>The mask of one event of \<open>epoll_wait\<close>: errors and hang-ups make a descriptor writable.\<close>

definition epoll_fired :: "int \<times> u32 \<Rightarrow> int \<times> mask" where
  "epoll_fired e =
     (fst e,
      or_if (or_if (or_if (or_if 0 (has (snd e) EPOLLIN) AE_READABLE) (has (snd e) EPOLLOUT) AE_WRITABLE)
        (has (snd e) EPOLLERR) AE_WRITABLE) (has (snd e) EPOLLHUP) AE_WRITABLE)"

text \<open>\<open>None\<close> is a failed \<open>epoll_wait\<close>; the kernel returns at most \<open>setsize\<close> events.\<close>

definition epoll_timeout :: "timeval option \<Rightarrow> int" where
  "epoll_timeout tvp = (case tvp of None \<Rightarrow> -1 | Some (s, us) \<Rightarrow> s * 1000 + us sdiv 1000)"

definition epoll_api_poll ::
  "epoll \<Rightarrow> int \<Rightarrow> mask list \<Rightarrow> timeval option \<Rightarrow> (int \<Rightarrow> (int \<times> u32) list option) \<Rightarrow>
     (epoll \<times> (int \<times> mask) list) outcome" where
  "epoll_api_poll st mx masks tvp answers =
     Ok (case answers (epoll_timeout tvp) of None \<Rightarrow> (st, []) | Some evs \<Rightarrow> (st, map epoll_fired (take (length masks) evs)))"

definition epoll_api :: "(int \<Rightarrow> bool) option \<Rightarrow> (epoll, int \<Rightarrow> (int \<times> u32) list option) ae_api" where
  "epoll_api created =
     \<lparr> aeApiCreate = epoll_api_create created, aeApiResize = epoll_api_resize, aeApiAddEvent = epoll_api_add,
       aeApiDelEvent = epoll_api_del, aeApiPoll = epoll_api_poll \<rparr>"


section \<open>kqueue\<close>

datatype kfilter = EVFILT_READ | EVFILT_WRITE

record kqueue =
  kq_filters :: "int \<Rightarrow> kfilter \<Rightarrow> bool"
  kq_accepts :: "int \<Rightarrow> bool"

text \<open>\<open>kevent\<close> with one change: a filter that exists is added again without effect.\<close>

definition kevent_add :: "kqueue \<Rightarrow> int \<Rightarrow> kfilter \<Rightarrow> kqueue \<times> int" where
  "kevent_add k fd f =
     (if kq_filters k fd f \<or> kq_accepts k fd
      then (k\<lparr> kq_filters := (kq_filters k)(fd := (kq_filters k fd)(f := True)) \<rparr>, 0) else (k, -1))"

definition kevent_delete :: "kqueue \<Rightarrow> int \<Rightarrow> kfilter \<Rightarrow> kqueue \<times> int" where
  "kevent_delete k fd f =
     (if kq_filters k fd f then (k\<lparr> kq_filters := (kq_filters k)(fd := (kq_filters k fd)(f := False)) \<rparr>, 0)
      else (k, -1))"

definition kqueue_api_create :: "(int \<Rightarrow> bool) option \<Rightarrow> int \<Rightarrow> kqueue option" where
  "kqueue_api_create created setsize = map_option (\<lambda>acc. \<lparr> kq_filters = (\<lambda>_ _. False), kq_accepts = acc \<rparr>) created"

definition kqueue_api_resize :: "kqueue \<Rightarrow> int \<Rightarrow> kqueue \<times> int" where
  "kqueue_api_resize st setsize = (st, 0)"

definition kqueue_api_add :: "kqueue \<Rightarrow> mask \<Rightarrow> int \<Rightarrow> mask \<Rightarrow> (kqueue \<times> int) outcome" where
  "kqueue_api_add st old fd m =
     Ok (let (st1, r1) = (if has m AE_READABLE then kevent_add st fd EVFILT_READ else (st, 0))
         in if r1 = -1 then (st1, -1)
            else let (st2, r2) = (if has m AE_WRITABLE then kevent_add st1 fd EVFILT_WRITE else (st1, 0))
                 in (st2, if r2 = -1 then -1 else 0))"

definition kqueue_api_del :: "kqueue \<Rightarrow> mask \<Rightarrow> int \<Rightarrow> mask \<Rightarrow> kqueue outcome" where
  "kqueue_api_del st old fd m =
     Ok (let st1 = (if has m AE_READABLE then fst (kevent_delete st fd EVFILT_READ) else st)
         in if has m AE_WRITABLE then fst (kevent_delete st1 fd EVFILT_WRITE) else st1)"

definition kqueue_fired :: "int \<times> kfilter \<Rightarrow> int \<times> mask" where
  "kqueue_fired e =
     (fst e, or_if (or_if 0 (snd e = EVFILT_READ) AE_READABLE) (snd e = EVFILT_WRITE) AE_WRITABLE)"

text \<open>A \<open>timespec\<close> counts nanoseconds.\<close>

definition timespec :: "timeval option \<Rightarrow> (int \<times> int) option" where
  "timespec tvp = map_option (\<lambda>(s, us). (s, us * 1000)) tvp"

definition kqueue_api_poll ::
  "kqueue \<Rightarrow> int \<Rightarrow> mask list \<Rightarrow> timeval option \<Rightarrow> ((int \<times> int) option \<Rightarrow> (int \<times> kfilter) list option) \<Rightarrow>
     (kqueue \<times> (int \<times> mask) list) outcome" where
  "kqueue_api_poll st mx masks tvp answers =
     Ok (case answers (timespec tvp) of None \<Rightarrow> (st, []) | Some evs \<Rightarrow> (st, map kqueue_fired (take (length masks) evs)))"

definition kqueue_api :: "(int \<Rightarrow> bool) option \<Rightarrow> (kqueue, (int \<times> int) option \<Rightarrow> (int \<times> kfilter) list option) ae_api" where
  "kqueue_api created =
     \<lparr> aeApiCreate = kqueue_api_create created, aeApiResize = kqueue_api_resize, aeApiAddEvent = kqueue_api_add,
       aeApiDelEvent = kqueue_api_del, aeApiPoll = kqueue_api_poll \<rparr>"

section \<open>select\<close>

text \<open>An \<open>fd_set\<close> has 1024 bits; \<open>FD_SET\<close> and \<open>FD_CLR\<close> do not check their argument.\<close>

type_synonym fd_set = "bool list"

definition FD_SETSIZE :: nat where "FD_SETSIZE = 1024"

definition FD_ZERO :: fd_set where "FD_ZERO = replicate FD_SETSIZE False"

definition FD_PUT :: "bool \<Rightarrow> int \<Rightarrow> fd_set \<Rightarrow> fd_set outcome" where
  "FD_PUT b fd s = (if fd < 0 \<or> int (length s) \<le> fd then Fault OutOfBounds else Ok (s[nat fd := b]))"

record select_state =
  rfds :: fd_set
  wfds :: fd_set

definition select_api_create :: "int \<Rightarrow> select_state option" where
  "select_api_create setsize = Some \<lparr> rfds = FD_ZERO, wfds = FD_ZERO \<rparr>"

definition select_api_resize :: "select_state \<Rightarrow> int \<Rightarrow> select_state \<times> int" where
  "select_api_resize st setsize = (st, if int FD_SETSIZE \<le> setsize then -1 else 0)"

definition put_if :: "bool \<Rightarrow> bool \<Rightarrow> int \<Rightarrow> fd_set \<Rightarrow> fd_set outcome" where
  "put_if c b fd s = (if c then FD_PUT b fd s else Ok s)"

definition select_put :: "bool \<Rightarrow> select_state \<Rightarrow> int \<Rightarrow> mask \<Rightarrow> select_state outcome" where
  "select_put b st fd m =
     and_then (put_if (has m AE_READABLE) b fd (rfds st)) (\<lambda>r.
     and_then (put_if (has m AE_WRITABLE) b fd (wfds st)) (\<lambda>w. Ok (st\<lparr> rfds := r, wfds := w \<rparr>)))"

definition select_api_add :: "select_state \<Rightarrow> mask \<Rightarrow> int \<Rightarrow> mask \<Rightarrow> (select_state \<times> int) outcome" where
  "select_api_add st old fd m = and_then (select_put True st fd m) (\<lambda>st'. Ok (st', 0))"

definition select_api_del :: "select_state \<Rightarrow> mask \<Rightarrow> int \<Rightarrow> mask \<Rightarrow> select_state outcome" where
  "select_api_del st old fd m = select_put False st fd m"

text \<open>
  The sets \<open>select\<close> leaves in \<open>_rfds\<close> and \<open>_wfds\<close> are the answer, \<open>None\<close> when it returns 0 or -1.  Every
  registered descriptor up to \<open>maxfd\<close> gets an entry, also when it is not ready.
\<close>

definition select_fired :: "fd_set \<Rightarrow> fd_set \<Rightarrow> mask list \<Rightarrow> nat \<Rightarrow> (int \<times> mask) list" where
  "select_fired r w masks j =
     (if masks ! j = AE_NONE then []
      else [(int j, or_if (or_if 0 (has (masks ! j) AE_READABLE \<and> r ! j) AE_READABLE)
                      (has (masks ! j) AE_WRITABLE \<and> w ! j) AE_WRITABLE)])"

definition select_api_poll ::
  "select_state \<Rightarrow> int \<Rightarrow> mask list \<Rightarrow> timeval option \<Rightarrow> (timeval option \<Rightarrow> (fd_set \<times> fd_set) option) \<Rightarrow>
     (select_state \<times> (int \<times> mask) list) outcome" where
  "select_api_poll st mx masks tvp answers =
     (case answers tvp of
        None \<Rightarrow> Ok (st, [])
      | Some (r, w) \<Rightarrow>
          if int (length masks) \<le> mx \<or> int (length r) \<le> mx \<or> int (length w) \<le> mx then Fault OutOfBounds
          else Ok (st, concat (map (select_fired r w masks) [0 ..< nat (mx + 1)])))"

definition select_api :: "(select_state, timeval option \<Rightarrow> (fd_set \<times> fd_set) option) ae_api" where
  "select_api =
     \<lparr> aeApiCreate = select_api_create, aeApiResize = select_api_resize, aeApiAddEvent = select_api_add,
       aeApiDelEvent = select_api_del, aeApiPoll = select_api_poll \<rparr>"


section \<open>Event ports\<close>

text \<open>
  The port keeps, for each associated descriptor, its events and the mask given as \<open>user\<close>.  A descriptor that
  was returned by a poll is dissociated by the kernel and kept in the arrays of pending descriptors.
\<close>

definition MAX_EVENT_BATCHSZ :: nat where "MAX_EVENT_BATCHSZ = 512"

record evport =
  port_assoc :: "int \<Rightarrow> (u32 \<times> mask) option"
  port_accepts :: "int \<Rightarrow> bool"
  npending :: nat
  pending_fds :: "int list"
  pending_masks :: "mask list"

definition POLLIN :: u32 where "POLLIN = 1"
definition POLLOUT :: u32 where "POLLOUT = 4"

definition evport_api_create :: "(int \<Rightarrow> bool) option \<Rightarrow> int \<Rightarrow> evport option" where
  "evport_api_create created setsize =
     map_option (\<lambda>acc. \<lparr> port_assoc = (\<lambda>_. None), port_accepts = acc, npending = 0,
       pending_fds = replicate MAX_EVENT_BATCHSZ (-1), pending_masks = replicate MAX_EVENT_BATCHSZ AE_NONE \<rparr>)
       created"

definition evport_api_resize :: "evport \<Rightarrow> int \<Rightarrow> evport \<times> int" where
  "evport_api_resize st setsize = (st, 0)"

fun lookup_pending :: "nat list \<Rightarrow> evport \<Rightarrow> int \<Rightarrow> nat option" where
  "lookup_pending [] st fd = None"
| "lookup_pending (i # is) st fd = (if pending_fds st ! i = fd then Some i else lookup_pending is st fd)"

definition aeApiLookupPending :: "evport \<Rightarrow> int \<Rightarrow> nat option" where
  "aeApiLookupPending st fd = lookup_pending [0 ..< npending st] st fd"

text \<open>\<open>port_associate\<close> replaces the events of a descriptor that is associated.\<close>

definition aeApiAssociate :: "evport \<Rightarrow> int \<Rightarrow> mask \<Rightarrow> evport \<times> int" where
  "aeApiAssociate st fd m =
     (let ev = or_if (or_if 0 (has m AE_READABLE) POLLIN) (has m AE_WRITABLE) POLLOUT
      in if port_assoc st fd \<noteq> None \<or> port_accepts st fd
         then (st\<lparr> port_assoc := (port_assoc st)(fd := Some (ev, m)) \<rparr>, 0) else (st, -1))"

definition evport_api_add :: "evport \<Rightarrow> mask \<Rightarrow> int \<Rightarrow> mask \<Rightarrow> (evport \<times> int) outcome" where
  "evport_api_add st old fd m =
     (let fullmask = m OR old
      in case aeApiLookupPending st fd of
           Some pfd \<Rightarrow>
             Ok (st\<lparr> pending_masks := (pending_masks st)[pfd := pending_masks st ! pfd OR fullmask] \<rparr>, 0)
         | None \<Rightarrow> Ok (aeApiAssociate st fd fullmask))"

definition evport_api_del :: "evport \<Rightarrow> mask \<Rightarrow> int \<Rightarrow> mask \<Rightarrow> evport outcome" where
  "evport_api_del st old fd m =
     (case aeApiLookupPending st fd of
        Some pfd \<Rightarrow>
          let m' = pending_masks st ! pfd AND NOT m;
              st1 = st\<lparr> pending_masks := (pending_masks st)[pfd := m'] \<rparr>
          in Ok (if m' = AE_NONE then st1\<lparr> pending_fds := (pending_fds st1)[pfd := -1] \<rparr> else st1)
      | None \<Rightarrow>
          let fullmask = old
          in if fullmask = AE_NONE then
               (if port_assoc st fd \<noteq> None then Ok (st\<lparr> port_assoc := (port_assoc st)(fd := None) \<rparr>)
                else Fault Aborted)
             else let (st1, r) = aeApiAssociate st fd fullmask in if r \<noteq> 0 then Fault Aborted else Ok st1)"

text \<open>Associating again what the last poll returned.\<close>

fun reassociate :: "nat list \<Rightarrow> evport \<Rightarrow> evport outcome" where
  "reassociate [] st = Ok st"
| "reassociate (i # is) st =
     (if pending_fds st ! i = -1 then reassociate is st
      else let (st1, r) = aeApiAssociate st (pending_fds st ! i) (pending_masks st ! i)
           in if r \<noteq> 0 then Fault Aborted
              else reassociate is
                     (st1\<lparr> pending_masks := (pending_masks st1)[i := AE_NONE],
                           pending_fds := (pending_fds st1)[i := -1] \<rparr>))"

text \<open>
  What \<open>port_getn\<close> answers: the events of some associated descriptors, nothing in time (\<open>ETIME\<close> without events
  or \<open>EINTR\<close>), or another error.  \<open>user\<close> is what the association holds.
\<close>

datatype port_answer = PortEvents "(int \<times> u32) list" | PortNothing | PortError

definition evport_mask :: "u32 \<Rightarrow> mask" where
  "evport_mask ev = or_if (or_if 0 (has ev POLLIN) AE_READABLE) (has ev POLLOUT) AE_WRITABLE"

definition portev_user :: "evport \<Rightarrow> int \<Rightarrow> mask" where
  "portev_user st fd = (case port_assoc st fd of Some (ev, m) \<Rightarrow> m | None \<Rightarrow> AE_NONE)"

definition overwrite :: "'b list \<Rightarrow> 'b list \<Rightarrow> 'b list" where
  "overwrite new old = new @ drop (length new) old"

definition evport_api_poll ::
  "evport \<Rightarrow> int \<Rightarrow> mask list \<Rightarrow> timeval option \<Rightarrow> ((int \<times> int) option \<Rightarrow> port_answer) \<Rightarrow>
     (evport \<times> (int \<times> mask) list) outcome" where
  "evport_api_poll st mx masks tvp answers =
     and_then (reassociate [0 ..< npending st] st) (\<lambda>st1.
     let st2 = st1\<lparr> npending := 0 \<rparr>
     in case answers (timespec tvp) of
          PortError \<Rightarrow> Fault Aborted
        | PortNothing \<Rightarrow> Ok (st2, [])
        | PortEvents evs \<Rightarrow>
            if MAX_EVENT_BATCHSZ < length evs then Fault OutOfBounds
            else
              let st3 = st2\<lparr> npending := length evs,
                    pending_fds := overwrite (map fst evs) (pending_fds st2),
                    pending_masks := overwrite (map (portev_user st2 \<circ> fst) evs) (pending_masks st2),
                    port_assoc := (\<lambda>fd. if fd \<in> fst ` set evs then None else port_assoc st2 fd) \<rparr>
              in Ok (st3, map (\<lambda>(fd, ev). (fd, evport_mask ev)) evs))"

definition evport_api :: "(int \<Rightarrow> bool) option \<Rightarrow> (evport, (int \<times> int) option \<Rightarrow> port_answer) ae_api" where
  "evport_api created =
     \<lparr> aeApiCreate = evport_api_create created, aeApiResize = evport_api_resize, aeApiAddEvent = evport_api_add,
       aeApiDelEvent = evport_api_del, aeApiPoll = evport_api_poll \<rparr>"


section \<open>The contract of a back end\<close>

text \<open>The masks in use.\<close>

definition is_mask :: "mask \<Rightarrow> bool" where
  "is_mask m \<longleftrightarrow> m \<in> {0, 1, 2, 3}"

lemma is_mask_cases: "is_mask m \<Longrightarrow> m = 0 \<or> m = 1 \<or> m = 2 \<or> m = 3"
  by (simp add: is_mask_def)

lemma is_mask_or [simp, intro]: "is_mask a \<Longrightarrow> is_mask b \<Longrightarrow> is_mask (a OR b)"
  by (elim is_mask_cases [THEN disjE] disjE) (simp_all add: is_mask_def)

lemma is_mask_and [simp, intro]: "is_mask a \<Longrightarrow> is_mask b \<Longrightarrow> is_mask (a AND NOT b)"
  by (elim is_mask_cases [THEN disjE] disjE) (simp_all add: is_mask_def)

lemma is_mask_0 [simp]: "is_mask 0"
  by (simp add: is_mask_def)

text \<open>
  \<open>registered\<close> is what the kernel watches, \<open>room\<close> the descriptors the back end can hold, \<open>takes\<close> those the kernel is
  sure to accept.  Adding asks for the old events and the new; a failure changes nothing.
\<close>

locale poll_backend =
  fixes api :: "('a, 'k) ae_api" and valid :: "'a \<Rightarrow> bool" and registered :: "'a \<Rightarrow> int \<Rightarrow> mask"
    and room :: int and takes :: "int \<Rightarrow> bool"
  assumes create: "aeApiCreate api n = Some st \<Longrightarrow> valid st \<and> registered st = (\<lambda>_. 0)"
    and range: "valid st \<Longrightarrow> is_mask (registered st fd)"
    and add: "\<lbrakk> valid st; 0 \<le> fd; fd < room; is_mask m; m \<noteq> 0 \<rbrakk> \<Longrightarrow>
      \<exists>st' r. aeApiAddEvent api st (registered st fd) fd m = Ok (st', r) \<and> valid st' \<and>
        (if r = 0 then registered st' = (registered st)(fd := registered st fd OR m) \<and> (takes fd \<or> registered st fd \<noteq> 0)
         else r = -1 \<and> \<not> takes fd \<and> registered st' = registered st)"
    and del: "\<lbrakk> valid st; 0 \<le> fd; fd < room; is_mask m; registered st fd \<noteq> 0 \<rbrakk> \<Longrightarrow>
      \<exists>st'. aeApiDelEvent api st (registered st fd) fd m = Ok st' \<and> valid st' \<and>
        registered st' = (registered st)(fd := registered st fd AND NOT m)"
    and resize: "valid st \<Longrightarrow> \<exists>st' r. aeApiResize api st n = (st', r) \<and> valid st' \<and>
        registered st' = registered st \<and> (r = 0 \<or> r = -1) \<and> (n < room \<longrightarrow> r = 0)"
    and poll: "\<lbrakk> valid st; mx < int (length masks); aeApiPoll api st mx masks tvp answers = Ok (st', fired) \<rbrakk> \<Longrightarrow>
        valid st' \<and> registered st' = registered st \<and> length fired \<le> length masks"

text \<open>What each back end has registered.\<close>

definition epoll_registered :: "epoll \<Rightarrow> int \<Rightarrow> mask" where
  "epoll_registered st fd =
     (case ep_interest st fd of None \<Rightarrow> 0
      | Some ev \<Rightarrow> or_if (or_if 0 (has ev EPOLLIN) AE_READABLE) (has ev EPOLLOUT) AE_WRITABLE)"

definition epoll_valid :: "(int \<Rightarrow> bool) \<Rightarrow> epoll \<Rightarrow> bool" where
  "epoll_valid acc st \<longleftrightarrow> ep_accepts st = acc \<and>
     (\<forall>fd. ep_interest st fd = None \<or> (\<exists>m. is_mask m \<and> m \<noteq> 0 \<and> ep_interest st fd = Some (epoll_events m)))"

lemmas epoll_masks = epoll_events_def or_if_def has_def ae_masks EPOLLIN_def EPOLLOUT_def

lemma epoll_events_registered:
  assumes "is_mask m"
  shows "or_if (or_if 0 (has (epoll_events m) EPOLLIN) AE_READABLE) (has (epoll_events m) EPOLLOUT) AE_WRITABLE = m"
  using is_mask_cases [OF assms] by (elim disjE) (simp_all add: epoll_masks)

lemma epoll_registered_events:
  assumes "epoll_valid acc st"
  shows "is_mask (epoll_registered st fd)"
    and "ep_interest st fd = (if epoll_registered st fd = 0 then None else Some (epoll_events (epoll_registered st fd)))"
proof -
  have "ep_interest st fd = None \<or> (\<exists>m. is_mask m \<and> m \<noteq> 0 \<and> ep_interest st fd = Some (epoll_events m))"
    using conjunct2 [OF assms [unfolded epoll_valid_def]] by (rule spec)
  then have "is_mask (epoll_registered st fd) \<and>
    ep_interest st fd = (if epoll_registered st fd = 0 then None else Some (epoll_events (epoll_registered st fd)))"
    by (elim disjE exE conjE) (simp_all add: epoll_registered_def epoll_events_registered)
  then show "is_mask (epoll_registered st fd)"
    "ep_interest st fd = (if epoll_registered st fd = 0 then None else Some (epoll_events (epoll_registered st fd)))"
    by auto
qed

lemma epoll_set:
  assumes "epoll_valid acc st" "is_mask m"
  shows "m \<noteq> 0 \<Longrightarrow> epoll_valid acc (st\<lparr> ep_interest := (ep_interest st)(fd := Some (epoll_events m)) \<rparr>)"
    and "m \<noteq> 0 \<Longrightarrow> epoll_registered (st\<lparr> ep_interest := (ep_interest st)(fd := Some (epoll_events m)) \<rparr>) =
      (epoll_registered st)(fd := m)"
    and "epoll_valid acc (st\<lparr> ep_interest := (ep_interest st)(fd := None) \<rparr>)"
    and "epoll_registered (st\<lparr> ep_interest := (ep_interest st)(fd := None) \<rparr>) = (epoll_registered st)(fd := 0)"
  using assms by (auto simp: epoll_valid_def epoll_registered_def epoll_events_registered fun_eq_iff)


interpretation epoll: poll_backend "epoll_api (Some acc)" "epoll_valid acc" epoll_registered "2 ^ 31" acc for acc
proof unfold_locales
  fix n st assume "aeApiCreate (epoll_api (Some acc)) n = Some st"
  then show "epoll_valid acc st \<and> epoll_registered st = (\<lambda>_. 0)"
    by (auto simp: epoll_api_def epoll_api_create_def epoll_valid_def epoll_registered_def)
next
  fix st :: epoll and fd assume "epoll_valid acc st"
  then show "is_mask (epoll_registered st fd)" by (rule epoll_registered_events)
next
  fix st :: epoll and fd m assume st: "epoll_valid acc st" and m: "is_mask m" "m \<noteq> 0"
  note r = epoll_registered_events [OF st, of fd] and a = is_mask_or [OF m(1) epoll_registered_events(1) [OF st, of fd]]
  have acc: "ep_accepts st = acc" using st by (simp add: epoll_valid_def)
  show "\<exists>st' r. aeApiAddEvent (epoll_api (Some acc)) st (epoll_registered st fd) fd m = Ok (st', r) \<and> epoll_valid acc st' \<and>
      (if r = 0 then epoll_registered st' = (epoll_registered st)(fd := epoll_registered st fd OR m) \<and>
         (acc fd \<or> epoll_registered st fd \<noteq> 0)
       else r = -1 \<and> \<not> acc fd \<and> epoll_registered st' = epoll_registered st)"
  proof (cases "epoll_registered st fd = 0")
    case True
    then have "ep_interest st fd = None" using r by simp
    then show ?thesis using True acc m(2) epoll_set(1,2) [OF st a, of fd] st
      by (simp add: epoll_api_def epoll_api_add_def AE_NONE_def)
  next
    case False
    then have "m OR epoll_registered st fd \<noteq> 0" by (simp add: or_eq_0_iff)
    then show ?thesis using False r epoll_set(1,2) [OF st a, of fd]
      by (simp add: epoll_api_def epoll_api_add_def AE_NONE_def or.commute)
  qed
next
  fix st :: epoll and fd m
  assume st: "epoll_valid acc st" and m: "is_mask m" and nz: "epoll_registered st fd \<noteq> 0"
  show "\<exists>st'. aeApiDelEvent (epoll_api (Some acc)) st (epoll_registered st fd) fd m = Ok st' \<and> epoll_valid acc st' \<and>
      epoll_registered st' = (epoll_registered st)(fd := epoll_registered st fd AND NOT m)"
  proof (cases "epoll_registered st fd AND NOT m = 0")
    case True
    then show ?thesis using nz epoll_registered_events(2) [OF st, of fd] epoll_set(3,4) [OF st m, of fd]
      by (simp add: epoll_api_def epoll_api_del_def AE_NONE_def)
  next
    case False
    then show ?thesis using nz epoll_registered_events [OF st, of fd] epoll_set(1,2) [OF st, of "epoll_registered st fd AND NOT m" fd] m
      by (simp add: epoll_api_def epoll_api_del_def AE_NONE_def)
  qed
next
  fix st :: epoll and n assume "epoll_valid acc st"
  then show "\<exists>st' r. aeApiResize (epoll_api (Some acc)) st n = (st', r) \<and> epoll_valid acc st' \<and>
      epoll_registered st' = epoll_registered st \<and> (r = 0 \<or> r = -1) \<and> (n < 2 ^ 31 \<longrightarrow> r = 0)"
    by (simp add: epoll_api_def epoll_api_resize_def)
next
  fix st st' :: epoll and mx masks tvp answers fired
  assume "epoll_valid acc st" "aeApiPoll (epoll_api (Some acc)) st mx masks tvp answers = Ok (st', fired)"
  then show "epoll_valid acc st' \<and> epoll_registered st' = epoll_registered st \<and> length fired \<le> length masks"
    by (auto simp: epoll_api_def epoll_api_poll_def split: option.splits)
qed


definition kqueue_registered :: "kqueue \<Rightarrow> int \<Rightarrow> mask" where
  "kqueue_registered st fd =
     or_if (or_if 0 (kq_filters st fd EVFILT_READ) AE_READABLE) (kq_filters st fd EVFILT_WRITE) AE_WRITABLE"

lemmas two_bits = or_if_def has_def ae_masks is_mask_def

lemma two_bits_mask [simp]: "is_mask (or_if (or_if 0 r AE_READABLE) w AE_WRITABLE)"
  by (simp add: two_bits)

lemma two_bits_zero [simp]: "or_if (or_if 0 r AE_READABLE) w AE_WRITABLE = 0 \<longleftrightarrow> \<not> r \<and> \<not> w"
  by (simp add: two_bits)

lemma mask_has: "is_mask m \<Longrightarrow> m \<noteq> 0 \<Longrightarrow> has m AE_READABLE \<or> has m AE_WRITABLE"
  by (auto simp: two_bits)

lemma two_bits_or:
  assumes "is_mask m"
  shows "or_if (or_if 0 r AE_READABLE) w AE_WRITABLE OR m =
      or_if (or_if 0 (r \<or> has m AE_READABLE) AE_READABLE) (w \<or> has m AE_WRITABLE) AE_WRITABLE"
    and "or_if (or_if 0 r AE_READABLE) w AE_WRITABLE AND NOT m =
      or_if (or_if 0 (r \<and> \<not> has m AE_READABLE) AE_READABLE) (w \<and> \<not> has m AE_WRITABLE) AE_WRITABLE"
  using is_mask_cases [OF assms] by (elim disjE; simp add: two_bits)+

interpretation kqueue: poll_backend "kqueue_api (Some acc)" "\<lambda>st. kq_accepts st = acc" kqueue_registered "2 ^ 31" acc
  for acc
proof unfold_locales
  fix n st assume "aeApiCreate (kqueue_api (Some acc)) n = Some st"
  then show "kq_accepts st = acc \<and> kqueue_registered st = (\<lambda>_. 0)"
    by (auto simp: kqueue_api_def kqueue_api_create_def kqueue_registered_def or_if_def)
next
  fix st :: kqueue and fd
  show "is_mask (kqueue_registered st fd)" by (simp add: kqueue_registered_def)
next
  fix st :: kqueue and fd m
  assume acc: "kq_accepts st = acc" and m: "is_mask m" and nz: "m \<noteq> 0"
  show "\<exists>st' r. aeApiAddEvent (kqueue_api (Some acc)) st (kqueue_registered st fd) fd m = Ok (st', r) \<and>
      kq_accepts st' = acc \<and>
      (if r = 0 then kqueue_registered st' = (kqueue_registered st)(fd := kqueue_registered st fd OR m) \<and>
         (acc fd \<or> kqueue_registered st fd \<noteq> 0)
       else r = -1 \<and> \<not> acc fd \<and> kqueue_registered st' = kqueue_registered st)"
    using acc mask_has [OF m nz]
    by (auto simp: kqueue_api_def kqueue_api_add_def kevent_add_def kqueue_registered_def fun_eq_iff two_bits_or [OF m])
next
  fix st :: kqueue and fd m
  assume acc: "kq_accepts st = acc" and m: "is_mask m"
  show "\<exists>st'. aeApiDelEvent (kqueue_api (Some acc)) st (kqueue_registered st fd) fd m = Ok st' \<and> kq_accepts st' = acc \<and>
      kqueue_registered st' = (kqueue_registered st)(fd := kqueue_registered st fd AND NOT m)"
    using acc by (auto simp: kqueue_api_def kqueue_api_del_def kevent_delete_def kqueue_registered_def fun_eq_iff
        two_bits_or [OF m])
next
  fix st :: kqueue and n
  assume "kq_accepts st = acc"
  then show "\<exists>st' r. aeApiResize (kqueue_api (Some acc)) st n = (st', r) \<and> kq_accepts st' = acc \<and>
      kqueue_registered st' = kqueue_registered st \<and> (r = 0 \<or> r = -1) \<and> (n < 2 ^ 31 \<longrightarrow> r = 0)"
    by (simp add: kqueue_api_def kqueue_api_resize_def)
next
  fix st st' :: kqueue and mx masks tvp answers fired
  assume "kq_accepts st = acc" "aeApiPoll (kqueue_api (Some acc)) st mx masks tvp answers = Ok (st', fired)"
  then show "kq_accepts st' = acc \<and> kqueue_registered st' = kqueue_registered st \<and> length fired \<le> length masks"
    by (auto simp: kqueue_api_def kqueue_api_poll_def split: option.splits)
qed

definition select_registered :: "select_state \<Rightarrow> int \<Rightarrow> mask" where
  "select_registered st fd =
     (if 0 \<le> fd \<and> fd < int FD_SETSIZE
      then or_if (or_if 0 (rfds st ! nat fd) AE_READABLE) (wfds st ! nat fd) AE_WRITABLE else 0)"

definition select_valid :: "select_state \<Rightarrow> bool" where
  "select_valid st \<longleftrightarrow> length (rfds st) = FD_SETSIZE \<and> length (wfds st) = FD_SETSIZE"

lemma select_put_ok:
  assumes "select_valid st" "0 \<le> fd" "fd < int FD_SETSIZE"
  shows "select_put b st fd m =
    Ok (st\<lparr> rfds := if has m AE_READABLE then (rfds st)[nat fd := b] else rfds st,
            wfds := if has m AE_WRITABLE then (wfds st)[nat fd := b] else wfds st \<rparr>)"
  using assms by (simp add: select_put_def put_if_def FD_PUT_def select_valid_def)

lemma select_put_registered:
  assumes "select_valid st" "0 \<le> fd" "fd < int FD_SETSIZE" "is_mask m" "select_put b st fd m = Ok st'"
  shows "select_valid st'"
    and "select_registered st' = (select_registered st)(fd := if b then select_registered st fd OR m
           else select_registered st fd AND NOT m)"
proof -
  have "nat fd < FD_SETSIZE" "x < int FD_SETSIZE \<Longrightarrow> 0 \<le> x \<Longrightarrow> nat x < FD_SETSIZE"
    "0 \<le> x \<Longrightarrow> nat x = nat fd \<longleftrightarrow> x = fd" for x
    using assms(2,3) by auto
  then show "select_valid st'"
    "select_registered st' = (select_registered st)(fd := if b then select_registered st fd OR m
       else select_registered st fd AND NOT m)"
    using assms by (auto simp: select_put_ok select_valid_def select_registered_def fun_eq_iff nth_list_update two_bits_or)
qed

lemma select_fired_length: "length (concat (map (select_fired r w masks) js)) \<le> length js"
  by (induction js) (auto simp: select_fired_def)

interpretation select: poll_backend select_api select_valid select_registered "int FD_SETSIZE" "\<lambda>_. True"
proof unfold_locales
  fix n st assume "aeApiCreate select_api n = Some st"
  then show "select_valid st \<and> select_registered st = (\<lambda>_. 0)"
    by (auto simp: select_api_def select_api_create_def select_valid_def select_registered_def FD_ZERO_def or_if_def fun_eq_iff)
next
  fix st :: select_state and fd
  show "is_mask (select_registered st fd)" by (simp add: select_registered_def)
next
  fix st :: select_state and fd m
  assume a: "select_valid st" "0 \<le> fd" "fd < int FD_SETSIZE" "is_mask m"
  show "\<exists>st' r. aeApiAddEvent select_api st (select_registered st fd) fd m = Ok (st', r) \<and> select_valid st' \<and>
      (if r = 0 then select_registered st' = (select_registered st)(fd := select_registered st fd OR m) \<and>
         (True \<or> select_registered st fd \<noteq> 0)
       else r = -1 \<and> \<not> True \<and> select_registered st' = select_registered st)"
    using select_put_registered [OF a select_put_ok [OF a(1-3)], of True] select_put_ok [OF a(1-3), of True m]
    by (simp add: select_api_def select_api_add_def)
next
  fix st :: select_state and fd m
  assume a: "select_valid st" "0 \<le> fd" "fd < int FD_SETSIZE" "is_mask m"
  show "\<exists>st'. aeApiDelEvent select_api st (select_registered st fd) fd m = Ok st' \<and> select_valid st' \<and>
      select_registered st' = (select_registered st)(fd := select_registered st fd AND NOT m)"
    using select_put_registered [OF a select_put_ok [OF a(1-3)], of False] select_put_ok [OF a(1-3), of False m]
    by (simp add: select_api_def select_api_del_def)
next
  fix st :: select_state and n
  assume "select_valid st"
  then show "\<exists>st' r. aeApiResize select_api st n = (st', r) \<and> select_valid st' \<and>
      select_registered st' = select_registered st \<and> (r = 0 \<or> r = -1) \<and> (n < int FD_SETSIZE \<longrightarrow> r = 0)"
    by (simp add: select_api_def select_api_resize_def)
next
  fix st st' :: select_state and mx masks tvp answers fired
  assume v: "select_valid st" "mx < int (length masks)" and p: "aeApiPoll select_api st mx masks tvp answers = Ok (st', fired)"
  have f: "st' = st" "fired = [] \<or> (\<exists>r w. fired = concat (map (select_fired r w masks) [0 ..< nat (mx + 1)]))"
    using p by (cases "answers tvp"; force simp: select_api_def select_api_poll_def simp del: concat_eq_Nil_conv split: if_splits)+
  have "length (concat (map (select_fired r w masks) [0 ..< nat (mx + 1)])) \<le> length masks" for r w
    using select_fired_length [of r w masks "[0 ..< nat (mx + 1)]"] v(2) by simp
  then show "select_valid st' \<and> select_registered st' = select_registered st \<and> length fired \<le> length masks"
    using f v(1) by auto
qed

end
