(* ===== verification/WrkAe.thy ===== *)
theory WrkAe
  imports WrkPoll
begin

text \<open>
  The event loop of the load generator, \<open>tools/wrk/src/ae.c\<close>, over any of the polling back ends.  The list of
  time events is linked through \<open>next\<close>: here it is a list whose elements carry their address, which the
  loop over it uses as its cursor, since callbacks may change the list.  Callbacks are arguments: a function
  pointer is a value of \<open>'p\<close>, its \<open>clientData\<close> of \<open>'d\<close>, and the record \<open>ae_procs\<close> says what calling it does.  The
  state record is extensible: what callbacks change besides the loop is in its extension.
\<close>

section \<open>Data\<close>

definition AE_OK :: int where "AE_OK = 0"
definition AE_ERR :: int where "AE_ERR = -1"
definition AE_FILE_EVENTS :: mask where "AE_FILE_EVENTS = 1"
definition AE_TIME_EVENTS :: mask where "AE_TIME_EVENTS = 2"
definition AE_ALL_EVENTS :: mask where "AE_ALL_EVENTS = AE_FILE_EVENTS OR AE_TIME_EVENTS"
definition AE_DONT_WAIT :: mask where "AE_DONT_WAIT = 4"
definition AE_NOMORE :: int where "AE_NOMORE = -1"
definition AE_DELETED_EVENT_ID :: int where "AE_DELETED_EVENT_ID = -1"

record ('p, 'd) aeFileEvent =
  fe_mask :: mask
  rfileProc :: "'p option"
  wfileProc :: "'p option"
  fe_data :: "'d option"

record ('p, 'd) aeTimeEvent =
  te_addr :: nat
  te_id :: int
  when_sec :: int
  when_ms :: int
  timeProc :: 'p
  finalizerProc :: "'p option"
  te_data :: 'd

text \<open>
  The last three fields are the loop's surroundings: the readings of the system clock in seconds and
  microseconds and how many were taken, and the address of the next allocation.
\<close>

record ('p, 'd, 'a) aeEventLoop =
  maxfd :: int
  setsize :: int
  timeEventNextId :: int
  lastTime :: int
  events :: "('p, 'd) aeFileEvent list"
  fired :: "(int \<times> mask) list"
  timeEventHead :: "('p, 'd) aeTimeEvent list"
  stop :: bool
  apidata :: 'a
  beforesleep :: "'p option"
  clock :: "nat \<Rightarrow> int \<times> int"
  reads :: nat
  next_addr :: nat

text \<open>A slot of \<open>events\<close> with nothing registered; its other fields are not read.\<close>

definition no_event :: "('p, 'd) aeFileEvent" where
  "no_event = \<lparr> fe_mask = AE_NONE, rfileProc = None, wfileProc = None, fe_data = None \<rparr>"

section \<open>Creating and resizing\<close>

text \<open>\<open>zmalloc\<close> does not return on failure, so the only error is that of the back end.\<close>

definition aeCreateEventLoop ::
  "('a, 'k) ae_api \<Rightarrow> (nat \<Rightarrow> int \<times> int) \<Rightarrow> int \<Rightarrow> ('p, 'd, 'a) aeEventLoop option" where
  "aeCreateEventLoop api clk n =
     map_option (\<lambda>st. \<lparr> maxfd = -1, setsize = n, timeEventNextId = 0, lastTime = fst (clk 0),
       events = replicate (nat n) no_event, fired = replicate (nat n) (0, 0), timeEventHead = [], stop = False,
       apidata = st, beforesleep = None, clock = clk, reads = 1, next_addr = 0 \<rparr>) (aeApiCreate api n)"

definition aeGetSetSize :: "('p, 'd, 'a, 'z) aeEventLoop_scheme \<Rightarrow> int" where
  "aeGetSetSize L = setsize L"

text \<open>\<open>zrealloc\<close> keeps what fits; the slots above \<open>maxfd\<close> are cleared.\<close>

definition resized :: "int \<Rightarrow> int \<Rightarrow> ('p, 'd) aeFileEvent list \<Rightarrow> ('p, 'd) aeFileEvent list" where
  "resized mx n evs = map (\<lambda>i. if int i \<le> mx then evs ! i else no_event) [0 ..< nat n]"

definition aeResizeSetSize ::
  "('a, 'k) ae_api \<Rightarrow> ('p, 'd, 'a, 'z) aeEventLoop_scheme \<Rightarrow> int \<Rightarrow> ('p, 'd, 'a, 'z) aeEventLoop_scheme \<times> int" where
  "aeResizeSetSize api L n =
     (if n = setsize L then (L, AE_OK)
      else if n \<le> maxfd L then (L, AE_ERR)
      else let (st, r) = aeApiResize api (apidata L) n
           in if r = -1 then (L\<lparr> apidata := st \<rparr>, AE_ERR)
              else (L\<lparr> apidata := st, events := resized (maxfd L) n (events L),
                       fired := take (nat n) (fired L) @ replicate (nat n - length (fired L)) (0, 0),
                       setsize := n \<rparr>, AE_OK))"

definition aeStop :: "('p, 'd, 'a, 'z) aeEventLoop_scheme \<Rightarrow> ('p, 'd, 'a, 'z) aeEventLoop_scheme" where
  "aeStop L = L\<lparr> stop := True \<rparr>"

definition aeSetBeforeSleepProc ::
  "('p, 'd, 'a, 'z) aeEventLoop_scheme \<Rightarrow> 'p option \<Rightarrow> ('p, 'd, 'a, 'z) aeEventLoop_scheme" where
  "aeSetBeforeSleepProc L p = L\<lparr> beforesleep := p \<rparr>"

section \<open>File events\<close>

text \<open>The guards test the descriptor against \<open>setsize\<close> only: a negative one indexes before the array.\<close>

definition aeCreateFileEvent ::
  "('a, 'k) ae_api \<Rightarrow> ('p, 'd, 'a, 'z) aeEventLoop_scheme \<Rightarrow> int \<Rightarrow> mask \<Rightarrow> 'p \<Rightarrow> 'd \<Rightarrow>
     (('p, 'd, 'a, 'z) aeEventLoop_scheme \<times> int) outcome" where
  "aeCreateFileEvent api L fd m proc cd =
     (if setsize L \<le> fd then Ok (L, AE_ERR)
      else if fd < 0 then Fault OutOfBounds
      else
        let fe = events L ! nat fd
        in and_then (aeApiAddEvent api (apidata L) (fe_mask fe) fd m) (\<lambda>(st, r).
             if r = -1 then Ok (L\<lparr> apidata := st \<rparr>, AE_ERR)
             else
               let fe' = \<lparr> fe_mask = fe_mask fe OR m,
                           rfileProc = if has m AE_READABLE then Some proc else rfileProc fe,
                           wfileProc = if has m AE_WRITABLE then Some proc else wfileProc fe,
                           fe_data = Some cd \<rparr>
               in Ok (L\<lparr> apidata := st, events := (events L)[nat fd := fe'],
                        maxfd := if maxfd L < fd then fd else maxfd L \<rparr>, AE_OK)))"

text \<open>The search for the new \<open>maxfd\<close>, from below the old one down.\<close>

fun scan_down :: "mask list \<Rightarrow> nat \<Rightarrow> int" where
  "scan_down ms 0 = -1"
| "scan_down ms (Suc j) = (if ms ! j \<noteq> AE_NONE then int j else scan_down ms j)"

definition aeDeleteFileEvent ::
  "('a, 'k) ae_api \<Rightarrow> ('p, 'd, 'a, 'z) aeEventLoop_scheme \<Rightarrow> int \<Rightarrow> mask \<Rightarrow>
     ('p, 'd, 'a, 'z) aeEventLoop_scheme outcome" where
  "aeDeleteFileEvent api L fd m =
     (if setsize L \<le> fd then Ok L
      else if fd < 0 then Fault OutOfBounds
      else
        let fe = events L ! nat fd
        in if fe_mask fe = AE_NONE then Ok L
           else and_then (aeApiDelEvent api (apidata L) (fe_mask fe) fd m) (\<lambda>st.
             let fe' = fe\<lparr> fe_mask := fe_mask fe AND NOT m \<rparr>;
                 evs = (events L)[nat fd := fe']
             in Ok (L\<lparr> apidata := st, events := evs,
                  maxfd := if fd = maxfd L \<and> fe_mask fe' = AE_NONE then scan_down (map fe_mask evs) (nat (maxfd L))
                           else maxfd L \<rparr>)))"

definition aeGetFileEvents :: "('p, 'd, 'a, 'z) aeEventLoop_scheme \<Rightarrow> int \<Rightarrow> mask outcome" where
  "aeGetFileEvents L fd =
     (if setsize L \<le> fd then Ok 0 else if fd < 0 then Fault OutOfBounds else Ok (fe_mask (events L ! nat fd)))"


section \<open>Time events\<close>

text \<open>\<open>gettimeofday\<close> in seconds and milliseconds, and \<open>time(NULL)\<close>; each takes the next reading of the clock.\<close>

definition aeGetTime ::
  "('p, 'd, 'a, 'z) aeEventLoop_scheme \<Rightarrow> (int \<times> int) \<times> ('p, 'd, 'a, 'z) aeEventLoop_scheme" where
  "aeGetTime L = ((fst (clock L (reads L)), snd (clock L (reads L)) sdiv 1000), L\<lparr> reads := reads L + 1 \<rparr>)"

definition time_now :: "('p, 'd, 'a, 'z) aeEventLoop_scheme \<Rightarrow> int \<times> ('p, 'd, 'a, 'z) aeEventLoop_scheme" where
  "time_now L = (fst (clock L (reads L)), L\<lparr> reads := reads L + 1 \<rparr>)"

definition add_ms :: "int \<Rightarrow> int \<times> int \<Rightarrow> int \<times> int" where
  "add_ms ms now =
     (let when_s = fst now + ms sdiv 1000; when_m = snd now + ms smod 1000
      in if 1000 \<le> when_m then (when_s + 1, when_m - 1000) else (when_s, when_m))"

definition aeAddMillisecondsToNow ::
  "('p, 'd, 'a, 'z) aeEventLoop_scheme \<Rightarrow> int \<Rightarrow> (int \<times> int) \<times> ('p, 'd, 'a, 'z) aeEventLoop_scheme" where
  "aeAddMillisecondsToNow L ms = (let (now, L1) = aeGetTime L in (add_ms ms now, L1))"

definition aeCreateTimeEvent ::
  "('p, 'd, 'a, 'z) aeEventLoop_scheme \<Rightarrow> int \<Rightarrow> 'p \<Rightarrow> 'd \<Rightarrow> 'p option \<Rightarrow>
     ('p, 'd, 'a, 'z) aeEventLoop_scheme \<times> int" where
  "aeCreateTimeEvent L ms proc cd fin =
     (let new_id = timeEventNextId L;
          L1 = L\<lparr> timeEventNextId := timeEventNextId L + 1, next_addr := next_addr L + 1 \<rparr>;
          ((s, m), L2) = aeAddMillisecondsToNow L1 ms;
          te = \<lparr> te_addr = next_addr L, te_id = new_id, when_sec = s, when_ms = m, timeProc = proc,
                 finalizerProc = fin, te_data = cd \<rparr>
      in (L2\<lparr> timeEventHead := te # timeEventHead L2 \<rparr>, new_id))"

fun mark_deleted :: "int \<Rightarrow> ('p, 'd) aeTimeEvent list \<Rightarrow> ('p, 'd) aeTimeEvent list option" where
  "mark_deleted tid [] = None"
| "mark_deleted tid (te # ts) =
     (if te_id te = tid then Some (te\<lparr> te_id := AE_DELETED_EVENT_ID \<rparr> # ts)
      else map_option (\<lambda>ts'. te # ts') (mark_deleted tid ts))"

definition aeDeleteTimeEvent ::
  "('p, 'd, 'a, 'z) aeEventLoop_scheme \<Rightarrow> int \<Rightarrow> ('p, 'd, 'a, 'z) aeEventLoop_scheme \<times> int" where
  "aeDeleteTimeEvent L tid =
     (case mark_deleted tid (timeEventHead L) of
        Some ts \<Rightarrow> (L\<lparr> timeEventHead := ts \<rparr>, AE_OK)
      | None \<Rightarrow> (L, AE_ERR))"

text \<open>The comparison of the search for the nearest timer.\<close>

definition due_before :: "('p, 'd) aeTimeEvent \<Rightarrow> ('p, 'd) aeTimeEvent \<Rightarrow> bool" where
  "due_before t u \<longleftrightarrow> when_sec t < when_sec u \<or> (when_sec t = when_sec u \<and> when_ms t < when_ms u)"

fun nearest_timer ::
  "('p, 'd) aeTimeEvent option \<Rightarrow> ('p, 'd) aeTimeEvent list \<Rightarrow> ('p, 'd) aeTimeEvent option" where
  "nearest_timer n [] = n"
| "nearest_timer None (te # ts) = nearest_timer (Some te) ts"
| "nearest_timer (Some u) (te # ts) = nearest_timer (Some (if due_before te u then te else u)) ts"

definition aeSearchNearestTimer :: "('p, 'd, 'a, 'z) aeEventLoop_scheme \<Rightarrow> ('p, 'd) aeTimeEvent option" where
  "aeSearchNearestTimer L = nearest_timer None (timeEventHead L)"

section \<open>The linked list under the cursor\<close>

text \<open>The list from the element at an address on; \<open>te->next\<close>; and taking an element out behind \<open>prev\<close>.\<close>

fun from_addr :: "nat \<Rightarrow> ('p, 'd) aeTimeEvent list \<Rightarrow> ('p, 'd) aeTimeEvent list" where
  "from_addr a [] = []"
| "from_addr a (t # ts) = (if te_addr t = a then t # ts else from_addr a ts)"

definition head_addr :: "('p, 'd) aeTimeEvent list \<Rightarrow> nat option" where
  "head_addr ts = (case ts of [] \<Rightarrow> None | t # _ \<Rightarrow> Some (te_addr t))"

definition next_of :: "nat \<Rightarrow> ('p, 'd) aeTimeEvent list \<Rightarrow> nat option" where
  "next_of a ts = head_addr (tl (from_addr a ts))"

fun up_to_addr :: "nat \<Rightarrow> ('p, 'd) aeTimeEvent list \<Rightarrow> ('p, 'd) aeTimeEvent list" where
  "up_to_addr a [] = []"
| "up_to_addr a (t # ts) = (if te_addr t = a then [t] else t # up_to_addr a ts)"

definition unlink :: "nat option \<Rightarrow> nat \<Rightarrow> ('p, 'd) aeTimeEvent list \<Rightarrow> ('p, 'd) aeTimeEvent list" where
  "unlink prev a ts =
     (case prev of
        None \<Rightarrow> tl (from_addr a ts)
      | Some p \<Rightarrow> up_to_addr p ts @ tl (from_addr a ts))"

definition update_at ::
  "nat \<Rightarrow> (('p, 'd) aeTimeEvent \<Rightarrow> ('p, 'd) aeTimeEvent) \<Rightarrow> ('p, 'd) aeTimeEvent list \<Rightarrow> ('p, 'd) aeTimeEvent list" where
  "update_at a f ts = map (\<lambda>t. if te_addr t = a then f t else t) ts"


section \<open>Processing\<close>

text \<open>What calling a function pointer does: a file event, a time event, a finalizer, the hook before sleeping.\<close>

record ('l, 'p, 'd) ae_procs =
  call_file :: "'p \<Rightarrow> 'l \<Rightarrow> int \<Rightarrow> 'd \<Rightarrow> mask \<Rightarrow> 'l outcome"
  call_time :: "'p \<Rightarrow> 'l \<Rightarrow> int \<Rightarrow> 'd \<Rightarrow> ('l \<times> int) outcome"
  call_final :: "'p \<Rightarrow> 'l \<Rightarrow> 'd \<Rightarrow> 'l outcome"
  call_sleep :: "'p \<Rightarrow> 'l \<Rightarrow> 'l outcome"

type_synonym ('p, 'd, 'a, 'z) procs = "(('p, 'd, 'a, 'z) aeEventLoop_scheme, 'p, 'd) ae_procs"

text \<open>What the loop does with a timer that is due: it is called, and then scheduled again or marked.\<close>

definition fire_timer ::
  "('p, 'd, 'a, 'z) procs \<Rightarrow> ('p, 'd) aeTimeEvent \<Rightarrow> ('p, 'd, 'a, 'z) aeEventLoop_scheme \<Rightarrow>
     ('p, 'd, 'a, 'z) aeEventLoop_scheme outcome" where
  "fire_timer P te L =
     and_then (call_time P (timeProc te) L (te_id te) (te_data te)) (\<lambda>(L2, retval).
       if retval \<noteq> AE_NOMORE then
         let ((s, m), L3) = aeAddMillisecondsToNow L2 retval
         in Ok (L3\<lparr> timeEventHead :=
              update_at (te_addr te) (\<lambda>t. t\<lparr> when_sec := s, when_ms := m \<rparr>) (timeEventHead L3) \<rparr>)
       else Ok (L2\<lparr> timeEventHead :=
              update_at (te_addr te) (\<lambda>t. t\<lparr> te_id := AE_DELETED_EVENT_ID \<rparr>) (timeEventHead L2) \<rparr>))"

definition timer_due :: "('p, 'd) aeTimeEvent \<Rightarrow> int \<times> int \<Rightarrow> bool" where
  "timer_due te now \<longleftrightarrow> when_sec te < fst now \<or> (fst now = when_sec te \<and> when_ms te \<le> snd now)"

text \<open>
  The \<open>while (te)\<close> loop, with \<open>prev\<close> and the cursor as addresses.  It runs on fuel: a callback could put new
  elements behind the cursor; without fuel it counts as still running.
\<close>

fun time_loop ::
  "nat \<Rightarrow> ('p, 'd, 'a, 'z) procs \<Rightarrow> int \<Rightarrow> nat option \<Rightarrow> nat option \<Rightarrow> int \<Rightarrow> ('p, 'd, 'a, 'z) aeEventLoop_scheme \<Rightarrow>
     (('p, 'd, 'a, 'z) aeEventLoop_scheme \<times> int) outcome" where
  "time_loop fuel P maxId prev None n L = Ok (L, n)"
| "time_loop 0 P maxId prev (Some a) n L = Hang"
| "time_loop (Suc fuel) P maxId prev (Some a) n L =
     (case from_addr a (timeEventHead L) of
        [] \<Rightarrow> Fault UseAfterFree
      | te # rest \<Rightarrow>
          if te_id te = AE_DELETED_EVENT_ID then
            let L1 = L\<lparr> timeEventHead := unlink prev a (timeEventHead L) \<rparr>
            in and_then (case finalizerProc te of None \<Rightarrow> Ok L1 | Some f \<Rightarrow> call_final P f L1 (te_data te))
                 (\<lambda>L2. time_loop fuel P maxId prev (head_addr rest) n L2)
          else if maxId < te_id te then time_loop fuel P maxId prev (head_addr rest) n L
          else
            let (now, L1) = aeGetTime L
            in if timer_due te now then
                 and_then (fire_timer P te L1)
                   (\<lambda>L2. time_loop fuel P maxId (Some a) (next_of a (timeEventHead L2)) (n + 1) L2)
               else time_loop fuel P maxId (Some a) (head_addr rest) n L1)"

text \<open>When the clock went back since the last time, all timers are made due.\<close>

definition processTimeEvents ::
  "('p, 'd, 'a, 'z) procs \<Rightarrow> ('p, 'd, 'a, 'z) aeEventLoop_scheme \<Rightarrow>
     (('p, 'd, 'a, 'z) aeEventLoop_scheme \<times> int) outcome" where
  "processTimeEvents P L =
     (let (now, L1) = time_now L;
          L2 = (if now < lastTime L1
                then L1\<lparr> timeEventHead := map (\<lambda>t. t\<lparr> when_sec := 0 \<rparr>) (timeEventHead L1) \<rparr> else L1);
          L3 = L2\<lparr> lastTime := now \<rparr>
      in time_loop (length (timeEventHead L3)) P (timeEventNextId L3 - 1) None (head_addr (timeEventHead L3)) 0 L3)"

text \<open>How long the poll may wait.\<close>

definition poll_timeout ::
  "('p, 'd, 'a, 'z) aeEventLoop_scheme \<Rightarrow> mask \<Rightarrow> timeval option \<times> ('p, 'd, 'a, 'z) aeEventLoop_scheme" where
  "poll_timeout L fl =
     (case (if has fl AE_TIME_EVENTS \<and> \<not> has fl AE_DONT_WAIT then aeSearchNearestTimer L else None) of
        Some shortest \<Rightarrow>
          let ((now_sec, now_ms), L1) = aeGetTime L;
              ms = (when_sec shortest - now_sec) * 1000 + when_ms shortest - now_ms
          in (Some (if 0 < ms then (ms sdiv 1000, (ms smod 1000) * 1000) else (0, 0)), L1)
      | None \<Rightarrow> (if has fl AE_DONT_WAIT then Some (0, 0) else None, L))"

definition null_call :: "'p option \<Rightarrow> ('p \<Rightarrow> 'b outcome) \<Rightarrow> 'b outcome" where
  "null_call p f = (case p of None \<Rightarrow> Fault NullDeref | Some q \<Rightarrow> f q)"

text \<open>
  One entry of \<open>fired\<close>.  The masks and functions of the event are read again after the first callback,
  which may have changed them.
\<close>

definition call_event ::
  "('p, 'd, 'a, 'z) procs \<Rightarrow> 'p option \<Rightarrow> int \<Rightarrow> mask \<Rightarrow> ('p, 'd, 'a, 'z) aeEventLoop_scheme \<Rightarrow>
     ('p, 'd, 'a, 'z) aeEventLoop_scheme outcome" where
  "call_event P p fd m L =
     null_call p (\<lambda>q. null_call (fe_data (events L ! nat fd)) (\<lambda>cd. call_file P q L fd cd m))"

definition dispatch_fired ::
  "('p, 'd, 'a, 'z) procs \<Rightarrow> nat \<Rightarrow> ('p, 'd, 'a, 'z) aeEventLoop_scheme \<Rightarrow> ('p, 'd, 'a, 'z) aeEventLoop_scheme outcome" where
  "dispatch_fired P j L =
     (let (fd, m) = fired L ! j
      in if fd < 0 \<or> setsize L \<le> fd then Fault OutOfBounds
         else
           let rfired = has (fe_mask (events L ! nat fd) AND m) AE_READABLE
           in and_then (if rfired then call_event P (rfileProc (events L ! nat fd)) fd m L else Ok L) (\<lambda>L1.
                let fe = events L1 ! nat fd
                in if has (fe_mask fe AND m) AE_WRITABLE \<and> (\<not> rfired \<or> wfileProc fe \<noteq> rfileProc fe)
                   then call_event P (wfileProc fe) fd m L1 else Ok L1))"

fun dispatch_all ::
  "('p, 'd, 'a, 'z) procs \<Rightarrow> nat list \<Rightarrow> ('p, 'd, 'a, 'z) aeEventLoop_scheme \<Rightarrow> ('p, 'd, 'a, 'z) aeEventLoop_scheme outcome" where
  "dispatch_all P [] L = Ok L"
| "dispatch_all P (j # js) L = and_then (dispatch_fired P j L) (dispatch_all P js)"


text \<open>The poll: the back end's entries are written to the front of \<open>fired\<close>, which must hold them.\<close>

definition ae_poll ::
  "('a, 'k) ae_api \<Rightarrow> ('p, 'd, 'a, 'z) aeEventLoop_scheme \<Rightarrow> timeval option \<Rightarrow> 'k \<Rightarrow>
     (('p, 'd, 'a, 'z) aeEventLoop_scheme \<times> nat) outcome" where
  "ae_poll api L tvp answers =
     and_then (aeApiPoll api (apidata L) (maxfd L) (map fe_mask (events L)) tvp answers) (\<lambda>(st, evs).
       if length (fired L) < length evs then Fault OutOfBounds
       else Ok (L\<lparr> apidata := st, fired := evs @ drop (length evs) (fired L) \<rparr>, length evs))"

definition aeProcessEvents ::
  "('a, 'k) ae_api \<Rightarrow> ('p, 'd, 'a, 'z) procs \<Rightarrow> mask \<Rightarrow> 'k \<Rightarrow> ('p, 'd, 'a, 'z) aeEventLoop_scheme \<Rightarrow>
     (('p, 'd, 'a, 'z) aeEventLoop_scheme \<times> int) outcome" where
  "aeProcessEvents api P fl answers L =
     (if \<not> has fl AE_TIME_EVENTS \<and> \<not> has fl AE_FILE_EVENTS then Ok (L, 0)
      else
        and_then
          (if maxfd L \<noteq> -1 \<or> (has fl AE_TIME_EVENTS \<and> \<not> has fl AE_DONT_WAIT) then
             let (tvp, L1) = poll_timeout L fl
             in and_then (ae_poll api L1 tvp answers) (\<lambda>(L2, numevents).
                and_then (dispatch_all P [0 ..< numevents] L2) (\<lambda>L3. Ok (L3, int numevents)))
           else Ok (L, 0)) (\<lambda>(L4, processed).
        if has fl AE_TIME_EVENTS
        then and_then (processTimeEvents P L4) (\<lambda>(L5, n). Ok (L5, processed + n))
        else Ok (L4, processed)))"

text \<open>\<open>aeMain\<close>, one answer of the kernel a round; the run ends (\<open>False\<close>) when \<open>stop\<close> is set.\<close>

definition main_round ::
  "('a, 'k) ae_api \<Rightarrow> ('p, 'd, 'a, 'z) procs \<Rightarrow> ('p, 'd, 'a, 'z) aeEventLoop_scheme \<Rightarrow> 'k \<Rightarrow>
     (('p, 'd, 'a, 'z) aeEventLoop_scheme \<times> bool) outcome" where
  "main_round api P L answers =
     and_then (case beforesleep L of None \<Rightarrow> Ok L | Some p \<Rightarrow> call_sleep P p L) (\<lambda>L1.
     and_then (aeProcessEvents api P AE_ALL_EVENTS answers L1) (\<lambda>(L2, n). Ok (L2, \<not> stop L2)))"

definition aeMain ::
  "('a, 'k) ae_api \<Rightarrow> ('p, 'd, 'a, 'z) procs \<Rightarrow> ('p, 'd, 'a, 'z) aeEventLoop_scheme \<Rightarrow> 'k list \<Rightarrow>
     (('p, 'd, 'a, 'z) aeEventLoop_scheme \<times> bool) outcome" where
  "aeMain api P L answers = run_steps (main_round api P) (L\<lparr> stop := False \<rparr>) answers"

text \<open>\<open>aeWait\<close>: the events to poll for, and the result from what \<open>poll\<close> returned (its value and \<open>revents\<close>).\<close>

definition aeWait_events :: "mask \<Rightarrow> u32" where
  "aeWait_events m = or_if (or_if 0 (has m AE_READABLE) 1) (has m AE_WRITABLE) 4"

definition aeWait :: "mask \<Rightarrow> (u32 \<Rightarrow> int \<times> u32) \<Rightarrow> int" where
  "aeWait m poll =
     (let (retval, revents) = poll (aeWait_events m)
      in if retval = 1 then
           uint (or_if (or_if (or_if (or_if 0 (has revents 1) AE_READABLE) (has revents 4) AE_WRITABLE)
             (has revents 8) AE_WRITABLE) (has revents 16) AE_WRITABLE)
         else retval)"

end
