(* ===== verification/WrkFileEvents.thy ===== *)
theory WrkFileEvents
  imports WrkAe
begin

text \<open>
  The file events of the event loop as a map from descriptors to masks, the same over every back end that
  keeps its contract; and the back end for event ports, which does not.
\<close>

section \<open>The abstract state\<close>

text \<open>
  \<open>R\<close> is what is registered for each descriptor: in the loop's array, with the kernel, and summed up in
  \<open>maxfd\<close>.  Every event has the functions its mask asks for.
\<close>

definition has_procs :: "('p, 'd) aeFileEvent \<Rightarrow> bool" where
  "has_procs fe \<longleftrightarrow> fe_mask fe = 0 \<or>
     fe_data fe \<noteq> None \<and> (has (fe_mask fe) AE_READABLE \<longrightarrow> rfileProc fe \<noteq> None) \<and>
     (has (fe_mask fe) AE_WRITABLE \<longrightarrow> wfileProc fe \<noteq> None)"

definition mirrors ::
  "('a \<Rightarrow> bool) \<Rightarrow> ('a \<Rightarrow> int \<Rightarrow> mask) \<Rightarrow> ('p, 'd, 'a, 'z) aeEventLoop_scheme \<Rightarrow> (int \<Rightarrow> mask) \<Rightarrow> bool" where
  "mirrors valid reg L R \<longleftrightarrow>
     0 \<le> setsize L \<and> length (events L) = nat (setsize L) \<and> length (fired L) = nat (setsize L) \<and>
     valid (apidata L) \<and> reg (apidata L) = R \<and>
     (\<forall>fd. is_mask (R fd)) \<and> (\<forall>fd. fd < 0 \<or> setsize L \<le> fd \<longrightarrow> R fd = 0) \<and>
     (\<forall>i < nat (setsize L). fe_mask (events L ! i) = R (int i) \<and> has_procs (events L ! i)) \<and>
     -1 \<le> maxfd L \<and> maxfd L < setsize L \<and> (\<forall>fd > maxfd L. R fd = 0) \<and> (maxfd L \<noteq> -1 \<longrightarrow> R (maxfd L) \<noteq> 0)"

text \<open>Calls of the interface, and what they mean on the abstract state with its size.\<close>

datatype ('p, 'd) file_call = CreateFile int mask 'p 'd | DeleteFile int mask | ResizeSet int

fun run_call ::
  "('a, 'k) ae_api \<Rightarrow> ('p, 'd, 'a, 'z) aeEventLoop_scheme \<Rightarrow> ('p, 'd) file_call \<Rightarrow>
     (('p, 'd, 'a, 'z) aeEventLoop_scheme \<times> int) outcome" where
  "run_call api L (CreateFile fd m p d) = aeCreateFileEvent api L fd m p d"
| "run_call api L (DeleteFile fd m) = and_then (aeDeleteFileEvent api L fd m) (\<lambda>L'. Ok (L', 0))"
| "run_call api L (ResizeSet n) = Ok (aeResizeSetSize api L n)"

fun run_calls ::
  "('a, 'k) ae_api \<Rightarrow> ('p, 'd, 'a, 'z) aeEventLoop_scheme \<Rightarrow> ('p, 'd) file_call list \<Rightarrow>
     (('p, 'd, 'a, 'z) aeEventLoop_scheme \<times> int list) outcome" where
  "run_calls api L [] = Ok (L, [])"
| "run_calls api L (c # cs) =
     and_then (run_call api L c) (\<lambda>(L1, r). and_then (run_calls api L1 cs) (\<lambda>(L2, rs). Ok (L2, r # rs)))"

fun spec_call :: "int \<times> (int \<Rightarrow> mask) \<Rightarrow> ('p, 'd) file_call \<Rightarrow> (int \<times> (int \<Rightarrow> mask)) \<times> int" where
  "spec_call (n, R) (CreateFile fd m p d) = (if fd < n then ((n, R(fd := R fd OR m)), 0) else ((n, R), -1))"
| "spec_call (n, R) (DeleteFile fd m) = ((n, R(fd := R fd AND NOT m)), 0)"
| "spec_call (n, R) (ResizeSet n') = (if \<forall>fd \<ge> n'. R fd = 0 then ((n', R), 0) else ((n, R), -1))"

fun spec_calls :: "int \<times> (int \<Rightarrow> mask) \<Rightarrow> ('p, 'd) file_call list \<Rightarrow> (int \<times> (int \<Rightarrow> mask)) \<times> int list" where
  "spec_calls S [] = (S, [])"
| "spec_calls S (c # cs) = (let (S1, r) = spec_call S c; (S2, rs) = spec_calls S1 cs in (S2, r # rs))"

text \<open>The calls a client may make: descriptors that \<open>socket\<close> returned, and sizes with room for them.\<close>

fun call_ok :: "int \<Rightarrow> ('p, 'd) file_call \<Rightarrow> bool" where
  "call_ok room (CreateFile fd m p d) \<longleftrightarrow> 0 \<le> fd \<and> is_mask m \<and> m \<noteq> 0"
| "call_ok room (DeleteFile fd m) \<longleftrightarrow> 0 \<le> fd \<and> is_mask m"
| "call_ok room (ResizeSet n) \<longleftrightarrow> 0 \<le> n \<and> n < room"

section \<open>One call\<close>

lemma has_or: "has (a OR b) c \<longleftrightarrow> has a c \<or> has b c"
  by (simp add: has_def bit.conj_disj_distrib2 or_eq_0_iff)

lemma has_0: "\<not> has 0 c"
  by (simp add: has_def)

lemma has_and_not: "has (a AND NOT b) c \<Longrightarrow> has a c"
proof -
  have "(a AND NOT b) AND c = NOT b AND (a AND c)" by (simp add: ac_simps)
  then show "has (a AND NOT b) c \<Longrightarrow> has a c" by (auto simp: has_def)
qed

lemma scan_down_spec:
  "-1 \<le> scan_down ms j \<and> scan_down ms j < int j \<and> (\<forall>i < j. scan_down ms j < int i \<longrightarrow> ms ! i = AE_NONE) \<and>
   (scan_down ms j \<noteq> -1 \<longrightarrow> ms ! nat (scan_down ms j) \<noteq> AE_NONE)"
  by (induction j) (auto simp: less_Suc_eq)

lemma scan_down_range: "-1 \<le> scan_down ms j" "scan_down ms j < int j"
  using scan_down_spec [of ms j] by simp_all

lemma scan_down_finds:
  assumes "\<And>i. i < j \<Longrightarrow> ms ! i = R (int i)"
  shows "0 \<le> x \<Longrightarrow> x < int j \<Longrightarrow> scan_down ms j < x \<Longrightarrow> R x = 0"
    and "scan_down ms j \<noteq> -1 \<Longrightarrow> R (scan_down ms j) \<noteq> 0"
proof -
  note s = scan_down_spec [of ms j, unfolded AE_NONE_def]
  show "R x = 0" if "0 \<le> x" "x < int j" "scan_down ms j < x"
    using s assms [of "nat x"] that by (metis int_nat_eq zless_nat_conj nat_less_iff)
  show "R (scan_down ms j) \<noteq> 0" if "scan_down ms j \<noteq> -1"
    using s assms [of "nat (scan_down ms j)"] that by (simp add: nat_less_iff)
qed

lemma mirrorsD:
  assumes "mirrors valid reg L R"
  shows "0 \<le> setsize L" "length (events L) = nat (setsize L)" "length (fired L) = nat (setsize L)"
    "valid (apidata L)" "reg (apidata L) = R" "is_mask (R fd)" "fd < 0 \<or> setsize L \<le> fd \<Longrightarrow> R fd = 0"
    "0 \<le> fd \<Longrightarrow> fd < setsize L \<Longrightarrow> fe_mask (events L ! nat fd) = R fd"
    "0 \<le> fd \<Longrightarrow> fd < setsize L \<Longrightarrow> has_procs (events L ! nat fd)"
    "-1 \<le> maxfd L" "maxfd L < setsize L" "maxfd L < fd \<Longrightarrow> R fd = 0" "maxfd L \<noteq> -1 \<Longrightarrow> R (maxfd L) \<noteq> 0"
  using assms unfolding mirrors_def by auto

lemma mirrorsI:
  assumes "0 \<le> setsize L" "length (events L) = nat (setsize L)" "length (fired L) = nat (setsize L)"
    and "valid (apidata L)" "reg (apidata L) = R" "\<And>fd. is_mask (R fd)" "\<And>fd. fd < 0 \<or> setsize L \<le> fd \<Longrightarrow> R fd = 0"
    and "\<And>i. i < nat (setsize L) \<Longrightarrow> fe_mask (events L ! i) = R (int i) \<and> has_procs (events L ! i)"
    and "-1 \<le> maxfd L" "maxfd L < setsize L" "\<And>fd. maxfd L < fd \<Longrightarrow> R fd = 0" "maxfd L \<noteq> -1 \<Longrightarrow> R (maxfd L) \<noteq> 0"
  shows "mirrors valid reg L R"
  using assms unfolding mirrors_def by blast

lemma mirrors_create:
  assumes "aeCreateEventLoop api clk n = Some L" "0 \<le> n"
    and "\<And>st. aeApiCreate api n = Some st \<Longrightarrow> valid st \<and> reg st = (\<lambda>_. 0)"
  shows "mirrors valid reg L (\<lambda>_. 0)"
  using assms by (auto simp: aeCreateEventLoop_def mirrors_def no_event_def has_procs_def AE_NONE_def)

text \<open>Storing a mask: what is left to show is the new \<open>maxfd\<close>.\<close>

lemma mirrors_store:
  assumes "mirrors valid reg L R" "0 \<le> fd" "fd < setsize L" "valid st" "reg st = R(fd := m)" "is_mask m"
    and "fe_mask fe = m" "has_procs fe" and "-1 \<le> mx" "mx < setsize L" "\<And>x. mx < x \<Longrightarrow> (R(fd := m)) x = 0"
    "mx \<noteq> -1 \<Longrightarrow> (R(fd := m)) mx \<noteq> 0"
  shows "mirrors valid reg (L\<lparr> apidata := st, events := (events L)[nat fd := fe], maxfd := mx \<rparr>) (R(fd := m))"
proof -
  have "fe_mask ((events L)[nat fd := fe] ! i) = (R(fd := m)) (int i) \<and> has_procs ((events L)[nat fd := fe] ! i)"
    if "i < nat (setsize L)" for i
    using that assms mirrorsD(2) [OF assms(1)] mirrorsD(8,9) [OF assms(1), of "int i"] by (cases "i = nat fd") (auto simp: nth_list_update)
  then show ?thesis using assms mirrorsD [OF assms(1)] unfolding mirrors_def by simp
qed

context poll_backend
begin

lemma create_event_any:
  assumes L: "mirrors valid registered L R" "setsize L \<le> room" and fd: "0 \<le> fd" "is_mask m" "m \<noteq> 0"
  shows "\<exists>L' r. aeCreateFileEvent api L fd m p d = Ok (L', r) \<and> setsize L' = setsize L \<and>
    mirrors valid registered L' (if r = 0 then R(fd := R fd OR m) else R) \<and>
    (r = 0 \<and> fd < setsize L \<and> (takes fd \<or> R fd \<noteq> 0) \<or> r = -1 \<and> (setsize L \<le> fd \<or> \<not> takes fd))"
proof (cases "fd < setsize L")
  case False
  then show ?thesis using L by (auto simp: aeCreateFileEvent_def AE_ERR_def)
next
  case True
  note D = mirrorsD [OF L(1)]
  obtain st r where st: "aeApiAddEvent api (apidata L) (R fd) fd m = Ok (st, r)" "valid st"
    "if r = 0 then registered st = R(fd := R fd OR m) \<and> (takes fd \<or> R fd \<noteq> 0)
     else r = -1 \<and> \<not> takes fd \<and> registered st = R"
    using add [of "apidata L" fd m] D(4,5) fd True L(2) by auto
  show ?thesis
  proof (cases "r = 0")
    case False
    then have "mirrors valid registered (L\<lparr> apidata := st \<rparr>) R" using L(1) st by (simp add: mirrors_def)
    then show ?thesis using False st True fd D(8) [OF fd(1) True]
      by (auto simp: aeCreateFileEvent_def AE_ERR_def Let_def)
  next
    case r: True
    have nz: "R fd OR m \<noteq> 0" using fd(3) by (simp add: or_eq_0_iff)
    let ?fe = "\<lparr> fe_mask = R fd OR m, rfileProc = if has m AE_READABLE then Some p else rfileProc (events L ! nat fd),
      wfileProc = if has m AE_WRITABLE then Some p else wfileProc (events L ! nat fd), fe_data = Some d \<rparr>"
    have "has_procs ?fe" using D(8,9) [OF fd(1) True] by (auto simp: has_procs_def has_or has_0)
    moreover have "\<And>x. (if maxfd L < fd then fd else maxfd L) < x \<Longrightarrow> (R(fd := R fd OR m)) x = 0"
      using D(12) by (auto split: if_splits)
    moreover have "(if maxfd L < fd then fd else maxfd L) \<noteq> -1 \<Longrightarrow>
        (R(fd := R fd OR m)) (if maxfd L < fd then fd else maxfd L) \<noteq> 0"
      using D(13) nz by auto
    ultimately have "mirrors valid registered (L\<lparr> apidata := st, events := (events L)[nat fd := ?fe],
        maxfd := if maxfd L < fd then fd else maxfd L \<rparr>) (R(fd := R fd OR m))"
      using mirrors_store [OF L(1) fd(1) True st(2), of "R fd OR m"] st(3) r D fd True by simp
    moreover have "aeCreateFileEvent api L fd m p d = Ok (L\<lparr> apidata := st, events := (events L)[nat fd := ?fe],
        maxfd := if maxfd L < fd then fd else maxfd L \<rparr>, 0)"
      using True fd(1) st(1) r D(8) [OF fd(1) True] by (simp add: aeCreateFileEvent_def AE_OK_def Let_def)
    ultimately show ?thesis using True r st(3) by (intro exI [of _ "L\<lparr> apidata := st, events := (events L)[nat fd := ?fe],
        maxfd := if maxfd L < fd then fd else maxfd L \<rparr>"] exI [of _ 0]) simp
  qed
qed

lemma create_event:
  assumes "mirrors valid registered L R" "setsize L \<le> room" "0 \<le> fd" "is_mask m" "m \<noteq> 0" "takes fd"
  shows "\<exists>L'. aeCreateFileEvent api L fd m p d = Ok (L', if fd < setsize L then 0 else -1) \<and>
    mirrors valid registered L' (if fd < setsize L then R(fd := R fd OR m) else R) \<and> setsize L' = setsize L"
  using create_event_any [OF assms(1-5), of p d] assms(6) by force

lemma delete_event:
  assumes L: "mirrors valid registered L R" "setsize L \<le> room" and fd: "0 \<le> fd" "is_mask m"
  shows "\<exists>L'. aeDeleteFileEvent api L fd m = Ok L' \<and>
    mirrors valid registered L' (R(fd := R fd AND NOT m)) \<and> setsize L' = setsize L"
proof (cases "fd < setsize L \<and> R fd \<noteq> 0")
  case False
  note D = mirrorsD [OF L(1)]
  have z: "R fd = 0" using False D(7) [of fd] by (cases "fd < setsize L") auto
  have "R(fd := R fd AND NOT m) = R" using z by auto
  moreover have "aeDeleteFileEvent api L fd m = Ok L"
    using z fd(1) D(8) [of fd] by (simp add: aeDeleteFileEvent_def AE_NONE_def Let_def)
  ultimately show ?thesis using L by simp
next
  case True
  note D = mirrorsD [OF L(1)]
  obtain st where st: "aeApiDelEvent api (apidata L) (R fd) fd m = Ok st" "valid st"
    "registered st = R(fd := R fd AND NOT m)"
    using del [of "apidata L" fd m] D(4,5) fd True L(2) by auto
  let ?R = "R(fd := R fd AND NOT m)"
  let ?fe = "(events L ! nat fd)\<lparr> fe_mask := R fd AND NOT m \<rparr>"
  let ?evs = "(events L)[nat fd := ?fe]"
  obtain sc where sc: "sc = scan_down (map fe_mask ?evs) (nat (maxfd L))" by simp
  let ?mx = "if fd = maxfd L \<and> R fd AND NOT m = 0 then sc else maxfd L"
  have le: "fd \<le> maxfd L" using D(12) [of fd] True by (meson not_le)
  have ms: "map fe_mask ?evs ! i = ?R (int i)" if "i < nat (maxfd L)" for i
    using that D(2,11) D(8) [of "int i"] fd(1) by (cases "i = nat fd") (auto simp: nth_list_update)
  have sd: "-1 \<le> sc" "sc < int (nat (maxfd L))"
    "0 \<le> x \<Longrightarrow> x < int (nat (maxfd L)) \<Longrightarrow> sc < x \<Longrightarrow> ?R x = 0" "sc \<noteq> -1 \<Longrightarrow> ?R sc \<noteq> 0" for x
    unfolding sc using scan_down_range scan_down_finds [of "nat (maxfd L)" "map fe_mask ?evs" ?R] ms by blast+
  have "has_procs ?fe" using D(8,9) [OF fd(1)] True by (auto simp: has_procs_def dest: has_and_not)
  moreover have "-1 \<le> ?mx" "?mx < setsize L" using sd D(10,11) le fd(1) by auto
  moreover have "?R x = 0" if x: "?mx < x" for x
  proof (cases "maxfd L < x")
    case True
    then show ?thesis using D(12) [of x] le by auto
  next
    case False
    then have c: "fd = maxfd L" "R fd AND NOT m = 0" using x by (auto split: if_splits)
    then show ?thesis using x sd(1) sd(3) [of x] c False by (cases "x = fd") auto
  qed
  moreover have "?R ?mx \<noteq> 0" if "?mx \<noteq> -1"
  proof (cases "fd = maxfd L \<and> R fd AND NOT m = 0")
    case True
    then have e: "?mx = sc" by (rule if_P)
    show ?thesis using sd(4) that unfolding e by this
  next
    case False
    then show ?thesis using that D(13) by auto
  qed
  ultimately have "mirrors valid registered (L\<lparr> apidata := st, events := ?evs, maxfd := ?mx \<rparr>) ?R"
    using mirrors_store [OF L(1) fd(1) _ st(2,3), of ?fe ?mx] D(6) fd True by simp
  moreover have "aeDeleteFileEvent api L fd m = Ok (L\<lparr> apidata := st, events := ?evs, maxfd := ?mx \<rparr>)"
    using True fd(1) st(1) D(8) [OF fd(1)] sc
    by (cases "fd = maxfd L"; cases "R fd AND NOT m = 0") (simp_all add: aeDeleteFileEvent_def AE_NONE_def Let_def)
  ultimately show ?thesis by (simp del: fun_upd_apply)
qed

lemma resize_set:
  assumes L: "mirrors valid registered L R" and n: "0 \<le> n" "n < room"
  shows "\<exists>L'. aeResizeSetSize api L n = (L', if \<forall>fd \<ge> n. R fd = 0 then 0 else -1) \<and>
    mirrors valid registered L' R \<and> setsize L' = (if \<forall>fd \<ge> n. R fd = 0 then n else setsize L)"
proof -
  note D = mirrorsD [OF L]
  have free: "(\<forall>fd \<ge> n. R fd = 0) \<longleftrightarrow> maxfd L < n"
  proof
    assume "\<forall>fd \<ge> n. R fd = 0"
    then show "maxfd L < n" using D(13) n(1) by (cases "maxfd L = -1") (auto simp: not_le [symmetric])
  next
    assume "maxfd L < n"
    then show "\<forall>fd \<ge> n. R fd = 0" using D(12) by fastforce
  qed
  obtain st r where st: "aeApiResize api (apidata L) n = (st, r)" "valid st" "registered st = R" "r = 0"
    using resize [OF D(4), of n] D(5) n(2) by auto
  show ?thesis
  proof (cases "maxfd L < n \<and> n \<noteq> setsize L")
    case True
    have len: "length (resized (maxfd L) n (events L)) = nat n" by (simp add: resized_def)
    have ev: "fe_mask (resized (maxfd L) n (events L) ! i) = R (int i) \<and> has_procs (resized (maxfd L) n (events L) ! i)"
      if "i < nat n" for i
    proof (cases "int i \<le> maxfd L")
      case True
      then show ?thesis using that D(8,9) [of "int i"] D(11) by (simp add: resized_def)
    next
      case False
      then show ?thesis using that D(12) [of "int i"] by (simp add: resized_def no_event_def AE_NONE_def has_procs_def)
    qed
    have out: "R fd = 0" if "fd < 0 \<or> n \<le> fd" for fd
      using that D(7) [of fd] free True by blast
    let ?L = "L\<lparr> apidata := st, events := resized (maxfd L) n (events L),
        fired := take (nat n) (fired L) @ replicate (nat n - length (fired L)) (0, 0), setsize := n \<rparr>"
    have f: "setsize ?L = n" "events ?L = resized (maxfd L) n (events L)" "length (fired ?L) = nat n" "apidata ?L = st"
      "maxfd ?L = maxfd L"
      by (simp_all add: min_def)
    have m: "mirrors valid registered ?L R"
    proof (rule mirrorsI, unfold f)
      show "0 \<le> n" "length (resized (maxfd L) n (events L)) = nat n" "nat n = nat n" "valid st" "registered st = R"
        "-1 \<le> maxfd L" "maxfd L < n"
        using n st len D(10) True by blast+
    qed (use ev out D(6,12,13) in blast)+
    have c: "aeResizeSetSize api L n = (?L, 0)" using True st(1,4) by (simp add: aeResizeSetSize_def AE_OK_def)
    have p: "\<forall>fd \<ge> n. R fd = 0" using free True by blast
    show ?thesis unfolding if_P [OF p] using c m f(1) by blast
  next
    case False
    have "aeResizeSetSize api L n = (L, if \<forall>fd \<ge> n. R fd = 0 then 0 else -1)"
      unfolding free using False D(11) by (cases "n = setsize L") (simp_all add: aeResizeSetSize_def AE_OK_def AE_ERR_def)
    moreover have "setsize L = (if \<forall>fd \<ge> n. R fd = 0 then n else setsize L)" unfolding free using False by simp
    ultimately show ?thesis using L by blast
  qed
qed

lemma one_call:
  assumes "mirrors valid registered L R" "setsize L \<le> room" "call_ok room c" "takes = (\<lambda>_. True)"
  shows "\<exists>L'. run_call api L c = Ok (L', snd (spec_call (setsize L, R) c)) \<and>
    mirrors valid registered L' (snd (fst (spec_call (setsize L, R) c))) \<and>
    setsize L' = fst (fst (spec_call (setsize L, R) c)) \<and> setsize L' \<le> room"
proof (cases c)
  case (CreateFile fd m p d)
  then show ?thesis using create_event [OF assms(1,2), of fd m p d] assms by (cases "fd < setsize L") auto
next
  case (DeleteFile fd m)
  then show ?thesis using delete_event [OF assms(1,2), of fd m] assms by auto
next
  case (ResizeSet n)
  then have "\<exists>L'. aeResizeSetSize api L n = (L', if \<forall>fd \<ge> n. R fd = 0 then 0 else -1) \<and>
      mirrors valid registered L' R \<and> setsize L' = (if \<forall>fd \<ge> n. R fd = 0 then n else setsize L)"
    and "n < room"
    using resize_set [OF assms(1), of n] assms(3) by simp_all
  then show ?thesis using ResizeSet assms(2) by (cases "\<forall>fd \<ge> n. R fd = 0") (simp, force)+
qed

lemma all_calls:
  assumes "mirrors valid registered L R" "setsize L \<le> room" "list_all (call_ok room) cs" "takes = (\<lambda>_. True)"
  shows "\<exists>L'. run_calls api L cs = Ok (L', snd (spec_calls (setsize L, R) cs)) \<and>
    mirrors valid registered L' (snd (fst (spec_calls (setsize L, R) cs)))"
  using assms
proof (induction cs arbitrary: L R)
  case Nil
  then show ?case by simp
next
  case (Cons c cs)
  then obtain L1 where L1: "run_call api L c = Ok (L1, snd (spec_call (setsize L, R) c))"
    "mirrors valid registered L1 (snd (fst (spec_call (setsize L, R) c)))"
    "setsize L1 = fst (fst (spec_call (setsize L, R) c))" "setsize L1 \<le> room"
    using one_call [of L R c] by auto
  show ?case using Cons.IH [OF L1(2,4)] Cons.prems L1(1,3)
    by (cases "spec_call (setsize L, R) c") (auto simp: case_prod_unfold Let_def)
qed

lemma all_calls_from_start:
  assumes "aeCreateEventLoop api clk n = Some L" "0 \<le> n" "n \<le> room" "list_all (call_ok room) cs" "takes = (\<lambda>_. True)"
  shows "\<exists>L'. run_calls api L cs = Ok (L', snd (spec_calls (n, \<lambda>_. 0) cs)) \<and>
    mirrors valid registered L' (snd (fst (spec_calls (n, \<lambda>_. 0) cs)))"
proof -
  have "mirrors valid registered L (\<lambda>_. 0)" using mirrors_create [OF assms(1,2)] create by blast
  moreover have "setsize L = n" using assms(1) by (auto simp: aeCreateEventLoop_def)
  ultimately show ?thesis using all_calls [of L "\<lambda>_. 0" cs] assms(3-5) by simp
qed

end


section \<open>All back ends agree\<close>

text \<open>The loop over a back end, from its creation through the calls, ends in the abstract state with these results.\<close>

definition implements ::
  "('a, 'k) ae_api \<Rightarrow> ('a \<Rightarrow> bool) \<Rightarrow> ('a \<Rightarrow> int \<Rightarrow> mask) \<Rightarrow> (nat \<Rightarrow> int \<times> int) \<Rightarrow> int \<Rightarrow> ('p, 'd) file_call list \<Rightarrow>
     (int \<Rightarrow> mask) \<Rightarrow> int list \<Rightarrow> bool" where
  "implements api valid reg clk n cs R rs \<longleftrightarrow>
     (\<exists>L L'. aeCreateEventLoop api clk n = Some (L :: ('p, 'd, 'a) aeEventLoop) \<and> run_calls api L cs = Ok (L', rs) \<and>
        mirrors valid reg L' R \<and> (\<forall>fd \<ge> 0. aeGetFileEvents L' fd = Ok (R fd)))"

lemma mirrors_get: "mirrors valid reg L R \<Longrightarrow> 0 \<le> fd \<Longrightarrow> aeGetFileEvents L fd = Ok (R fd)"
  using mirrorsD(7,8) [of valid reg L R fd] by (simp add: aeGetFileEvents_def)

lemma implementsI:
  assumes "\<And>L. aeCreateEventLoop api clk n = Some (L :: ('p, 'd, 'a) aeEventLoop) \<Longrightarrow>
      \<exists>L'. run_calls api L cs = Ok (L', rs) \<and> mirrors valid reg L' R"
    and "aeApiCreate api n \<noteq> None"
  shows "implements api valid reg clk n cs R rs"
proof -
  obtain L :: "('p, 'd, 'a) aeEventLoop" where "aeCreateEventLoop api clk n = Some L"
    using assms(2) by (auto simp: aeCreateEventLoop_def)
  then show ?thesis using assms(1) [of L] mirrors_get unfolding implements_def by metis
qed

text \<open>C27: File events mean the same over epoll, kqueue and select.  After any calls that create, delete or resize -
  with descriptors from 0 and a kernel that accepts them - each return value, the mask of every
  descriptor, what the kernel watches and \<open>maxfd\<close> are those of a map from descriptors to masks: adding is
  union, deleting is difference, a descriptor past the set is refused, and the set shrinks only past the
  highest descriptor in use.\<close>

theorem file_events_exact:
  assumes "0 \<le> n" "n \<le> room" "room \<le> 2 ^ 31" "list_all (call_ok room) cs"
  shows "let (S, rs) = spec_calls (n, \<lambda>_. 0) cs
    in implements (epoll_api (Some (\<lambda>_. True))) (epoll_valid (\<lambda>_. True)) epoll_registered clk n cs (snd S) rs
      \<and> implements (kqueue_api (Some (\<lambda>_. True))) (\<lambda>st. kq_accepts st = (\<lambda>_. True)) kqueue_registered clk n cs (snd S) rs
      \<and> (room \<le> int FD_SETSIZE \<longrightarrow> implements select_api select_valid select_registered clk n cs (snd S) rs)"
proof -
  have mono: "list_all (call_ok r) cs" if "room \<le> r" for r
    using assms(4) by (rule list.pred_mono_strong) (use that in \<open>case_tac z; auto\<close>)
  show ?thesis unfolding Let_def case_prod_unfold
  proof (intro conjI impI implementsI)
    show "\<exists>L'. run_calls (epoll_api (Some (\<lambda>_. True))) L cs = Ok (L', snd (spec_calls (n, \<lambda>_. 0) cs)) \<and>
        mirrors (epoll_valid (\<lambda>_. True)) epoll_registered L' (snd (fst (spec_calls (n, \<lambda>_. 0) cs)))"
      if "aeCreateEventLoop (epoll_api (Some (\<lambda>_. True))) clk n = Some L" for L :: "('a, 'b, epoll) aeEventLoop"
      using epoll.all_calls_from_start [OF that _ _ mono] assms by simp
    show "\<exists>L'. run_calls (kqueue_api (Some (\<lambda>_. True))) L cs = Ok (L', snd (spec_calls (n, \<lambda>_. 0) cs)) \<and>
        mirrors (\<lambda>st. kq_accepts st = (\<lambda>_. True)) kqueue_registered L' (snd (fst (spec_calls (n, \<lambda>_. 0) cs)))"
      if "aeCreateEventLoop (kqueue_api (Some (\<lambda>_. True))) clk n = Some L" for L :: "('a, 'b, kqueue) aeEventLoop"
      using kqueue.all_calls_from_start [OF that _ _ mono] assms by simp
    show "\<exists>L'. run_calls select_api L cs = Ok (L', snd (spec_calls (n, \<lambda>_. 0) cs)) \<and>
        mirrors select_valid select_registered L' (snd (fst (spec_calls (n, \<lambda>_. 0) cs)))"
      if "room \<le> int FD_SETSIZE" "aeCreateEventLoop select_api clk n = Some L" for L :: "('a, 'b, select_state) aeEventLoop"
      using select.all_calls_from_start [OF that(2) _ _ mono] that(1) assms by simp
  qed (simp_all add: epoll_api_def epoll_api_create_def kqueue_api_def kqueue_api_create_def select_api_def select_api_create_def)
qed

theorem file_events_exact_witness:
  "let cs = [CreateFile 7 3 (0 :: nat) (0 :: nat), DeleteFile 7 2, CreateFile 9 2 0 0, ResizeSet 12, CreateFile 40 1 0 0];
       (S, rs) = spec_calls (16, \<lambda>_. 0) cs
   in rs = [0, 0, 0, 0, -1] \<and> snd S 7 = 1 \<and> snd S 9 = 2
      \<and> implements select_api select_valid select_registered (\<lambda>_. (0, 0)) 16 cs (snd S) rs"
  using file_events_exact [of 16 1024 "[CreateFile 7 3 (0 :: nat) (0 :: nat), DeleteFile 7 2, CreateFile 9 2 0 0, ResizeSet 12, CreateFile 40 1 0 0]"
      "\<lambda>_. (0, 0)"]
  by (simp add: FD_SETSIZE_def is_mask_def)

text \<open>The back end for event ports does not keep the contract.  \<open>aeApiDelEvent\<close> there relies on its caller to have
  updated the mask, but \<open>aeDeleteFileEvent\<close> calls it first: whatever is deleted of a descriptor that is not
  pending, the loop's mask shrinks and the port goes on watching all of the old events.\<close>

lemma evport_delete_keeps_association:
  assumes "0 \<le> fd" "fd < setsize L" "nat fd < length (events L)" "fe_mask (events L ! nat fd) \<noteq> 0"
    and "aeApiLookupPending (apidata L) fd = None" "port_assoc (apidata L) fd \<noteq> None"
  shows "\<exists>L'. aeDeleteFileEvent (evport_api created) L fd m = Ok L'
    \<and> fe_mask (events L' ! nat fd) = fe_mask (events L ! nat fd) AND NOT m
    \<and> map_option snd (port_assoc (apidata L') fd) = Some (fe_mask (events L ! nat fd))"
  using assms by (auto simp: aeDeleteFileEvent_def evport_api_def evport_api_del_def aeApiAssociate_def AE_NONE_def Let_def)

lemma evport_delete_keeps_association_witness:
  "\<exists>L L'. run_calls (evport_api (Some (\<lambda>_. True)))
       (the (aeCreateEventLoop (evport_api (Some (\<lambda>_. True))) (\<lambda>_. (0, 0)) 8 :: (nat, nat, evport) aeEventLoop option))
       [CreateFile 5 3 0 0] = Ok (L, [0])
     \<and> aeDeleteFileEvent (evport_api (Some (\<lambda>_. True))) L 5 3 = Ok L'
     \<and> fe_mask (events L' ! nat 5) = 0 \<and> map_option snd (port_assoc (apidata L') 5) = Some 3"
proof -
  let ?L0 = "the (aeCreateEventLoop (evport_api (Some (\<lambda>_. True))) (\<lambda>_. (0, 0)) 8 :: (nat, nat, evport) aeEventLoop option)"
  have "\<exists>L. run_calls (evport_api (Some (\<lambda>_. True))) ?L0 [CreateFile 5 3 0 0] = Ok (L, [0]) \<and> setsize L = 8 \<and>
      length (events L) = 8 \<and> fe_mask (events L ! nat 5) = 3 \<and> aeApiLookupPending (apidata L) 5 = None \<and>
      port_assoc (apidata L) 5 \<noteq> None"
    by (simp add: aeCreateEventLoop_def evport_api_def evport_api_create_def aeCreateFileEvent_def evport_api_add_def
        aeApiLookupPending_def aeApiAssociate_def AE_OK_def AE_NONE_def no_event_def Let_def)
  then obtain L where L: "run_calls (evport_api (Some (\<lambda>_. True))) ?L0 [CreateFile 5 3 0 0] = Ok (L, [0])" "setsize L = 8"
    "length (events L) = 8" "fe_mask (events L ! nat 5) = 3" "aeApiLookupPending (apidata L) 5 = None"
    "port_assoc (apidata L) 5 \<noteq> None" by blast
  then show ?thesis using evport_delete_keeps_association [of 5 L "Some (\<lambda>_. True)" 3] by force
qed

end
