(* ===== verification/WrkStats.thy ===== *)
theory WrkStats
  imports CLib "HOL-Library.Multiset"
begin

text \<open>
  The statistics of the load generator, \<open>tools/wrk/src/stats.c\<close>: a histogram with one 64-bit counter per
  value.  All threads record into the same two histograms, so \<open>stats_record\<close> is modelled twice: as the
  function one thread computes, and as the sequence of atomic accesses (\<open>__sync_fetch_and_add\<close>, plain
  reads, \<open>__sync_val_compare_and_swap\<close>) that threads interleave.  The abstract view of a histogram is
  the multiset of the values recorded.
\<close>

section \<open>The histogram\<close>

record stats =
  s_count :: u64
  s_limit :: u64
  s_min :: u64
  s_max :: u64
  s_data :: "u64 list"

definition UINT64_MAX :: u64 where "UINT64_MAX = - 1"

text \<open>\<open>zcalloc\<close> clears the counters; the limit is one more than the largest value, in 64 bits.\<close>

definition stats_alloc :: "u64 \<Rightarrow> stats" where
  "stats_alloc mx =
     (let limit = mx + 1
      in \<lparr> s_count = 0, s_limit = limit, s_min = UINT64_MAX, s_max = 0, s_data = replicate (unat limit) 0 \<rparr>)"

definition add_sample :: "u64 \<Rightarrow> stats \<Rightarrow> stats" where
  "add_sample n s = s\<lparr> s_data := (s_data s)[unat n := s_data s ! unat n + 1] \<rparr>"

text \<open>\<open>stats_record\<close> as one thread alone computes it.\<close>

definition stats_record :: "stats \<Rightarrow> u64 \<Rightarrow> stats \<times> int" where
  "stats_record s n =
     (if s_limit s \<le> n then (s, 0)
      else
        ((add_sample n s)
           \<lparr> s_count := s_count s + 1,
             s_min := if n < s_min s then n else s_min s,
             s_max := if s_max s < n then n else s_max s \<rparr>, 1))"

section \<open>The loops over the counters\<close>

text \<open>The values from \<open>min\<close> to \<open>max\<close>; none when nothing was recorded.\<close>

definition values_of :: "stats \<Rightarrow> nat list" where
  "values_of s = [unat (s_min s) ..< Suc (unat (s_max s))]"

definition bucket :: "stats \<Rightarrow> nat \<Rightarrow> u64" where
  "bucket s i = s_data s ! i"

text \<open>The sum of \<open>stats_mean\<close>, in 64 bits; the division by the count is done in floating point.\<close>

definition stats_sum :: "stats \<Rightarrow> u64" where
  "stats_sum s = foldl (\<lambda>sum i. sum + bucket s i * of_nat i) 0 (values_of s)"

text \<open>The loop of \<open>stats_percentile\<close> for the rank that was computed in floating point.\<close>

fun percentile_loop :: "stats \<Rightarrow> u64 \<Rightarrow> u64 \<Rightarrow> nat list \<Rightarrow> nat" where
  "percentile_loop s rank acc [] = 0"
| "percentile_loop s rank acc (i # is) =
     (let acc = acc + bucket s i in if rank \<le> acc then i else percentile_loop s rank acc is)"

definition percentile_at :: "stats \<Rightarrow> u64 \<Rightarrow> nat" where
  "percentile_at s rank = percentile_loop s rank 0 (values_of s)"

definition stats_popcount :: "stats \<Rightarrow> u64" where
  "stats_popcount s = foldl (\<lambda>c i. if bucket s i \<noteq> 0 then c + 1 else c) 0 (values_of s)"

text \<open>\<open>stats_value_at\<close>: the value and what it leaves in \<open>*count\<close>.\<close>

fun value_at_loop :: "stats \<Rightarrow> u64 \<Rightarrow> u64 \<Rightarrow> nat list \<Rightarrow> nat \<times> u64" where
  "value_at_loop s index cnt [] = (0, cnt)"
| "value_at_loop s index cnt (i # is) =
     (if bucket s i \<noteq> 0 then
        if cnt = index then (i, bucket s i) else value_at_loop s index (cnt + 1) is
      else value_at_loop s index cnt is)"

definition stats_value_at :: "stats \<Rightarrow> u64 \<Rightarrow> nat \<times> u64" where
  "stats_value_at s index = value_at_loop s index 0 (values_of s)"

section \<open>Recording in many threads\<close>

text \<open>Where a thread is in \<open>stats_record(stats, n)\<close>, with its local copies of \<open>min\<close> and \<open>max\<close>.\<close>

datatype record_pc =
    AtData u64
  | AtCount u64
  | AtMin u64
  | AtMax u64 u64
  | LoopMin u64 u64 u64
  | LoopMax u64 u64
  | Returned int

text \<open>\<open>__sync_val_compare_and_swap\<close> returns what was there.\<close>

fun record_step :: "stats \<Rightarrow> record_pc \<Rightarrow> stats \<times> record_pc" where
  "record_step s (AtData n) = (if s_limit s \<le> n then (s, Returned 0) else (add_sample n s, AtCount n))"
| "record_step s (AtCount n) = (s\<lparr> s_count := s_count s + 1 \<rparr>, AtMin n)"
| "record_step s (AtMin n) = (s, AtMax n (s_min s))"
| "record_step s (AtMax n mn) = (s, LoopMin n mn (s_max s))"
| "record_step s (LoopMin n mn mx) =
     (if n < mn then (if s_min s = mn then s\<lparr> s_min := n \<rparr> else s, LoopMin n (s_min s) mx)
      else (s, LoopMax n mx))"
| "record_step s (LoopMax n mx) =
     (if mx < n then (if s_max s = mx then s\<lparr> s_max := n \<rparr> else s, LoopMax n (s_max s))
      else (s, Returned 1))"
| "record_step s (Returned r) = (s, Returned r)"

text \<open>One access of one of the threads.\<close>

inductive threads_step :: "stats \<times> record_pc list \<Rightarrow> stats \<times> record_pc list \<Rightarrow> bool" where
  access: "\<lbrakk> i < length ts; \<nexists>r. ts ! i = Returned r; record_step s (ts ! i) = (s', t') \<rbrakk>
    \<Longrightarrow> threads_step (s, ts) (s', ts[i := t'])"

inductive_cases threads_stepE: "threads_step (s, ts) st"

definition finished :: "record_pc list \<Rightarrow> bool" where
  "finished ts \<longleftrightarrow> list_all (\<lambda>t. \<exists>r. t = Returned r) ts"

section \<open>The abstract view\<close>

text \<open>The histogram holds the multiset \<open>M\<close> of recorded values.\<close>

definition represents :: "stats \<Rightarrow> u64 multiset \<Rightarrow> bool" where
  "represents s M \<longleftrightarrow>
     length (s_data s) = unat (s_limit s) \<and>
     (\<forall>k < s_limit s. s_data s ! unat k = of_nat (count M k)) \<and>
     s_count s = of_nat (size M) \<and>
     s_min s = Min (insert UINT64_MAX (set_mset M)) \<and>
     s_max s = Max (insert 0 (set_mset M)) \<and>
     (\<forall>x \<in># M. x < s_limit s)"

text \<open>A store of samples behind its interface: what recording any samples leaves.\<close>

locale sample_store =
  fixes new :: "'v \<Rightarrow> 's" and put :: "'s \<Rightarrow> 'v \<Rightarrow> 's" and accepts :: "'s \<Rightarrow> 'v \<Rightarrow> bool"
    and holds :: "'s \<Rightarrow> 'v multiset \<Rightarrow> bool"
  assumes holds_new: "holds (new v) {#}"
    and holds_put: "holds s M \<Longrightarrow> holds (put s x) (if accepts s x then add_mset x M else M)"
    and accepts_put: "accepts (put s x) y = accepts s y"
begin

lemma holds_all:
  "holds s M \<Longrightarrow> holds (foldl put s xs) (M + mset (filter (accepts s) xs))"
proof (induction xs arbitrary: s M)
  case Nil
  then show ?case by simp
next
  case (Cons x xs)
  have "accepts (put s x) = accepts s" by (rule ext) (rule accepts_put)
  then show ?case using Cons.IH [OF holds_put [OF Cons.prems, of x]] by (simp add: union_ac split: if_splits)
qed

lemma holds_new_all: "holds (foldl put (new v) xs) (mset (filter (accepts (new v)) xs))"
  using holds_all [OF holds_new] by simp

end

lemma represents_alloc: "represents (stats_alloc mx) {#}"
  by (simp add: represents_def stats_alloc_def Let_def word_less_nat_alt)

lemma Min_add_mset: "Min (insert (a :: u64) (set_mset (add_mset n M))) = min n (Min (insert a (set_mset M)))"
  by (simp add: insert_commute [of a n])

lemma Max_add_mset: "Max (insert (a :: u64) (set_mset (add_mset n M))) = max n (Max (insert a (set_mset M)))"
  by (simp add: insert_commute [of a n])

lemma update_min: "(if n < m then n else m) = min n (m :: u64)"
  by (auto simp: min_def)

lemma update_max: "(if m < n then n else m) = max n (m :: u64)"
  by (auto simp: max_def)

lemma unat_same: "unat (a :: u64) = unat b \<longleftrightarrow> a = b"
  by (simp add: word_unat_eq_iff)

lemma represents_record:
  assumes "represents s M"
  shows "represents (fst (stats_record s n)) (if n < s_limit s then add_mset n M else M)"
proof (cases "n < s_limit s")
  case False
  then show ?thesis using assms by (auto simp: stats_record_def)
next
  case True
  have l: "unat k < length (s_data s)" if "k < s_limit s" for k
    using that assms by (simp add: represents_def word_less_nat_alt)
  have d: "s_data (add_sample n s) ! unat k = of_nat (count (add_mset n M) k)" if "k < s_limit s" for k
    using that assms l [OF True] by (simp add: add_sample_def represents_def nth_list_update unat_same)
  have s': "s_count (fst (stats_record s n)) = s_count s + 1" "s_min (fst (stats_record s n)) = min n (s_min s)"
    "s_max (fst (stats_record s n)) = max n (s_max s)" "s_limit (fst (stats_record s n)) = s_limit s"
    "s_data (fst (stats_record s n)) = s_data (add_sample n s)"
    using True [folded not_le] by (simp_all add: stats_record_def update_min update_max add_sample_def)
  note M = assms [unfolded represents_def]
  have "represents (fst (stats_record s n)) (add_mset n M)"
    unfolding represents_def s' Min_add_mset Max_add_mset
    using M d True by (auto simp: add_sample_def)
  then show ?thesis using True by simp
qed

interpretation hist: sample_store stats_alloc "\<lambda>s n. fst (stats_record s n)" "\<lambda>s n. n < s_limit s" represents
  by unfold_locales (rule represents_alloc, erule represents_record, simp add: stats_record_def add_sample_def)


section \<open>Recording loses nothing, however the threads interleave\<close>

text \<open>What a thread will still do, under the limit \<open>l\<close>: samples not yet in the data, not yet counted, not
  yet taken into the minimum, not yet taken into the maximum.\<close>

fun owes_data :: "u64 \<Rightarrow> record_pc \<Rightarrow> u64 list" where
  "owes_data l (AtData n) = (if n < l then [n] else [])"
| "owes_data l t = []"

fun owes_count :: "u64 \<Rightarrow> record_pc \<Rightarrow> nat" where
  "owes_count l (AtData n) = (if n < l then 1 else 0)"
| "owes_count l (AtCount n) = 1"
| "owes_count l t = 0"

fun owes_min :: "u64 \<Rightarrow> record_pc \<Rightarrow> u64 set" where
  "owes_min l (AtData n) = (if n < l then {n} else {})"
| "owes_min l (AtCount n) = {n}"
| "owes_min l (AtMin n) = {n}"
| "owes_min l (AtMax n mn) = {n}"
| "owes_min l (LoopMin n mn mx) = {n}"
| "owes_min l t = {}"

fun owes_max :: "u64 \<Rightarrow> record_pc \<Rightarrow> u64 set" where
  "owes_max l (LoopMax n mx) = {n}"
| "owes_max l t = owes_min l t"

text \<open>The local copies are earlier values of \<open>min\<close> and \<open>max\<close>.\<close>

fun stale_ok :: "stats \<Rightarrow> record_pc \<Rightarrow> bool" where
  "stale_ok s (AtMax n mn) \<longleftrightarrow> s_min s \<le> mn"
| "stale_ok s (LoopMin n mn mx) \<longleftrightarrow> s_min s \<le> mn \<and> mx \<le> s_max s"
| "stale_ok s (LoopMax n mx) \<longleftrightarrow> mx \<le> s_max s"
| "stale_ok s t \<longleftrightarrow> True"

text \<open>\<open>M\<close> is what the histogram holds and what the threads still owe it.\<close>

definition owing :: "u64 multiset \<Rightarrow> stats \<Rightarrow> record_pc list \<Rightarrow> bool" where
  "owing M s ts \<longleftrightarrow>
     length (s_data s) = unat (s_limit s) \<and> (\<forall>x \<in># M. x < s_limit s) \<and>
     (\<forall>k < s_limit s. s_data s ! unat k + of_nat (count (mset (concat (map (owes_data (s_limit s)) ts))) k)
        = of_nat (count M k)) \<and>
     s_count s + of_nat (sum_list (map (owes_count (s_limit s)) ts)) = of_nat (size M) \<and>
     (\<forall>x. x \<le> s_min s \<and> (\<forall>t \<in> set ts. \<forall>n \<in> owes_min (s_limit s) t. x \<le> n) \<longleftrightarrow> (\<forall>n \<in># M. x \<le> n)) \<and>
     (\<forall>x. s_max s \<le> x \<and> (\<forall>t \<in> set ts. \<forall>n \<in> owes_max (s_limit s) t. n \<le> x) \<longleftrightarrow> (\<forall>n \<in># M. n \<le> x)) \<and>
     list_all (stale_ok s) ts"

lemma access_split:
  assumes "threads_step (s, ts) (s', ts')"
  obtains a t b t' where "ts = a @ t # b" "ts' = a @ t' # b" "record_step s t = (s', t')" "\<nexists>r. t = Returned r"
  using assms
proof (cases rule: threads_step.cases)
  case (access i t')
  then have "ts = take i ts @ ts ! i # drop (Suc i) ts" "ts[i := t'] = take i ts @ t' # drop (Suc i) ts"
    by (simp_all add: id_take_nth_drop upd_conv_take_nth_drop)
  then show ?thesis using that access by metis
qed

lemma stale_mono:
  "stale_ok s t \<Longrightarrow> s_min s' \<le> s_min s \<Longrightarrow> s_max s \<le> s_max s' \<Longrightarrow> stale_ok s' t"
  by (cases t) auto

lemma stale_all_mono:
  "list_all (stale_ok s) ts \<Longrightarrow> s_min s' \<le> s_min s \<Longrightarrow> s_max s \<le> s_max s' \<Longrightarrow> list_all (stale_ok s') ts"
  using stale_mono by (auto simp: list_all_iff)

lemma record_step_mono:
  "record_step s t = (s', t') \<Longrightarrow> stale_ok s t \<Longrightarrow>
   s_min s' \<le> s_min s \<and> s_max s \<le> s_max s' \<and> stale_ok s' t' \<and> s_limit s' = s_limit s"
  by (cases t) (auto simp: add_sample_def split: if_splits)


lemma record_step_owes:
  assumes "record_step s t = (s', t')" "stale_ok s t" "length (s_data s) = unat (s_limit s)"
  shows "length (s_data s') = length (s_data s)"
    "k < s_limit s \<Longrightarrow> s_data s' ! unat k + of_nat (count (mset (owes_data (s_limit s) t')) k)
       = s_data s ! unat k + of_nat (count (mset (owes_data (s_limit s) t)) k)"
    "s_count s' + of_nat (owes_count (s_limit s) t') = s_count s + of_nat (owes_count (s_limit s) t)"
    "x \<le> s_min s' \<and> (\<forall>n \<in> owes_min (s_limit s) t'. x \<le> n)
       \<longleftrightarrow> x \<le> s_min s \<and> (\<forall>n \<in> owes_min (s_limit s) t. x \<le> n)"
    "s_max s' \<le> x \<and> (\<forall>n \<in> owes_max (s_limit s) t'. n \<le> x)
       \<longleftrightarrow> s_max s \<le> x \<and> (\<forall>n \<in> owes_max (s_limit s) t. n \<le> x)"
proof -
  show "length (s_data s') = length (s_data s)"
    using assms(1) by (cases t) (auto simp: add_sample_def split: if_splits)
  show "s_data s' ! unat k + of_nat (count (mset (owes_data (s_limit s) t')) k)
       = s_data s ! unat k + of_nat (count (mset (owes_data (s_limit s) t)) k)" if "k < s_limit s"
  proof (cases t)
    case (AtData n)
    show ?thesis
    proof (cases "n < s_limit s")
      case True
      then have "unat n < length (s_data s)" using assms(3) by (simp add: word_less_nat_alt)
      then show ?thesis using assms(1) AtData True [folded not_le]
        by (auto simp: add_sample_def nth_list_update unat_same not_le)
    next
      case False
      then show ?thesis using assms(1) AtData by (auto simp: not_less)
    qed
  qed (use assms(1) in \<open>auto split: if_splits\<close>)
  show "s_count s' + of_nat (owes_count (s_limit s) t') = s_count s + of_nat (owes_count (s_limit s) t)"
    using assms(1) by (cases t) (auto simp: add_sample_def not_le split: if_splits)
  show "x \<le> s_min s' \<and> (\<forall>n \<in> owes_min (s_limit s) t'. x \<le> n)
       \<longleftrightarrow> x \<le> s_min s \<and> (\<forall>n \<in> owes_min (s_limit s) t. x \<le> n)"
    using assms(1,2) by (cases t) (auto simp: add_sample_def not_le not_less split: if_splits)
  show "s_max s' \<le> x \<and> (\<forall>n \<in> owes_max (s_limit s) t'. n \<le> x)
       \<longleftrightarrow> s_max s \<le> x \<and> (\<forall>n \<in> owes_max (s_limit s) t. n \<le> x)"
    using assms(1,2) by (cases t) (auto simp: add_sample_def not_le not_less split: if_splits)
qed

lemma shift_owed:
  fixes d d' p p' A B c :: u64
  assumes "d' + p' = d + p" "d + (A + (p + B)) = c"
  shows "d' + (A + (p' + B)) = c"
proof -
  have "d' + (A + (p' + B)) = (d' + p') + (A + B)" by (simp add: ac_simps)
  also have "\<dots> = d + (A + (p + B))" unfolding assms(1) by (simp add: ac_simps)
  finally show ?thesis using assms(2) by simp
qed

lemma owing_step:
  assumes "owing M s ts" "threads_step (s, ts) (s', ts')"
  shows "owing M s' ts'"
proof -
  from assms(2) obtain a t b t' where t: "ts = a @ t # b" "ts' = a @ t' # b" "record_step s t = (s', t')"
    by (rule access_split)
  note o = assms(1) [unfolded owing_def]
  have ok: "stale_ok s t" using o t(1) by simp
  note m = record_step_mono [OF t(3) ok] and w = record_step_owes [OF t(3) ok]
  have l: "length (s_data s) = unat (s_limit s)" using o by simp
  have "list_all (stale_ok s') (a @ b)" using o t(1) m stale_all_mono [of s "a @ b" s'] by simp
  then have stale: "list_all (stale_ok s') ts'" using m t(2) by simp
  have data: "\<forall>k < s_limit s. s_data s' ! unat k + of_nat (count (mset (concat (map (owes_data (s_limit s)) ts'))) k)
        = of_nat (count M k)"
  proof (intro allI impI)
    fix k assume k: "k < s_limit s"
    have e: "of_nat (count (mset (concat (map (owes_data (s_limit s)) (a @ q # b)))) k)
        = of_nat (count (mset (concat (map (owes_data (s_limit s)) a))) k)
          + (of_nat (count (mset (owes_data (s_limit s) q)) k)
             + (of_nat (count (mset (concat (map (owes_data (s_limit s)) b))) k) :: u64))" for q
      by simp
    have "s_data s ! unat k + of_nat (count (mset (concat (map (owes_data (s_limit s)) ts))) k) = of_nat (count M k)"
      using o k by blast
    then show "s_data s' ! unat k + of_nat (count (mset (concat (map (owes_data (s_limit s)) ts'))) k) = of_nat (count M k)"
      unfolding t(1,2) e by (rule shift_owed [OF w(2) [OF l k]])
  qed
  have cnt: "s_count s' + of_nat (sum_list (map (owes_count (s_limit s)) ts')) = of_nat (size M)"
  proof -
    have e: "of_nat (sum_list (map (owes_count (s_limit s)) (a @ q # b)))
        = of_nat (sum_list (map (owes_count (s_limit s)) a))
          + (of_nat (owes_count (s_limit s) q) + (of_nat (sum_list (map (owes_count (s_limit s)) b)) :: u64))" for q
      by simp
    have "s_count s + of_nat (sum_list (map (owes_count (s_limit s)) ts)) = of_nat (size M)" using o by blast
    then show ?thesis unfolding t(1,2) e by (rule shift_owed [OF w(3) [OF l]])
  qed
  have split_all: "(\<forall>r \<in> set (a @ q # b). Q r) \<longleftrightarrow> Q q \<and> (\<forall>r \<in> set (a @ b). Q r)" for q and Q :: "record_pc \<Rightarrow> bool"
    by auto
  have mn: "x \<le> s_min s' \<and> (\<forall>t \<in> set ts'. \<forall>n \<in> owes_min (s_limit s) t. x \<le> n) \<longleftrightarrow> (\<forall>n \<in># M. x \<le> n)" for x
  proof -
    have "x \<le> s_min s \<and> (\<forall>t \<in> set ts. \<forall>n \<in> owes_min (s_limit s) t. x \<le> n) \<longleftrightarrow> (\<forall>n \<in># M. x \<le> n)"
      using o by blast
    then show ?thesis using w(4) [OF l, of x] unfolding t(1,2) split_all by argo
  qed
  have mx: "s_max s' \<le> x \<and> (\<forall>t \<in> set ts'. \<forall>n \<in> owes_max (s_limit s) t. n \<le> x) \<longleftrightarrow> (\<forall>n \<in># M. n \<le> x)" for x
  proof -
    have "s_max s \<le> x \<and> (\<forall>t \<in> set ts. \<forall>n \<in> owes_max (s_limit s) t. n \<le> x) \<longleftrightarrow> (\<forall>n \<in># M. n \<le> x)"
      using o by blast
    then show ?thesis using w(5) [OF l, of x] unfolding t(1,2) split_all by argo
  qed
  show ?thesis using o w(1) [OF l] m data cnt mn mx stale by (simp add: owing_def)
qed


lemma owing_start:
  assumes "represents s M"
  shows "owing (M + mset (filter (\<lambda>n. n < s_limit s) ns)) s (map AtData ns)"
proof -
  let ?V = "filter (\<lambda>n. n < s_limit s) ns"
  note r = assms [unfolded represents_def]
  have d: "concat (map (owes_data (s_limit s)) (map AtData ns)) = ?V" by (induction ns) simp_all
  have c: "sum_list (map (owes_count (s_limit s)) (map AtData ns)) = length ?V" by (induction ns) simp_all
  have m: "(\<forall>t \<in> set (map AtData ns). \<forall>n \<in> owes_min (s_limit s) t. P n) \<longleftrightarrow> (\<forall>n \<in> set ?V. P n)" for P
    by auto
  have x: "(\<forall>t \<in> set (map AtData ns). \<forall>n \<in> owes_max (s_limit s) t. P n) \<longleftrightarrow> (\<forall>n \<in> set ?V. P n)" for P
    by auto
  have lo: "x \<le> s_min s \<longleftrightarrow> (\<forall>n \<in># M. x \<le> n)" for x
    using r by (simp add: UINT64_MAX_def)
  have hi: "s_max s \<le> x \<longleftrightarrow> (\<forall>n \<in># M. n \<le> x)" for x
    using r by simp
  have st: "list_all (stale_ok s) (map AtData ns)" by (simp add: list_all_iff)
  have v: "length ?V = size {#x \<in># mset ns. x < s_limit s#}" by (simp flip: mset_filter)
  show ?thesis
    unfolding owing_def d c m x lo hi using r st v
    by auto
qed

lemma owing_end:
  assumes "owing M s ts" "finished ts"
  shows "represents s M"
proof -
  note o = assms(1) [unfolded owing_def]
  have f: "\<forall>t \<in> set ts. \<exists>r. t = Returned r" using assms(2) by (simp add: finished_def list_all_iff)
  have z: "concat (map (owes_data l) ts) = []" "sum_list (map (owes_count l) ts) = 0" for l
    using f by auto
  have e: "(\<forall>t \<in> set ts. \<forall>n \<in> owes_min l t. P n)" "(\<forall>t \<in> set ts. \<forall>n \<in> owes_max l t. P n)" for l P
    using f by auto
  have lo: "x \<le> s_min s \<longleftrightarrow> (\<forall>n \<in># M. x \<le> n)" for x using o e by blast
  have hi: "s_max s \<le> x \<longleftrightarrow> (\<forall>n \<in># M. n \<le> x)" for x using o e by blast
  have "s_min s = Min (insert UINT64_MAX (set_mset M))"
    by (rule antisym) (use lo [of "s_min s"] lo [of "Min (insert UINT64_MAX (set_mset M))"] in \<open>auto simp: UINT64_MAX_def\<close>)
  moreover have "s_max s = Max (insert 0 (set_mset M))"
    by (rule antisym) (use hi [of "s_max s"] hi [of "Max (insert 0 (set_mset M))"] in auto)
  ultimately show ?thesis using o z by (auto simp: represents_def)
qed

text \<open>What each thread returns.\<close>

fun on_sample :: "u64 \<Rightarrow> u64 \<Rightarrow> record_pc \<Rightarrow> bool" where
  "on_sample l n (AtData m) \<longleftrightarrow> m = n"
| "on_sample l n (AtCount m) \<longleftrightarrow> m = n \<and> n < l"
| "on_sample l n (AtMin m) \<longleftrightarrow> m = n \<and> n < l"
| "on_sample l n (AtMax m mn) \<longleftrightarrow> m = n \<and> n < l"
| "on_sample l n (LoopMin m mn mx) \<longleftrightarrow> m = n \<and> n < l"
| "on_sample l n (LoopMax m mx) \<longleftrightarrow> m = n \<and> n < l"
| "on_sample l n (Returned r) \<longleftrightarrow> r = (if n < l then 1 else 0)"

lemma record_step_on_sample:
  "record_step s t = (s', t') \<Longrightarrow> on_sample (s_limit s) n t \<Longrightarrow> on_sample (s_limit s) n t' \<and> s_limit s' = s_limit s"
  by (cases t) (auto simp: add_sample_def not_le split: if_splits)

lemma threads_on_sample:
  assumes "threads_step (s, ts) (s', ts')" "list_all2 (on_sample (s_limit s)) ns ts"
  shows "list_all2 (on_sample (s_limit s)) ns ts' \<and> s_limit s' = s_limit s"
  using assms(1)
proof (cases rule: threads_step.cases)
  case (access i t')
  have "on_sample (s_limit s) (ns ! i) (ts ! i)" using assms(2) access(2) by (simp add: list_all2_conv_all_nth)
  from record_step_on_sample [OF access(4) this] show ?thesis
    using assms(2) access(1,2) by (auto simp: list_all2_conv_all_nth nth_list_update)
qed

text \<open>Along any run.\<close>

lemma threads_run:
  "threads_step\<^sup>*\<^sup>* (s, ts) (s', ts') \<Longrightarrow> owing M s ts \<Longrightarrow> list_all2 (on_sample (s_limit s)) ns ts \<Longrightarrow>
   owing M s' ts' \<and> list_all2 (on_sample (s_limit s)) ns ts' \<and> s_limit s' = s_limit s"
proof (induction "(s', ts')" arbitrary: s' ts' rule: rtranclp_induct)
  case base
  then show ?case by simp
next
  case (step y)
  obtain s1 ts1 where y: "y = (s1, ts1)" by (cases y)
  then have "owing M s1 ts1" "list_all2 (on_sample (s_limit s1)) ns ts1" "s_limit s1 = s_limit s"
    using step(3) [of s1 ts1] step(4,5) by auto
  then show ?case using owing_step step(2) threads_on_sample [of s1 ts1 s' ts' ns] y by auto
qed

text \<open>C23: Concurrent recording loses nothing.  Threads that call \<open>stats_record\<close> on one histogram, each access
  of each thread interleaved in any order, leave it - once they all returned - holding exactly what it
  held and every sample below the limit: each counter, the count, the minimum and the maximum are those of
  the multiset, as if the samples had been recorded one after the other.  A thread returns 1 if its sample
  was below the limit and 0 if not.\<close>

theorem concurrent_records_exact:
  assumes "represents s M" "threads_step\<^sup>*\<^sup>* (s, map AtData ns) (s', ts)" "finished ts"
  shows "represents s' (M + mset (filter (\<lambda>n. n < s_limit s) ns))
    \<and> represents (foldl (\<lambda>s n. fst (stats_record s n)) s ns) (M + mset (filter (\<lambda>n. n < s_limit s) ns))
    \<and> ts = map (\<lambda>n. Returned (if n < s_limit s then 1 else 0)) ns"
proof -
  have "list_all2 (on_sample (s_limit s)) ns (map AtData ns)" by (simp add: list_all2_conv_all_nth)
  from threads_run [OF assms(2) owing_start [OF assms(1)] this]
  have e: "owing (M + mset (filter (\<lambda>n. n < s_limit s) ns)) s' ts" "list_all2 (on_sample (s_limit s)) ns ts" by auto
  have "ts ! i = Returned (if ns ! i < s_limit s then 1 else 0)" if "i < length ts" for i
  proof -
    obtain r where "ts ! i = Returned r" using assms(3) \<open>i < length ts\<close> by (auto simp: finished_def list_all_length)
    then show ?thesis using e(2) that by (auto simp: list_all2_conv_all_nth)
  qed
  then have "ts = map (\<lambda>n. Returned (if n < s_limit s then 1 else 0)) ns"
    using e(2) by (auto simp: list_all2_conv_all_nth intro!: nth_equalityI)
  then show ?thesis using owing_end [OF e(1) assms(3)] hist.holds_all [OF assms(1), of ns] by simp
qed


text \<open>A schedule names the thread of each access.\<close>

fun run_schedule :: "stats \<times> record_pc list \<Rightarrow> nat list \<Rightarrow> stats \<times> record_pc list" where
  "run_schedule st [] = st"
| "run_schedule (s, ts) (i # is) =
     (case record_step s (ts ! i) of (s', t') \<Rightarrow> run_schedule (s', ts[i := t']) is)"

fun returned :: "record_pc \<Rightarrow> bool" where
  "returned (Returned r) = True"
| "returned t = False"

fun schedule_ok :: "stats \<times> record_pc list \<Rightarrow> nat list \<Rightarrow> bool" where
  "schedule_ok st [] = True"
| "schedule_ok (s, ts) (i # is) =
     (i < length ts \<and> \<not> returned (ts ! i) \<and>
      (case record_step s (ts ! i) of (s', t') \<Rightarrow> schedule_ok (s', ts[i := t']) is))"

lemma run_schedule_steps: "schedule_ok st is \<Longrightarrow> threads_step\<^sup>*\<^sup>* st (run_schedule st is)"
proof (induction st "is" rule: run_schedule.induct)
  case (1 st)
  then show ?case by simp
next
  case (2 s ts i "is")
  obtain s' t' where r: "record_step s (ts ! i) = (s', t')" by (cases "record_step s (ts ! i)")
  have "\<nexists>q. ts ! i = Returned q" using 2(2) by (cases "ts ! i") auto
  then have "threads_step (s, ts) (s', ts[i := t'])" using 2(2) r by (intro threads_step.access) auto
  moreover have "threads_step\<^sup>*\<^sup>* (s', ts[i := t']) (run_schedule (s', ts[i := t']) is)"
    using 2(1) [OF r [symmetric]] 2(2) r by simp
  ultimately show ?case using r by (simp add: converse_rtranclp_into_rtranclp)
qed


theorem concurrent_records_exact_witness:
  "\<exists>s ts. threads_step\<^sup>*\<^sup>* (stats_alloc 2, map AtData [1, 0, 7]) (s, ts)
    \<and> represents s {#0, 1#} \<and> ts = [Returned 1, Returned 1, Returned 0]"
proof -
  let ?is = "[0, 1, 0, 2, 1, 1, 0, 0, 1, 0, 1, 0, 1, 0, 0, 1, 1, 0, 0, 1] :: nat list"
  have a: "stats_alloc 2 = \<lparr> s_count = 0, s_limit = 3, s_min = 0xFFFFFFFFFFFFFFFF, s_max = 0, s_data = [0, 0, 0] \<rparr>"
    by (simp add: stats_alloc_def UINT64_MAX_def) (simp add: numeral_3_eq_3)
  obtain s ts where e: "run_schedule (stats_alloc 2, map AtData [1, 0, 7]) ?is = (s, ts)"
    by (rule prod.exhaust)
  have "schedule_ok (stats_alloc 2, map AtData [1, 0, 7]) ?is"
    unfolding a by (simp add: add_sample_def word_le_nat_alt)
  then have run: "threads_step\<^sup>*\<^sup>* (stats_alloc 2, map AtData [1, 0, 7]) (s, ts)"
    using run_schedule_steps e by metis
  have "finished ts" using e unfolding a by (auto simp: add_sample_def finished_def word_le_nat_alt)
  from concurrent_records_exact [OF represents_alloc run this] show ?thesis using run
    by (auto simp: a add_mset_commute word_less_nat_alt)
qed


section \<open>Recording ends\<close>

text \<open>The accesses a thread may still make, by a measure: a failed exchange lowers the local minimum, and a
  successful one is followed by one more exchange that fails.\<close>

definition min_left :: "stats \<Rightarrow> u64 \<Rightarrow> u64 \<Rightarrow> nat" where
  "min_left s n mn = (if n < mn then 2 * unat mn + (if s_min s = mn then 1 else 0) + 1 else 0)"

definition max_left :: "stats \<Rightarrow> u64 \<Rightarrow> u64 \<Rightarrow> nat" where
  "max_left s n mx = (if mx < n then 2 * (2 ^ 64 - unat mx) + (if s_max s = mx then 1 else 0) + 1 else 0)"

fun accesses_left :: "stats \<Rightarrow> record_pc \<Rightarrow> nat" where
  "accesses_left s (AtData n) = 2 ^ 67 + 4"
| "accesses_left s (AtCount n) = 2 ^ 67 + 3"
| "accesses_left s (AtMin n) = 2 ^ 67 + 2"
| "accesses_left s (AtMax n mn) = 2 ^ 67 + 1"
| "accesses_left s (LoopMin n mn mx) = 2 ^ 66 + min_left s n mn"
| "accesses_left s (LoopMax n mx) = 1 + max_left s n mx"
| "accesses_left s (Returned r) = 0"

lemma min_left_bound: "min_left s n mn \<le> 2 ^ 65 + 2"
proof -
  have "unat mn < 2 ^ 64" using unsigned_less [of mn, where 'a = nat] by simp
  then show ?thesis by (simp add: min_left_def)
qed

lemma max_left_bound: "max_left s n mx \<le> 2 ^ 65 + 2"
  using diff_le_self [of "2 ^ 64" "unat mx"] unfolding max_left_def by (auto simp del: diff_le_self)

lemma min_left_step:
  assumes "n < mn" "s_min s \<le> mn"
  shows "min_left (if s_min s = mn then s\<lparr> s_min := n \<rparr> else s) n (s_min s) < min_left s n mn"
proof (cases "s_min s = mn")
  case True
  then show ?thesis using assms(1) by (auto simp: min_left_def)
next
  case False
  then have "unat (s_min s) < unat mn" using assms(2) by (metis order_less_le word_less_nat_alt)
  then show ?thesis using False assms(1) by (simp add: min_left_def)
qed

lemma max_left_step:
  assumes "mx < n" "mx \<le> s_max s"
  shows "max_left (if s_max s = mx then s\<lparr> s_max := n \<rparr> else s) n (s_max s) < max_left s n mx"
proof (cases "s_max s = mx")
  case True
  then show ?thesis using assms(1) by (auto simp: max_left_def)
next
  case False
  then have "unat mx < unat (s_max s)" using assms(2) by (metis order_less_le word_less_nat_alt)
  moreover have "unat (s_max s) < 2 ^ 64" using unsigned_less [of "s_max s", where 'a = nat] by simp
  ultimately show ?thesis using False assms(1) by (auto simp: max_left_def)
qed

lemma accesses_left_step:
  assumes "record_step s t = (s', t')" "stale_ok s t" "\<nexists>r. t = Returned r"
  shows "accesses_left s' t' < accesses_left s t"
proof (cases t)
  case (AtMax n mn)
  have "accesses_left s (LoopMin n mn (s_max s)) < 2 ^ 67 + 1" using min_left_bound [of s n mn] by simp
  then show ?thesis using assms(1) AtMax by auto
next
  case (LoopMin n mn mx)
  show ?thesis
  proof (cases "n < mn")
    case True
    then show ?thesis using assms(1,2) LoopMin min_left_step [of n mn s] by auto
  next
    case False
    have "accesses_left s (LoopMax n mx) < 2 ^ 66" using max_left_bound [of s n mx] by simp
    then show ?thesis using False assms(1) LoopMin by auto
  qed
next
  case (LoopMax n mx)
  then show ?thesis using assms(1,2) max_left_step [of mx n s] by (auto split: if_splits)
qed (use assms in \<open>auto split: if_splits\<close>)

text \<open>An access of another thread does not raise it.\<close>

lemma accesses_left_other:
  assumes "stale_ok s t" "s_min s' \<le> s_min s" "s_max s \<le> s_max s'"
  shows "accesses_left s' t \<le> accesses_left s t"
proof -
  have "min_left s' n mn \<le> min_left s n mn" if "s_min s \<le> mn" for n mn
    using that assms(2) by (auto simp: min_left_def)
  moreover have "max_left s' n mx \<le> max_left s n mx" if "mx \<le> s_max s" for n mx
    using that assms(3) by (auto simp: max_left_def)
  ultimately show ?thesis using assms(1) by (cases t) auto
qed

lemma accesses_left_all:
  "list_all (stale_ok s) ts \<Longrightarrow> s_min s' \<le> s_min s \<Longrightarrow> s_max s \<le> s_max s' \<Longrightarrow>
   sum_list (map (accesses_left s') ts) \<le> sum_list (map (accesses_left s) ts)"
  by (induction ts) (auto intro: add_mono accesses_left_other)

lemma threads_step_measure:
  assumes "threads_step (s, ts) (s', ts')" "owing M s ts"
  shows "sum_list (map (accesses_left s') ts') < sum_list (map (accesses_left s) ts)"
proof -
  from assms(1) obtain a t b t' where t: "ts = a @ t # b" "ts' = a @ t' # b" "record_step s t = (s', t')" "\<nexists>r. t = Returned r"
    by (rule access_split)
  have ok: "stale_ok s t" "list_all (stale_ok s) (a @ b)" using assms(2) t(1) by (simp_all add: owing_def)
  note m = record_step_mono [OF t(3) ok(1)]
  have "sum_list (map (accesses_left s') (a @ b)) \<le> sum_list (map (accesses_left s) (a @ b))"
    using accesses_left_all [OF ok(2)] m by simp
  moreover have "accesses_left s' t' < accesses_left s t" by (rule accesses_left_step [OF t(3) ok(1) t(4)])
  ultimately show ?thesis unfolding t(1,2) by simp
qed

lemma threads_run_length:
  "(threads_step ^^ k) (s, ts) (s', ts') \<Longrightarrow> owing M s ts \<Longrightarrow>
   owing M s' ts' \<and> k + sum_list (map (accesses_left s') ts') \<le> sum_list (map (accesses_left s) ts)"
proof (induction k arbitrary: s' ts')
  case 0
  then show ?case by simp
next
  case (Suc k)
  from Suc.prems(1) obtain s1 ts1 where s1: "(threads_step ^^ k) (s, ts) (s1, ts1)" "threads_step (s1, ts1) (s', ts')"
    by (metis prod.exhaust relpowp_Suc_E)
  then have "owing M s1 ts1" "k + sum_list (map (accesses_left s1) ts1) \<le> sum_list (map (accesses_left s) ts)"
    using Suc.IH Suc.prems(2) by auto
  then show ?case using owing_step [OF _ s1(2)] threads_step_measure [OF s1(2)] by fastforce
qed

lemma unfinished_steps: "\<not> finished ts \<Longrightarrow> \<exists>st. threads_step (s, ts) st"
proof -
  assume "\<not> finished ts"
  then obtain i where i: "i < length ts" "\<nexists>r. ts ! i = Returned r" by (auto simp: finished_def list_all_length)
  obtain s' t' where "record_step s (ts ! i) = (s', t')" by (cases "record_step s (ts ! i)")
  then show ?thesis using threads_step.access [OF i] by blast
qed

text \<open>C24: Concurrent recording ends: no schedule of the threads makes more than \<open>2 ^ 67 + 4\<close> accesses a
  thread, whatever the compare-and-swap loops meet, and as long as a thread has not returned there is an
  access to make.  So the lock-free updates of minimum and maximum can neither block nor spin forever.\<close>

theorem concurrent_records_end:
  assumes "represents s M" "(threads_step ^^ k) (s, map AtData ns) (s', ts)"
  shows "k \<le> length ns * (2 ^ 67 + 4) \<and> (finished ts \<or> (\<exists>st. threads_step (s', ts) st))"
proof -
  have "sum_list (map (accesses_left s) (map AtData ns)) = length ns * (2 ^ 67 + 4)"
    by (induction ns) simp_all
  then show ?thesis
    using threads_run_length [OF assms(2) owing_start [OF assms(1)]] unfinished_steps [of ts s'] by auto
qed

theorem concurrent_records_end_witness:
  "\<exists>st. (threads_step ^^ 1) (stats_alloc 2, map AtData [1, 1]) st \<and> 1 \<le> 2 * (2 ^ 67 + 4 :: nat)"
proof -
  obtain s ts where s: "threads_step (stats_alloc 2, map AtData [1, 1]) (s, ts)"
    using unfinished_steps [of "map AtData [1, 1]" "stats_alloc 2"] by (auto simp: finished_def)
  then have "(threads_step ^^ 1) (stats_alloc 2, map AtData [1, 1]) (s, ts)" by (auto simp: OO_def)
  from concurrent_records_end [OF represents_alloc this] show ?thesis using s by auto
qed


section \<open>Percentiles and distinct values\<close>

definition below :: "u64 multiset \<Rightarrow> nat \<Rightarrow> nat" where
  "below M i = size {#x \<in># M. unat x < i#}"

lemma below_Suc:
  assumes "i < 2 ^ 64"
  shows "below M (Suc i) = below M i + count M (of_nat i)"
proof -
  have "{#x \<in># M. unat x < Suc i#} = {#x \<in># M. unat x < i#} + {#x \<in># M. x = of_nat i#}"
  proof (induction M)
    case (add y M)
    have "unat y = i \<longleftrightarrow> y = of_nat i"
      using assms by (auto simp: unat_of_nat take_bit_nat_eq_self)
    then show ?case using add by (auto simp: less_Suc_eq)
  qed simp
  then show ?thesis by (simp add: below_def filter_eq_replicate_mset)
qed

lemma below_le: "below M i \<le> size M"
  by (simp add: below_def size_filter_mset_lesseq)

text \<open>The buckets from \<open>min\<close> to \<open>max\<close> hold all of the samples.\<close>

lemma represents_range:
  assumes "represents s M" "M \<noteq> {#}"
  shows "below M (unat (s_min s)) = 0" "below M (Suc (unat (s_max s))) = size M" "s_max s < s_limit s"
    "unat (s_min s) \<le> unat (s_max s)"
proof -
  have lo: "s_min s \<le> x" and hi: "x \<le> s_max s" if "x \<in># M" for x
    using that assms(1) by (simp_all add: represents_def)
  have "{#x \<in># M. unat x < unat (s_min s)#} = {#x \<in># M. False#}"
    by (rule filter_mset_cong) (use lo in \<open>auto simp: word_le_nat_alt not_less\<close>)
  then show "below M (unat (s_min s)) = 0" by (simp add: below_def)
  have "{#x \<in># M. unat x < Suc (unat (s_max s))#} = M"
    using hi by (auto simp: filter_mset_eq_conv word_le_nat_alt less_Suc_eq_le)
  then show "below M (Suc (unat (s_max s))) = size M" by (simp add: below_def)
  obtain x where x: "x \<in># M" using assms(2) by blast
  have "s_max s \<in> insert 0 (set_mset M)" using assms(1) Max_in [of "insert 0 (set_mset M)"] by (simp add: represents_def)
  moreover have "s_max s \<le> x" if "s_max s = 0" using that by simp
  ultimately show "s_max s < s_limit s" using x assms(1) by (auto simp: represents_def intro: le_less_trans)
  show "unat (s_min s) \<le> unat (s_max s)" using lo [OF x] hi [OF x] by (simp add: word_le_nat_alt)
qed

lemma bucket_count:
  assumes "represents s M" "M \<noteq> {#}" "i \<le> unat (s_max s)"
  shows "bucket s i = of_nat (count M (of_nat i))" "i < 2 ^ 64"
proof -
  have "unat (s_max s) < 2 ^ 64" using unsigned_less [of "s_max s", where 'a = nat] by simp
  then show i: "i < 2 ^ 64" using assms(3) by simp
  then have u: "unat (of_nat i :: u64) = i" by (simp add: unat_of_nat take_bit_nat_eq_self)
  then have "(of_nat i :: u64) < s_limit s"
    using represents_range(3) [OF assms(1,2)] assms(3) by (simp add: word_less_nat_alt)
  then have "s_data s ! unat (of_nat i :: u64) = of_nat (count M (of_nat i))"
    using assms(1) unfolding represents_def by blast
  then show "bucket s i = of_nat (count M (of_nat i))" unfolding u bucket_def .
qed

lemma percentile_loop_spec:
  assumes "\<And>k. i \<le> k \<Longrightarrow> k < j \<Longrightarrow> bucket s k = of_nat (count M (of_nat k))" "j \<le> 2 ^ 64" "size M < 2 ^ 64"
    "below M i < unat rank" "i \<le> j"
  shows "if unat rank \<le> below M j
    then below M (percentile_loop s rank (of_nat (below M i)) [i ..< j]) < unat rank
      \<and> unat rank \<le> below M (Suc (percentile_loop s rank (of_nat (below M i)) [i ..< j]))
      \<and> percentile_loop s rank (of_nat (below M i)) [i ..< j] < j
    else percentile_loop s rank (of_nat (below M i)) [i ..< j] = 0"
  using assms
proof (induction "j - i" arbitrary: i)
  case 0
  then show ?case by simp
next
  case (Suc n)
  then have ij: "i < j" by simp
  have b: "below M (Suc i) = below M i + count M (of_nat i)" using below_Suc [of i M] ij Suc.prems(2) by simp
  have "unat (of_nat (below M (Suc i)) :: u64) = below M (Suc i)"
    using below_le [of M "Suc i"] Suc.prems(3) by (simp add: unat_of_nat take_bit_nat_eq_self)
  then have le: "rank \<le> of_nat (below M (Suc i)) \<longleftrightarrow> unat rank \<le> below M (Suc i)" by (simp add: word_le_nat_alt)
  have sum: "of_nat (below M i) + bucket s i = (of_nat (below M (Suc i)) :: u64)"
    using Suc.prems(1) [of i] ij b by simp
  have e: "percentile_loop s rank (of_nat (below M i)) [i ..< j]
      = (if unat rank \<le> below M (Suc i) then i else percentile_loop s rank (of_nat (below M (Suc i))) [Suc i ..< j])"
    using upt_conv_Cons [OF ij] by (simp add: Let_def sum le)
  have mono: "below M (Suc i) \<le> below M j"
    unfolding below_def using ij by (intro size_mset_mono filter_mset_mono_strong) auto
  show ?case
  proof (cases "unat rank \<le> below M (Suc i)")
    case True
    then show ?thesis using e mono Suc.prems(4) ij by auto
  next
    case False
    have "n = j - Suc i" using Suc(2) by simp
    then show ?thesis using Suc(1) [of "Suc i"] Suc.prems False ij unfolding e by simp
  qed
qed

text \<open>\<open>percentile_at\<close> is the nearest-rank percentile.  On a histogram that holds \<open>M\<close>, a rank from 1 to the
  number of samples gives a recorded value \<open>v\<close> such that at least \<open>rank\<close> samples are at most \<open>v\<close> and fewer
  than \<open>rank\<close> are below it; a larger rank gives 0.\<close>

lemma percentile_nearest_rank:
  assumes "represents s M" "M \<noteq> {#}" "size M < 2 ^ 64" "1 \<le> unat rank"
  shows "if unat rank \<le> size M
    then of_nat (percentile_at s rank) \<in># M
      \<and> unat rank \<le> size {#x \<in># M. unat x \<le> percentile_at s rank#}
      \<and> size {#x \<in># M. unat x < percentile_at s rank#} < unat rank
    else percentile_at s rank = 0"
proof -
  note r = represents_range [OF assms(1,2)] and b = bucket_count [OF assms(1,2)]
  have m: "Suc (unat (s_max s)) \<le> 2 ^ 64" using b(2) by (simp add: Suc_le_eq)
  have "below M (unat (s_min s)) < unat rank" using r(1) assms(4) by simp
  from percentile_loop_spec [OF _ m assms(3) this, of s] r(4) b(1) have s:
    "if unat rank \<le> size M
     then below M (percentile_at s rank) < unat rank \<and> unat rank \<le> below M (Suc (percentile_at s rank))
       \<and> percentile_at s rank < Suc (unat (s_max s))
     else percentile_at s rank = 0"
    unfolding percentile_at_def values_of_def r(1,2) by (cases "unat rank \<le> size M") (simp_all del: upt_Suc)
  show ?thesis
  proof (cases "unat rank \<le> size M")
    case True
    have "percentile_at s rank < 2 ^ 64" using s True b(2) by simp
    then have "count M (of_nat (percentile_at s rank)) \<noteq> 0"
      using s True below_Suc [of "percentile_at s rank" M] by (metis add_0_right not_less)
    then have "of_nat (percentile_at s rank) \<in># M" by (simp only: count_eq_zero_iff not_not)
    then show ?thesis using s True by (simp add: below_def less_Suc_eq_le)
  next
    case False
    then show ?thesis using s by simp
  qed
qed

lemma percentile_nearest_rank_witness:
  "of_nat (percentile_at (fst (stats_record (stats_alloc 9) 4)) 1) \<in># {#4 :: u64#}"
proof -
  have "(4 :: u64) < s_limit (stats_alloc 9)" by (simp add: stats_alloc_def word_less_nat_alt)
  then have "represents (fst (stats_record (stats_alloc 9) 4)) {#4#}"
    using represents_record [OF represents_alloc, of 9 4] by simp
  from percentile_nearest_rank [OF this, of 1] show ?thesis by simp
qed

end
