(* ===== verification/WrkHeaders.thy ===== *)
theory WrkHeaders
  imports Runs
begin

text \<open>
  How the load generator collects the headers of a response for a script: the growing buffers of
  \<open>tools/wrk/src/script.c\<close>, the parser callbacks \<open>header_field\<close>, \<open>header_value\<close> and \<open>response_body\<close> of
  \<open>wrk.c\<close> that fill them, and the loop of \<open>script_response\<close> that takes them apart.  Fields and values are
  written one after the other, each ended by a NUL.
\<close>

section \<open>Buffers\<close>

text \<open>
  The memory of a buffer is as long as its \<open>length\<close> (the NULL of an unused buffer is the empty memory); a byte
  that nothing was written to is \<open>None\<close>.  Reading such a byte, or one outside, is a fault.
\<close>

record buffer =
  mem :: "char option list"
  cursor :: nat

definition no_buffer :: buffer where
  "no_buffer = \<lparr> mem = [], cursor = 0 \<rparr>"

text \<open>The loop that makes room: 1024 bytes at a time, until more than the needed bytes are there.\<close>

function grow :: "nat \<Rightarrow> nat \<Rightarrow> nat" where
  "grow need len = (if len \<le> need then grow need (len + 1024) else len)"
  by pat_completeness auto
termination by (relation "measure (\<lambda>(need, len). Suc need - len)") auto

declare grow.simps [simp del]

definition write_at :: "nat \<Rightarrow> 'b list \<Rightarrow> 'b list \<Rightarrow> 'b list" where
  "write_at i xs m = take i m @ xs @ drop (i + length xs) m"

definition buffer_append :: "buffer \<Rightarrow> string \<Rightarrow> buffer" where
  "buffer_append b s =
     (let used = cursor b;
          len = grow (used + length s + 1) (length (mem b));
          m = mem b @ replicate (len - length (mem b)) None
      in \<lparr> mem = write_at used (map Some s) m, cursor = used + length s \<rparr>)"

definition buffer_reset :: "buffer \<Rightarrow> buffer" where
  "buffer_reset b = b\<lparr> cursor := 0 \<rparr>"

text \<open>\<open>*b->cursor++ = '\0'\<close>.\<close>

definition put_nul :: "buffer \<Rightarrow> buffer outcome" where
  "put_nul b =
     (if length (mem b) \<le> cursor b then Fault OutOfBounds
      else Ok \<lparr> mem = (mem b)[cursor b := Some NUL], cursor = cursor b + 1 \<rparr>)"

text \<open>\<open>strchr(start, 0)\<close>, with the bytes it passes.\<close>

fun scan_nul :: "char option list \<Rightarrow> string outcome" where
  "scan_nul [] = Fault OutOfBounds"
| "scan_nul (None # m) = Fault OutOfBounds"
| "scan_nul (Some c # m) = (if c = NUL then Ok [] else and_then (scan_nul m) (\<lambda>s. Ok (c # s)))"

definition buffer_pushlstring :: "char option list \<Rightarrow> nat \<Rightarrow> (string \<times> nat) outcome" where
  "buffer_pushlstring m start = and_then (scan_nul (drop start m)) (\<lambda>s. Ok (s, start + length s + 1))"

section \<open>The callbacks\<close>

datatype header_part = FIELD | VALUE

text \<open>The part of a connection they work on.\<close>

record collector =
  part :: header_part
  headers :: buffer
  body :: buffer

definition header_field :: "collector \<Rightarrow> string \<Rightarrow> collector outcome" where
  "header_field c at =
     and_then (if part c = VALUE
               then and_then (put_nul (headers c)) (\<lambda>b. Ok (c\<lparr> headers := b, part := FIELD \<rparr>))
               else Ok c)
       (\<lambda>c1. Ok (c1\<lparr> headers := buffer_append (headers c1) at \<rparr>))"

definition header_value :: "collector \<Rightarrow> string \<Rightarrow> collector outcome" where
  "header_value c at =
     and_then (if part c = FIELD
               then and_then (put_nul (headers c)) (\<lambda>b. Ok (c\<lparr> headers := b, part := VALUE \<rparr>))
               else Ok c)
       (\<lambda>c1. Ok (c1\<lparr> headers := buffer_append (headers c1) at \<rparr>))"

definition response_body :: "collector \<Rightarrow> string \<Rightarrow> collector" where
  "response_body c at = c\<lparr> body := buffer_append (body c) at \<rparr>"

section \<open>Handing the response to the script\<close>

text \<open>The loop of \<open>script_response\<close>: the fields and values it sets in the table, in order.\<close>

function pushed_headers :: "char option list \<Rightarrow> nat \<Rightarrow> nat \<Rightarrow> (string \<times> string) list outcome" where
  "pushed_headers m c end_at =
     (if c < end_at then
        (case buffer_pushlstring m c of
           Ok (f, c1) \<Rightarrow>
             (case buffer_pushlstring m c1 of
                Ok (v, c2) \<Rightarrow> and_then (pushed_headers m c2 end_at) (\<lambda>hs. Ok ((f, v) # hs))
              | Hang \<Rightarrow> Hang
              | Fault e \<Rightarrow> Fault e)
         | Hang \<Rightarrow> Hang
         | Fault e \<Rightarrow> Fault e)
      else Ok [])"
  by pat_completeness auto
termination
  by (relation "measure (\<lambda>(m, c, end_at). end_at - c)") (auto simp: buffer_pushlstring_def)

declare pushed_headers.simps [simp del]

text \<open>The bytes from the start of a buffer to its cursor, which must have been written.\<close>

fun written_bytes :: "char option list \<Rightarrow> string outcome" where
  "written_bytes [] = Ok []"
| "written_bytes (None # m) = Fault OutOfBounds"
| "written_bytes (Some c # m) = and_then (written_bytes m) (\<lambda>s. Ok (c # s))"

text \<open>What the script's \<open>response\<close> function is called with: the status, the headers and the body.\<close>

type_synonym response_call = "int \<times> (string \<times> string) list \<times> string"

definition script_response :: "int \<Rightarrow> collector \<Rightarrow> (collector \<times> response_call) outcome" where
  "script_response status c =
     and_then (pushed_headers (mem (headers c)) 0 (cursor (headers c))) (\<lambda>hs.
     and_then (written_bytes (take (cursor (body c)) (mem (body c)))) (\<lambda>b.
       Ok (c\<lparr> headers := buffer_reset (headers c), body := buffer_reset (body c) \<rparr>, (status, hs, b))))"

text \<open>The lines of \<open>response_complete\<close> that do it, when a header was ever seen.\<close>

definition hand_over :: "int \<Rightarrow> collector \<Rightarrow> (collector \<times> response_call list) outcome" where
  "hand_over status c =
     (if mem (headers c) = [] then Ok (c, [])
      else
        and_then (put_nul (headers c)) (\<lambda>b.
        and_then (script_response status (c\<lparr> headers := b \<rparr>)) (\<lambda>(c1, call).
          Ok (c1\<lparr> part := FIELD \<rparr>, [call]))))"


section \<open>What a buffer holds\<close>

definition contains :: "buffer \<Rightarrow> string \<Rightarrow> bool" where
  "contains b s \<longleftrightarrow> cursor b = length s \<and> length s \<le> length (mem b) \<and> take (length s) (mem b) = map Some s"

text \<open>There is a byte behind the cursor.\<close>

definition has_room :: "buffer \<Rightarrow> bool" where
  "has_room b \<longleftrightarrow> cursor b < length (mem b)"

lemma grow_enough: "need < grow need len \<and> len \<le> grow need len"
  by (induction need len rule: grow.induct) (subst (1 2) grow.simps, fastforce)

lemma contains_append:
  assumes "contains b s"
  shows "contains (buffer_append b t) (s @ t)" "has_room (buffer_append b t)" "mem (buffer_append b t) \<noteq> []"
  using assms grow_enough [of "length s + length t + 1" "length (mem b)"]
  by (auto simp: contains_def has_room_def buffer_append_def write_at_def Let_def)

lemma contains_put_nul:
  assumes "contains b s" "has_room b"
  shows "\<exists>b'. put_nul b = Ok b' \<and> contains b' (s @ [NUL]) \<and> mem b' \<noteq> []"
  using assms by (auto simp: contains_def has_room_def put_nul_def take_Suc_conv_app_nth)

lemma contains_reset: "contains (buffer_reset b) []"
  by (simp add: contains_def buffer_reset_def)

lemma scan_nul_string: "NUL \<notin> set s \<Longrightarrow> scan_nul (map Some s @ Some NUL # m) = Ok s"
  by (induction s) auto

section \<open>Headers in pieces\<close>

text \<open>A callback of the parser, and the run of a connection through several of them.\<close>

datatype header_event = HField string | HValue string

fun feed :: "collector \<Rightarrow> header_event list \<Rightarrow> collector outcome" where
  "feed c [] = Ok c"
| "feed c (HField s # es) = and_then (header_field c s) (\<lambda>c1. feed c1 es)"
| "feed c (HValue s # es) = and_then (header_value c s) (\<lambda>c1. feed c1 es)"

text \<open>A header whose name and value arrive in pieces.\<close>

type_synonym split_header = "string list \<times> string list"

definition events_of :: "split_header \<Rightarrow> header_event list" where
  "events_of h = map HField (fst h) @ map HValue (snd h)"

definition whole :: "split_header \<Rightarrow> string \<times> string" where
  "whole h = (concat (fst h), concat (snd h))"

definition encoded :: "split_header list \<Rightarrow> string" where
  "encoded hs = concat (map (\<lambda>h. fst (whole h) @ NUL # snd (whole h) @ [NUL]) hs)"

definition header_fine :: "split_header \<Rightarrow> bool" where
  "header_fine h \<longleftrightarrow> fst h \<noteq> [] \<and> snd h \<noteq> [] \<and> NUL \<notin> set (fst (whole h)) \<and> NUL \<notin> set (snd (whole h))"

lemma feed_append: "feed c (xs @ ys) = and_then (feed c xs) (\<lambda>c1. feed c1 ys)"
  by (induction c xs rule: feed.induct) (simp_all add: and_then_assoc)

lemma feed_fields:
  assumes "part c = FIELD" "contains (headers c) s"
  shows "\<exists>c'. feed c (map HField fs) = Ok c' \<and> part c' = FIELD \<and> contains (headers c') (s @ concat fs) \<and>
    body c' = body c \<and> (fs \<noteq> [] \<longrightarrow> has_room (headers c') \<and> mem (headers c') \<noteq> [])"
  using assms
proof (induction fs arbitrary: c s)
  case Nil
  then show ?case by simp
next
  case (Cons f fs)
  let ?c = "c\<lparr> headers := buffer_append (headers c) f \<rparr>"
  have "part ?c = FIELD" "contains (headers ?c) (s @ f)" "has_room (headers ?c)" "mem (headers ?c) \<noteq> []"
    using Cons.prems contains_append [OF Cons.prems(2), of f] by simp_all
  then show ?case using Cons.IH [of ?c "s @ f"] Cons.prems by (cases "fs = []") (auto simp: header_field_def)
qed

lemma feed_values:
  assumes "part c = VALUE" "contains (headers c) s"
  shows "\<exists>c'. feed c (map HValue vs) = Ok c' \<and> part c' = VALUE \<and> contains (headers c') (s @ concat vs) \<and>
    body c' = body c \<and> (vs \<noteq> [] \<longrightarrow> has_room (headers c') \<and> mem (headers c') \<noteq> [])"
  using assms
proof (induction vs arbitrary: c s)
  case Nil
  then show ?case by simp
next
  case (Cons v vs)
  let ?c = "c\<lparr> headers := buffer_append (headers c) v \<rparr>"
  have "part ?c = VALUE" "contains (headers ?c) (s @ v)" "has_room (headers ?c)" "mem (headers ?c) \<noteq> []"
    using Cons.prems contains_append [OF Cons.prems(2), of v] by simp_all
  then show ?case using Cons.IH [of ?c "s @ v"] Cons.prems by (cases "vs = []") (auto simp: header_value_def)
qed


text \<open>Between headers: \<open>s\<close> is what the buffer holds once the NUL that is still owed is written.\<close>

definition between :: "collector \<Rightarrow> string \<Rightarrow> bool" where
  "between c s \<longleftrightarrow>
     part c = FIELD \<and> contains (headers c) s \<or>
     part c = VALUE \<and> has_room (headers c) \<and> mem (headers c) \<noteq> [] \<and>
       (\<exists>s0. s = s0 @ [NUL] \<and> contains (headers c) s0)"

lemma field_after_between:
  assumes "between c s"
  shows "\<exists>c1. part c1 = FIELD \<and> contains (headers c1) s \<and> body c1 = body c \<and>
    (\<forall>f es. feed c (HField f # es) = feed c1 (HField f # es))"
proof (cases "part c")
  case FIELD
  then show ?thesis using assms by (auto simp: between_def)
next
  case VALUE
  then obtain s0 where s0: "s = s0 @ [NUL]" "contains (headers c) s0" "has_room (headers c)"
    using assms by (auto simp: between_def)
  then obtain b where b: "put_nul (headers c) = Ok b" "contains b s"
    using contains_put_nul [OF s0(2,3)] by auto
  have "feed c (HField f # es) = feed (c\<lparr> headers := b, part := FIELD \<rparr>) (HField f # es)" for f es
    using b(1) VALUE by (simp add: header_field_def)
  then show ?thesis using b(2) by (intro exI [of _ "c\<lparr> headers := b, part := FIELD \<rparr>"]) simp
qed

lemma value_after_field:
  assumes "part c = FIELD" "contains (headers c) s" "has_room (headers c)"
  shows "\<exists>c1. part c1 = VALUE \<and> contains (headers c1) (s @ [NUL]) \<and> body c1 = body c \<and>
    (\<forall>v es. feed c (HValue v # es) = feed c1 (HValue v # es))"
proof -
  obtain b where b: "put_nul (headers c) = Ok b" "contains b (s @ [NUL])"
    using contains_put_nul [OF assms(2,3)] by auto
  have "feed c (HValue v # es) = feed (c\<lparr> headers := b, part := VALUE \<rparr>) (HValue v # es)" for v es
    using b(1) assms(1) by (simp add: header_value_def)
  then show ?thesis using b(2) by (intro exI [of _ "c\<lparr> headers := b, part := VALUE \<rparr>"]) simp
qed

lemma feed_header:
  assumes "between c s" "header_fine h"
  shows "\<exists>c'. feed c (events_of h) = Ok c' \<and> part c' = VALUE \<and> body c' = body c \<and>
    between c' (s @ fst (whole h) @ NUL # snd (whole h) @ [NUL])"
proof -
  obtain f fs v vs where h: "fst h = f # fs" "snd h = v # vs"
    using assms(2) by (auto simp: header_fine_def neq_Nil_conv)
  obtain c1 where c1: "part c1 = FIELD" "contains (headers c1) s" "body c1 = body c"
    "\<And>es. feed c (HField f # es) = feed c1 (HField f # es)"
    using field_after_between [OF assms(1)] by blast
  obtain c2 where c2: "feed c1 (map HField (f # fs)) = Ok c2" "part c2 = FIELD"
    "contains (headers c2) (s @ concat (f # fs))" "has_room (headers c2)" "body c2 = body c1"
    using feed_fields [OF c1(1,2), of "f # fs"] by blast
  obtain c3 where c3: "part c3 = VALUE" "contains (headers c3) ((s @ concat (f # fs)) @ [NUL])" "body c3 = body c2"
    "\<And>es. feed c2 (HValue v # es) = feed c3 (HValue v # es)"
    using value_after_field [OF c2(2-4)] by blast
  obtain c4 where c4: "feed c3 (map HValue (v # vs)) = Ok c4" "part c4 = VALUE"
    "contains (headers c4) (((s @ concat (f # fs)) @ [NUL]) @ concat (v # vs))" "has_room (headers c4)"
    "mem (headers c4) \<noteq> []" "body c4 = body c3"
    using feed_values [OF c3(1,2), of "v # vs"] by blast
  have "feed c (events_of h) = Ok c4"
    using c1(4) [of "map HField fs @ map HValue (v # vs)"] c2(1) c3(4) [of "map HValue vs"] c4(1) h
    by (simp add: events_of_def feed_append flip: append_Cons list.map(2))
  moreover have "between c4 (s @ fst (whole h) @ NUL # snd (whole h) @ [NUL])"
    using c4 h by (auto simp: between_def whole_def)
  ultimately show ?thesis using c4 c3(3) c2(5) c1(3) by auto
qed

lemma feed_headers:
  assumes "between c s" "list_all header_fine hs"
  shows "\<exists>c'. feed c (concat (map events_of hs)) = Ok c' \<and> between c' (s @ encoded hs) \<and> body c' = body c \<and>
    (hs \<noteq> [] \<longrightarrow> part c' = VALUE)"
  using assms
proof (induction hs arbitrary: c s)
  case Nil
  then show ?case by (simp add: encoded_def)
next
  case (Cons h hs)
  obtain c1 where c1: "feed c (events_of h) = Ok c1" "part c1 = VALUE" "body c1 = body c"
    "between c1 (s @ fst (whole h) @ NUL # snd (whole h) @ [NUL])"
    using feed_header [OF Cons.prems(1), of h] Cons.prems(2) by auto
  obtain c2 where c2: "feed c1 (concat (map events_of hs)) = Ok c2" "body c2 = body c1" "hs \<noteq> [] \<longrightarrow> part c2 = VALUE"
    "between c2 ((s @ fst (whole h) @ NUL # snd (whole h) @ [NUL]) @ encoded hs)"
    using Cons.IH [OF c1(4)] Cons.prems(2) by auto
  have "part c2 = VALUE" using c1(2) c2(1,3) by (cases "hs = []") auto
  then show ?case using c1 c2 by (auto simp: feed_append encoded_def)
qed


section \<open>Taking the headers apart\<close>

lemma pushed_headers_encoded:
  assumes "list_all header_fine hs" "drop c m = map Some (encoded hs) @ r"
  shows "pushed_headers m c (c + length (encoded hs)) = Ok (map whole hs)"
  using assms
proof (induction hs arbitrary: c)
  case Nil
  then show ?case by (subst pushed_headers.simps) (simp add: encoded_def)
next
  case (Cons h hs)
  let ?f = "fst (whole h)" and ?v = "snd (whole h)"
  have e: "encoded (h # hs) = ?f @ NUL # ?v @ NUL # encoded hs" by (simp add: encoded_def)
  have f: "buffer_pushlstring m c = Ok (?f, c + length ?f + 1)"
    using Cons.prems scan_nul_string [of ?f] by (simp add: buffer_pushlstring_def e header_fine_def)
  have "drop (c + length ?f + 1) m = drop (length ?f + 1) (drop c m)" by (simp add: ac_simps)
  then have d1: "drop (c + length ?f + 1) m = map Some ?v @ Some NUL # map Some (encoded hs) @ r"
    using Cons.prems(2) by (simp add: e)
  have dd: "drop (c + length ?f + 1 + length ?v + 1) m = drop (length ?v + 1) (drop (c + length ?f + 1) m)"
    by (simp add: ac_simps)
  have d: "drop (c + length ?f + 1 + length ?v + 1) m = map Some (encoded hs) @ r" unfolding dd d1 by simp
  have v: "buffer_pushlstring m (c + length ?f + 1) = Ok (?v, c + length ?f + 1 + length ?v + 1)"
    unfolding buffer_pushlstring_def d1 using Cons.prems(1) scan_nul_string [of ?v] by (simp add: header_fine_def)
  have n: "c + length (encoded (h # hs)) = (c + length ?f + 1 + length ?v + 1) + length (encoded hs)"
    by (simp add: e)
  show ?case unfolding n
    using f v Cons.IH [OF _ d] Cons.prems(1) by (subst pushed_headers.simps) simp
qed

lemma written_bytes_map: "written_bytes (map Some s) = Ok s"
  by (induction s) simp_all

lemma body_pieces:
  assumes "contains (body c) s"
  shows "contains (body (foldl response_body c bs)) (s @ concat bs) \<and>
    headers (foldl response_body c bs) = headers c \<and> part (foldl response_body c bs) = part c"
  using assms
proof (induction bs arbitrary: c s)
  case Nil
  then show ?case by simp
next
  case (Cons b bs)
  have "contains (body (response_body c b)) (s @ b)"
    using contains_append [OF Cons.prems, of b] by (simp add: response_body_def)
  then show ?case using Cons.IH [of "response_body c b" "s @ b"] by (simp add: response_body_def)
qed

lemma hand_over_all:
  assumes "between c (encoded hs)" "part c = VALUE" "list_all header_fine hs" "contains (body c) bs"
  shows "\<exists>c2. hand_over status c = Ok (c2, [(status, map whole hs, bs)]) \<and> part c2 = FIELD \<and>
    cursor (headers c2) = 0 \<and> cursor (body c2) = 0"
proof -
  obtain s0 where s0: "encoded hs = s0 @ [NUL]" "contains (headers c) s0" "has_room (headers c)" "mem (headers c) \<noteq> []"
    using assms(1,2) by (auto simp: between_def)
  then obtain b where b: "put_nul (headers c) = Ok b" "contains b (encoded hs)"
    using contains_put_nul [OF s0(2,3)] by auto
  have "drop 0 (mem b) = map Some (encoded hs) @ drop (length (encoded hs)) (mem b)"
    using b(2) append_take_drop_id [of "length (encoded hs)" "mem b"] by (simp add: contains_def)
  from pushed_headers_encoded [OF assms(3) this] have "pushed_headers (mem b) 0 (cursor b) = Ok (map whole hs)"
    using b(2) by (simp add: contains_def)
  moreover have "written_bytes (take (cursor (body c)) (mem (body c))) = Ok bs"
    using assms(4) by (simp add: contains_def written_bytes_map)
  ultimately show ?thesis using s0(4) b(1) by (simp add: hand_over_def script_response_def buffer_reset_def)
qed



text \<open>
  A response without headers that follows one with headers: only the NUL of \<open>response_complete\<close> is in the
  buffer, so the loop reads a field that is empty and a value from what an earlier response left behind.
\<close>

lemma stale_header_pushed:
  assumes "mem (headers c) = Some x # map Some s @ Some NUL # r" "cursor (headers c) = 0" "NUL \<notin> set s"
    "cursor (body c) = 0"
  shows "\<exists>c2. hand_over status c = Ok (c2, [(status, [('''', s)], '''')])"
proof -
  have "pushed_headers (Some NUL # map Some s @ Some NUL # r) 0 1 = Ok [('''', s)]"
    using scan_nul_string [OF assms(3), of r]
    by (subst pushed_headers.simps, simp add: buffer_pushlstring_def) (subst pushed_headers.simps, simp)
  then show ?thesis using assms by (simp add: hand_over_def put_nul_def script_response_def)
qed

end
