(* ===== verification/WrkClient.thy ===== *)
theory WrkClient
  imports WrkFileEvents WrkStats WrkHeaders HttpSafe
begin

text \<open>
  A thread of the load generator: the connections of \<open>tools/wrk/src/wrk.c\<close> with their callbacks for the
  event loop and for the HTTP parser, over plain sockets (\<open>net.c\<close>) or TLS (\<open>ssl.c\<close>) and epoll.  The state of
  a thread extends that of its event loop.  What the system calls, the clock and the Lua script answer is a record of
  functions of the number of questions asked so far.
\<close>

section \<open>State\<close>

datatype wrk_proc = SocketConnected | SocketWriteable | SocketReadable | RecordRate | DelayRequest

datatype wrk_data = ConnData nat | ThreadData

text \<open>The status of an operation on a socket.\<close>

datatype status = OK | ERROR | RETRY

datatype write_answer = Wrote nat | WouldBlock | WriteFailed

text \<open>What OpenSSL answers: a positive result, or the error that \<open>SSL_get_error\<close> finds for any other.\<close>

datatype ssl_error = SSL_ERROR_WANT_READ | SSL_ERROR_WANT_WRITE | SSL_ERROR_OTHER

datatype ssl_bytes = SslBytes char string | SslNoBytes ssl_error

datatype ssl_count = SslCount nat | SslNoCount ssl_error

text \<open>
  \<open>o_socket\<close>: \<open>None\<close> when \<open>socket\<close> fails, else where the new descriptor is looked for; \<open>o_connect\<close>: the error
  number, 0 for success; \<open>o_ssl_connect\<close>: \<open>None\<close> for success; \<open>o_ssl_read\<close>, \<open>o_ssl_write\<close>: at least one byte, or
  an error; \<open>o_rate\<close>: the request rate, which is computed in floating point.
\<close>

record wrk_env =
  o_socket :: "nat \<Rightarrow> nat option"
  o_connect :: "nat \<Rightarrow> int"
  o_read :: "nat \<Rightarrow> string option"
  o_write :: "nat \<Rightarrow> write_answer"
  o_readable :: "nat \<Rightarrow> nat"
  o_ssl_connect :: "nat \<Rightarrow> ssl_error option"
  o_ssl_read :: "nat \<Rightarrow> ssl_bytes"
  o_ssl_write :: "nat \<Rightarrow> ssl_count"
  o_ssl_pending :: "nat \<Rightarrow> nat"
  o_time :: "nat \<Rightarrow> u64"
  o_delay :: "nat \<Rightarrow> u64"
  o_request :: "nat \<Rightarrow> string"
  o_stop :: "nat \<Rightarrow> bool"
  o_rate :: "u64 \<Rightarrow> u64 \<Rightarrow> u64"

record errors =
  e_connect :: u32
  e_read :: u32
  e_write :: u32
  e_status :: u32
  e_timeout :: u32

text \<open>
  \<open>request\<close> stands for the pointer and \<open>length\<close>.  \<open>c_inited\<close> is not in the code: it says whether the parser was
  ever initialised, and using it before is a fault.
\<close>

record connection =
  c_parser :: http_parser
  c_coll :: collector
  c_fd :: int
  c_delayed :: bool
  c_start :: u64
  c_request :: string
  c_written :: nat
  c_pending :: u64
  c_inited :: bool

record wthread = "(wrk_proc, wrk_data, epoll) aeEventLoop" +
  t_complete :: u64
  t_requests :: u64
  t_bytes :: u64
  t_start :: u64
  t_errors :: errors
  t_cs :: "connection list"
  t_latency :: stats
  t_rates :: stats
  t_open :: "int list"
  t_calls :: "response_call list"
  t_env :: wrk_env
  t_ticks :: nat

text \<open>\<open>struct sock\<close>: the operations on a connection, plain or over TLS.\<close>

record sock =
  s_connect :: "wthread \<Rightarrow> nat \<Rightarrow> status \<times> wthread"
  s_close :: "wthread \<Rightarrow> nat \<Rightarrow> status \<times> wthread"
  s_read :: "wthread \<Rightarrow> nat \<Rightarrow> status \<times> string \<times> wthread"
  s_write :: "wthread \<Rightarrow> nat \<Rightarrow> nat \<Rightarrow> status \<times> nat \<times> wthread"
  s_readable :: "wthread \<Rightarrow> nat \<Rightarrow> nat \<times> wthread"

record wrk_cfg =
  cfg_pipeline :: u64
  cfg_delay :: bool
  cfg_dynamic :: bool
  cfg_want_response :: bool
  cfg_sock :: sock

definition RECVBUF :: nat where "RECVBUF = 8192"
definition MAX_THREAD_RATE_S :: u64 where "MAX_THREAD_RATE_S = 10000000"
definition RECORD_INTERVAL_MS :: int where "RECORD_INTERVAL_MS = 100"
definition EINPROGRESS :: int where "EINPROGRESS = 115"

text \<open>The back end: \<open>epoll_create\<close> has succeeded; which descriptors the instance accepts is part of its state.\<close>

definition wrk_api :: "(epoll, int \<Rightarrow> (int \<times> u32) list option) ae_api" where
  "wrk_api = epoll_api (Some (\<lambda>_. False))"

section \<open>The surroundings\<close>

definition ask :: "(wrk_env \<Rightarrow> nat \<Rightarrow> 'b) \<Rightarrow> wthread \<Rightarrow> 'b \<times> wthread" where
  "ask f t = (f (t_env t) (t_ticks t), t\<lparr> t_ticks := t_ticks t + 1 \<rparr>)"

text \<open>The first free descriptor from \<open>k\<close> on; the kernel may give out any free one.\<close>

definition free_fd :: "int list \<Rightarrow> nat \<Rightarrow> int" where
  "free_fd fds k = hd (filter (\<lambda>fd. fd \<notin> set fds) (map int [k ..< k + Suc (length fds)]))"

text \<open>An open descriptor can be polled; closing one removes it from the epoll instance.\<close>

definition open_socket :: "int \<Rightarrow> wthread \<Rightarrow> wthread" where
  "open_socket fd t =
     t\<lparr> t_open := fd # t_open t, apidata := (apidata t)\<lparr> ep_accepts := (ep_accepts (apidata t))(fd := True) \<rparr> \<rparr>"

definition close_socket :: "int \<Rightarrow> wthread \<Rightarrow> wthread" where
  "close_socket fd t =
     t\<lparr> t_open := filter (\<lambda>f. f \<noteq> fd) (t_open t),
        apidata := \<lparr> ep_interest = (ep_interest (apidata t))(fd := None),
                     ep_accepts = (ep_accepts (apidata t))(fd := False) \<rparr> \<rparr>"

definition conn_of :: "wthread \<Rightarrow> nat \<Rightarrow> connection" where
  "conn_of t i = t_cs t ! i"

definition upd_conn :: "nat \<Rightarrow> (connection \<Rightarrow> connection) \<Rightarrow> wthread \<Rightarrow> wthread" where
  "upd_conn i f t = t\<lparr> t_cs := (t_cs t)[i := f (t_cs t ! i)] \<rparr>"

definition upd_errors :: "(errors \<Rightarrow> errors) \<Rightarrow> wthread \<Rightarrow> wthread" where
  "upd_errors f t = t\<lparr> t_errors := f (t_errors t) \<rparr>"

section \<open>Plain sockets\<close>

definition sock_connect :: "wthread \<Rightarrow> nat \<Rightarrow> status \<times> wthread" where
  "sock_connect t i = (OK, t)"

definition sock_close :: "wthread \<Rightarrow> nat \<Rightarrow> status \<times> wthread" where
  "sock_close t i = (OK, t)"

text \<open>At most a buffer full is read; the bytes are the second result.\<close>

definition sock_read :: "wthread \<Rightarrow> nat \<Rightarrow> status \<times> string \<times> wthread" where
  "sock_read t i =
     (case ask o_read t of
        (Some s, t1) \<Rightarrow> (OK, take RECVBUF s, t1)
      | (None, t1) \<Rightarrow> (ERROR, [], t1))"

text \<open>\<open>write\<close> writes no more than it is given.\<close>

definition sock_write :: "wthread \<Rightarrow> nat \<Rightarrow> nat \<Rightarrow> status \<times> nat \<times> wthread" where
  "sock_write t i len =
     (case ask o_write t of
        (Wrote n, t1) \<Rightarrow> (OK, min n len, t1)
      | (WouldBlock, t1) \<Rightarrow> (RETRY, 0, t1)
      | (WriteFailed, t1) \<Rightarrow> (ERROR, 0, t1))"

definition sock_readable :: "wthread \<Rightarrow> nat \<Rightarrow> nat \<times> wthread" where
  "sock_readable t i = ask o_readable t"

definition plain_sock :: sock where
  "plain_sock =
     \<lparr> s_connect = sock_connect, s_close = sock_close, s_read = sock_read, s_write = sock_write, s_readable = sock_readable \<rparr>"

section \<open>TLS\<close>

fun ssl_status :: "ssl_error \<Rightarrow> status" where
  "ssl_status SSL_ERROR_WANT_READ = RETRY"
| "ssl_status SSL_ERROR_WANT_WRITE = RETRY"
| "ssl_status SSL_ERROR_OTHER = ERROR"

definition ssl_connect :: "wthread \<Rightarrow> nat \<Rightarrow> status \<times> wthread" where
  "ssl_connect t i =
     (case ask o_ssl_connect t of
        (None, t1) \<Rightarrow> (OK, t1)
      | (Some e, t1) \<Rightarrow> (ssl_status e, t1))"

definition ssl_close :: "wthread \<Rightarrow> nat \<Rightarrow> status \<times> wthread" where
  "ssl_close t i = (OK, t)"

definition ssl_read :: "wthread \<Rightarrow> nat \<Rightarrow> status \<times> string \<times> wthread" where
  "ssl_read t i =
     (case ask o_ssl_read t of
        (SslBytes c s, t1) \<Rightarrow> (OK, take RECVBUF (c # s), t1)
      | (SslNoBytes e, t1) \<Rightarrow> (ssl_status e, [], t1))"

definition ssl_write :: "wthread \<Rightarrow> nat \<Rightarrow> nat \<Rightarrow> status \<times> nat \<times> wthread" where
  "ssl_write t i len =
     (case ask o_ssl_write t of
        (SslCount n, t1) \<Rightarrow> (OK, min (Suc n) len, t1)
      | (SslNoCount e, t1) \<Rightarrow> (ssl_status e, 0, t1))"

definition ssl_readable :: "wthread \<Rightarrow> nat \<Rightarrow> nat \<times> wthread" where
  "ssl_readable t i = ask o_ssl_pending t"

definition tls_sock :: sock where
  "tls_sock =
     \<lparr> s_connect = ssl_connect, s_close = ssl_close, s_read = ssl_read, s_write = ssl_write, s_readable = ssl_readable \<rparr>"


section \<open>Connecting\<close>

definition connect_failed :: "int \<Rightarrow> wthread \<Rightarrow> wthread \<times> int" where
  "connect_failed fd t =
     (close_socket fd (upd_errors (\<lambda>e. e\<lparr> e_connect := e_connect e + 1 \<rparr>) t), -1)"

definition connect_socket :: "wthread \<Rightarrow> nat \<Rightarrow> (wthread \<times> int) outcome" where
  "connect_socket t i =
     (case ask o_socket t of
        (None, t1) \<Rightarrow> Ok (connect_failed (-1) t1)
      | (Some k, t1) \<Rightarrow>
          let fd = free_fd (t_open t1) k;
              (err, t2) = ask o_connect (open_socket fd t1)
          in if err \<noteq> 0 \<and> err \<noteq> EINPROGRESS then Ok (connect_failed fd t2)
             else
               and_then (aeCreateFileEvent wrk_api t2 fd (AE_READABLE OR AE_WRITABLE) SocketConnected (ConnData i))
                 (\<lambda>(t3, r).
                    if r = AE_OK
                    then Ok (upd_conn i (\<lambda>c. c\<lparr> c_parser := (c_parser c)\<lparr> pdata := i \<rparr>, c_fd := fd \<rparr>) t3, fd)
                    else Ok (connect_failed fd t3)))"

definition reconnect_socket :: "wrk_cfg \<Rightarrow> wthread \<Rightarrow> nat \<Rightarrow> (wthread \<times> int) outcome" where
  "reconnect_socket C t i =
     and_then (aeDeleteFileEvent wrk_api t (c_fd (conn_of t i)) (AE_WRITABLE OR AE_READABLE)) (\<lambda>t1.
       let (_, t2) = s_close (cfg_sock C) t1 i in connect_socket (close_socket (c_fd (conn_of t2 i)) t2) i)"

text \<open>After an error: one counter goes up and the connection is made again.\<close>

definition fail_socket :: "wrk_cfg \<Rightarrow> (errors \<Rightarrow> errors) \<Rightarrow> wthread \<Rightarrow> nat \<Rightarrow> wthread outcome" where
  "fail_socket C f t i = and_then (reconnect_socket C (upd_errors f t) i) (\<lambda>(t1, r). Ok t1)"

section \<open>Timers\<close>

definition record_rate :: "wthread \<Rightarrow> wthread \<times> int" where
  "record_rate t =
     (let t2 = (if 0 < t_requests t then
                  let (now, t1) = ask o_time t;
                      elapsed_ms = (now - t_start t1) div 1000;
                      requests = o_rate (t_env t1) (t_requests t1) elapsed_ms;
                      (again, t2) = ask o_time (t1\<lparr> t_rates := fst (stats_record (t_rates t1) requests), t_requests := 0 \<rparr>)
                  in t2\<lparr> t_start := again \<rparr>
                else t);
          (stopped, t3) = ask o_stop t2
      in (if stopped then aeStop t3 else t3, RECORD_INTERVAL_MS))"

definition delay_request :: "wthread \<Rightarrow> nat \<Rightarrow> (wthread \<times> int) outcome" where
  "delay_request t i =
     (let t1 = upd_conn i (\<lambda>c. c\<lparr> c_delayed := False \<rparr>) t
      in and_then (aeCreateFileEvent wrk_api t1 (c_fd (conn_of t1 i)) AE_WRITABLE SocketWriteable (ConnData i))
           (\<lambda>(t2, r). Ok (t2, AE_NOMORE)))"

section \<open>Callbacks of the parser\<close>

text \<open>
  The parser runs on the connection's own parser record; its callbacks find the connection through \<open>data\<close>.  A
  fault in a callback is kept in their state, which is the outcome so far.
\<close>

definition on_collector ::
  "(collector \<Rightarrow> string \<Rightarrow> collector outcome) \<Rightarrow> http_parser \<Rightarrow> string \<Rightarrow> wthread outcome \<Rightarrow> int \<times> http_parser \<times> wthread outcome" where
  "on_collector f p at u =
     (0, p, and_then u (\<lambda>t. and_then (f (c_coll (conn_of t (pdata p))) at) (\<lambda>k.
        Ok (upd_conn (pdata p) (\<lambda>c. c\<lparr> c_coll := k \<rparr>) t))))"

text \<open>What \<open>response_complete\<close> does to the thread; \<open>alive\<close> is what \<open>http_should_keep_alive\<close> says.\<close>

definition complete_response :: "wrk_cfg \<Rightarrow> http_parser \<Rightarrow> nat \<Rightarrow> wthread \<Rightarrow> wthread outcome" where
  "complete_response C p i t0 =
     (let (now, t1) = ask o_time t0;
          status = uint (status_code p);
          t2 = t1\<lparr> t_complete := t_complete t1 + 1, t_requests := t_requests t1 + 1 \<rparr>;
          t3 = (if 399 < status then upd_errors (\<lambda>e. e\<lparr> e_status := e_status e + 1 \<rparr>) t2 else t2)
      in and_then (hand_over status (c_coll (conn_of t3 i))) (\<lambda>(k, calls).
         let t4 = upd_conn i (\<lambda>c. c\<lparr> c_coll := k, c_pending := c_pending c - 1 \<rparr>) (t3\<lparr> t_calls := t_calls t3 @ calls \<rparr>)
         in and_then
              (if c_pending (conn_of t4 i) = 0 then
                 let (lat, r) = stats_record (t_latency t4) (now - c_start (conn_of t4 i));
                     t5 = t4\<lparr> t_latency := lat \<rparr>;
                     t6 = (if r = 0 then upd_errors (\<lambda>e. e\<lparr> e_timeout := e_timeout e + 1 \<rparr>) t5 else t5);
                     t7 = upd_conn i (\<lambda>c. c\<lparr> c_delayed := cfg_delay C \<rparr>) t6
                 in and_then (aeCreateFileEvent wrk_api t7 (c_fd (conn_of t7 i)) AE_WRITABLE SocketWriteable (ConnData i))
                      (\<lambda>(t8, r'). Ok t8)
               else Ok t4) (\<lambda>t9.
            if \<not> http_should_keep_alive p then and_then (reconnect_socket C t9 i) (\<lambda>(t10, fd). Ok t10) else Ok t9)))"

definition response_complete ::
  "wrk_cfg \<Rightarrow> http_parser \<Rightarrow> wthread outcome \<Rightarrow> int \<times> http_parser \<times> wthread outcome" where
  "response_complete C p u =
     (0, if http_should_keep_alive p then http_parser_init p HTTP_RESPONSE else p,
      and_then u (complete_response C p (pdata p)))"

definition parser_settings :: "wrk_cfg \<Rightarrow> wthread outcome settings" where
  "parser_settings C =
     http_parser_settings_init\<lparr> on_message_complete := Some (response_complete C),
       on_header_field := (if cfg_want_response C then Some (on_collector header_field) else None),
       on_header_value := (if cfg_want_response C then Some (on_collector header_value) else None),
       on_body := (if cfg_want_response C then Some (on_collector (\<lambda>k s. Ok (response_body k s))) else None) \<rparr>"


section \<open>Callbacks of the event loop\<close>

definition socket_connected :: "wrk_cfg \<Rightarrow> wthread \<Rightarrow> int \<Rightarrow> nat \<Rightarrow> wthread outcome" where
  "socket_connected C t fd i =
     (case s_connect (cfg_sock C) t i of
        (ERROR, t1) \<Rightarrow> fail_socket C (\<lambda>e. e\<lparr> e_connect := e_connect e + 1 \<rparr>) t1 i
      | (RETRY, t1) \<Rightarrow> Ok t1
      | (OK, t1) \<Rightarrow>
          let t2 = upd_conn i (\<lambda>c. c\<lparr> c_parser := http_parser_init (c_parser c) HTTP_RESPONSE, c_written := 0,
                                   c_inited := True \<rparr>) t1
          in and_then (aeCreateFileEvent wrk_api t2 fd AE_READABLE SocketReadable (ConnData i)) (\<lambda>(t3, r).
             and_then (aeCreateFileEvent wrk_api t3 fd AE_WRITABLE SocketWriteable (ConnData i)) (\<lambda>(t4, r'). Ok t4)))"

text \<open>The start of a request: a dynamic one is made by the script.  Sending from behind the end of a request would be
  a fault, as \<open>length\<close> minus \<open>written\<close> wraps around.\<close>

definition start_request :: "wrk_cfg \<Rightarrow> wthread \<Rightarrow> nat \<Rightarrow> wthread" where
  "start_request C t i =
     (let t1 = (if cfg_dynamic C then let (r, t1) = ask o_request t in upd_conn i (\<lambda>c. c\<lparr> c_request := r \<rparr>) t1 else t);
          (now, t2) = ask o_time t1
      in upd_conn i (\<lambda>c. c\<lparr> c_start := now, c_pending := cfg_pipeline C \<rparr>) t2)"

definition socket_writeable :: "wrk_cfg \<Rightarrow> wthread \<Rightarrow> int \<Rightarrow> nat \<Rightarrow> wthread outcome" where
  "socket_writeable C t fd i =
     (if c_delayed (conn_of t i) then
        let (ms, t1) = ask o_delay t
        in and_then (aeDeleteFileEvent wrk_api t1 fd AE_WRITABLE) (\<lambda>t2.
             Ok (fst (aeCreateTimeEvent t2 (sint ms) DelayRequest (ConnData i) None)))
      else
        let t1 = (if c_written (conn_of t i) = 0 then start_request C t i else t);
            len = length (c_request (conn_of t1 i)) - c_written (conn_of t1 i)
        in if length (c_request (conn_of t1 i)) < c_written (conn_of t1 i) then Fault OutOfBounds
           else
             case s_write (cfg_sock C) t1 i len of
               (ERROR, n, t2) \<Rightarrow> fail_socket C (\<lambda>e. e\<lparr> e_write := e_write e + 1 \<rparr>) t2 i
             | (RETRY, n, t2) \<Rightarrow> Ok t2
             | (OK, n, t2) \<Rightarrow>
                 let t3 = upd_conn i (\<lambda>c. c\<lparr> c_written := c_written c + n \<rparr>) t2
                 in if c_written (conn_of t3 i) = length (c_request (conn_of t3 i))
                    then aeDeleteFileEvent wrk_api (upd_conn i (\<lambda>c. c\<lparr> c_written := 0 \<rparr>) t3) fd AE_WRITABLE
                    else Ok t3)"

text \<open>The end of \<open>socket_readable\<close> after an error.\<close>

definition read_error :: "wrk_cfg \<Rightarrow> wthread \<Rightarrow> nat \<Rightarrow> wthread outcome" where
  "read_error C t i = fail_socket C (\<lambda>e. e\<lparr> e_read := e_read e + 1 \<rparr>) t i"

text \<open>
  A call of the parser on the bytes read, with the number of bytes it took.  The thread is the state of the
  parser's callbacks; what they change of the connection's other fields stays.
\<close>

definition run_parser :: "wrk_cfg \<Rightarrow> wthread \<Rightarrow> nat \<Rightarrow> string \<Rightarrow> (wthread \<times> nat) outcome" where
  "run_parser C t i s =
     (if \<not> c_inited (conn_of t i) then Fault Aborted
      else
        case http_parser_execute (parser_settings C) (c_parser (conn_of t i)) s (Ok t) of
          Ret x v \<Rightarrow> and_then (usr x) (\<lambda>t1. Ok (upd_conn i (\<lambda>c. c\<lparr> c_parser := par x \<rparr>) t1, v))
        | Stuck \<Rightarrow> Hang
        | _ \<Rightarrow> Fault Aborted)"

text \<open>The \<open>do ... while\<close> loop of \<open>socket_readable\<close>; it goes on while full buffers come in, on fuel.\<close>

fun readable_loop :: "nat \<Rightarrow> wrk_cfg \<Rightarrow> wthread \<Rightarrow> nat \<Rightarrow> wthread outcome" where
  "readable_loop 0 C t i = Hang"
| "readable_loop (Suc fuel) C t i =
     (case s_read (cfg_sock C) t i of
        (ERROR, s, t1) \<Rightarrow> read_error C t1 i
      | (RETRY, s, t1) \<Rightarrow> Ok t1
      | (OK, s, t1) \<Rightarrow>
          and_then (run_parser C t1 i s) (\<lambda>(t2, v).
            if v \<noteq> length s then read_error C t2 i
            else if length s = 0 \<and> \<not> http_body_is_final (c_parser (conn_of t2 i)) then read_error C t2 i
            else
              let t3 = t2\<lparr> t_bytes := t_bytes t2 + of_nat (length s) \<rparr>
              in if length s = RECVBUF then
                   let (r, t4) = s_readable (cfg_sock C) t3 i in if 0 < r then readable_loop fuel C t4 i else Ok t4
                 else Ok t3))"

definition socket_readable :: "nat \<Rightarrow> wrk_cfg \<Rightarrow> wthread \<Rightarrow> nat \<Rightarrow> wthread outcome" where
  "socket_readable fuel C t i = readable_loop fuel C t i"

text \<open>Calling a function pointer with its data; a connection that does not exist is out of bounds.\<close>

definition on_conn :: "wthread \<Rightarrow> wrk_data \<Rightarrow> (nat \<Rightarrow> 'b outcome) \<Rightarrow> 'b outcome" where
  "on_conn t d f =
     (case d of ConnData i \<Rightarrow> if i < length (t_cs t) then f i else Fault OutOfBounds | ThreadData \<Rightarrow> Fault NullDeref)"

definition wrk_call_file :: "nat \<Rightarrow> wrk_cfg \<Rightarrow> wrk_proc \<Rightarrow> wthread \<Rightarrow> int \<Rightarrow> wrk_data \<Rightarrow> mask \<Rightarrow> wthread outcome" where
  "wrk_call_file fuel C p t fd d m =
     on_conn t d (\<lambda>i.
       case p of
         SocketConnected \<Rightarrow> socket_connected C t fd i
       | SocketWriteable \<Rightarrow> socket_writeable C t fd i
       | SocketReadable \<Rightarrow> socket_readable fuel C t i
       | _ \<Rightarrow> Fault NullDeref)"

definition wrk_call_time :: "wrk_proc \<Rightarrow> wthread \<Rightarrow> int \<Rightarrow> wrk_data \<Rightarrow> (wthread \<times> int) outcome" where
  "wrk_call_time p t tid d =
     (case p of
        RecordRate \<Rightarrow> Ok (record_rate t)
      | DelayRequest \<Rightarrow> on_conn t d (delay_request t)
      | _ \<Rightarrow> Fault NullDeref)"

text \<open>There are no finalizers and no hook before sleeping.\<close>

definition wrk_procs :: "nat \<Rightarrow> wrk_cfg \<Rightarrow> (wthread, wrk_proc, wrk_data) ae_procs" where
  "wrk_procs fuel C =
     \<lparr> call_file = wrk_call_file fuel C, call_time = wrk_call_time,
       call_final = (\<lambda>p t d. Fault NullDeref), call_sleep = (\<lambda>p t. Fault NullDeref) \<rparr>"

section \<open>The thread\<close>

text \<open>A connection as \<open>zcalloc\<close> leaves it, with what \<open>thread_main\<close> sets.\<close>

definition new_connection :: "wrk_cfg \<Rightarrow> string \<Rightarrow> connection" where
  "new_connection C request =
     \<lparr> c_parser = zero_parser, c_coll = \<lparr> part = FIELD, headers = no_buffer, body = no_buffer \<rparr>, c_fd = 0,
       c_delayed = cfg_delay C, c_start = 0, c_request = request, c_written = 0, c_pending = 0, c_inited = False \<rparr>"

fun connect_all :: "nat list \<Rightarrow> wthread \<Rightarrow> wthread outcome" where
  "connect_all [] t = Ok t"
| "connect_all (i # is) t = and_then (connect_socket t i) (\<lambda>(t1, r). connect_all is t1)"

text \<open>What a thread starts with: its loop, zeroed counters and the descriptors that are open.\<close>

definition new_thread ::
  "(wrk_proc, wrk_data, epoll) aeEventLoop \<Rightarrow> int list \<Rightarrow> stats \<Rightarrow> stats \<Rightarrow> wrk_env \<Rightarrow> wthread" where
  "new_thread L fds lat rates E =
     aeEventLoop.extend L
       \<lparr> t_complete = 0, t_requests = 0, t_bytes = 0, t_start = 0,
         t_errors = \<lparr> e_connect = 0, e_read = 0, e_write = 0, e_status = 0, e_timeout = 0 \<rparr>,
         t_cs = [], t_latency = lat, t_rates = rates, t_open = fds, t_calls = [], t_env = E, t_ticks = 0 \<rparr>"

definition thread_start :: "wrk_cfg \<Rightarrow> nat \<Rightarrow> wthread \<Rightarrow> wthread outcome" where
  "thread_start C n t =
     (let (request, t1) = (if cfg_dynamic C then ([], t) else ask o_request t);
          t2 = t1\<lparr> t_cs := replicate n (new_connection C request) \<rparr>
      in and_then (connect_all [0 ..< n] t2) (\<lambda>t3.
         let (t4, tid) = aeCreateTimeEvent t3 RECORD_INTERVAL_MS RecordRate ThreadData None;
             (now, t5) = ask o_time t4
         in Ok (t5\<lparr> t_start := now \<rparr>)))"

definition thread_main ::
  "nat \<Rightarrow> wrk_cfg \<Rightarrow> nat \<Rightarrow> wthread \<Rightarrow> (int \<Rightarrow> (int \<times> u32) list option) list \<Rightarrow> (wthread \<times> bool) outcome" where
  "thread_main fuel C n t answers =
     and_then (thread_start C n t) (\<lambda>t1. aeMain wrk_api (wrk_procs fuel C) t1 answers)"

end
