(* ===== verification/HttpKeeps.thy ===== *)
theory HttpKeeps
  imports HttpExec
begin

text \<open>
  What the application's callbacks keep, \<open>http_parser_execute\<close> keeps: the parser changes neither its \<open>data\<close>
  pointer nor the state the callbacks work on.  For any predicate on the two that every callback preserves,
  each state of the parser, the loop and the end of the data preserve it.
\<close>

section \<open>Kept predicates\<close>

definition inside :: "(nat \<Rightarrow> 'u \<Rightarrow> bool) \<Rightarrow> 'u exec \<Rightarrow> bool" where
  "inside P x \<longleftrightarrow> P (pdata (par x)) (usr x)"

fun kept :: "(nat \<Rightarrow> 'u \<Rightarrow> bool) \<Rightarrow> 'u step \<Rightarrow> bool" where
  "kept P (Next x) \<longleftrightarrow> inside P x"
| "kept P (Reexec x ch) \<longleftrightarrow> inside P x"
| "kept P (Ret x v) \<longleftrightarrow> inside P x"
| "kept P Abort \<longleftrightarrow> True"
| "kept P Stuck \<longleftrightarrow> True"

definition keeps :: "(nat \<Rightarrow> 'u \<Rightarrow> bool) \<Rightarrow> (http_parser \<Rightarrow> 'u \<Rightarrow> int \<times> http_parser \<times> 'u) \<Rightarrow> bool" where
  "keeps P f \<longleftrightarrow> (\<forall>p u. P (pdata p) u \<longrightarrow> P (pdata (fst (snd (f p u)))) (snd (snd (f p u))))"

definition keeps_data :: "(nat \<Rightarrow> 'u \<Rightarrow> bool) \<Rightarrow> (http_parser \<Rightarrow> string \<Rightarrow> 'u \<Rightarrow> int \<times> http_parser \<times> 'u) \<Rightarrow> bool" where
  "keeps_data P f \<longleftrightarrow> (\<forall>s. keeps P (\<lambda>p. f p s))"

definition keeping :: "(nat \<Rightarrow> 'u \<Rightarrow> bool) \<Rightarrow> 'u settings \<Rightarrow> bool" where
  "keeping P S \<longleftrightarrow>
     pred_option (keeps P) (on_message_begin S) \<and> pred_option (keeps_data P) (on_url S) \<and>
     pred_option (keeps_data P) (on_status S) \<and> pred_option (keeps_data P) (on_header_field S) \<and>
     pred_option (keeps_data P) (on_header_value S) \<and> pred_option (keeps P) (on_headers_complete S) \<and>
     pred_option (keeps_data P) (on_body S) \<and> pred_option (keeps P) (on_message_complete S) \<and>
     pred_option (keeps P) (on_chunk_header S) \<and> pred_option (keeps P) (on_chunk_complete S)"

lemma keepingD:
  assumes "keeping P S"
  shows "pred_option (keeps P) (on_message_begin S)" "pred_option (keeps_data P) (on_url S)"
    "pred_option (keeps_data P) (on_status S)" "pred_option (keeps_data P) (on_header_field S)"
    "pred_option (keeps_data P) (on_header_value S)" "pred_option (keeps P) (on_headers_complete S)"
    "pred_option (keeps_data P) (on_body S)" "pred_option (keeps P) (on_message_complete S)"
    "pred_option (keeps P) (on_chunk_header S)" "pred_option (keeps P) (on_chunk_complete S)"
  using assms by (simp_all add: keeping_def)

section \<open>The macros\<close>

lemmas kept_defs = inside_def goto_state_def upd_def save_state_def ret_def fail_def

lemma inside_simps [simp]:
  "inside P (goto_state s x) = inside P x"
  "inside P (save_state x) = inside P x"
  "inside P (x\<lparr> pos := i \<rparr>) = inside P x"
  "inside P (x\<lparr> header_field_mark := m \<rparr>) = inside P x"
  "inside P (x\<lparr> header_value_mark := m \<rparr>) = inside P x"
  "inside P (x\<lparr> url_mark := m \<rparr>) = inside P x"
  "inside P (x\<lparr> body_mark := m \<rparr>) = inside P x"
  "inside P (x\<lparr> status_mark := m \<rparr>) = inside P x"
  "inside P (header_field_mark_update f x) = inside P x"
  "inside P (header_value_mark_update f x) = inside P x"
  "inside P (url_mark_update f x) = inside P x"
  "inside P (body_mark_update f x) = inside P x"
  "inside P (status_mark_update f x) = inside P x"
  "inside P (pos_update g x) = inside P x"
  by (simp_all add: kept_defs)

lemma inside_upd: "(\<And>p. pdata (f p) = pdata p) \<Longrightarrow> inside P (upd f x) = inside P x"
  by (simp add: kept_defs)

lemma kept_fail [simp]: "kept P (fail e x) = inside P x"
  by (simp add: kept_defs)

lemma kept_ret [simp]: "kept P (ret v x) = inside P x"
  by (simp add: kept_defs)

lemma kept_strict: "inside P x \<Longrightarrow> kept P k \<Longrightarrow> kept P (STRICT_CHECK c x k)"
  by (simp add: STRICT_CHECK_def)

lemma kept_count: "inside P x \<Longrightarrow> (\<And>y. inside P y \<Longrightarrow> kept P (k y)) \<Longrightarrow> kept P (COUNT_HEADER_SIZE v x k)"
  by (simp add: COUNT_HEADER_SIZE_def Let_def inside_upd)

lemma kept_after:
  assumes "P (pdata (fst (snd res))) (snd (snd res))" "\<And>y. inside P y \<Longrightarrow> kept P (k y)"
  shows "kept P (after_callback e er x res k)"
  using assms by (auto simp: after_callback_def Let_def inside_def split: prod.splits)

lemma kept_notify:
  assumes "pred_option (keeps P) cb" "inside P x" "\<And>y. inside P y \<Longrightarrow> kept P (k y)"
  shows "kept P (CALLBACK_NOTIFY cb e er x k)"
  using assms by (cases cb) (auto simp: CALLBACK_NOTIFY_def Let_def keeps_def kept_defs intro!: kept_after)

lemma kept_data:
  assumes "pred_option (keeps_data P) cb" "inside P x" "\<And>y. inside P y \<Longrightarrow> kept P (k y)" "\<And>y. inside P (clear y) = inside P y"
  shows "kept P (CALLBACK_DATA cb e data m clear stop er x k)"
proof (cases m)
  case None
  then show ?thesis using assms by (simp add: CALLBACK_DATA_def)
next
  case (Some a)
  then show ?thesis using assms
    by (cases cb) (auto simp: CALLBACK_DATA_def Let_def keeps_def keeps_data_def save_state_def inside_def [of P x] intro!: kept_after)
qed


section \<open>The states\<close>

declare inside_upd [simp]

lemma pdata_simps [simp]: "pdata (match_field str h c p) = pdata p"
  by (simp add: match_field_def Let_def split: option.split)

lemma field_step_pdata: "field_step ch c p = Some p' \<Longrightarrow> pdata p' = pdata p"
  unfolding field_step_def by (cases "header_state p") (auto split: if_splits)

lemma field_loop_pdata: "field_loop cs ch p k = Some (p', ch', k') \<Longrightarrow> pdata p' = pdata p"
  by (induction cs ch p k rule: field_loop.induct) (auto dest: field_step_pdata split: if_splits option.splits)

fun value_pdata :: "value_res \<Rightarrow> nat" where
  "value_pdata (VGo p h) = pdata p"
| "value_pdata (VFail e p) = pdata p"
| "value_pdata VAbort = 0"

lemma match_value_pdata: "value_pdata (match_value str f other c p h) = pdata p"
  by (simp add: match_value_def Let_def split: option.split)

lemma value_step_pdata: "value_step ch p h \<noteq> VAbort \<Longrightarrow> value_pdata (value_step ch p h) = pdata p"
  unfolding value_step_def Let_def
  by (cases h) (simp_all add: match_value_pdata value_content_length_def value_token_start_def value_token_end_def)

lemmas kept_intros = kept_strict kept_count kept_notify kept_data keepingD

lemmas cb_defs = cb_message_begin_def cb_message_complete_def cb_chunk_header_def cb_chunk_complete_def cb_url_def
  cb_status_def cb_header_field_def cb_header_value_def cb_body_def

lemma kept_const: "inside P x \<Longrightarrow> kept P (ex_const c s ch x)"
  by (simp add: ex_const_def kept_strict)

lemma kept_dead: "inside P x \<Longrightarrow> kept P (ex_dead ch x)"
  by (simp add: ex_dead_def)

lemma inside_begin [simp]: "inside P (begin_message x) = inside P x"
  by (simp add: begin_message_def)

lemma kept_plain:
  assumes "inside P x"
  shows "kept P (ex_res_or_resp_H ch x)" "kept P (ex_res_line ch x)" "kept P (ex_res_first_status_code ch x)"
    "kept P (ex_res_status_code ch x)" "kept P (ex_res_status_start ch x)" "kept P (ex_req_method ch x)"
    "kept P (url_char ch x)" "kept P (ex_req_http ch x)" "kept P (ex_header_field_start ch x)"
    "kept P (ex_header_almost_done ch x)" "kept P (ex_chunk_size_start ch x)" "kept P (ex_chunk_size ch x)"
    "kept P (ex_chunk_parameters ch x)" "kept P (ex_header_value_lws ch x)" "kept P (ex_body_identity_eof data x)"
  using assms
  by (auto simp: ex_res_or_resp_H_def ex_res_line_def ex_res_first_status_code_def ex_res_status_code_def
      ex_res_status_start_def ex_req_method_def url_char_def ex_req_http_def ex_header_field_start_def
      ex_header_almost_done_def ex_chunk_size_start_def ex_chunk_size_def ex_chunk_parameters_def
      ex_header_value_lws_def set_token_flag_def ex_body_identity_eof_def Let_def kept_const
      split: state.split option.split)

lemma kept_header_value_start: "inside P x \<Longrightarrow> kept P (ex_header_value_start ch x)"
  by (auto simp: ex_header_value_start_def Let_def split: header_state.split)

lemma kept_url:
  assumes "inside P x" "keeping P S"
  shows "kept P (ex_req_spaces_before_url ch x)" "kept P (ex_req_schema ch x)" "kept P (ex_req_url S data ch x)"
    "kept P (ex_header_value_discard_ws ch x)"
  using assms
  by (auto simp: ex_req_spaces_before_url_def ex_req_schema_def ex_req_url_def ex_header_value_discard_ws_def Let_def
      cb_defs kept_header_value_start intro!: kept_plain kept_intros)

lemma kept_start:
  assumes "inside P x" "keeping P S"
  shows "kept P (ex_start_req_or_res S ch x)" "kept P (ex_start_res S ch x)" "kept P (ex_res_status S data ch x)"
    "kept P (ex_start_req S ch x)"
  using assms
  by (auto simp: ex_start_req_or_res_def ex_start_res_def ex_res_status_def ex_start_req_def Let_def cb_defs
      intro!: kept_intros split: option.split)


lemma inside_par: "pdata p = pdata (par x) \<Longrightarrow> inside P (x\<lparr> par := p \<rparr>) = inside P x"
  by (simp add: inside_def)

lemma kept_header_field:
  assumes "inside P x" "keeping P S"
  shows "kept P (ex_header_field S data ch x)"
proof (cases "field_loop (drop (pos x) data) ch (par x) 0")
  case None
  then show ?thesis by (simp add: ex_header_field_def)
next
  case (Some r)
  obtain p1 ch1 k where r: "r = (p1, ch1, k)" by (cases r) auto
  then have "inside P (x\<lparr> par := p1, pos := pos x + k \<rparr>)"
    using Some assms(1) field_loop_pdata by (fastforce simp: inside_def)
  then show ?thesis using Some r assms(2)
    by (auto simp: ex_header_field_def cb_defs intro!: kept_intros)
qed

fun end_pdata :: "nat \<Rightarrow> value_end \<Rightarrow> bool" where
  "end_pdata d (VEnd p h k) = (pdata p = d)"
| "end_pdata d (VCr p h k) = (pdata p = d)"
| "end_pdata d (VLf p h k) = (pdata p = d)"
| "end_pdata d (VErr e p k) = (pdata p = d)"
| "end_pdata d VAssert = True"

lemma value_loop_pdata: "end_pdata (pdata p) (value_loop l cs p h k)"
proof (induction l cs p h k rule: value_loop.induct)
  case (1 l p h k)
  then show ?case by simp
next
  case (2 l c cs p h k)
  show ?case
  proof (cases "value_step c p h")
    case (VGo p1 h1)
    then have "pdata p1 = pdata p" using value_step_pdata [of c p h] by simp
    then show ?thesis using 2 VGo by auto
  next
    case (VFail e p1)
    then have "pdata p1 = pdata p" using value_step_pdata [of c p h] by simp
    then show ?thesis using 2 VFail by auto
  next
    case VAbort
    then show ?thesis using 2 by auto
  qed
qed

lemma kept_header_value:
  assumes "inside P x" "keeping P S"
  shows "kept P (ex_header_value S data x)"
proof -
  have e: "end_pdata (pdata (par x)) (value_loop (lenient x) (drop (pos x) data) (par x) (header_state (par x)) 0)"
    by (rule value_loop_pdata)
  show ?thesis
    by (cases "value_loop (lenient x) (drop (pos x) data) (par x) (header_state (par x)) 0"; use e assms in
      \<open>auto simp: ex_header_value_def inside_par Let_def cb_defs intro!: kept_intros\<close>)
qed

lemma kept_lws:
  assumes "inside P x" "keeping P S"
  shows "kept P (ex_header_value_discard_lws S data ch x)"
  using assms
  by (auto simp: ex_header_value_discard_lws_def set_token_flag_def Let_def cb_defs intro!: kept_intros)

lemma kept_headers_complete:
  assumes "inside P x" "keeping P S"
  shows "kept P (headers_complete S ch x)"
proof (cases "on_headers_complete S")
  case None
  then show ?thesis using assms(1) by (simp add: headers_complete_def Let_def)
next
  case (Some f)
  obtain r p1 u1 where f: "f (par x) (usr x) = (r, p1, u1)" by (cases "f (par x) (usr x)") auto
  have "P (pdata p1) u1"
    using keepingD(6) [OF assms(2)] Some f assms(1) by (fastforce simp: keeps_def inside_def)
  then show ?thesis using Some f by (simp add: headers_complete_def Let_def kept_defs)
qed

lemma inside_new [simp]: "inside P (new_message x) = inside P x"
  by (simp add: new_message_def)

lemma inside_take [simp]: "inside P (take_body data x) = inside P x"
  by (simp add: take_body_def Let_def)

lemma kept_headers:
  assumes "inside P x" "keeping P S"
  shows "kept P (ex_headers_almost_done S ch x)" "kept P (ex_headers_done S ch x)"
  using assms
  by (auto simp: ex_headers_almost_done_def ex_headers_done_def Let_def cb_defs intro!: kept_intros kept_headers_complete)

lemma kept_body:
  assumes "inside P x" "keeping P S"
  shows "kept P (ex_body_identity S data ch x)" "kept P (ex_message_done S x)" "kept P (ex_chunk_size_almost_done S ch x)"
    "kept P (ex_chunk_data data x)" "kept P (ex_chunk_data_almost_done S data ch x)" "kept P (ex_chunk_data_done S ch x)"
  using assms
  by (auto simp: ex_body_identity_def ex_message_done_def ex_chunk_size_almost_done_def ex_chunk_data_def
      ex_chunk_data_almost_done_def ex_chunk_data_done_def Let_def cb_defs intro!: kept_intros)

section \<open>The loop\<close>

lemmas kept_states = kept_dead kept_const kept_plain kept_header_value_start kept_url kept_start kept_header_field
  kept_header_value kept_lws kept_headers kept_body

lemma kept_char:
  assumes "inside P x" "keeping P S"
  shows "kept P (exec_char S data ch x)"
  unfolding exec_char_def by (cases "st x"; use assms in \<open>simp add: kept_states\<close>)

lemma kept_reexecute:
  "inside P x \<Longrightarrow> keeping P S \<Longrightarrow> kept P (reexecute n S data ch x)"
proof (induction n arbitrary: x ch)
  case 0
  then show ?case by simp
next
  case (Suc n)
  have "kept P (exec_char S data ch x)" by (rule kept_char [OF Suc.prems])
  then show ?case using Suc.IH Suc.prems(2) by (cases "exec_char S data ch x") simp_all
qed

lemma kept_byte: "inside P x \<Longrightarrow> keeping P S \<Longrightarrow> kept P (exec_byte S data x)"
  by (auto simp: exec_byte_def Let_def intro!: kept_count kept_reexecute)

lemma kept_finish:
  assumes "inside P x" "keeping P S"
  shows "kept P (exec_finish S data x)"
  using assms unfolding exec_finish_def cb_defs
  by (cases "1 < count_marks x") (simp, simp only: if_False, (intro kept_data keepingD; simp))

lemma kept_loop: "inside P x \<Longrightarrow> keeping P S \<Longrightarrow> kept P (exec_loop n S data x)"
proof (induction n arbitrary: x)
  case 0
  then show ?case by (simp add: kept_finish)
next
  case (Suc n)
  have "kept P (exec_byte S data x)" using Suc.prems by (rule kept_byte)
  then show ?case using Suc kept_finish [OF Suc.prems] by (cases "exec_byte S data x") simp_all
qed

lemma execute_keeps:
  assumes "P (pdata p) u" "keeping P S"
  shows "kept P (http_parser_execute S p data u)"
proof -
  have i: "inside P (exec_start p u)" using assms(1) by (simp add: inside_def exec_start_def)
  have "kept P (exec_eof S (exec_start p u))"
    unfolding exec_eof_def cb_defs
    by (cases "st (exec_start p u)"; use i assms(2) in \<open>auto intro!: kept_intros\<close>)
  then show ?thesis using i assms(2) by (simp add: http_parser_execute_def kept_loop)
qed

end
