(* ===== verification/WrkTimers.thy ===== *)
theory WrkTimers
  imports WrkAe
begin

text \<open>
  The timers of the event loop.  \<open>processTimeEvents\<close> walks its linked list with a cursor and a pointer to the
  element before, takes elements out behind it and calls functions that could change the list.  When they
  keep it, the walk is one pass over a list, the reference \<open>visit_timers\<close>.
\<close>

section \<open>The reference\<close>

definition finalize_timer ::
  "('p, 'd, 'a, 'z) procs \<Rightarrow> ('p, 'd) aeTimeEvent \<Rightarrow> ('p, 'd, 'a, 'z) aeEventLoop_scheme \<Rightarrow>
     ('p, 'd, 'a, 'z) aeEventLoop_scheme outcome" where
  "finalize_timer P te L = (case finalizerProc te of None \<Rightarrow> Ok L | Some f \<Rightarrow> call_final P f L (te_data te))"

text \<open>After its call, with the value it returned.\<close>

definition reschedule ::
  "('p, 'd) aeTimeEvent \<Rightarrow> ('p, 'd, 'a, 'z) aeEventLoop_scheme \<Rightarrow> int \<Rightarrow>
     ('p, 'd) aeTimeEvent \<times> ('p, 'd, 'a, 'z) aeEventLoop_scheme" where
  "reschedule te L retval =
     (if retval = AE_NOMORE then (te\<lparr> te_id := AE_DELETED_EVENT_ID \<rparr>, L)
      else let ((s, m), L1) = aeAddMillisecondsToNow L retval in (te\<lparr> when_sec := s, when_ms := m \<rparr>, L1))"

text \<open>
  \<open>done\<close> has been visited.  A deleted timer is dropped; one whose time has come is called and then scheduled
  again or marked as deleted; every other one stays as it is.
\<close>

fun visit_timers ::
  "('p, 'd, 'a, 'z) procs \<Rightarrow> ('p, 'd) aeTimeEvent list \<Rightarrow> ('p, 'd) aeTimeEvent list \<Rightarrow> int \<Rightarrow>
     ('p, 'd, 'a, 'z) aeEventLoop_scheme \<Rightarrow> (('p, 'd, 'a, 'z) aeEventLoop_scheme \<times> int) outcome" where
  "visit_timers P done [] n L = Ok (L, n)"
| "visit_timers P done (te # ts) n L =
     (if te_id te = AE_DELETED_EVENT_ID
      then and_then (finalize_timer P te (L\<lparr> timeEventHead := done @ ts \<rparr>)) (visit_timers P done ts n)
      else
        let (now, L1) = aeGetTime L
        in if timer_due te now then
             and_then (call_time P (timeProc te) L1 (te_id te) (te_data te)) (\<lambda>(L2, retval).
               let (te', L3) = reschedule te L2 retval
               in visit_timers P (done @ [te']) ts (n + 1) (L3\<lparr> timeEventHead := done @ te' # ts \<rparr>))
           else visit_timers P (done @ [te]) ts n L1)"

text \<open>The whole of it: when the clock went back, every timer is due.\<close>

definition process_timers ::
  "('p, 'd, 'a, 'z) procs \<Rightarrow> ('p, 'd, 'a, 'z) aeEventLoop_scheme \<Rightarrow> (('p, 'd, 'a, 'z) aeEventLoop_scheme \<times> int) outcome" where
  "process_timers P L =
     (let (now, L1) = time_now L;
          ts = (if now < lastTime L then map (\<lambda>t. t\<lparr> when_sec := 0 \<rparr>) (timeEventHead L) else timeEventHead L)
      in visit_timers P [] ts 0 (L1\<lparr> timeEventHead := ts, lastTime := now \<rparr>))"

section \<open>The linked list\<close>

abbreviation addrs :: "('p, 'd) aeTimeEvent list \<Rightarrow> nat list" where
  "addrs \<equiv> map te_addr"

lemma from_addr_at: "te_addr te \<notin> set (addrs xs) \<Longrightarrow> from_addr (te_addr te) (xs @ te # ys) = te # ys"
  by (induction xs) auto

lemma up_to_addr_at: "te_addr te \<notin> set (addrs xs) \<Longrightarrow> up_to_addr (te_addr te) (xs @ te # ys) = xs @ [te]"
  by (induction xs) auto

lemma next_of_at: "te_addr te \<notin> set (addrs xs) \<Longrightarrow> next_of (te_addr te) (xs @ te # ys) = head_addr ys"
  by (simp add: next_of_def from_addr_at)

definition last_addr :: "('p, 'd) aeTimeEvent list \<Rightarrow> nat option" where
  "last_addr xs = (if xs = [] then None else Some (te_addr (last xs)))"

lemma last_addr_snoc [simp]: "last_addr (xs @ [x]) = Some (te_addr x)"
  by (simp add: last_addr_def)

lemma unlink_at:
  assumes "distinct (addrs (xs @ te # ys))"
  shows "unlink (last_addr xs) (te_addr te) (xs @ te # ys) = xs @ ys"
proof (cases xs rule: rev_cases)
  case Nil
  then show ?thesis by (simp add: unlink_def last_addr_def)
next
  case (snoc zs z)
  then have "up_to_addr (te_addr z) (xs @ te # ys) = zs @ [z]" using assms up_to_addr_at [of z zs "te # ys"] by simp
  moreover have "from_addr (te_addr te) (xs @ te # ys) = te # ys" using assms by (intro from_addr_at) auto
  ultimately show ?thesis using snoc by (simp add: unlink_def)
qed

lemma update_at_other: "a \<notin> set (addrs xs) \<Longrightarrow> update_at a f xs = xs"
  by (induction xs) (auto simp: update_at_def)

lemma update_at_at:
  assumes "distinct (addrs (xs @ te # ys))"
  shows "update_at (te_addr te) f (xs @ te # ys) = xs @ f te # ys"
proof -
  have "update_at (te_addr te) f (xs @ te # ys) = update_at (te_addr te) f xs @ f te # update_at (te_addr te) f ys"
    by (simp add: update_at_def)
  then show ?thesis using assms by (simp add: update_at_other)
qed

section \<open>Callbacks that keep the timers\<close>

text \<open>
  The contract of a set of callbacks: in states of \<open>inv\<close> the functions of timers and the finalizers keep the list
  of timers; and \<open>inv\<close> does not depend on the times in it, on deletions or on the clock's readings.
\<close>

locale steady_timers =
  fixes P :: "('p, 'd, 'a, 'z) procs" and inv :: "('p, 'd, 'a, 'z) aeEventLoop_scheme \<Rightarrow> bool"
  assumes linked: "inv L \<Longrightarrow> distinct (addrs (timeEventHead L))"
    and old_ids: "inv L \<Longrightarrow> te \<in> set (timeEventHead L) \<Longrightarrow> te_id te < timeEventNextId L"
    and call_safe: "\<lbrakk> inv L; te \<in> set (timeEventHead L); te_id te \<noteq> AE_DELETED_EVENT_ID \<rbrakk> \<Longrightarrow>
        \<not> faults (call_time P (timeProc te) L (te_id te) (te_data te))"
    and called: "\<lbrakk> inv L; te \<in> set (timeEventHead L); te_id te \<noteq> AE_DELETED_EVENT_ID;
        call_time P (timeProc te) L (te_id te) (te_data te) = Ok (L', r) \<rbrakk> \<Longrightarrow>
        inv L' \<and> timeEventHead L' = timeEventHead L"
    and final_safe: "\<lbrakk> inv L; timeEventHead L = xs @ te # ys \<rbrakk> \<Longrightarrow>
        \<not> faults (finalize_timer P te (L\<lparr> timeEventHead := xs @ ys \<rparr>))"
    and finalized: "\<lbrakk> inv L; timeEventHead L = xs @ te # ys;
        finalize_timer P te (L\<lparr> timeEventHead := xs @ ys \<rparr>) = Ok L' \<rbrakk> \<Longrightarrow> inv L' \<and> timeEventHead L' = xs @ ys"
    and clock_read: "inv L \<Longrightarrow> inv (L\<lparr> reads := k \<rparr>)"
    and last_time: "inv L \<Longrightarrow> inv (L\<lparr> lastTime := s \<rparr>)"
    and rescheduled: "\<lbrakk> inv L; timeEventHead L = xs @ te # ys; j = te_id te \<or> j = AE_DELETED_EVENT_ID \<rbrakk> \<Longrightarrow>
        inv (L\<lparr> timeEventHead := xs @ te\<lparr> te_id := j, when_sec := s, when_ms := m \<rparr> # ys \<rparr>)"
begin

lemma reschedule_inv:
  assumes "inv L" "timeEventHead L = xs @ te # ts" "reschedule te L r = (te', L')"
  shows "te_addr te' = te_addr te" "inv (L'\<lparr> timeEventHead := xs @ te' # ts \<rparr>)" "timeEventHead L' = xs @ te # ts"
proof -
  obtain s m j where te': "te' = te\<lparr> te_id := j, when_sec := s, when_ms := m \<rparr>" "j = te_id te \<or> j = AE_DELETED_EVENT_ID"
  proof (cases "r = AE_NOMORE")
    case True
    then show ?thesis using that [where j = AE_DELETED_EVENT_ID and s = "when_sec te" and m = "when_ms te"] assms(3) by (simp add: reschedule_def)
  next
    case False
    obtain w L1 where "aeAddMillisecondsToNow L r = (w, L1)" by (cases "aeAddMillisecondsToNow L r")
    then have "te' = te\<lparr> when_sec := fst w, when_ms := snd w \<rparr>"
      using False assms(3) by (auto simp: reschedule_def split_beta)
    then show ?thesis using that [where j = "te_id te" and s = "fst w" and m = "snd w"] by simp
  qed
  then show "te_addr te' = te_addr te" by simp
  have i: "inv L'" "timeEventHead L' = xs @ te # ts"
    using assms clock_read by (auto simp: reschedule_def aeAddMillisecondsToNow_def aeGetTime_def Let_def split: if_splits prod.splits)
  then show "timeEventHead L' = xs @ te # ts" by blast
  show "inv (L'\<lparr> timeEventHead := xs @ te' # ts \<rparr>)" unfolding te'(1) by (rule rescheduled [OF i te'(2)])
qed

lemma fire_reschedule:
  assumes "inv L" "timeEventHead L = xs @ te # ts"
    and "call_time P (timeProc te) L (te_id te) (te_data te) = Ok (L2, r)" "reschedule te L2 r = (te', L3)"
    and "timeEventHead L2 = xs @ te # ts"
  shows "fire_timer P te L = Ok (L3\<lparr> timeEventHead := xs @ te' # ts \<rparr>)"
proof -
  have "distinct (addrs (xs @ te # ts))" using linked [OF assms(1)] assms(2) by simp
  note u = update_at_at [OF this]
  show ?thesis
  proof (cases "r = AE_NOMORE")
    case True
    then show ?thesis using assms(3-5) u by (auto simp: fire_timer_def reschedule_def)
  next
    case False
    obtain w L1 where w: "aeAddMillisecondsToNow L2 r = (w, L1)" by (cases "aeAddMillisecondsToNow L2 r")
    then have "timeEventHead L1 = xs @ te # ts" using assms(5) by (auto simp: aeAddMillisecondsToNow_def aeGetTime_def)
    then show ?thesis using False assms(3,4) u w by (auto simp: fire_timer_def reschedule_def split_beta)
  qed
qed

lemma read_clock:
  assumes "inv L" "aeGetTime L = (now, L')"
  shows "inv L'" "timeEventHead L' = timeEventHead L"
  using assms clock_read by (auto simp: aeGetTime_def)

lemma time_loop_visits:
  assumes "inv L" "timeEventHead L = xs @ ts" "length ts \<le> fuel" "\<forall>te \<in> set ts. te_id te \<le> maxId"
  shows "time_loop fuel P maxId (last_addr xs) (head_addr ts) n L = visit_timers P xs ts n L"
  using assms
proof (induction ts arbitrary: xs fuel n L)
  case Nil
  then show ?case by (simp add: head_addr_def)
next
  case (Cons te ts)
  obtain f where f: "fuel = Suc f" "length ts \<le> f" using Cons.prems(3) by (cases fuel) auto
  have d: "distinct (addrs (xs @ te # ts))" using linked [OF Cons.prems(1)] Cons.prems(2) by simp
  then have at: "from_addr (te_addr te) (timeEventHead L) = te # ts"
    unfolding Cons.prems(2) by (intro from_addr_at) auto
  have le: "\<not> maxId < te_id te" using Cons.prems(4) by auto
  have in_list: "te \<in> set (timeEventHead L)" using Cons.prems(2) by simp
  show ?case
  proof (cases "te_id te = AE_DELETED_EVENT_ID")
    case True
    have u: "unlink (last_addr xs) (te_addr te) (timeEventHead L) = xs @ ts"
      unfolding Cons.prems(2) by (rule unlink_at [OF d])
    have "time_loop f P maxId (last_addr xs) (head_addr ts) n L2 = visit_timers P xs ts n L2"
      if "finalize_timer P te (L\<lparr> timeEventHead := xs @ ts \<rparr>) = Ok L2" for L2
      using Cons.IH finalized [OF Cons.prems(1,2) that] f(2) Cons.prems(4) by simp
    then have "and_then (finalize_timer P te (L\<lparr> timeEventHead := xs @ ts \<rparr>)) (\<lambda>L2. time_loop f P maxId (last_addr xs) (head_addr ts) n L2)
        = and_then (finalize_timer P te (L\<lparr> timeEventHead := xs @ ts \<rparr>)) (visit_timers P xs ts n)"
      by (cases "finalize_timer P te (L\<lparr> timeEventHead := xs @ ts \<rparr>)") auto
    then show ?thesis using True at u f(1) by (simp add: head_addr_def finalize_timer_def Let_def)
  next
    case False
    obtain now L1 where g: "aeGetTime L = (now, L1)" by (cases "aeGetTime L") auto
    have L1: "inv L1" "timeEventHead L1 = xs @ te # ts" using read_clock [OF Cons.prems(1) g] Cons.prems(2) by simp_all
    show ?thesis
    proof (cases "timer_due te now")
      case True
      have "and_then (fire_timer P te L1) (\<lambda>L2. time_loop f P maxId (Some (te_addr te)) (next_of (te_addr te) (timeEventHead L2)) (n + 1) L2)
          = and_then (call_time P (timeProc te) L1 (te_id te) (te_data te)) (\<lambda>(L2, retval).
              let (te', L3) = reschedule te L2 retval
              in visit_timers P (xs @ [te']) ts (n + 1) (L3\<lparr> timeEventHead := xs @ te' # ts \<rparr>))"
      proof (cases "call_time P (timeProc te) L1 (te_id te) (te_data te)")
        case (Ok r)
        obtain L2 retval where r: "r = (L2, retval)" by (cases r)
        have L2: "inv L2" "timeEventHead L2 = xs @ te # ts"
          using called [OF L1(1) _ False, of L2 retval] L1(2) Ok r by auto
        obtain te' L3 where w: "reschedule te L2 retval = (te', L3)" by (cases "reschedule te L2 retval")
        note R = reschedule_inv [OF L2 w]
        have "fire_timer P te L1 = Ok (L3\<lparr> timeEventHead := xs @ te' # ts \<rparr>)"
          using fire_reschedule [OF L1 _ w L2(2)] Ok r by simp
        moreover have "time_loop f P maxId (last_addr (xs @ [te'])) (head_addr ts) (n + 1) (L3\<lparr> timeEventHead := xs @ te' # ts \<rparr>)
            = visit_timers P (xs @ [te']) ts (n + 1) (L3\<lparr> timeEventHead := xs @ te' # ts \<rparr>)"
          by (rule Cons.IH [OF R(2)]) (use f(2) Cons.prems(4) in simp_all)
        moreover have "next_of (te_addr te) (xs @ te' # ts) = head_addr ts"
          using d next_of_at [of te' xs ts] R(1) by auto
        ultimately show ?thesis using Ok r w R(1) by simp
      qed (simp_all add: fire_timer_def)
      then show ?thesis using False True g at le f(1) by (simp add: head_addr_def split_beta Let_def)
    next
      case due: False
      have "time_loop f P maxId (last_addr (xs @ [te])) (head_addr ts) n L1 = visit_timers P (xs @ [te]) ts n L1"
        using Cons.IH [of L1 "xs @ [te]" f n] L1 f(2) Cons.prems(4) by simp
      then show ?thesis using False due g at le f(1) by (simp add: head_addr_def)
    qed
  qed
qed

lemma made_due:
  assumes "inv L" "timeEventHead L = xs @ ts"
  shows "inv (L\<lparr> timeEventHead := xs @ map (\<lambda>t. t\<lparr> when_sec := 0 \<rparr>) ts \<rparr>)"
  using assms
proof (induction ts arbitrary: L xs)
  case Nil
  then show ?case by (metis aeEventLoop.surjective aeEventLoop.update_convs(7) append_Nil2 list.map(1))
next
  case (Cons te ts)
  let ?te = "te\<lparr> when_sec := 0 \<rparr>"
  have "te\<lparr> te_id := te_id te, when_sec := 0, when_ms := when_ms te \<rparr> = ?te" by simp
  then have "inv (L\<lparr> timeEventHead := xs @ ?te # ts \<rparr>)"
    using rescheduled [OF Cons.prems, where j = "te_id te" and s = 0 and m = "when_ms te"] by simp
  from Cons.IH [OF this, of "xs @ [?te]"] show ?case by simp
qed

lemma process_visits:
  assumes "inv L"
  shows "processTimeEvents P L = process_timers P L"
proof -
  obtain now L1 where t: "time_now L = (now, L1)" by (cases "time_now L") auto
  have L1: "inv L1" "timeEventHead L1 = timeEventHead L" "lastTime L1 = lastTime L"
    using t clock_read [OF assms] by (auto simp: time_now_def)
  let ?ts = "if now < lastTime L then map (\<lambda>t. t\<lparr> when_sec := 0 \<rparr>) (timeEventHead L) else timeEventHead L"
  let ?L = "L1\<lparr> timeEventHead := ?ts, lastTime := now \<rparr>"
  have "inv (L1\<lparr> timeEventHead := ?ts \<rparr>)"
    using made_due [OF L1(1), of "[]"] L1(1) unfolding L1(2) [symmetric] by simp
  then have i: "inv ?L" using last_time by fastforce
  have "\<forall>te \<in> set ?ts. te_id te \<le> timeEventNextId ?L - 1" using old_ids [OF i] by fastforce
  then have v: "time_loop (length ?ts) P (timeEventNextId ?L - 1) None (head_addr ?ts) 0 ?L = visit_timers P [] ?ts 0 ?L"
    using time_loop_visits [OF i, of "[]" ?ts] by (simp add: last_addr_def)
  have same: "L1\<lparr> timeEventHead := timeEventHead L, lastTime := now \<rparr> = L1\<lparr> lastTime := now \<rparr>"
    unfolding L1(2) [symmetric] by simp
  have "processTimeEvents P L = time_loop (length ?ts) P (timeEventNextId ?L - 1) None (head_addr ?ts) 0 ?L"
  proof (cases "now < lastTime L")
    case True
    then show ?thesis using t L1(2,3) by (simp add: processTimeEvents_def)
  next
    case False
    then have "processTimeEvents P L = time_loop (length (timeEventHead L)) P (timeEventNextId L1 - 1) None
        (head_addr (timeEventHead L)) 0 (L1\<lparr> lastTime := now \<rparr>)"
      using t L1(2,3) by (simp add: processTimeEvents_def)
    then show ?thesis unfolding same [symmetric] using False by simp
  qed
  also have "\<dots> = process_timers P L" unfolding v using t by (simp add: process_timers_def Let_def)
  finally show ?thesis .
qed

text \<open>The visit commits no fault and keeps the invariant.\<close>

lemma visit_safe:
  assumes "inv L" "timeEventHead L = xs @ ts"
  shows "\<not> faults (visit_timers P xs ts n L) \<and> (\<forall>L' k. visit_timers P xs ts n L = Ok (L', k) \<longrightarrow> inv L')"
  using assms
proof (induction ts arbitrary: xs n L)
  case Nil
  then show ?case by simp
next
  case (Cons te ts)
  have in_list: "te \<in> set (timeEventHead L)" using Cons.prems(2) by simp
  show ?case
  proof (cases "te_id te = AE_DELETED_EVENT_ID")
    case True
    then show ?thesis
      using final_safe [OF Cons.prems] finalized [OF Cons.prems] Cons.IH by fastforce
  next
    case False
    obtain now L1 where g: "aeGetTime L = (now, L1)" by (cases "aeGetTime L") auto
    have L1: "inv L1" "timeEventHead L1 = xs @ te # ts" using read_clock [OF Cons.prems(1) g] Cons.prems(2) by simp_all
    show ?thesis
    proof (cases "timer_due te now")
      case due: True
      show ?thesis
      proof (cases "call_time P (timeProc te) L1 (te_id te) (te_data te)")
        case (Ok r)
        obtain L2 retval where r: "r = (L2, retval)" by (cases r)
        have L2: "inv L2" "timeEventHead L2 = xs @ te # ts"
          using called [OF L1(1) _ False, of L2 retval] L1(2) Ok r by auto
        obtain te' L3 where w: "reschedule te L2 retval = (te', L3)" by (cases "reschedule te L2 retval")
        show ?thesis using Cons.IH [OF reschedule_inv(2) [OF L2 w], of "xs @ [te']"] False g due Ok r w by simp
      next
        case (Fault e)
        then show ?thesis using call_safe [OF L1(1) _ False] L1(2) by auto
      qed (use False g due in simp)
    next
      case not_due: False
      then show ?thesis using Cons.IH [OF L1(1), of "xs @ [te]"] L1(2) False g by simp
    qed
  qed
qed

lemma process_safe:
  assumes "inv L"
  shows "\<not> faults (processTimeEvents P L)" "processTimeEvents P L = Ok (L', k) \<Longrightarrow> inv L'"
proof -
  obtain now L1 where t: "time_now L = (now, L1)" by (cases "time_now L") auto
  have L1: "inv L1" "timeEventHead L1 = timeEventHead L"
    using t clock_read [OF assms] by (auto simp: time_now_def)
  let ?ts = "if now < lastTime L then map (\<lambda>t. t\<lparr> when_sec := 0 \<rparr>) (timeEventHead L) else timeEventHead L"
  have "inv (L1\<lparr> timeEventHead := ?ts \<rparr>)"
    using made_due [OF L1(1), of "[]"] L1(1) unfolding L1(2) [symmetric] by simp
  then have i: "inv (L1\<lparr> timeEventHead := ?ts, lastTime := now \<rparr>)" using last_time by fastforce
  then show "\<not> faults (processTimeEvents P L)" "processTimeEvents P L = Ok (L', k) \<Longrightarrow> inv L'"
    unfolding process_visits [OF assms] process_timers_def using visit_safe [OF i, of "[]" ?ts 0] t by (simp_all add: Let_def)
qed

end

end
