(* ===== verification/WrkSafe.thy ===== *)
theory WrkSafe
  imports WrkClient HttpKeeps WrkTimers
begin

text \<open>
  The invariant of a thread of the load generator: the loop's events mirror what epoll watches, every
  function pointer stands beside data of the type it takes, and every connection's parser may be called.
  Every callback, every round of the loop and so every run preserves it and commits no fault.
\<close>

section \<open>The invariant\<close>

text \<open>\<open>clientData\<close> that is a connection of the thread, which its parser's \<open>data\<close> points back to.\<close>

definition conn_data :: "connection list \<Rightarrow> bool \<Rightarrow> wrk_data \<Rightarrow> bool" where
  "conn_data cs inited d \<longleftrightarrow>
     (\<exists>i. d = ConnData i \<and> i < length cs \<and> pdata (c_parser (cs ! i)) = i \<and> (inited \<longrightarrow> c_inited (cs ! i)))"

text \<open>An event carries a connection; once its parser is called or a request sent, it is initialised.\<close>

definition event_typed :: "connection list \<Rightarrow> (wrk_proc, wrk_data) aeFileEvent \<Rightarrow> bool" where
  "event_typed cs fe \<longleftrightarrow>
     rfileProc fe \<in> {None, Some SocketConnected, Some SocketReadable} \<and>
     wfileProc fe \<in> {None, Some SocketConnected, Some SocketWriteable} \<and>
     (\<forall>d. fe_data fe = Some d \<longrightarrow>
        conn_data cs (rfileProc fe = Some SocketReadable \<or> wfileProc fe = Some SocketWriteable) d) \<and>
     (fe_data fe = None \<longrightarrow> rfileProc fe = None \<and> wfileProc fe = None)"

definition timer_typed :: "connection list \<Rightarrow> (wrk_proc, wrk_data) aeTimeEvent \<Rightarrow> bool" where
  "timer_typed cs te \<longleftrightarrow>
     finalizerProc te = None \<and>
     (timeProc te = RecordRate \<and> te_data te = ThreadData \<or>
      timeProc te = DelayRequest \<and> conn_data cs True (te_data te))"

definition conn_ok :: "connection \<Rightarrow> bool" where
  "conn_ok c \<longleftrightarrow>
     0 \<le> c_fd c \<and> resumable (c_parser c) \<and> mem (headers (c_coll c)) = [] \<and> c_written c \<le> length (c_request c)"

definition all_typed :: "wthread \<Rightarrow> bool" where
  "all_typed t \<longleftrightarrow>
     list_all (event_typed (t_cs t)) (events t) \<and> list_all (timer_typed (t_cs t)) (timeEventHead t) \<and>
     list_all conn_ok (t_cs t)"

definition timers_linked :: "wthread \<Rightarrow> bool" where
  "timers_linked t \<longleftrightarrow>
     distinct (map te_addr (timeEventHead t)) \<and> 0 \<le> timeEventNextId t \<and>
     (\<forall>te \<in> set (timeEventHead t). te_addr te < next_addr t \<and> te_id te < timeEventNextId t)"

definition loop_mirrored :: "wthread \<Rightarrow> bool" where
  "loop_mirrored t \<longleftrightarrow>
     setsize t \<le> 2 ^ 31 \<and> beforesleep t = None \<and>
     mirrors (epoll_valid (\<lambda>fd. fd \<in> set (t_open t))) epoll_registered t (epoll_registered (apidata t)) \<and>
     (\<forall>fd. epoll_registered (apidata t) fd \<noteq> 0 \<longrightarrow> fd \<in> set (t_open t))"

definition client_inv :: "wthread \<Rightarrow> bool" where
  "client_inv t \<longleftrightarrow> loop_mirrored t \<and> all_typed t \<and> timers_linked t"

lemmas inv_defs = client_inv_def loop_mirrored_def all_typed_def timers_linked_def

lemma client_inv_simps [simp]:
  "client_inv (t\<lparr> t_ticks := k \<rparr>) = client_inv t"
  "client_inv (t\<lparr> t_errors := e \<rparr>) = client_inv t"
  "client_inv (t\<lparr> t_complete := n \<rparr>) = client_inv t"
  "client_inv (t\<lparr> t_requests := n \<rparr>) = client_inv t"
  "client_inv (t\<lparr> t_bytes := n \<rparr>) = client_inv t"
  "client_inv (t\<lparr> t_start := n \<rparr>) = client_inv t"
  "client_inv (t\<lparr> t_latency := s \<rparr>) = client_inv t"
  "client_inv (t\<lparr> t_rates := s \<rparr>) = client_inv t"
  "client_inv (t\<lparr> t_calls := ls \<rparr>) = client_inv t"
  "client_inv (t\<lparr> stop := b \<rparr>) = client_inv t"
  "client_inv (t\<lparr> reads := r \<rparr>) = client_inv t"
  "client_inv (t\<lparr> lastTime := z \<rparr>) = client_inv t"
  by (simp_all add: inv_defs mirrors_def)

lemma client_inv_ask [simp]: "client_inv (snd (ask f t)) = client_inv t"
  by (simp add: ask_def)

lemma client_inv_errors [simp]: "client_inv (upd_errors f t) = client_inv t"
  by (simp add: upd_errors_def)

section \<open>Changing a connection\<close>

text \<open>A change that keeps a connection in order, does not move \<open>data\<close> away and does not uninitialise the parser.\<close>

definition mild :: "nat \<Rightarrow> (connection \<Rightarrow> connection) \<Rightarrow> connection \<Rightarrow> bool" where
  "mild i f c \<longleftrightarrow> (conn_ok c \<longrightarrow> conn_ok (f c)) \<and> (c_inited c \<longrightarrow> c_inited (f c)) \<and>
     (pdata (c_parser c) = i \<longrightarrow> pdata (c_parser (f c)) = i)"

lemma conn_data_upd:
  assumes "conn_data cs b d" "mild i f (cs ! i)"
  shows "conn_data (cs[i := f (cs ! i)]) b d"
proof -
  obtain j where j: "d = ConnData j" "j < length cs" "pdata (c_parser (cs ! j)) = j" "b \<longrightarrow> c_inited (cs ! j)"
    using assms(1) by (auto simp: conn_data_def)
  then show ?thesis using assms(2)
    by (cases "j = i") (auto simp: conn_data_def mild_def nth_list_update)
qed

lemma event_typed_upd: "event_typed cs fe \<Longrightarrow> mild i f (cs ! i) \<Longrightarrow> event_typed (cs[i := f (cs ! i)]) fe"
  by (auto simp: event_typed_def intro: conn_data_upd)

lemma timer_typed_upd: "timer_typed cs te \<Longrightarrow> mild i f (cs ! i) \<Longrightarrow> timer_typed (cs[i := f (cs ! i)]) te"
  by (auto simp: timer_typed_def intro: conn_data_upd)

lemma client_inv_upd:
  assumes "client_inv t" "mild i f (t_cs t ! i)"
  shows "client_inv (upd_conn i f t)"
proof -
  have "list_all conn_ok ((t_cs t)[i := f (t_cs t ! i)])"
  proof (cases "i < length (t_cs t)")
    case True
    then have "conn_ok (f (t_cs t ! i))" using assms by (simp add: inv_defs mild_def list_all_length)
    then show ?thesis using assms(1) by (auto simp: inv_defs list_all_iff dest!: subsetD [OF set_update_subset_insert])
  next
    case False
    then show ?thesis using assms(1) by (simp add: inv_defs list_update_beyond)
  qed
  then show ?thesis using assms event_typed_upd timer_typed_upd
    by (auto simp: inv_defs upd_conn_def mirrors_def list_all_iff)
qed

lemma upd_conn_simps [simp]:
  "t_cs (upd_conn i f t) = (t_cs t)[i := f (t_cs t ! i)]"
  "t_open (upd_conn i f t) = t_open t" "timeEventHead (upd_conn i f t) = timeEventHead t"
  "next_addr (upd_conn i f t) = next_addr t" "setsize (upd_conn i f t) = setsize t"
  "apidata (upd_conn i f t) = apidata t" "events (upd_conn i f t) = events t"
  "t_env (upd_conn i f t) = t_env t" "timeEventNextId (upd_conn i f t) = timeEventNextId t"
  "clock (upd_conn i f t) = clock t" "reads (upd_conn i f t) = reads t" "stop (upd_conn i f t) = stop t"
  by (simp_all add: upd_conn_def)

lemma ask_simps [simp]:
  "t_cs (snd (ask f t)) = t_cs t" "t_open (snd (ask f t)) = t_open t" "timeEventHead (snd (ask f t)) = timeEventHead t"
  "next_addr (snd (ask f t)) = next_addr t" "setsize (snd (ask f t)) = setsize t"
  "apidata (snd (ask f t)) = apidata t" "events (snd (ask f t)) = events t" "t_env (snd (ask f t)) = t_env t"
  "timeEventNextId (snd (ask f t)) = timeEventNextId t" "clock (snd (ask f t)) = clock t" "reads (snd (ask f t)) = reads t"
  "stop (snd (ask f t)) = stop t"
  by (simp_all add: ask_def)

lemma upd_errors_simps [simp]:
  "t_cs (upd_errors f t) = t_cs t" "t_open (upd_errors f t) = t_open t" "timeEventHead (upd_errors f t) = timeEventHead t"
  "next_addr (upd_errors f t) = next_addr t" "setsize (upd_errors f t) = setsize t"
  "apidata (upd_errors f t) = apidata t" "events (upd_errors f t) = events t" "t_env (upd_errors f t) = t_env t"
  "timeEventNextId (upd_errors f t) = timeEventNextId t" "clock (upd_errors f t) = clock t" "reads (upd_errors f t) = reads t"
  "stop (upd_errors f t) = stop t"
  by (simp_all add: upd_errors_def)


section \<open>Registering and deleting events\<close>

text \<open>What the two operations change of the loop, and the events they may leave in its array.\<close>

lemma create_shape:
  assumes "aeCreateFileEvent api L fd m p d = Ok (L', r)"
  shows "\<exists>st evs mx. L' = L\<lparr> apidata := st, events := evs, maxfd := mx \<rparr> \<and> length evs = length (events L) \<and>
    (\<forall>fe \<in> set evs. fe \<in> set (events L) \<or>
       fe = \<lparr> fe_mask = fe_mask (events L ! nat fd) OR m,
              rfileProc = if has m AE_READABLE then Some p else rfileProc (events L ! nat fd),
              wfileProc = if has m AE_WRITABLE then Some p else wfileProc (events L ! nat fd), fe_data = Some d \<rparr>) \<and>
    (fd < setsize L \<longrightarrow> 0 \<le> fd)"
proof (cases "setsize L \<le> fd")
  case True
  then have "L' = L" using assms by (simp add: aeCreateFileEvent_def)
  then show ?thesis using True by (intro exI [of _ "apidata L"] exI [of _ "events L"] exI [of _ "maxfd L"]) simp
next
  case False
  then obtain st r' where st: "aeApiAddEvent api (apidata L) (fe_mask (events L ! nat fd)) fd m = Ok (st, r')" "0 \<le> fd"
    using assms by (auto simp: aeCreateFileEvent_def Let_def split: if_splits)
  let ?fe = "\<lparr> fe_mask = fe_mask (events L ! nat fd) OR m,
      rfileProc = if has m AE_READABLE then Some p else rfileProc (events L ! nat fd),
      wfileProc = if has m AE_WRITABLE then Some p else wfileProc (events L ! nat fd), fe_data = Some d \<rparr>"
  have sub: "fe \<in> set (events L) \<or> fe = ?fe" if "fe \<in> set ((events L)[nat fd := ?fe])" for fe
    using that set_update_subset_insert [of "events L" "nat fd" ?fe] by blast
  show ?thesis
  proof (cases "r' = -1")
    case True
    then have "L' = L\<lparr> apidata := st \<rparr>"
      using assms False st by (simp add: aeCreateFileEvent_def Let_def)
    then have "L' = L\<lparr> apidata := st, events := events L, maxfd := maxfd L \<rparr>" by simp
    then show ?thesis using st(2) by blast
  next
    case r': False
    then have "L' = L\<lparr> apidata := st, events := (events L)[nat fd := ?fe], maxfd := if maxfd L < fd then fd else maxfd L \<rparr>"
      using assms False st by (simp add: aeCreateFileEvent_def Let_def)
    then show ?thesis using st(2) sub by (metis length_list_update)
  qed
qed

lemma delete_shape:
  assumes "aeDeleteFileEvent api L fd m = Ok L'"
  shows "\<exists>st evs mx. L' = L\<lparr> apidata := st, events := evs, maxfd := mx \<rparr> \<and>
    (\<forall>fe \<in> set evs. \<exists>fe' \<in> set (events L) \<union> {events L ! nat fd}. fe = fe' \<or> fe = fe'\<lparr> fe_mask := fe_mask fe' AND NOT m \<rparr>)"
proof (cases "setsize L \<le> fd \<or> fe_mask (events L ! nat fd) = AE_NONE")
  case True
  then have "L' = L" using assms by (auto simp: aeDeleteFileEvent_def Let_def split: if_splits)
  then show ?thesis by (intro exI [of _ "apidata L"] exI [of _ "events L"] exI [of _ "maxfd L"]) auto
next
  case False
  let ?fe = "events L ! nat fd"
  let ?evs = "(events L)[nat fd := ?fe\<lparr> fe_mask := fe_mask ?fe AND NOT m \<rparr>]"
  obtain st where st: "L' = L\<lparr> apidata := st, events := ?evs,
      maxfd := if fd = maxfd L \<and> fe_mask (?fe\<lparr> fe_mask := fe_mask ?fe AND NOT m \<rparr>) = AE_NONE
               then scan_down (map fe_mask ?evs) (nat (maxfd L)) else maxfd L \<rparr>"
    using assms False by (auto simp: aeDeleteFileEvent_def Let_def split: if_splits)
  have "fe \<in> set (events L) \<or> fe = ?fe\<lparr> fe_mask := fe_mask ?fe AND NOT m \<rparr>" if "fe \<in> set ?evs" for fe
    using that set_update_subset_insert [of "events L" "nat fd" "?fe\<lparr> fe_mask := fe_mask ?fe AND NOT m \<rparr>"] by blast
  then show ?thesis using st by blast
qed


text \<open>The operations do not look at the set of descriptors \<open>wrk_api\<close> starts with.\<close>

lemma wrk_api_events:
  "aeCreateFileEvent wrk_api L fd m p d = aeCreateFileEvent (epoll_api (Some acc)) L fd m p d"
  "aeDeleteFileEvent wrk_api L fd m = aeDeleteFileEvent (epoll_api (Some acc)) L fd m"
  by (simp_all add: aeCreateFileEvent_def aeDeleteFileEvent_def wrk_api_def epoll_api_def Let_def)

definition in_loop :: "wthread \<Rightarrow> wthread \<Rightarrow> bool" where
  "in_loop t t' \<longleftrightarrow> (\<exists>st evs mx. t' = t\<lparr> apidata := st, events := evs, maxfd := mx \<rparr>)"

lemma in_loopD:
  assumes "in_loop t t'"
  shows "t_cs t' = t_cs t" "t_open t' = t_open t" "timeEventHead t' = timeEventHead t" "next_addr t' = next_addr t"
    "setsize t' = setsize t" "fired t' = fired t" "t_env t' = t_env t" "beforesleep t' = beforesleep t"
    "timeEventNextId t' = timeEventNextId t" "clock t' = clock t" "reads t' = reads t" "stop t' = stop t"
  using assms by (auto simp: in_loop_def)

lemma create_fails:
  assumes t: "client_inv t" and fd: "0 \<le> fd" "is_mask m" "m \<noteq> 0"
    and c: "aeCreateFileEvent wrk_api t fd m p d = Ok (t', r)" "r \<noteq> 0"
  shows "client_inv t'" "epoll_registered (apidata t') = epoll_registered (apidata t)"
proof -
  let ?acc = "\<lambda>fd. fd \<in> set (t_open t)" and ?R = "epoll_registered (apidata t)"
  have L: "mirrors (epoll_valid ?acc) epoll_registered t ?R" "setsize t \<le> 2 ^ 31"
    using t by (simp_all add: inv_defs)
  have m: "setsize t' = setsize t" "mirrors (epoll_valid ?acc) epoll_registered t' ?R"
    using epoll.create_event_any [OF L fd, of p d] c unfolding wrk_api_events(1) [of _ _ _ _ _ ?acc] by auto
  show R: "epoll_registered (apidata t') = ?R" using mirrorsD(5) [OF m(2)] .
  have "\<exists>a. t' = t\<lparr> apidata := a \<rparr>"
  proof (cases "setsize t \<le> fd")
    case True
    then show ?thesis using c(1) by (auto simp: aeCreateFileEvent_def intro: exI [of _ "apidata t"])
  next
    case False
    then show ?thesis using c fd(1)
      by (auto simp: aeCreateFileEvent_def AE_OK_def Let_def split: if_splits)
  qed
  then obtain a where a: "t' = t\<lparr> apidata := a \<rparr>" by blast
  then have "events t' = events t" "t_cs t' = t_cs t" "timeEventHead t' = timeEventHead t" "next_addr t' = next_addr t"
    "t_open t' = t_open t" "beforesleep t' = beforesleep t" "timeEventNextId t' = timeEventNextId t"
    by simp_all
  then show "client_inv t'" using t m R by (simp add: inv_defs)
qed

lemma create_keeps:
  assumes t: "client_inv t" and fd: "0 \<le> fd" "is_mask m" "m \<noteq> 0" and i: "conn_data (t_cs t) b (ConnData i)"
    and p: "(m, p, b) \<in> {(3, SocketConnected, False), (1, SocketReadable, True), (2, SocketWriteable, True)}"
  shows "\<exists>t' r. aeCreateFileEvent wrk_api t fd m p (ConnData i) = Ok (t', r) \<and> client_inv t' \<and> in_loop t t' \<and>
    (r = 0 \<or> r = -1 \<and> (\<forall>x. epoll_registered (apidata t') x = epoll_registered (apidata t) x))"
proof -
  let ?acc = "\<lambda>fd. fd \<in> set (t_open t)" and ?R = "epoll_registered (apidata t)"
  have L: "mirrors (epoll_valid ?acc) epoll_registered t ?R" "setsize t \<le> 2 ^ 31" "?R x \<noteq> 0 \<Longrightarrow> x \<in> set (t_open t)" for x
    using t by (simp_all add: inv_defs)
  obtain t' r where c: "aeCreateFileEvent wrk_api t fd m p (ConnData i) = Ok (t', r)" "setsize t' = setsize t"
    "mirrors (epoll_valid ?acc) epoll_registered t' (if r = 0 then ?R(fd := ?R fd OR m) else ?R)"
    "r = 0 \<and> fd < setsize t \<and> (?acc fd \<or> ?R fd \<noteq> 0) \<or> r = -1"
    using epoll.create_event_any [OF L(1,2) fd] unfolding wrk_api_events(1) [of _ _ _ _ _ ?acc] by blast
  let ?fe = "\<lparr> fe_mask = fe_mask (events t ! nat fd) OR m,
      rfileProc = if has m AE_READABLE then Some p else rfileProc (events t ! nat fd),
      wfileProc = if has m AE_WRITABLE then Some p else wfileProc (events t ! nat fd), fe_data = Some (ConnData i) \<rparr>"
  obtain st evs mx where s: "t' = t\<lparr> apidata := st, events := evs, maxfd := mx \<rparr>" "length evs = length (events t)"
    "\<And>fe. fe \<in> set evs \<Longrightarrow> fe \<in> set (events t) \<or> fe = ?fe"
    using create_shape [OF c(1)] by auto
  have sh: "in_loop t t'" using s(1) by (auto simp: in_loop_def)
  have ev: "\<And>fe. fe \<in> set (events t) \<Longrightarrow> event_typed (t_cs t) fe" using t by (simp add: inv_defs list_all_iff)
  show ?thesis
  proof (cases "r = 0")
    case True
    then have "fd < setsize t" "fd \<in> set (t_open t)" using c(4) L(3) by auto
    then have "events t ! nat fd \<in> set (events t)" using mirrorsD(2) [OF L(1)] fd(1) by simp
    then have "event_typed (t_cs t) (events t ! nat fd)" by (rule ev)
    then have "event_typed (t_cs t) ?fe"
      using p i by (auto simp: event_typed_def has_def ae_masks conn_data_def)
    then have "list_all (event_typed (t_cs t)) evs" using s(3) ev by (auto simp: list_all_iff)
    moreover have "epoll_registered (apidata t') = ?R(fd := ?R fd OR m)" using mirrorsD(5) [OF c(3)] True by simp
    ultimately have "client_inv t'"
      using t c(2,3) L(3) \<open>fd \<in> set (t_open t)\<close> True s(1) by (auto simp: inv_defs)
    then show ?thesis using c(1) sh True by blast
  next
    case False
    then show ?thesis using create_fails [OF t fd c(1)] c(1,4) sh by auto
  qed
qed

lemma event_typed_mask: "event_typed cs (fe\<lparr> fe_mask := m \<rparr>) = event_typed cs fe"
  by (simp add: event_typed_def)

lemma delete_keeps:
  assumes t: "client_inv t" and fd: "0 \<le> fd" "is_mask m"
  shows "\<exists>t'. aeDeleteFileEvent wrk_api t fd m = Ok t' \<and> client_inv t' \<and> in_loop t t' \<and>
    epoll_registered (apidata t') = (epoll_registered (apidata t))(fd := epoll_registered (apidata t) fd AND NOT m)"
proof -
  let ?acc = "\<lambda>fd. fd \<in> set (t_open t)" and ?R = "epoll_registered (apidata t)"
  have L: "mirrors (epoll_valid ?acc) epoll_registered t ?R" "setsize t \<le> 2 ^ 31" "?R x \<noteq> 0 \<Longrightarrow> x \<in> set (t_open t)" for x
    using t by (simp_all add: inv_defs)
  obtain t' where c: "aeDeleteFileEvent wrk_api t fd m = Ok t'" "setsize t' = setsize t"
    "mirrors (epoll_valid ?acc) epoll_registered t' (?R(fd := ?R fd AND NOT m))"
    using epoll.delete_event [OF L(1,2) fd] unfolding wrk_api_events(2) [of _ _ _ ?acc] by blast
  have R: "epoll_registered (apidata t') = ?R(fd := ?R fd AND NOT m)" using mirrorsD(5) [OF c(3)] by simp
  show ?thesis
  proof (cases "fd < setsize t")
    case False
    then have "t' = t" using c(1) by (simp add: aeDeleteFileEvent_def)
    then show ?thesis using c(1) t R by (auto simp: in_loop_def intro!: exI [of _ "apidata t"] exI [of _ "events t"] exI [of _ "maxfd t"])
  next
    case True
    then have e: "events t ! nat fd \<in> set (events t)" using mirrorsD(2) [OF L(1)] fd(1) by simp
    obtain st evs mx where s: "t' = t\<lparr> apidata := st, events := evs, maxfd := mx \<rparr>"
      "\<And>fe. fe \<in> set evs \<Longrightarrow> \<exists>fe' \<in> set (events t) \<union> {events t ! nat fd}. fe = fe' \<or> fe = fe'\<lparr> fe_mask := fe_mask fe' AND NOT m \<rparr>"
      using delete_shape [OF c(1)] by blast
    have "event_typed (t_cs t) fe" if "fe \<in> set evs" for fe
    proof -
      have "\<forall>fe' \<in> set (events t). event_typed (t_cs t) fe'" using t by (simp add: inv_defs list_all_iff)
      then show ?thesis using s(2) [OF that] e event_typed_mask by blast
    qed
    then have "list_all (event_typed (t_cs t)) evs" by (simp add: list_all_iff)
    moreover have "(?R(fd := ?R fd AND NOT m)) x \<noteq> 0 \<Longrightarrow> x \<in> set (t_open t)" for x
      using L(3) [of x] by (cases "x = fd"; cases "?R x = 0") simp_all
    ultimately have "client_inv t'" using t c(2,3) R s(1) by (simp add: inv_defs)
    then show ?thesis using c(1) R s(1) by (auto simp: in_loop_def)
  qed
qed


section \<open>Steps of the thread\<close>

text \<open>What a callback may change: the number of connections, the size of the loop and the poll's answer stay.\<close>

definition leads :: "wthread \<Rightarrow> wthread \<Rightarrow> bool" where
  "leads t t' \<longleftrightarrow>
     client_inv t' \<and> length (t_cs t') = length (t_cs t) \<and> fired t' = fired t \<and> setsize t' = setsize t \<and>
     (\<forall>i < length (t_cs t). c_inited (t_cs t ! i) \<longrightarrow> c_inited (t_cs t' ! i)) \<and>
     (\<forall>i < length (t_cs t). pdata (c_parser (t_cs t ! i)) = i \<longrightarrow> pdata (c_parser (t_cs t' ! i)) = i)"

fun yields :: "('b \<Rightarrow> wthread) \<Rightarrow> wthread \<Rightarrow> 'b outcome \<Rightarrow> bool" where
  "yields g t (Ok b) \<longleftrightarrow> leads t (g b)"
| "yields g t Hang \<longleftrightarrow> True"
| "yields g t (Fault e) \<longleftrightarrow> False"

lemma leads_refl: "client_inv t \<Longrightarrow> leads t t"
  by (simp add: leads_def)

lemma leads_trans: "leads t t1 \<Longrightarrow> leads t1 t2 \<Longrightarrow> leads t t2"
  by (simp add: leads_def)

lemma leads_inv: "leads t t' \<Longrightarrow> client_inv t'"
  by (simp add: leads_def)

lemma leads_conn:
  assumes "leads t t'" "conn_data (t_cs t) b (ConnData i)"
  shows "conn_data (t_cs t') b (ConnData i)"
  using assms by (auto simp: leads_def conn_data_def)

lemma yields_then:
  assumes "yields g t m" "\<And>b. m = Ok b \<Longrightarrow> leads t (g b) \<Longrightarrow> yields h (g b) (f b)"
  shows "yields h t (and_then m f)"
proof (cases m)
  case (Ok b)
  then have "leads t (g b)" "yields h (g b) (f b)" using assms by simp_all
  then show ?thesis using Ok by (cases "f b") (auto intro: leads_trans)
qed (use assms in simp_all)

lemma yields_trans: "leads t t1 \<Longrightarrow> yields g t1 m \<Longrightarrow> yields g t m"
  by (cases m) (auto intro: leads_trans)

lemma leads_in_loop: "client_inv t' \<Longrightarrow> in_loop t t' \<Longrightarrow> leads t t'"
  by (auto simp: leads_def in_loopD)

lemma leads_upd:
  assumes "client_inv t" "mild i f (t_cs t ! i)"
  shows "leads t (upd_conn i f t)"
proof -
  have "fired (upd_conn i f t) = fired t" by (simp add: upd_conn_def)
  moreover have "(c_inited (t_cs t ! j) \<longrightarrow> c_inited (t_cs (upd_conn i f t) ! j)) \<and>
      (pdata (c_parser (t_cs t ! j)) = j \<longrightarrow> pdata (c_parser (t_cs (upd_conn i f t) ! j)) = j)"
    if "j < length (t_cs t)" for j
    using assms(2) that by (cases "j = i") (simp_all add: mild_def)
  ultimately show ?thesis using client_inv_upd [OF assms] by (simp add: leads_def)
qed

text \<open>Fields that the invariant does not mention.\<close>

lemma leads_simps [simp]:
  "leads t (snd (ask f t')) = leads t t'"
  "leads t (upd_errors g t') = leads t t'"
  "leads t (t'\<lparr> t_complete := n \<rparr>) = leads t t'"
  "leads t (t'\<lparr> t_requests := n \<rparr>) = leads t t'"
  "leads t (t'\<lparr> t_bytes := n \<rparr>) = leads t t'"
  "leads t (t'\<lparr> t_start := n \<rparr>) = leads t t'"
  "leads t (t'\<lparr> t_latency := s \<rparr>) = leads t t'"
  "leads t (t'\<lparr> t_rates := s \<rparr>) = leads t t'"
  "leads t (t'\<lparr> t_calls := ls \<rparr>) = leads t t'"
  "leads t (t'\<lparr> stop := b \<rparr>) = leads t t'"
  by (simp_all add: leads_def ask_def upd_errors_def)

lemma resumable_pdata [simp]: "resumable (p\<lparr> pdata := i \<rparr>) = resumable p"
  by (simp add: resumable_def hinv_def split: state.split)

lemma pdata_init [simp]: "pdata (http_parser_init p ty) = pdata p"
  by (simp add: http_parser_init_def)

lemma mild_simps [simp]:
  "mild i (\<lambda>c. c\<lparr> c_delayed := b \<rparr>) c"
  "mild i (\<lambda>c. c\<lparr> c_start := n, c_pending := k \<rparr>) c"
  "mild i (\<lambda>c. c\<lparr> c_written := 0 \<rparr>) c"
  "mild i (\<lambda>c. c\<lparr> c_parser := http_parser_init (c_parser c) HTTP_RESPONSE, c_written := 0, c_inited := True \<rparr>) c"
  "0 \<le> fd \<Longrightarrow> mild i (\<lambda>c. c\<lparr> c_parser := (c_parser c)\<lparr> pdata := i \<rparr>, c_fd := fd \<rparr>) c"
  by (simp_all add: mild_def conn_ok_def resumable_init)

lemma mild_request: "c_written c = 0 \<Longrightarrow> mild i (\<lambda>c. c\<lparr> c_request := r \<rparr>) c"
  by (simp add: mild_def conn_ok_def)

lemma mild_written: "c_written c + n \<le> length (c_request c) \<Longrightarrow> mild i (\<lambda>c. c\<lparr> c_written := c_written c + n \<rparr>) c"
  by (simp add: mild_def conn_ok_def)

section \<open>Sockets\<close>

lemma free_fd_fresh: "free_fd fds k \<notin> set fds" "0 \<le> free_fd fds k"
proof -
  let ?xs = "map int [k ..< k + Suc (length fds)]"
  have "card (set ?xs) = Suc (length fds)" by (simp add: card_image del: upt_Suc)
  then have "\<not> set ?xs \<subseteq> set fds" using card_mono [of "set fds" "set ?xs"] card_length [of fds] by auto
  then have "filter (\<lambda>fd. fd \<notin> set fds) ?xs \<noteq> []" by (auto simp: filter_empty_conv)
  then have "free_fd fds k \<in> set (filter (\<lambda>fd. fd \<notin> set fds) ?xs)" unfolding free_fd_def by (rule hd_in_set)
  then show "free_fd fds k \<notin> set fds" "0 \<le> free_fd fds k" by (auto simp del: upt_Suc)
qed

lemma open_simps [simp]:
  "t_cs (open_socket fd t) = t_cs t" "fired (open_socket fd t) = fired t" "setsize (open_socket fd t) = setsize t"
  "epoll_registered (apidata (open_socket fd t)) = epoll_registered (apidata t)"
  "t_open (open_socket fd t) = fd # t_open t" "timeEventHead (open_socket fd t) = timeEventHead t"
  by (simp_all add: open_socket_def epoll_registered_def fun_eq_iff)

lemma open_inv: "client_inv t \<Longrightarrow> client_inv (open_socket fd t)"
  by (auto simp: inv_defs mirrors_def open_socket_def epoll_valid_def epoll_registered_def fun_eq_iff)

lemma close_simps [simp]:
  "t_cs (close_socket fd t) = t_cs t" "fired (close_socket fd t) = fired t" "setsize (close_socket fd t) = setsize t"
  by (simp_all add: close_socket_def)

lemma close_inv:
  assumes "client_inv t" "epoll_registered (apidata t) fd = 0"
  shows "client_inv (close_socket fd t)"
proof -
  let ?a = "\<lparr> ep_interest = (ep_interest (apidata t))(fd := None), ep_accepts = (ep_accepts (apidata t))(fd := False) \<rparr>"
  have R: "epoll_registered ?a = epoll_registered (apidata t)"
    using assms(2) by (auto simp: epoll_registered_def fun_eq_iff)
  have "epoll_valid (\<lambda>x. x \<in> set (filter (\<lambda>f. f \<noteq> fd) (t_open t))) ?a"
    using assms(1) by (auto simp: inv_defs mirrors_def epoll_valid_def fun_eq_iff)
  moreover have "epoll_registered (apidata t) x \<noteq> 0 \<Longrightarrow> x \<in> set (filter (\<lambda>f. f \<noteq> fd) (t_open t))" for x
    using assms by (cases "x = fd") (simp_all add: inv_defs)
  ultimately show ?thesis
    using assms(1) R by (simp add: inv_defs close_socket_def mirrors_def)
qed


text \<open>An event and a change of a connection commute.\<close>

lemma create_upd_conn:
  "aeCreateFileEvent api (upd_conn i f t) fd m p d =
     and_then (aeCreateFileEvent api t fd m p d) (\<lambda>(t', r). Ok (upd_conn i f t', r))"
  by (cases "aeApiAddEvent api (apidata t) (fe_mask (events t ! nat fd)) fd m")
    (auto simp: aeCreateFileEvent_def upd_conn_def Let_def)

lemma registered_open: "client_inv t \<Longrightarrow> fd \<notin> set (t_open t) \<Longrightarrow> epoll_registered (apidata t) fd = 0"
  by (auto simp: inv_defs)

lemma inv_mirrors:
  "client_inv t \<Longrightarrow>
     mirrors (epoll_valid (\<lambda>fd. fd \<in> set (t_open t))) epoll_registered t (epoll_registered (apidata t))"
  by (simp add: inv_defs)

lemma registered_negative: "client_inv t \<Longrightarrow> fd < 0 \<Longrightarrow> epoll_registered (apidata t) fd = 0"
  using mirrorsD(7) [OF inv_mirrors] by blast

lemma fired_simps [simp]:
  "fired (snd (ask g t)) = fired t" "fired (upd_errors f t) = fired t" "fired (upd_conn i h t) = fired t"
  by (simp_all add: ask_def upd_errors_def upd_conn_def)

lemma leads_close: "leads t t' \<Longrightarrow> epoll_registered (apidata t') fd = 0 \<Longrightarrow> leads t (close_socket fd t')"
  by (simp add: leads_def close_inv)

lemma connect_failed_yields:
  "leads t t' \<Longrightarrow> epoll_registered (apidata t') fd = 0 \<Longrightarrow> yields fst t (Ok (connect_failed fd t'))"
  by (simp add: connect_failed_def leads_close)

lemma connect_socket_yields:
  assumes t: "client_inv t" and i: "i < length (t_cs t)"
  shows "yields fst t (connect_socket t i)"
proof (cases "o_socket (t_env t) (t_ticks t)")
  case None
  have "yields fst t (Ok (connect_failed (-1) (snd (ask o_socket t))))"
    using t registered_negative [of t "-1"] by (intro connect_failed_yields) (simp_all add: leads_refl)
  then show ?thesis using None by (simp add: connect_socket_def ask_def)
next
  case (Some k)
  obtain t1 where t1: "t1 = snd (ask o_socket t)" by simp
  obtain fd where fd: "fd = free_fd (t_open t1) k" by simp
  obtain t2 where t2: "t2 = snd (ask o_connect (open_socket fd t1))" by simp
  obtain err where err: "err = fst (ask o_connect (open_socket fd t1))" by simp
  have f: "0 \<le> fd" "fd \<notin> set (t_open t1)" using free_fd_fresh fd by simp_all
  have l2: "client_inv t2" "leads t t2" "epoll_registered (apidata t2) fd = 0" "t_cs t2 = t_cs t"
    using t open_inv registered_open [OF _ f(2)] by (simp_all add: t1 t2 leads_def)
  have eq: "connect_socket t i =
      (if err \<noteq> 0 \<and> err \<noteq> EINPROGRESS then Ok (connect_failed fd t2)
       else and_then (aeCreateFileEvent wrk_api t2 fd 3 SocketConnected (ConnData i)) (\<lambda>(t3, r).
              if r = AE_OK
              then Ok (upd_conn i (\<lambda>c. c\<lparr> c_parser := (c_parser c)\<lparr> pdata := i \<rparr>, c_fd := fd \<rparr>) t3, fd)
              else Ok (connect_failed fd t3)))"
  proof -
    have "ask o_socket t = (Some k, t1)" "ask o_connect (open_socket fd t1) = (err, t2)"
      using Some by (simp_all add: t1 t2 err ask_def)
    then show ?thesis unfolding fd connect_socket_def by (simp add: ae_masks Let_def)
  qed
  show ?thesis
  proof (cases "err \<noteq> 0 \<and> err \<noteq> EINPROGRESS")
    case True
    then show ?thesis unfolding eq using connect_failed_yields [OF l2(2,3)] by simp
  next
    case False
    let ?f = "\<lambda>c. c\<lparr> c_parser := (c_parser c)\<lparr> pdata := i \<rparr>, c_fd := fd \<rparr>"
    have u: "leads t2 (upd_conn i ?f t2)" using leads_upd [OF l2(1)] f(1) by simp
    have "conn_data (t_cs (upd_conn i ?f t2)) False (ConnData i)" using i l2(4) by (simp add: conn_data_def)
    then obtain t4 r where c: "aeCreateFileEvent wrk_api (upd_conn i ?f t2) fd 3 SocketConnected (ConnData i) = Ok (t4, r)"
      "client_inv t4" "in_loop (upd_conn i ?f t2) t4" "r = 0 \<or> r = -1"
      using create_keeps [OF leads_inv [OF u] f(1), of 3 False i SocketConnected] by (auto simp: is_mask_def)
    then obtain t3 where t3: "aeCreateFileEvent wrk_api t2 fd 3 SocketConnected (ConnData i) = Ok (t3, r)" "t4 = upd_conn i ?f t3"
      unfolding create_upd_conn by auto
    show ?thesis
    proof (cases "r = 0")
      case True
      have "leads t t4" using leads_trans [OF l2(2) leads_trans [OF u leads_in_loop [OF c(2,3)]]] .
      then show ?thesis unfolding eq if_not_P [OF False] using True t3 by (simp add: AE_OK_def)
    next
      case r: False
      have k: "client_inv t3" "epoll_registered (apidata t3) = epoll_registered (apidata t2)"
        using create_fails [OF l2(1) f(1) _ _ t3(1) r] by (simp_all add: is_mask_def)
      obtain st evs mx where "t3 = t2\<lparr> apidata := st, events := evs, maxfd := mx \<rparr>" using create_shape [OF t3(1)] by blast
      then have "in_loop t2 t3" by (auto simp: in_loop_def)
      then have "leads t t3" using leads_trans [OF l2(2) leads_in_loop] k(1) by blast
      then have "yields fst t (Ok (connect_failed fd t3))" using connect_failed_yields k(2) l2(3) by simp
      then show ?thesis unfolding eq if_not_P [OF False] using r t3 by (auto simp: AE_OK_def)
    qed
  qed
qed

lemma conn_ok_of: "client_inv t \<Longrightarrow> i < length (t_cs t) \<Longrightarrow> conn_ok (conn_of t i)"
  by (simp add: inv_defs conn_of_def list_all_length)

lemma conn_fd: "client_inv t \<Longrightarrow> i < length (t_cs t) \<Longrightarrow> 0 \<le> c_fd (conn_of t i)"
  using conn_ok_of by (simp add: conn_ok_def)

lemma yields_fst:
  assumes "yields fst t m"
  shows "yields (\<lambda>t. t) t (and_then m (\<lambda>(t1, r). Ok t1))"
  using assms by (cases m) auto

section \<open>The socket layer\<close>

text \<open>
  What the callbacks rely on of the operations in \<open>struct sock\<close>: they touch nothing of the thread, read no more than
  a buffer holds and write no more than they are given.
\<close>

definition only_asks :: "wthread \<Rightarrow> wthread \<Rightarrow> bool" where
  "only_asks t t' \<longleftrightarrow> (\<exists>k. t' = t\<lparr> t_ticks := k \<rparr>)"

locale sock_layer =
  fixes C :: wrk_cfg
  assumes connect_asks: "s_connect (cfg_sock C) t i = (s, t') \<Longrightarrow> only_asks t t'"
    and close_asks: "s_close (cfg_sock C) t i = (s, t') \<Longrightarrow> only_asks t t'"
    and read_asks: "s_read (cfg_sock C) t i = (s, bs, t') \<Longrightarrow> only_asks t t' \<and> length bs \<le> RECVBUF"
    and write_asks: "s_write (cfg_sock C) t i len = (s, n, t') \<Longrightarrow> only_asks t t' \<and> n \<le> len"
    and readable_asks: "s_readable (cfg_sock C) t i = (n, t') \<Longrightarrow> only_asks t t'"

lemma asks_ask: "ask f t = (a, t') \<Longrightarrow> only_asks t t'"
  by (auto simp: ask_def only_asks_def)

lemma only_asks_refl [simp]: "only_asks t t"
  by (auto simp: only_asks_def intro: exI [of _ "t_ticks t"])

text \<open>Plain sockets and TLS keep to it.\<close>

lemmas sock_defs = plain_sock_def tls_sock_def sock_connect_def sock_close_def sock_read_def sock_write_def
  sock_readable_def ssl_connect_def ssl_close_def ssl_read_def ssl_write_def ssl_readable_def

interpretation plain: sock_layer "C\<lparr> cfg_sock := plain_sock \<rparr>" for C
  by unfold_locales
    (auto simp: sock_defs intro: asks_ask split: prod.splits option.splits write_answer.splits)

interpretation tls: sock_layer "C\<lparr> cfg_sock := tls_sock \<rparr>" for C
  by unfold_locales
    (auto simp: sock_defs intro: asks_ask split: prod.splits option.splits ssl_bytes.splits ssl_count.splits)

lemma asks_simps:
  assumes "only_asks t t'"
  shows "t_cs t' = t_cs t" "conn_of t' i = conn_of t i" "leads u t' = leads u t" "apidata t' = apidata t"
    "client_inv t' = client_inv t"
  using assms by (auto simp: only_asks_def conn_of_def leads_def)

context sock_layer
begin

lemma reconnect_socket_yields:
  assumes t: "client_inv t" and i: "i < length (t_cs t)"
  shows "yields fst t (reconnect_socket C t i)"
proof -
  let ?fd = "c_fd (conn_of t i)"
  obtain t1 where d: "aeDeleteFileEvent wrk_api t ?fd 3 = Ok t1" "client_inv t1" "in_loop t t1"
    "epoll_registered (apidata t1) = (epoll_registered (apidata t))(?fd := epoll_registered (apidata t) ?fd AND NOT 3)"
    using delete_keeps [OF t conn_fd [OF t i], of 3] by (auto simp: is_mask_def)
  have "is_mask (epoll_registered (apidata t) ?fd)" using mirrorsD(6) [OF inv_mirrors [OF t]] .
  then have z: "epoll_registered (apidata t1) ?fd = 0" unfolding d(4) by (auto simp: is_mask_def)
  obtain s t2 where c: "s_close (cfg_sock C) t1 i = (s, t2)" by (cases "s_close (cfg_sock C) t1 i")
  note a = asks_simps [OF close_asks [OF c]]
  have "conn_of t1 i = conn_of t i" using in_loopD(1) [OF d(3)] by (simp add: conn_of_def)
  then have eq: "reconnect_socket C t i = connect_socket (close_socket ?fd t2) i"
    using d(1) c a(2) by (simp add: reconnect_socket_def ae_masks)
  have "leads t t2" using leads_in_loop [OF d(2,3)] a(3) by simp
  then have l: "leads t (close_socket ?fd t2)" using leads_close z a(4) by simp
  then have "yields fst (close_socket ?fd t2) (connect_socket (close_socket ?fd t2) i)"
    using connect_socket_yields [OF leads_inv [OF l]] i in_loopD(1) [OF d(3)] a(1) by simp
  then show ?thesis unfolding eq by (rule yields_trans [OF l])
qed

lemma fail_socket_yields:
  assumes "client_inv t" "i < length (t_cs t)"
  shows "yields (\<lambda>t. t) t (fail_socket C f t i)"
proof -
  have "leads t (upd_errors f t)" using assms by (simp add: leads_refl)
  then show ?thesis unfolding fail_socket_def using assms
    by (intro yields_fst, intro yields_trans [OF _ reconnect_socket_yields]) simp_all
qed

end

end
