(* ===== verification/WrkRun.thy ===== *)
theory WrkRun
  imports WrkSafe
begin

text \<open>
  Every callback of a thread of the load generator keeps its invariant and commits no fault, and with them every
  round of the event loop: the parser's callback at the end of a response, which may close and reopen the
  connection while its parser is running; the callbacks of file events; and the loop over the timers.
\<close>

section \<open>Small steps\<close>

lemma conn_dataD: "conn_data cs b (ConnData i) \<Longrightarrow> i < length cs"
  by (simp add: conn_data_def)

lemma mild_coll [simp]: "mem (headers k) = [] \<Longrightarrow> mild i (\<lambda>c. c\<lparr> c_coll := k, c_pending := c_pending c - 1 \<rparr>) c"
  by (simp add: mild_def conn_ok_def)

lemma conn_coll: "client_inv t \<Longrightarrow> i < length (t_cs t) \<Longrightarrow> mem (headers (c_coll (conn_of t i))) = []"
  by (simp add: inv_defs conn_of_def list_all_length conn_ok_def)

lemma leads_then_upd: "leads t t' \<Longrightarrow> mild i f (t_cs t' ! i) \<Longrightarrow> leads t (upd_conn i f t')"
  using leads_trans leads_upd leads_inv by blast

text \<open>Asking to be called when the connection is writable, as three callbacks do.\<close>

lemma writeable_yields:
  assumes t: "client_inv t" and i: "conn_data (t_cs t) True (ConnData i)" and fd: "0 \<le> fd"
  shows "yields (\<lambda>t. t) t (and_then (aeCreateFileEvent wrk_api t fd AE_WRITABLE SocketWriteable (ConnData i)) (\<lambda>(t1, r). Ok t1))"
proof -
  obtain t' r where c: "aeCreateFileEvent wrk_api t fd 2 SocketWriteable (ConnData i) = Ok (t', r)" "client_inv t'" "in_loop t t'"
    using create_keeps [OF t fd _ _ i, of 2 SocketWriteable] by (auto simp: is_mask_def)
  then show ?thesis using leads_in_loop by (simp add: ae_masks)
qed

lemma leads_ask: "client_inv t \<Longrightarrow> ask f t = (a, t1) \<Longrightarrow> leads t t1"
  using leads_simps(1) [of t f t] by (simp add: leads_refl)

lemma inited_conn: "conn_data (t_cs t) b (ConnData i) \<Longrightarrow> c_inited (t_cs t ! i) \<Longrightarrow> conn_data (t_cs t) True (ConnData i)"
  by (simp add: conn_data_def)

lemma start_request_leads:
  assumes "client_inv t" "c_written (t_cs t ! i) = 0"
  shows "leads t (start_request C t i)"
proof -
  obtain t1 where t1: "t1 = (if cfg_dynamic C then let (r, t1) = ask o_request t in upd_conn i (\<lambda>c. c\<lparr> c_request := r \<rparr>) t1 else t)"
    by blast
  have l1: "leads t t1"
  proof (cases "cfg_dynamic C")
    case True
    obtain r u where r: "ask o_request t = (r, u)" by (cases "ask o_request t")
    have "leads t (upd_conn i (\<lambda>c. c\<lparr> c_request := r \<rparr>) u)" 
      by (rule leads_then_upd [OF leads_ask [OF assms(1) r]]) (use assms(2) asks_simps(1) [OF asks_ask [OF r]] in \<open>simp add: mild_request\<close>)
    then show ?thesis using True r by (simp add: t1)
  qed (simp add: t1 leads_refl [OF assms(1)])
  obtain now t2 where t2: "ask o_time t1 = (now, t2)" by (cases "ask o_time t1")
  have "leads t t2" by (rule leads_trans [OF l1 leads_ask [OF leads_inv [OF l1] t2]])
  then have "leads t (upd_conn i (\<lambda>c. c\<lparr> c_start := now, c_pending := cfg_pipeline C \<rparr>) t2)" by (rule leads_then_upd) simp
  then show ?thesis unfolding start_request_def t1 [symmetric] using t2 by (simp add: Let_def)
qed

lemma delete_yields:
  assumes "client_inv t" "0 \<le> fd"
  shows "yields (\<lambda>t. t) t (aeDeleteFileEvent wrk_api t fd AE_WRITABLE)"
  using delete_keeps [OF assms, of 2] leads_in_loop by (auto simp: ae_masks is_mask_def)

lemma timer_leads:
  assumes "client_inv t"
    and "p = RecordRate \<and> d = ThreadData \<or> p = DelayRequest \<and> conn_data (t_cs t) True d"
  shows "leads t (fst (aeCreateTimeEvent t ms p d None))"
proof -
  obtain now L1 where g: "aeAddMillisecondsToNow (t\<lparr> timeEventNextId := timeEventNextId t + 1, next_addr := next_addr t + 1 \<rparr>) ms
      = (now, L1)" by (rule prod.exhaust)
  let ?te = "\<lparr> te_addr = next_addr t, te_id = timeEventNextId t, when_sec = fst now, when_ms = snd now, timeProc = p,
      finalizerProc = None, te_data = d \<rparr>"
  have L1: "L1 = t\<lparr> timeEventNextId := timeEventNextId t + 1, next_addr := next_addr t + 1, reads := reads t + 1 \<rparr>"
    using g by (auto simp: aeAddMillisecondsToNow_def aeGetTime_def Let_def)
  have eq: "fst (aeCreateTimeEvent t ms p d None) = L1\<lparr> timeEventHead := ?te # timeEventHead L1 \<rparr>"
    using g by (simp add: aeCreateTimeEvent_def Let_def split_beta)
  have "timer_typed (t_cs t) ?te" using assms(2) by (auto simp: timer_typed_def)
  moreover have "te_addr te < next_addr t + 1 \<and> te_id te < timeEventNextId t + 1"
    if "te \<in> set (?te # timeEventHead t)" for te
    using that assms(1) by (fastforce simp: inv_defs)
  moreover have "distinct (addrs (?te # timeEventHead t))" using assms(1) by (fastforce simp: inv_defs)
  ultimately have "client_inv (L1\<lparr> timeEventHead := ?te # timeEventHead L1 \<rparr>)"
    using assms(1) unfolding L1 by (simp add: inv_defs mirrors_def)
  then show ?thesis unfolding eq L1 by (simp add: leads_def)
qed

text \<open>The callbacks' state while the parser of connection \<open>i\<close> runs, from the thread \<open>t\<close>.\<close>

definition parsing :: "nat \<Rightarrow> wthread \<Rightarrow> nat \<Rightarrow> wthread outcome \<Rightarrow> bool" where
  "parsing i t d u \<longleftrightarrow> d = i \<and> yields (\<lambda>t. t) t u"

lemma mild_parser: "resumable q \<Longrightarrow> pdata q = i \<Longrightarrow> mild i (\<lambda>c. c\<lparr> c_parser := q \<rparr>) c"
  by (simp add: mild_def conn_ok_def)

section \<open>Callbacks that use the socket layer\<close>

context sock_layer
begin

lemma complete_response_yields:
  assumes t: "client_inv t" and i: "conn_data (t_cs t) True (ConnData i)"
  shows "yields (\<lambda>t. t) t (complete_response C p i t)"
proof -
  obtain now t1 where a: "ask o_time t = (now, t1)" by (cases "ask o_time t") auto
  let ?t2 = "t1\<lparr> t_complete := t_complete t1 + 1, t_requests := t_requests t1 + 1 \<rparr>"
  let ?t3 = "if 399 < uint (status_code p) then upd_errors (\<lambda>e. e\<lparr> e_status := e_status e + 1 \<rparr>) ?t2 else ?t2"
  obtain t3 where t3: "t3 = ?t3" by blast
  have "leads t t1" using leads_simps(1) [of t o_time t] a leads_refl [OF t] by simp
  then have l3: "leads t t3" unfolding t3 by simp
  have i3: "conn_data (t_cs t3) True (ConnData i)" by (rule leads_conn [OF l3 i])
  have k: "mem (headers (c_coll (conn_of t3 i))) = []" using conn_coll [OF leads_inv [OF l3]] conn_dataD [OF i3] by blast
  let ?t4 = "upd_conn i (\<lambda>c. c\<lparr> c_coll := c_coll (conn_of t3 i), c_pending := c_pending c - 1 \<rparr>) (t3\<lparr> t_calls := t_calls t3 @ [] \<rparr>)"
  obtain t4 where t4: "t4 = ?t4" by blast
  have "leads t (t3\<lparr> t_calls := t_calls t3 @ [] \<rparr>)" using l3 by simp
  then have l4: "leads t t4" unfolding t4 by (rule leads_then_upd) (simp add: k)
  let ?lat = "stats_record (t_latency t4) (now - c_start (conn_of t4 i))"
  let ?t5 = "t4\<lparr> t_latency := fst ?lat \<rparr>"
  let ?t6 = "if snd ?lat = 0 then upd_errors (\<lambda>e. e\<lparr> e_timeout := e_timeout e + 1 \<rparr>) ?t5 else ?t5"
  let ?t7 = "upd_conn i (\<lambda>c. c\<lparr> c_delayed := cfg_delay C \<rparr>) ?t6"
  obtain t7 where t7: "t7 = ?t7" by blast
  have "leads t ?t6" using l4 by simp
  then have l7: "leads t t7" unfolding t7 by (rule leads_then_upd) simp
  let ?w = "and_then (aeCreateFileEvent wrk_api t7 (c_fd (conn_of t7 i)) AE_WRITABLE SocketWriteable (ConnData i)) (\<lambda>(t8, r'). Ok t8)"
  let ?m = "if c_pending (conn_of t4 i) = 0 then ?w else Ok t4"
  have i7: "conn_data (t_cs t7) True (ConnData i)" by (rule leads_conn [OF l7 i])
  have "yields (\<lambda>t. t) t7 ?w"
    using writeable_yields [OF leads_inv [OF l7] i7] conn_fd [OF leads_inv [OF l7] conn_dataD [OF i7]] by blast
  then have "yields (\<lambda>t. t) t ?w" by (rule yields_trans [OF l7])
  then have m: "yields (\<lambda>t. t) t ?m" using l4 by simp
  have eq: "complete_response C p i t =
      and_then ?m (\<lambda>t9. if \<not> http_should_keep_alive p then and_then (reconnect_socket C t9 i) (\<lambda>(t10, fd). Ok t10) else Ok t9)"
    using k unfolding complete_response_def a t7 t4 t3 by (simp add: hand_over_def Let_def split_beta)
  show ?thesis unfolding eq
  proof (rule yields_then [OF m])
    fix t9 assume l: "leads t t9"
    show "yields (\<lambda>t. t) t9
        (if \<not> http_should_keep_alive p then and_then (reconnect_socket C t9 i) (\<lambda>(t10, fd). Ok t10) else Ok t9)"
      using yields_fst [OF reconnect_socket_yields [OF leads_inv [OF l] conn_dataD [OF leads_conn [OF l i]]]]
        leads_refl [OF leads_inv [OF l]] by simp
  qed
qed

lemma keeping_settings:
  assumes "conn_data (t_cs t) True (ConnData i)" "\<not> cfg_want_response C"
  shows "keeping (parsing i t) (parser_settings C)"
proof -
  have "yields (\<lambda>t. t) t (and_then u (complete_response C p i))" if "yields (\<lambda>t. t) t u" for u p
    by (rule yields_then [OF that]) (use assms(1) complete_response_yields leads_inv leads_conn in blast)
  then have "keeps (parsing i t) (response_complete C)"
    by (auto simp: keeps_def parsing_def response_complete_def)
  then show ?thesis using assms(2) by (simp add: keeping_def parser_settings_def http_parser_settings_init_def)
qed

lemma tame_settings: "\<not> cfg_want_response C \<Longrightarrow> tame (parser_settings C)"
  by (auto simp: tame_def parser_settings_def http_parser_settings_init_def tame_end_cb_def response_complete_def)

lemma run_parser_yields:
  assumes t: "client_inv t" and i: "conn_data (t_cs t) True (ConnData i)" and C: "\<not> cfg_want_response C"
    and s: "length s < 2 ^ 64"
  shows "yields fst t (run_parser C t i s)"
proof -
  have c: "i < length (t_cs t)" "c_inited (conn_of t i)" "pdata (c_parser (conn_of t i)) = i"
    using i by (simp_all add: conn_data_def conn_of_def)
  have "resumable (c_parser (conn_of t i))"
    using t c(1) by (simp add: inv_defs conn_of_def list_all_length conn_ok_def)
  from execute_ok [OF this tame_settings [OF C] s, of "Ok t"]
  obtain x v where x: "http_parser_execute (parser_settings C) (c_parser (conn_of t i)) s (Ok t) = Ret x v"
    "resumable (par x)" by blast
  have "parsing i t (pdata (c_parser (conn_of t i))) (Ok t)" using c(3) leads_refl [OF t] by (simp add: parsing_def)
  from execute_keeps [OF this keeping_settings [OF i C], of s]
  have k: "pdata (par x) = i" "yields (\<lambda>t. t) t (usr x)" using x(1) by (simp_all add: inside_def parsing_def)
  have "run_parser C t i s = and_then (usr x) (\<lambda>t1. Ok (upd_conn i (\<lambda>c. c\<lparr> c_parser := par x \<rparr>) t1, v))"
    using c(2) x(1) by (simp add: run_parser_def)
  moreover have "yields fst t (and_then (usr x) (\<lambda>t1. Ok (upd_conn i (\<lambda>c. c\<lparr> c_parser := par x \<rparr>) t1, v)))"
    by (rule yields_then [OF k(2)]) (simp add: leads_upd [OF leads_inv mild_parser [OF x(2) k(1)]])
  ultimately show ?thesis by simp
qed

text \<open>The connection is there: the parser is initialised and both events are wanted.\<close>

lemma connected_yields:
  assumes t: "client_inv t" and i: "conn_data (t_cs t) b (ConnData i)" and fd: "0 \<le> fd"
  shows "yields (\<lambda>t. t) t
    (let t2 = upd_conn i (\<lambda>c. c\<lparr> c_parser := http_parser_init (c_parser c) HTTP_RESPONSE, c_written := 0, c_inited := True \<rparr>) t
     in and_then (aeCreateFileEvent wrk_api t2 fd AE_READABLE SocketReadable (ConnData i)) (\<lambda>(t3, r).
        and_then (aeCreateFileEvent wrk_api t3 fd AE_WRITABLE SocketWriteable (ConnData i)) (\<lambda>(t4, r'). Ok t4)))"
proof -
  let ?f = "\<lambda>c. c\<lparr> c_parser := http_parser_init (c_parser c) HTTP_RESPONSE, c_written := 0, c_inited := True \<rparr>"
  obtain t2 where t2: "t2 = upd_conn i ?f t" by blast
  have l2: "leads t t2" unfolding t2 by (rule leads_upd [OF t]) simp
  have "c_inited (t_cs t2 ! i)" using conn_dataD [OF i] by (simp add: t2)
  then have i2: "conn_data (t_cs t2) True (ConnData i)" using inited_conn leads_conn [OF l2 i] by blast
  obtain t3 r where c: "aeCreateFileEvent wrk_api t2 fd 1 SocketReadable (ConnData i) = Ok (t3, r)" "client_inv t3" "in_loop t2 t3"
    using create_keeps [OF leads_inv [OF l2] fd _ _ i2, of 1 SocketReadable] by (auto simp: is_mask_def)
  have l3: "leads t2 t3" by (rule leads_in_loop [OF c(2,3)])
  have "yields (\<lambda>t. t) t (and_then (aeCreateFileEvent wrk_api t3 fd AE_WRITABLE SocketWriteable (ConnData i)) (\<lambda>(t4, r'). Ok t4))"
    by (rule yields_trans [OF leads_trans [OF l2 l3] writeable_yields [OF c(2) leads_conn [OF l3 i2] fd]])
  then show ?thesis using c(1) by (simp add: t2 [symmetric] ae_masks)
qed

lemma socket_connected_yields:
  assumes t: "client_inv t" and i: "conn_data (t_cs t) b (ConnData i)" and fd: "0 \<le> fd"
  shows "yields (\<lambda>t. t) t (socket_connected C t fd i)"
proof -
  obtain s t1 where c: "s_connect (cfg_sock C) t i = (s, t1)" by (cases "s_connect (cfg_sock C) t i")
  note a = asks_simps [OF connect_asks [OF c]]
  have l: "leads t t1" using leads_refl [OF t] a(3) by simp
  have t1: "client_inv t1" "conn_data (t_cs t1) b (ConnData i)" using t i a by simp_all
  show ?thesis
  proof (cases s)
    case OK
    then show ?thesis using c yields_trans [OF l connected_yields [OF t1 fd]] by (simp add: socket_connected_def)
  next
    case ERROR
    then show ?thesis using c yields_trans [OF l fail_socket_yields [OF t1(1) conn_dataD [OF t1(2)]]] by (simp add: socket_connected_def)
  next
    case RETRY
    then show ?thesis using c l by (simp add: socket_connected_def)
  qed
qed

lemma socket_writeable_yields:
  assumes t: "client_inv t" and i: "conn_data (t_cs t) True (ConnData i)" and fd: "0 \<le> fd"
  shows "yields (\<lambda>t. t) t (socket_writeable C t fd i)"
proof (cases "c_delayed (conn_of t i)")
  case True
  obtain ms t1 where a: "ask o_delay t = (ms, t1)" by (cases "ask o_delay t")
  have l: "leads t t1" by (rule leads_ask [OF t a])
  have "yields (\<lambda>t. t) t1 (and_then (aeDeleteFileEvent wrk_api t1 fd AE_WRITABLE) (\<lambda>t2.
      Ok (fst (aeCreateTimeEvent t2 (sint ms) DelayRequest (ConnData i) None))))"
  proof (rule yields_then [OF delete_yields [OF leads_inv [OF l] fd]])
    fix t2 assume l2: "leads t1 t2"
    have "conn_data (t_cs t2) True (ConnData i)" by (rule leads_conn [OF leads_trans [OF l l2] i])
    then show "yields (\<lambda>t. t) t2 (Ok (fst (aeCreateTimeEvent t2 (sint ms) DelayRequest (ConnData i) None)))"
      using timer_leads [OF leads_inv [OF l2], of DelayRequest "ConnData i"] by simp
  qed
  then show ?thesis using True a yields_trans [OF l] by (simp add: socket_writeable_def)
next
  case False
  obtain t1 where t1: "t1 = (if c_written (conn_of t i) = 0 then start_request C t i else t)" by blast
  have l1: "leads t t1" using start_request_leads [OF t] leads_refl [OF t] by (simp add: t1 conn_of_def)
  have le: "c_written (conn_of t1 i) \<le> length (c_request (conn_of t1 i))"
    using conn_ok_of [OF leads_inv [OF l1] conn_dataD [OF leads_conn [OF l1 i]]] by (simp add: conn_ok_def)
  obtain s n t2 where w: "s_write (cfg_sock C) t1 i (length (c_request (conn_of t1 i)) - c_written (conn_of t1 i)) = (s, n, t2)"
    by (rule prod_cases3)
  have q: "only_asks t1 t2" "n \<le> length (c_request (conn_of t1 i)) - c_written (conn_of t1 i)"
    using write_asks [OF w] by simp_all
  note a = asks_simps [OF q(1)]
  have l2: "leads t t2" using l1 a(3) by simp
  have "\<not> length (c_request (conn_of t1 i)) < c_written (conn_of t1 i)" using le by simp
  then have eq: "socket_writeable C t fd i =
     (case s of ERROR \<Rightarrow> fail_socket C (\<lambda>e. e\<lparr> e_write := e_write e + 1 \<rparr>) t2 i | RETRY \<Rightarrow> Ok t2
      | OK \<Rightarrow>
          let t3 = upd_conn i (\<lambda>c. c\<lparr> c_written := c_written c + n \<rparr>) t2
          in if c_written (conn_of t3 i) = length (c_request (conn_of t3 i))
             then aeDeleteFileEvent wrk_api (upd_conn i (\<lambda>c. c\<lparr> c_written := 0 \<rparr>) t3) fd AE_WRITABLE else Ok t3)"
    using False w unfolding socket_writeable_def t1 [symmetric] by (cases s) (simp_all add: t1 [symmetric])
  show ?thesis
  proof (cases s)
    case ERROR
    have "i < length (t_cs t2)" using conn_dataD [OF leads_conn [OF l2 i]] .
    then have "yields (\<lambda>t. t) t (fail_socket C (\<lambda>e. e\<lparr> e_write := e_write e + 1 \<rparr>) t2 i)"
      using yields_trans [OF l2 fail_socket_yields [OF leads_inv [OF l2]]] by blast
    then show ?thesis unfolding eq using ERROR by simp
  next
    case RETRY
    then show ?thesis unfolding eq using l2 by simp
  next
    case OK
    obtain t3 where t3: "t3 = upd_conn i (\<lambda>c. c\<lparr> c_written := c_written c + n \<rparr>) t2" by blast
    have "c_written (t_cs t2 ! i) + n \<le> length (c_request (t_cs t2 ! i))" using q(2) le a(2) by (simp add: conn_of_def)
    then have l3: "leads t t3" unfolding t3 by (intro leads_then_upd [OF l2] mild_written)
    have l4: "leads t (upd_conn i (\<lambda>c. c\<lparr> c_written := 0 \<rparr>) t3)" by (rule leads_then_upd [OF l3]) simp
    have "yields (\<lambda>t. t) t (aeDeleteFileEvent wrk_api (upd_conn i (\<lambda>c. c\<lparr> c_written := 0 \<rparr>) t3) fd AE_WRITABLE)"
      by (rule yields_trans [OF l4 delete_yields [OF leads_inv [OF l4] fd]])
    then show ?thesis unfolding eq using OK l3 by (simp add: Let_def t3 [symmetric])
  qed
qed

lemma read_error_yields:
  assumes "client_inv t" "i < length (t_cs t)"
  shows "yields (\<lambda>t. t) t (read_error C t i)"
  unfolding read_error_def by (rule fail_socket_yields [OF assms])

lemma readable_loop_yields:
  assumes "client_inv t" "conn_data (t_cs t) True (ConnData i)" "\<not> cfg_want_response C"
  shows "yields (\<lambda>t. t) t (readable_loop fuel C t i)"
  using assms(1,2)
proof (induction fuel arbitrary: t)
  case 0
  then show ?case by simp
next
  case (Suc fuel)
  obtain st s t1 where r: "s_read (cfg_sock C) t i = (st, s, t1)" by (rule prod_cases3)
  have q: "only_asks t t1" "length s \<le> RECVBUF" using read_asks [OF r] by simp_all
  have l1: "leads t t1" using leads_refl [OF Suc.prems(1)] asks_simps(3) [OF q(1)] by simp
  have i1: "conn_data (t_cs t1) True (ConnData i)" by (rule leads_conn [OF l1 Suc.prems(2)])
  show ?case
  proof (cases st)
    case ERROR
    then show ?thesis using r yields_trans [OF l1 read_error_yields [OF leads_inv [OF l1] conn_dataD [OF i1]]] by simp
  next
    case RETRY
    then show ?thesis using r l1 by simp
  next
    case OK
    have ln: "length s < 2 ^ 64" using q(2) by (simp add: RECVBUF_def)
    have "yields (\<lambda>t. t) t1 (and_then (run_parser C t1 i s) (\<lambda>(t2, v).
            if v \<noteq> length s then read_error C t2 i
            else if length s = 0 \<and> \<not> http_body_is_final (c_parser (conn_of t2 i)) then read_error C t2 i
            else
              let t3 = t2\<lparr> t_bytes := t_bytes t2 + of_nat (length s) \<rparr>
              in if length s = RECVBUF then
                   let (r, t4) = s_readable (cfg_sock C) t3 i in if 0 < r then readable_loop fuel C t4 i else Ok t4
                 else Ok t3))" (is "yields _ _ (and_then _ ?g)")
    proof (rule yields_then [OF run_parser_yields [OF leads_inv [OF l1] i1 assms(3) ln]])
      fix b :: "wthread \<times> nat" assume lb: "leads t1 (fst b)"
      obtain t2 v where b: "b = (t2, v)" by (cases b)
      have l2: "leads t1 t2" using lb b by simp
      have c2: "client_inv t2" "i < length (t_cs t2)" using leads_inv [OF l2] conn_dataD [OF leads_conn [OF l2 i1]] by simp_all
      obtain t3 where t3: "t3 = t2\<lparr> t_bytes := t_bytes t2 + of_nat (length s) \<rparr>" by blast
      have l3: "leads t2 t3" using leads_refl [OF c2(1)] by (simp add: t3)
      obtain q t4 where q: "s_readable (cfg_sock C) t3 i = (q, t4)" by (cases "s_readable (cfg_sock C) t3 i")
      have l4: "leads t2 t4" using l3 asks_simps(3) [OF readable_asks [OF q]] by simp
      have "conn_data (t_cs t4) True (ConnData i)" by (rule leads_conn [OF leads_trans [OF l2 l4] i1])
      then have "yields (\<lambda>t. t) t2 (readable_loop fuel C t4 i)" using yields_trans [OF l4 Suc.IH [OF leads_inv [OF l4]]] by blast
      then show "yields (\<lambda>t. t) (fst b) (?g b)"
        using read_error_yields [OF c2] l3 l4 by (simp add: b t3 [symmetric] q Let_def)
    qed
    from yields_trans [OF l1 this] show ?thesis using OK r by simp
  qed
qed

end

section \<open>The timers\<close>

lemma delay_request_runs:
  assumes t: "client_inv t" and i: "conn_data (t_cs t) True (ConnData i)"
  shows "\<exists>t'. delay_request t i = Ok (t', AE_NOMORE) \<and> client_inv t' \<and> timeEventHead t' = timeEventHead t"
proof -
  obtain t1 where t1: "t1 = upd_conn i (\<lambda>c. c\<lparr> c_delayed := False \<rparr>) t" by blast
  have l: "leads t t1" unfolding t1 by (rule leads_upd [OF t]) simp
  have i1: "conn_data (t_cs t1) True (ConnData i)" by (rule leads_conn [OF l i])
  obtain t2 r where "aeCreateFileEvent wrk_api t1 (c_fd (conn_of t1 i)) 2 SocketWriteable (ConnData i) = Ok (t2, r)"
    "client_inv t2" "in_loop t1 t2"
    using create_keeps [OF leads_inv [OF l] conn_fd [OF leads_inv [OF l] conn_dataD [OF i1]] _ _ i1, of 2 SocketWriteable]
    by (auto simp: is_mask_def)
  then show ?thesis using in_loopD(3) [of t1 t2] by (simp add: delay_request_def t1 [symmetric] ae_masks) (simp add: t1)
qed

lemma record_rate_runs:
  assumes "client_inv t"
  shows "client_inv (fst (record_rate t)) \<and> timeEventHead (fst (record_rate t)) = timeEventHead t"
  using assms by (auto simp: record_rate_def aeStop_def ask_def Let_def)

lemma timer_runs:
  assumes t: "client_inv t" and te: "te \<in> set (timeEventHead t)"
  shows "\<exists>t' r. call_time (wrk_procs fuel C) (timeProc te) t (te_id te) (te_data te) = Ok (t', r) \<and>
    client_inv t' \<and> timeEventHead t' = timeEventHead t"
proof -
  have "timer_typed (t_cs t) te" using t te by (simp add: inv_defs list_all_iff)
  then consider "timeProc te = RecordRate" | i where "timeProc te = DelayRequest" "te_data te = ConnData i"
    "conn_data (t_cs t) True (ConnData i)"
    by (auto simp: timer_typed_def conn_data_def)
  then show ?thesis
  proof cases
    case 1
    then show ?thesis using record_rate_runs [OF t]
      by (cases "record_rate t") (simp add: wrk_procs_def wrk_call_time_def)
  next
    case 2
    then show ?thesis using delay_request_runs [OF t 2(3)] conn_dataD [OF 2(3)]
      by (auto simp: wrk_procs_def wrk_call_time_def on_conn_def)
  qed
qed

lemma retimed:
  assumes t: "client_inv t" "timeEventHead t = xs @ te # ys" and j: "j = te_id te \<or> j = AE_DELETED_EVENT_ID"
  shows "client_inv (t\<lparr> timeEventHead := xs @ te\<lparr> te_id := j, when_sec := s, when_ms := m \<rparr> # ys \<rparr>)"
proof -
  let ?te = "te\<lparr> te_id := j, when_sec := s, when_ms := m \<rparr>"
  have "timer_typed (t_cs t) te" using t by (simp add: inv_defs)
  then have "timer_typed (t_cs t) ?te" by (simp add: timer_typed_def)
  moreover have "te_id ?te < timeEventNextId t" using t j by (auto simp: inv_defs AE_DELETED_EVENT_ID_def)
  ultimately show ?thesis using t by (auto simp: inv_defs mirrors_def)
qed

lemma timer_dropped:
  assumes "client_inv t" "timeEventHead t = xs @ te # ys"
  shows "client_inv (t\<lparr> timeEventHead := xs @ ys \<rparr>)"
  using assms by (auto simp: inv_defs mirrors_def)

lemma no_finalizer:
  assumes "client_inv t" "timeEventHead t = xs @ te # ys"
  shows "finalize_timer P te (t\<lparr> timeEventHead := xs @ ys \<rparr>) = Ok (t\<lparr> timeEventHead := xs @ ys \<rparr>)"
  using assms by (simp add: inv_defs timer_typed_def finalize_timer_def)

interpretation wrk_timers: steady_timers "wrk_procs fuel C" client_inv for fuel C
proof unfold_locales
  fix t and te :: "(wrk_proc, wrk_data) aeTimeEvent"
  assume t: "client_inv t"
  show "distinct (addrs (timeEventHead t))" using t by (simp add: inv_defs)
  show "client_inv (t\<lparr> reads := k \<rparr>)" for k using t by simp
  show "client_inv (t\<lparr> lastTime := s \<rparr>)" for s using t by simp
  assume te: "te \<in> set (timeEventHead t)"
  show "te_id te < timeEventNextId t" using t te by (simp add: inv_defs)
  show "\<not> faults (call_time (wrk_procs fuel C) (timeProc te) t (te_id te) (te_data te))"
    using timer_runs [OF t te, of fuel C] by auto
  show "client_inv t' \<and> timeEventHead t' = timeEventHead t"
    if "call_time (wrk_procs fuel C) (timeProc te) t (te_id te) (te_data te) = Ok (t', r)" for t' r
    using timer_runs [OF t te, of fuel C] that by auto
next
  fix t :: wthread and te :: "(wrk_proc, wrk_data) aeTimeEvent" and xs ys
  assume t: "client_inv t" "timeEventHead t = xs @ te # ys"
  show "\<not> faults (finalize_timer (wrk_procs fuel C) te (t\<lparr> timeEventHead := xs @ ys \<rparr>))"
    by (simp add: no_finalizer [OF t])
  show "client_inv t' \<and> timeEventHead t' = xs @ ys"
    if "finalize_timer (wrk_procs fuel C) te (t\<lparr> timeEventHead := xs @ ys \<rparr>) = Ok t'" for t'
    using that timer_dropped [OF t] by (auto simp: no_finalizer [OF t])
  show "client_inv (t\<lparr> timeEventHead := xs @ te\<lparr> te_id := j, when_sec := s, when_ms := m \<rparr> # ys \<rparr>)"
    if "j = te_id te \<or> j = AE_DELETED_EVENT_ID" for j s m
    by (rule retimed [OF t that])
qed

section \<open>A round of the loop\<close>

lemma event_of:
  assumes t: "client_inv t" and fd: "0 \<le> fd" "fd < setsize t"
  shows "event_typed (t_cs t) (events t ! nat fd)" "has_procs (events t ! nat fd)"
proof -
  have "nat fd < length (events t)" using mirrorsD(2) [OF inv_mirrors [OF t]] fd by simp
  then show "event_typed (t_cs t) (events t ! nat fd)" using t by (simp add: inv_defs list_all_length)
  show "has_procs (events t ! nat fd)" using mirrorsD(9) [OF inv_mirrors [OF t] fd] .
qed

lemma has_some:
  assumes "has (a AND m) b"
  shows "has a b" "a \<noteq> 0"
proof -
  have "(a AND m) AND b = m AND (a AND b)" by (simp add: ac_simps)
  then show "has a b" using assms by (auto simp: has_def)
  then show "a \<noteq> 0" by (auto simp: has_def)
qed

text \<open>Calling a function of the event of a descriptor.\<close>

context sock_layer
begin

lemma call_event_yields:
  assumes t: "client_inv t" and fd: "0 \<le> fd" "fd < setsize t" and C: "\<not> cfg_want_response C"
    and p: "p = rfileProc (events t ! nat fd) \<or> p = wfileProc (events t ! nat fd)" "p \<noteq> None" "fe_mask (events t ! nat fd) \<noteq> 0"
  shows "yields (\<lambda>t. t) t (call_event (wrk_procs fuel C) p fd m t)"
proof -
  let ?fe = "events t ! nat fd" and ?b = "rfileProc (events t ! nat fd) = Some SocketReadable \<or> wfileProc (events t ! nat fd) = Some SocketWriteable"
  note e = event_of [OF t fd]
  obtain d where d: "fe_data ?fe = Some d" using e(2) p(3) by (auto simp: has_procs_def)
  then have "conn_data (t_cs t) ?b d" using e(1) by (simp add: event_typed_def)
  then obtain i where i: "d = ConnData i" "conn_data (t_cs t) ?b (ConnData i)" by (auto simp: conn_data_def)
  note l = conn_dataD [OF i(2)]
  have eq: "call_event (wrk_procs fuel C) p fd m t = wrk_call_file fuel C q t fd (ConnData i) m" if "p = Some q" for q
    using that d i(1) by (simp add: call_event_def null_call_def wrk_procs_def)
  consider "p = Some SocketConnected" | "p = Some SocketReadable" ?b | "p = Some SocketWriteable" ?b
    using e(1) p(1,2) by (auto simp: event_typed_def)
  then show ?thesis
  proof cases
    case 1
    show ?thesis using socket_connected_yields [OF t i(2) fd(1)] l eq [OF 1] by (simp add: wrk_call_file_def on_conn_def)
  next
    case 2
    have "conn_data (t_cs t) True (ConnData i)" using i(2) 2(2) by (simp add: conn_data_def)
    then show ?thesis using readable_loop_yields [OF t _ C] l eq [OF 2(1)]
      by (simp add: wrk_call_file_def on_conn_def socket_readable_def)
  next
    case 3
    have "conn_data (t_cs t) True (ConnData i)" using i(2) 3(2) by (simp add: conn_data_def)
    then show ?thesis using socket_writeable_yields [OF t _ fd(1)] l eq [OF 3(1)]
      by (simp add: wrk_call_file_def on_conn_def)
  qed
qed

lemma dispatch_fired_yields:
  assumes t: "client_inv t" and fd: "0 \<le> fst (fired t ! j)" "fst (fired t ! j) < setsize t" and C: "\<not> cfg_want_response C"
  shows "yields (\<lambda>t. t) t (dispatch_fired (wrk_procs fuel C) j t)"
proof -
  obtain fd m where f: "fired t ! j = (fd, m)" by (cases "fired t ! j")
  then have fd: "0 \<le> fd" "fd < setsize t" using fd by simp_all
  let ?fe = "events t ! nat fd"
  let ?r = "has (fe_mask ?fe AND m) AE_READABLE"
  have first: "yields (\<lambda>t. t) t (if ?r then call_event (wrk_procs fuel C) (rfileProc ?fe) fd m t else Ok t)"
  proof (cases ?r)
    case True
    then have "rfileProc ?fe \<noteq> None" using has_some [OF True] event_of(2) [OF t fd] by (simp add: has_procs_def)
    then show ?thesis using call_event_yields [OF t fd C] has_some(2) [OF True] True by simp
  qed (simp add: leads_refl [OF t])
  have "yields (\<lambda>t. t) t1 (let fe = events t1 ! nat fd
      in if has (fe_mask fe AND m) AE_WRITABLE \<and> (\<not> ?r \<or> wfileProc fe \<noteq> rfileProc fe)
         then call_event (wrk_procs fuel C) (wfileProc fe) fd m t1 else Ok t1)" if l: "leads t t1" for t1
  proof -
    have fd1: "0 \<le> fd" "fd < setsize t1" using l fd by (simp_all add: leads_def)
    note t1 = leads_inv [OF l]
    show ?thesis
    proof (cases "has (fe_mask (events t1 ! nat fd) AND m) AE_WRITABLE")
      case True
      then have "wfileProc (events t1 ! nat fd) \<noteq> None" using has_some [OF True] event_of(2) [OF t1 fd1] by (simp add: has_procs_def)
      then show ?thesis
        using call_event_yields [OF t1 fd1 C, of "wfileProc (events t1 ! nat fd)"] has_some(2) [OF True] leads_refl [OF t1] by (simp add: Let_def)
    qed (simp add: leads_refl [OF t1])
  qed
  then have "yields (\<lambda>t. t) t (and_then (if ?r then call_event (wrk_procs fuel C) (rfileProc ?fe) fd m t else Ok t) (\<lambda>t1.
      let fe = events t1 ! nat fd
      in if has (fe_mask fe AND m) AE_WRITABLE \<and> (\<not> ?r \<or> wfileProc fe \<noteq> rfileProc fe)
         then call_event (wrk_procs fuel C) (wfileProc fe) fd m t1 else Ok t1))"
    by (rule yields_then [OF first])
  then show ?thesis unfolding dispatch_fired_def f using fd by (simp add: Let_def)
qed

lemma dispatch_all_yields:
  assumes "client_inv t" "\<forall>j \<in> set js. 0 \<le> fst (fired t ! j) \<and> fst (fired t ! j) < setsize t" "\<not> cfg_want_response C"
  shows "yields (\<lambda>t. t) t (dispatch_all (wrk_procs fuel C) js t)"
  using assms(1,2)
proof (induction js arbitrary: t)
  case Nil
  then show ?case by (simp add: leads_refl)
next
  case (Cons j js)
  have rest: "yields (\<lambda>t. t) t1 (dispatch_all (wrk_procs fuel C) js t1)" if "leads t t1" for t1
    using Cons.IH [OF leads_inv [OF that]] Cons.prems(2) that by (simp add: leads_def)
  have "yields (\<lambda>t. t) t (dispatch_fired (wrk_procs fuel C) j t)"
    using dispatch_fired_yields [OF Cons.prems(1) _ _ assms(3)] Cons.prems(2) by simp
  then have "yields (\<lambda>t. t) t (and_then (dispatch_fired (wrk_procs fuel C) j t) (dispatch_all (wrk_procs fuel C) js))"
    by (rule yields_then) (rule rest)
  then show ?case by simp
qed


end

text \<open>
  What the kernel promises: \<open>epoll_wait\<close> reports only descriptors that are in the interest list when it is called.
\<close>

definition reports_watched :: "wthread \<Rightarrow> (int \<Rightarrow> (int \<times> u32) list option) \<Rightarrow> bool" where
  "reports_watched t answers \<longleftrightarrow>
     (\<forall>timeout. pred_option (list_all (\<lambda>e. ep_interest (apidata t) (fst e) \<noteq> None)) (answers timeout))"

lemma watched_range:
  assumes t: "client_inv t" and "ep_interest (apidata t) fd \<noteq> None"
  shows "0 \<le> fd \<and> fd < setsize t"
proof -
  have "epoll_valid (\<lambda>fd. fd \<in> set (t_open t)) (apidata t)" using mirrorsD(4) [OF inv_mirrors [OF t]] .
  then have "epoll_registered (apidata t) fd \<noteq> 0" using epoll_registered_events(2) assms(2) by fastforce
  then show ?thesis using mirrorsD(7) [OF inv_mirrors [OF t], of fd] by fastforce
qed

lemma poll_timeout_inv:
  assumes "client_inv t" "poll_timeout t fl = (tvp, t1)"
  shows "client_inv t1" "apidata t1 = apidata t" "events t1 = events t"
  using assms by (auto simp: poll_timeout_def aeGetTime_def Let_def split: option.splits)

lemma poll_yields:
  assumes t: "client_inv t" and k: "reports_watched t answers"
  shows "\<exists>t' n. ae_poll wrk_api t tvp answers = Ok (t', n) \<and> client_inv t' \<and>
    (\<forall>j < n. 0 \<le> fst (fired t' ! j) \<and> fst (fired t' ! j) < setsize t')"
proof -
  let ?evs = "case answers (epoll_timeout tvp) of None \<Rightarrow> [] | Some evs \<Rightarrow> map epoll_fired (take (length (events t)) evs)"
  let ?t = "t\<lparr> apidata := apidata t, fired := ?evs @ drop (length ?evs) (fired t) \<rparr>"
  have len: "length (events t) = nat (setsize t)" "length (fired t) = nat (setsize t)"
    using mirrorsD(2,3) [OF inv_mirrors [OF t]] by simp_all
  have le: "length ?evs \<le> length (fired t)" unfolding len(2) len(1) [symmetric] by (simp split: option.split)
  have "ae_poll wrk_api t tvp answers = Ok (?t, length ?evs)"
    using len by (cases "answers (epoll_timeout tvp)") (simp_all add: ae_poll_def wrk_api_def epoll_api_def epoll_api_poll_def)
  moreover have "client_inv ?t"
    using t le by (simp add: inv_defs mirrors_def)
  moreover have "0 \<le> fst (fired ?t ! j) \<and> fst (fired ?t ! j) < setsize ?t" if j: "j < length ?evs" for j
  proof -
    obtain evs where e: "answers (epoll_timeout tvp) = Some evs" using j by (auto split: option.splits)
    then have "list_all (\<lambda>e. ep_interest (apidata t) (fst e) \<noteq> None) evs"
      using k unfolding reports_watched_def by (metis option.pred_inject(2))
    moreover have f: "fired ?t ! j = epoll_fired (evs ! j)" "j < length evs" using j e by (simp_all add: nth_append)
    ultimately have "ep_interest (apidata t) (fst (evs ! j)) \<noteq> None" by (simp add: list_all_length)
    from watched_range [OF t this] show ?thesis using f(1) by (simp add: epoll_fired_def)
  qed
  ultimately show ?thesis by blast
qed

context sock_layer
begin

lemma round_safe:
  assumes t: "client_inv t" and k: "reports_watched t answers" and C: "\<not> cfg_want_response C"
  shows "\<not> faults (main_round wrk_api (wrk_procs fuel C) t answers)"
    and "main_round wrk_api (wrk_procs fuel C) t answers = Ok (t', go) \<Longrightarrow> client_inv t'"
proof -
  let ?P = "wrk_procs fuel C"
  obtain tvp t1 where p: "poll_timeout t AE_ALL_EVENTS = (tvp, t1)" by (cases "poll_timeout t AE_ALL_EVENTS")
  note t1 = poll_timeout_inv [OF t p]
  obtain t2 n where q: "ae_poll wrk_api t1 tvp answers = Ok (t2, n)" "client_inv t2"
    "\<forall>j < n. 0 \<le> fst (fired t2 ! j) \<and> fst (fired t2 ! j) < setsize t2"
    using poll_yields [OF t1(1), of answers tvp] k t1(2) by (auto simp: reports_watched_def)
  have d: "yields (\<lambda>t. t) t2 (dispatch_all ?P [0 ..< n] t2)"
    using dispatch_all_yields [OF q(2) _ C, of "[0 ..< n]"] q(3) by simp
  have all: "has AE_ALL_EVENTS AE_TIME_EVENTS" "has AE_ALL_EVENTS AE_FILE_EVENTS" "\<not> has AE_ALL_EVENTS AE_DONT_WAIT"
    by (simp_all add: has_def AE_ALL_EVENTS_def AE_FILE_EVENTS_def AE_TIME_EVENTS_def AE_DONT_WAIT_def)
  have "beforesleep t = None" using t by (simp add: inv_defs)
  then have eq: "main_round wrk_api ?P t answers =
      and_then (dispatch_all ?P [0 ..< n] t2) (\<lambda>t3. and_then (processTimeEvents ?P t3) (\<lambda>(t5, k). Ok (t5, \<not> stop t5)))"
    using all p q(1) by (simp add: main_round_def aeProcessEvents_def and_then_assoc case_prod_unfold)
  show "\<not> faults (main_round wrk_api ?P t answers)"
    "main_round wrk_api ?P t answers = Ok (t', go) \<Longrightarrow> client_inv t'"
    unfolding eq using d wrk_timers.process_safe leads_inv
    by (cases "dispatch_all ?P [0 ..< n] t2"; fastforce)+
qed

end

sublocale sock_layer \<subseteq> wrk_rounds:
  guarded_step "main_round wrk_api (wrk_procs fuel C)" client_inv "\<lambda>t a. reports_watched t a \<and> \<not> cfg_want_response C"
  for fuel
  by unfold_locales (use round_safe in blast)+

section \<open>The start of a thread\<close>

lemma connect_all_yields:
  assumes "client_inv t" "\<forall>i \<in> set is. i < length (t_cs t)"
  shows "yields (\<lambda>t. t) t (connect_all is t)"
  using assms
proof (induction "is" arbitrary: t)
  case Nil
  then show ?case by (simp add: leads_refl)
next
  case (Cons i "is")
  have rest: "yields (\<lambda>t. t) (fst b) (case b of (t1, r) \<Rightarrow> connect_all is t1)" if "leads t (fst b)" for b :: "wthread \<times> int"
    using Cons.IH [OF leads_inv [OF that]] Cons.prems(2) that by (auto simp: leads_def split_beta)
  have "yields fst t (connect_socket t i)" using connect_socket_yields [OF Cons.prems(1)] Cons.prems(2) by simp
  then have "yields (\<lambda>t. t) t (and_then (connect_socket t i) (\<lambda>(t1, r). connect_all is t1))" by (rule yields_then) (rule rest)
  then show ?case by simp
qed

lemma create_returns: "aeCreateFileEvent wrk_api t fd m p d \<noteq> Hang"
  by (simp add: aeCreateFileEvent_def wrk_api_def epoll_api_def epoll_api_add_def Let_def)

lemma connect_socket_returns: "connect_socket t i \<noteq> Hang"
  by (auto simp: connect_socket_def create_returns Let_def split: prod.splits option.splits)

lemma connect_all_returns: "connect_all is t \<noteq> Hang"
  by (induction "is" arbitrary: t) (auto simp: connect_socket_returns)

lemma new_thread_inv:
  assumes L: "aeCreateEventLoop (epoll_api (Some (\<lambda>fd. fd \<in> set fds))) clk sz = Some L" "0 \<le> sz" "sz \<le> 2 ^ 31"
  shows "client_inv ((new_thread L fds lat rates E)\<lparr> t_cs := replicate n (new_connection C request) \<rparr>)"
proof -
  let ?acc = "\<lambda>fd. fd \<in> set fds"
  have m: "mirrors (epoll_valid ?acc) epoll_registered L (\<lambda>_. 0)"
    by (rule mirrors_create [OF L(1,2)]) (rule epoll.create)
  then have R: "epoll_registered (apidata L) = (\<lambda>_. 0)" using mirrorsD(5) by blast
  have f: "setsize L = sz" "events L = replicate (nat sz) no_event" "timeEventHead L = []" "timeEventNextId L = 0"
    "beforesleep L = None"
    using L(1) by (auto simp: aeCreateEventLoop_def)
  have "conn_ok (new_connection C request)"
    by (simp add: conn_ok_def new_connection_def no_buffer_def resumable_def zero_parser_def hinv_def)
  then show ?thesis using m R L(3) f
    by (auto simp: inv_defs new_thread_def aeEventLoop.defs mirrors_def event_typed_def no_event_def list_all_iff)
qed


lemma thread_start_runs:
  assumes L: "aeCreateEventLoop (epoll_api (Some (\<lambda>fd. fd \<in> set fds))) clk sz = Some L" "0 \<le> sz" "sz \<le> 2 ^ 31"
  shows "\<exists>t1. thread_start C n (new_thread L fds lat rates E) = Ok t1 \<and> client_inv t1"
proof -
  let ?T = "new_thread L fds lat rates E"
  obtain request T1 where r: "(if cfg_dynamic C then ([], ?T) else ask o_request ?T) = (request, T1)"
    by (cases "if cfg_dynamic C then ([], ?T) else ask o_request ?T")
  let ?t2 = "T1\<lparr> t_cs := replicate n (new_connection C request) \<rparr>"
  have T1: "T1 = ?T \<or> T1 = ?T\<lparr> t_ticks := t_ticks ?T + 1 \<rparr>" using r by (auto simp: ask_def split: if_splits)
  have "client_inv (?T\<lparr> t_ticks := k, t_cs := cs \<rparr>) = client_inv (?T\<lparr> t_cs := cs \<rparr>)" for k cs
    by (simp add: inv_defs mirrors_def)
  then have "client_inv (?T\<lparr> t_ticks := k, t_cs := replicate n (new_connection C request) \<rparr>)" for k
    using new_thread_inv [OF L, where lat = lat and rates = rates and E = E and n = n and C = C and request = request] by simp
  then have t2: "client_inv ?t2" using T1 new_thread_inv [OF L, where lat = lat and rates = rates and E = E and n = n and C = C and request = request] by auto
  have "yields (\<lambda>t. t) ?t2 (connect_all [0 ..< n] ?t2)" by (rule connect_all_yields [OF t2]) simp
  then obtain t3 where t3: "connect_all [0 ..< n] ?t2 = Ok t3" "leads ?t2 t3"
    using connect_all_returns [of "[0 ..< n]" ?t2] by (cases "connect_all [0 ..< n] ?t2") auto
  obtain t4 tid where t4: "aeCreateTimeEvent t3 RECORD_INTERVAL_MS RecordRate ThreadData None = (t4, tid)"
    by (cases "aeCreateTimeEvent t3 RECORD_INTERVAL_MS RecordRate ThreadData None")
  have l4: "leads t3 t4" using timer_leads [OF leads_inv [OF t3(2)], of RecordRate ThreadData] t4 by (metis fst_conv)
  obtain now t5 where t5: "ask o_time t4 = (now, t5)" by (cases "ask o_time t4")
  have "thread_start C n ?T = Ok (t5\<lparr> t_start := now \<rparr>)"
    using r t3(1) t4 t5 by (simp add: thread_start_def)
  moreover have "client_inv (t5\<lparr> t_start := now \<rparr>)" using leads_inv [OF leads_ask [OF leads_inv [OF l4] t5]] by simp
  ultimately show ?thesis by blast
qed

lemma inputs_ok_mono:
  assumes "inputs_ok ok step s is" "\<And>s i. ok s i \<Longrightarrow> ok' s i"
  shows "inputs_ok ok' step s is"
  using assms(1) by (induction "is" arbitrary: s) (auto simp: assms(2) split: outcome.splits prod.splits bool.splits)

context sock_layer
begin

lemma thread_runs:
  assumes L: "aeCreateEventLoop (epoll_api (Some (\<lambda>fd. fd \<in> set fds))) clk sz = Some L" "0 \<le> sz" "sz \<le> 2 ^ 31"
    and C: "\<not> cfg_want_response C"
    and k: "\<And>t. thread_start C n (new_thread L fds lat rates E) = Ok t \<Longrightarrow>
      inputs_ok reports_watched (main_round wrk_api (wrk_procs fuel C)) (t\<lparr> stop := False \<rparr>) answers"
  shows "\<not> faults (thread_main fuel C n (new_thread L fds lat rates E) answers)"
    and "thread_main fuel C n (new_thread L fds lat rates E) answers = Ok (t', go) \<Longrightarrow> client_inv t'"
proof -
  obtain t1 where t1: "thread_start C n (new_thread L fds lat rates E) = Ok t1" "client_inv t1"
    using thread_start_runs [OF L] by blast
  have i: "client_inv (t1\<lparr> stop := False \<rparr>)" using t1(2) by simp
  have ok: "inputs_ok (\<lambda>t a. reports_watched t a \<and> \<not> cfg_want_response C) (main_round wrk_api (wrk_procs fuel C))
      (t1\<lparr> stop := False \<rparr>) answers"
    by (rule inputs_ok_mono [OF k [OF t1(1)]]) (simp add: C)
  show "\<not> faults (thread_main fuel C n (new_thread L fds lat rates E) answers)"
    using wrk_rounds.run_safe [OF i ok] t1(1) by (simp add: thread_main_def aeMain_def)
  show "client_inv t'" if "thread_main fuel C n (new_thread L fds lat rates E) answers = Ok (t', go)"
    using wrk_rounds.run_inv [OF i ok] that t1(1) by (simp add: thread_main_def aeMain_def)
qed

end

text \<open>Either layer will do.\<close>

lemma sock_layer_of:
  assumes "cfg_sock C \<in> {plain_sock, tls_sock}"
  shows "sock_layer C"
proof -
  have eq: "C\<lparr> cfg_sock := k \<rparr> = C" if "cfg_sock C = k" for k using that by auto
  from assms consider "cfg_sock C = plain_sock" | "cfg_sock C = tls_sock" by auto
  then show ?thesis
  proof cases
    case 1
    show ?thesis using plain.sock_layer_axioms [of C] unfolding eq [OF 1] .
  next
    case 2
    show ?thesis using tls.sock_layer_axioms [of C] unfolding eq [OF 2] .
  qed
qed

section \<open>The theorems\<close>


text \<open>A thread with one connection: the socket 5 connects at once, and the first poll finds it writable.\<close>

definition sample_env :: wrk_env where
  "sample_env =
     \<lparr> o_socket = (\<lambda>_. Some 5), o_connect = (\<lambda>_. 0), o_read = (\<lambda>_. Some ''HTTP/1.1 200 OK''), o_write = (\<lambda>_. Wrote 3),
       o_readable = (\<lambda>_. 0), o_ssl_connect = (\<lambda>_. None), o_ssl_read = (\<lambda>_. SslNoBytes SSL_ERROR_WANT_READ),
       o_ssl_write = (\<lambda>_. SslNoCount SSL_ERROR_WANT_WRITE), o_ssl_pending = (\<lambda>_. 0), o_time = (\<lambda>k. of_nat k * 1000), o_delay = (\<lambda>_. 0), o_request = (\<lambda>_. ''GET /''),
       o_stop = (\<lambda>_. False), o_rate = (\<lambda>n ms. n) \<rparr>"

definition sample_cfg :: wrk_cfg where
  "sample_cfg = \<lparr> cfg_pipeline = 1, cfg_delay = False, cfg_dynamic = False, cfg_want_response = False,
       cfg_sock = plain_sock \<rparr>"

definition sample_stats :: stats where
  "sample_stats = \<lparr> s_count = 0, s_limit = 4, s_min = 18446744073709551615, s_max = 0, s_data = [0, 0, 0, 0] \<rparr>"

definition sample_loop :: "(wrk_proc, wrk_data, epoll) aeEventLoop" where
  "sample_loop = the (aeCreateEventLoop (epoll_api (Some (\<lambda>fd. fd \<in> set [0, 1, 2]))) (\<lambda>k. (int k, 0)) 13)"

lemma sample_loop_created:
  "aeCreateEventLoop (epoll_api (Some (\<lambda>fd. fd \<in> set [0, 1, 2]))) (\<lambda>k. (int k, 0)) 13 = Some sample_loop"
  by (simp add: sample_loop_def aeCreateEventLoop_def epoll_api_def epoll_api_create_def)

lemma sample_watched:
  assumes "thread_start sample_cfg 1 (new_thread sample_loop [0, 1, 2] sample_stats sample_stats sample_env) = Ok t"
  shows "ep_interest (apidata t) 5 = Some 5"
proof -
  have f: "free_fd [0, 1, 2] 5 = 5" by (simp add: free_fd_def)
  show ?thesis using assms
    by (auto simp: f thread_start_def sample_cfg_def sample_env_def ask_def new_thread_def aeEventLoop.defs sample_loop_def
        aeCreateEventLoop_def epoll_api_def epoll_api_create_def connect_socket_def open_socket_def aeCreateFileEvent_def
        wrk_api_def epoll_api_add_def no_event_def epoll_masks AE_OK_def upd_conn_def aeCreateTimeEvent_def
        aeAddMillisecondsToNow_def aeGetTime_def case_prod_unfold Let_def)
qed


definition sample_answers :: "(int \<Rightarrow> (int \<times> u32) list option) list" where
  "sample_answers = [\<lambda>_. Some [(5, 4)]]"

abbreviation sample_thread :: wthread where
  "sample_thread \<equiv> new_thread sample_loop [0, 1, 2] sample_stats sample_stats sample_env"

lemma sample_inputs:
  assumes "thread_start sample_cfg 1 sample_thread = Ok t"
  shows "inputs_ok reports_watched (main_round wrk_api (wrk_procs 1 sample_cfg)) (t\<lparr> stop := False \<rparr>) sample_answers"
  using sample_watched [OF assms]
  by (simp add: sample_answers_def reports_watched_def split: outcome.split prod.split bool.split)




text \<open>C32: The timers.  In every state of a thread, the walk of \<open>processTimeEvents\<close> over the linked list - with its
  cursor, the pointer to the element before, elements unlinked and freed on the way - is one pass over a list
  in order: a deleted timer is dropped, a timer whose time has come is called exactly once and then gets its
  new time or its mark of deletion, all others stay; none is skipped or freed too early.\<close>

theorem timers_one_pass:
  assumes "client_inv t"
  shows "processTimeEvents (wrk_procs fuel C) t = process_timers (wrk_procs fuel C) t"
  by (rule wrk_timers.process_visits [OF assms])

theorem timers_one_pass_witness:
  "\<exists>t. thread_start sample_cfg 1 sample_thread = Ok t
    \<and> processTimeEvents (wrk_procs 1 sample_cfg) t = process_timers (wrk_procs 1 sample_cfg) t"
  using thread_start_runs [OF sample_loop_created, of sample_cfg 1 sample_stats sample_stats sample_env] timers_one_pass
  by fastforce

end
