(* ===== verification/WrkReplies.thy ===== *)
theory WrkReplies
  imports HttpRoundtrip WrkRun
begin

text \<open>
  What a thread of the load generator makes of the responses it reads: each well-formed response is counted once, the
  connection's parser is ready for the next, and no error is noted but the statuses above 399.
\<close>

section \<open>One response\<close>

text \<open>What \<open>response_complete\<close> takes of the parser is its status and whether the connection stays.\<close>

definition reply_parser :: "u16 \<Rightarrow> http_parser" where
  "reply_parser s = (http_parser_init zero_parser HTTP_RESPONSE)\<lparr> http_major := 1, http_minor := 1, status_code := s \<rparr>"

lemma reply_parser_alive: "http_should_keep_alive (reply_parser s)" "status_code (reply_parser s) = s"
  by (simp_all add: reply_parser_def http_parser_init_def http_should_keep_alive_def http_message_needs_eof_def has_flag_def
      ULLONG_MAX_def)

lemma complete_response_status:
  "http_should_keep_alive p = http_should_keep_alive q \<Longrightarrow> status_code p = status_code q \<Longrightarrow>
   complete_response C p i t = complete_response C q i t"
  by (simp add: complete_response_def)

text \<open>The counters of a thread and of one of its connections, \<open>n\<close> responses later, \<open>e\<close> of them with an error status.\<close>

definition counted_up :: "nat \<Rightarrow> nat \<Rightarrow> nat \<Rightarrow> wthread \<Rightarrow> wthread \<Rightarrow> bool" where
  "counted_up i n e t t' \<longleftrightarrow>
     t_complete t' = t_complete t + of_nat n \<and> t_requests t' = t_requests t + of_nat n \<and> t_bytes t' = t_bytes t
     \<and> e_status (t_errors t') = e_status (t_errors t) + of_nat e \<and> e_connect (t_errors t') = e_connect (t_errors t)
     \<and> e_read (t_errors t') = e_read (t_errors t) \<and> e_write (t_errors t') = e_write (t_errors t)
     \<and> c_pending (conn_of t' i) = c_pending (conn_of t i) - of_nat n \<and> c_fd (conn_of t' i) = c_fd (conn_of t i)
     \<and> t_open t' = t_open t"

lemma counted_up_refl: "counted_up i 0 0 t t"
  by (simp add: counted_up_def)

lemma counted_up_trans: "counted_up i n e t t1 \<Longrightarrow> counted_up i m f t1 t2 \<Longrightarrow> counted_up i (n + m) (e + f) t t2"
  by (simp add: counted_up_def add.assoc diff_diff_eq)

lemma create_same:
  assumes "aeCreateFileEvent wrk_api t fd m p d = Ok (t', r)"
  shows "counted_up i 0 0 t t'"
  using assms
  by (auto simp: aeCreateFileEvent_def wrk_api_def epoll_api_def epoll_api_add_def Let_def counted_up_def conn_of_def
      split: if_splits option.splits prod.splits)

lemma writeable_same:
  assumes "and_then (aeCreateFileEvent wrk_api t fd m p d) (\<lambda>(t1, r). Ok t1) = Ok t'"
  shows "counted_up i 0 0 t t'"
  using assms create_same [of t fd m p d] by (cases "aeCreateFileEvent wrk_api t fd m p d") auto

lemma ask_same: "ask f t = (a, t1) \<Longrightarrow> counted_up i 0 0 t t1"
  by (auto simp: ask_def counted_up_def conn_of_def)

lemma reply_counts:
  assumes t: "client_inv t" and i: "i < length (t_cs t)" and k: "http_should_keep_alive p"
  shows "complete_response C p i t \<noteq> Hang"
    and "complete_response C p i t = Ok t' \<Longrightarrow> counted_up i 1 (if 399 < uint (status_code p) then 1 else 0) t t'"
proof -
  obtain now t1 where a: "ask o_time t = (now, t1)" by (cases "ask o_time t")
  have t1: "t1 = t\<lparr> t_ticks := t_ticks t + 1 \<rparr>" using a by (simp add: ask_def)
  let ?t2 = "t1\<lparr> t_complete := t_complete t1 + 1, t_requests := t_requests t1 + 1 \<rparr>"
  let ?t3 = "if 399 < uint (status_code p) then upd_errors (\<lambda>e. e\<lparr> e_status := e_status e + 1 \<rparr>) ?t2 else ?t2"
  obtain t3 where t3: "t3 = ?t3" by blast
  have "t_cs t3 = t_cs t" by (simp add: t3 t1 upd_errors_def)
  then have h: "mem (headers (c_coll (conn_of t3 i))) = []" using conn_coll [OF t i] by (simp add: conn_of_def)
  let ?t4 = "upd_conn i (\<lambda>c. c\<lparr> c_coll := c_coll (conn_of t3 i), c_pending := c_pending c - 1 \<rparr>) (t3\<lparr> t_calls := t_calls t3 @ [] \<rparr>)"
  obtain t4 where t4: "t4 = ?t4" by blast
  let ?lat = "stats_record (t_latency t4) (now - c_start (conn_of t4 i))"
  let ?t5 = "t4\<lparr> t_latency := fst ?lat \<rparr>"
  let ?t6 = "if snd ?lat = 0 then upd_errors (\<lambda>e. e\<lparr> e_timeout := e_timeout e + 1 \<rparr>) ?t5 else ?t5"
  let ?t7 = "upd_conn i (\<lambda>c. c\<lparr> c_delayed := cfg_delay C \<rparr>) ?t6"
  obtain t7 where t7: "t7 = ?t7" by blast
  let ?w = "and_then (aeCreateFileEvent wrk_api t7 (c_fd (conn_of t7 i)) AE_WRITABLE SocketWriteable (ConnData i)) (\<lambda>(t8, r'). Ok t8)"
  let ?m = "if c_pending (conn_of t4 i) = 0 then ?w else Ok t4"
  have "complete_response C p i t =
      and_then ?m (\<lambda>t9. if \<not> http_should_keep_alive p then and_then (reconnect_socket C t9 i) (\<lambda>(t10, fd). Ok t10) else Ok t9)"
    using h unfolding complete_response_def a t7 t4 t3 by (simp add: hand_over_def Let_def split_beta)
  then have eq: "complete_response C p i t = ?m" using k by (cases ?m) simp_all
  have c4: "counted_up i 1 (if 399 < uint (status_code p) then 1 else 0) t t4"
    using i unfolding t4 by (simp add: t3 counted_up_def t1 upd_errors_def conn_of_def upd_conn_def)
  have i4: "i < length (t_cs t4)" using i by (simp add: t4 t3 t1 upd_errors_def upd_conn_def)
  have "counted_up i 0 0 t4 t7"
    using i4 unfolding t7 by (simp add: counted_up_def upd_errors_def conn_of_def upd_conn_def)
  from counted_up_trans [OF c4 this] have c7: "counted_up i 1 (if 399 < uint (status_code p) then 1 else 0) t t7" by simp
  have "and_then (aeCreateFileEvent wrk_api t7 fd m q d) (\<lambda>(t8, r'). Ok t8) \<noteq> Hang" for fd m q d
    using create_returns [of t7 fd m q d] by (cases "aeCreateFileEvent wrk_api t7 fd m q d") auto
  then show "complete_response C p i t \<noteq> Hang" unfolding eq by simp
  assume r: "complete_response C p i t = Ok t'"
  show "counted_up i 1 (if 399 < uint (status_code p) then 1 else 0) t t'"
  proof (cases "c_pending (conn_of t4 i) = 0")
    case True
    then have "counted_up i 0 0 t7 t'" using writeable_same r unfolding eq by simp
    from counted_up_trans [OF c7 this] show ?thesis by simp
  next
    case False
    then show ?thesis using r c4 unfolding eq by simp
  qed
qed

section \<open>Many responses\<close>

text \<open>The thread as an application that hears of the end of each response.\<close>

definition reply_step :: "wrk_cfg \<Rightarrow> nat \<Rightarrow> event \<Rightarrow> wthread outcome \<Rightarrow> wthread outcome" where
  "reply_step C i e u =
     (case e of Answered s \<Rightarrow> and_then u (complete_response C (reply_parser s) i) | _ \<Rightarrow> u)"

definition replies :: "wrk_cfg \<Rightarrow> nat \<Rightarrow> wthread outcome listener" where
  "replies C i =
     \<lparr> hears = (\<lambda>k. k = KDone), takes = reply_step C i,
       fin = (\<lambda>p. if http_should_keep_alive p then http_parser_init p (ptype p) else p), ends = response_complete C \<rparr>"

lemma replies_settings: "\<not> cfg_want_response C \<Longrightarrow> parser_settings C = listening (replies C i)"
  by (simp add: parser_settings_def listening_def replies_def reg_def http_parser_settings_init_def)

lemma replies_end: "good_end (replies C i) HTTP_RESPONSE i"
proof -
  have "complete_response C (reply_parser (status_code p)) i = complete_response C p i" if "http_should_keep_alive p" for p
    using that reply_parser_alive by (intro ext complete_response_status) simp_all
  then show ?thesis
    by (auto simp: good_end_def replies_def response_complete_def done_event_def reply_step_def)
qed

lemma replies_hear:
  "fold (hear (replies C i)) (concat (map response_events rs)) u
    = fold (\<lambda>s u. and_then u (complete_response C (reply_parser s) i)) (map (\<lambda>r. of_nat (rs_status r)) rs) u"
proof (induction rs arbitrary: u)
  case Nil
  then show ?case by simp
next
  case (Cons r rs)
  have quiet: "fold (hear (replies C i)) es v = v" if "\<forall>e \<in> set es. kind_of e \<noteq> KDone" for es v
    using that by (induction es arbitrary: v) (simp_all add: hear_def replies_def)
  have "\<forall>e \<in> set (tail_events hs b). kind_of e \<noteq> KDone" for hs b
    by (auto simp: tail_events_def header_events_def body_events_def)
  then have "fold (hear (replies C i)) (response_events r) u = and_then u (complete_response C (reply_parser (of_nat (rs_status r))) i)"
    by (simp add: response_events_def quiet) (simp add: hear_def replies_def reply_step_def)
  then show ?case using Cons.IH by simp
qed

definition error_statuses :: "response list \<Rightarrow> nat" where
  "error_statuses rs = length (filter (\<lambda>r. 399 < rs_status r) rs)"

lemma replies_run:
  assumes "sock_layer C" "list_all (\<lambda>r. rs_status r \<le> 999) rs" "client_inv t" "conn_data (t_cs t) True (ConnData i)"
  shows "\<exists>t'. fold (\<lambda>s u. and_then u (complete_response C (reply_parser s) i)) (map (\<lambda>r. of_nat (rs_status r)) rs) (Ok t) = Ok t'
    \<and> leads t t' \<and> counted_up i (length rs) (error_statuses rs) t t'"
  using assms(2-4)
proof (induction rs arbitrary: t)
  case Nil
  then show ?case by (simp add: leads_refl counted_up_refl error_statuses_def)
next
  case (Cons r rs)
  let ?p = "reply_parser (of_nat (rs_status r))"
  have y: "yields (\<lambda>t. t) t (complete_response C ?p i t)"
    by (rule sock_layer.complete_response_yields [OF assms(1) Cons.prems(2,3)])
  note c = reply_counts [OF Cons.prems(2) conn_dataD [OF Cons.prems(3)], of ?p C]
  obtain t1 where t1: "complete_response C ?p i t = Ok t1" "leads t t1"
    using y c(1) reply_parser_alive(1) by (cases "complete_response C ?p i t") auto
  have "unat (of_nat (rs_status r) :: u16) = rs_status r"
    using Cons.prems(1) by (simp add: unat_of_nat take_bit_nat_eq_self)
  then have st: "399 < uint (status_code ?p) \<longleftrightarrow> 399 < rs_status r"
    unfolding reply_parser_alive uint_nat by simp
  have c1: "counted_up i 1 (if 399 < rs_status r then 1 else 0) t t1"
    using c(2) [OF reply_parser_alive(1) t1(1)] unfolding st .
  obtain t2 where t2: "fold (\<lambda>s u. and_then u (complete_response C (reply_parser s) i)) (map (\<lambda>r. of_nat (rs_status r)) rs) (Ok t1) = Ok t2"
      "leads t1 t2" "counted_up i (length rs) (error_statuses rs) t1 t2"
    using Cons.IH [OF _ leads_inv [OF t1(2)] leads_conn [OF t1(2) Cons.prems(3)]] Cons.prems(1) by auto
  have "counted_up i (length (r # rs)) (error_statuses (r # rs)) t t2"
    using counted_up_trans [OF c1 t2(3)] by (cases "399 < rs_status r") (simp_all add: error_statuses_def)
  then show ?case using t1 t2(1) leads_trans [OF t1(2) t2(2)] by simp
qed


text \<open>The thread of the example, when its connection has been made.\<close>

lemma sample_connected:
  assumes "thread_start sample_cfg 1 sample_thread = Ok t"
  shows "length (t_cs t) = 1 \<and> pdata (c_parser (t_cs t ! 0)) = 0"
proof -
  have f: "free_fd [0, 1, 2] 5 = 5" by (simp add: free_fd_def)
  show ?thesis using assms
    by (auto simp: f thread_start_def sample_cfg_def sample_env_def ask_def new_thread_def aeEventLoop.defs sample_loop_def
        aeCreateEventLoop_def epoll_api_def epoll_api_create_def connect_socket_def open_socket_def aeCreateFileEvent_def
        wrk_api_def epoll_api_add_def no_event_def epoll_masks AE_OK_def upd_conn_def aeCreateTimeEvent_def
        aeAddMillisecondsToNow_def aeGetTime_def case_prod_unfold Let_def)
qed


end
