(* ===== verification/WrkUnits.thy ===== *)
theory WrkUnits
  imports HttpUrl
begin

text \<open>
  Numbers with units, \<open>tools/wrk/src/units.c\<close>: \<open>scan_units\<close> reads them from the command line, \<open>format_units\<close> and
  \<open>print_units\<close> of \<open>wrk.c\<close> write them into the report.  Arithmetic on \<open>long double\<close> is an argument.
\<close>

section \<open>Units\<close>

record units =
  u_scale :: nat
  u_base :: string
  u_units :: "string list"

definition time_units_us :: units where
  "time_units_us = \<lparr> u_scale = 1000, u_base = ''us'', u_units = [''ms'', ''s''] \<rparr>"

definition time_units_s :: units where
  "time_units_s = \<lparr> u_scale = 60, u_base = ''s'', u_units = [''m'', ''h''] \<rparr>"

definition binary_units :: units where
  "binary_units = \<lparr> u_scale = 1024, u_base = '''', u_units = [''K'', ''M'', ''G'', ''T'', ''P''] \<rparr>"

definition metric_units :: units where
  "metric_units = \<lparr> u_scale = 1000, u_base = '''', u_units = [''k'', ''M'', ''G'', ''T'', ''P''] \<rparr>"

section \<open>Reading\<close>

text \<open>The directive \<open>%lu\<close>: the value that \<open>strtoul\<close> gives, and the rest; \<open>None\<close> when there is no digit.\<close>

definition scan_u64 :: "string \<Rightarrow> (u64 \<times> string) option" where
  "scan_u64 s =
     (let s' = dropWhile isspace s;
          ds = (if deref s' = CHR ''-'' \<or> deref s' = CHR ''+'' then tl s' else s')
      in if takeWhile isdigit ds = [] then None else Some (strtoul s, dropWhile isdigit ds))"

fun scan_unit_loop :: "units \<Rightarrow> string \<Rightarrow> string list \<Rightarrow> u64 \<Rightarrow> u64 option" where
  "scan_unit_loop m unit [] scale = None"
| "scan_unit_loop m unit (u # us) scale =
     (let scale' = scale * of_nat (u_scale m)
      in if strncaseeq unit u 3 then Some scale' else scan_unit_loop m unit us scale')"

definition scan_units :: "string \<Rightarrow> units \<Rightarrow> u64 option" where
  "scan_units s m =
     (case scan_u64 s of
        None \<Rightarrow> None
      | Some (base, rest) \<Rightarrow>
          (case scan_str 2 rest of
             None \<Rightarrow> Some base
           | Some (unit, _) \<Rightarrow>
               if strncaseeq unit (u_base m) 3 then Some base
               else map_option (\<lambda>scale. base * scale) (scan_unit_loop m unit (u_units m) 1)))"

definition scan_metric :: "string \<Rightarrow> u64 option" where
  "scan_metric s = scan_units s metric_units"

definition scan_time :: "string \<Rightarrow> u64 option" where
  "scan_time s = scan_units s time_units_s"

section \<open>Writing\<close>

text \<open>The operations on \<open>long double\<close> that the code uses, and the directive \<open>%.*Lf\<close>.\<close>

record 'f ldouble =
  ld_ge :: "'f \<Rightarrow> 'f \<Rightarrow> bool"
  ld_div :: "'f \<Rightarrow> nat \<Rightarrow> 'f"
  ld_part :: "nat \<Rightarrow> 'f"
  ld_million :: 'f
  ld_print :: "nat \<Rightarrow> 'f \<Rightarrow> string"

text \<open>\<open>ld_part\<close> is 0.85 times a scale.  The loop looks one unit ahead.\<close>

fun format_loop :: "'f ldouble \<Rightarrow> units \<Rightarrow> 'f \<Rightarrow> string \<Rightarrow> string list \<Rightarrow> 'f \<times> string" where
  "format_loop F m amt unit (u # v # us) =
     (if ld_ge F amt (ld_part F (u_scale m)) then format_loop F m (ld_div F amt (u_scale m)) u (v # us) else (amt, unit))"
| "format_loop F m amt unit us = (amt, unit)"

text \<open>\<open>aprintf\<close> appends a formatted text to a string that may be NULL.\<close>

definition aprintf :: "string option \<Rightarrow> string \<Rightarrow> string" where
  "aprintf s text = (case s of None \<Rightarrow> text | Some t \<Rightarrow> cstr t @ text)"

definition format_units :: "'f ldouble \<Rightarrow> 'f \<Rightarrow> units \<Rightarrow> nat \<Rightarrow> string" where
  "format_units F n m p =
     (let (amt, unit) = format_loop F m n (u_base m) (u_units m) in aprintf None (ld_print F p amt @ unit))"

definition format_binary :: "'f ldouble \<Rightarrow> 'f \<Rightarrow> string" where
  "format_binary F n = format_units F n binary_units 2"

definition format_metric :: "'f ldouble \<Rightarrow> 'f \<Rightarrow> string" where
  "format_metric F n = format_units F n metric_units 2"

definition format_time_us :: "'f ldouble \<Rightarrow> 'f \<Rightarrow> string" where
  "format_time_us F n =
     (if ld_ge F n (ld_million F) then format_units F (ld_div F n 1000000) time_units_s 2
      else format_units F n time_units_us 2)"

definition format_time_s :: "'f ldouble \<Rightarrow> 'f \<Rightarrow> string" where
  "format_time_s F n = format_units F n time_units_s 0"

definition isalpha :: "char \<Rightarrow> bool" where
  "isalpha c \<longleftrightarrow> 65 \<le> code c \<and> code c \<le> 90 \<or> 97 \<le> code c \<and> code c \<le> 122"

text \<open>
  \<open>print_units\<close> after formatting: \<open>%*.*s\<close> pads on the left to the width and cuts to it, \<open>%.*s\<close> prints the padding.
  The code looks at the last two bytes of the message, which must be there.
\<close>

definition print_units :: "string \<Rightarrow> nat \<Rightarrow> string option" where
  "print_units msg width =
     (if length msg < 2 then None
      else
        let pad = 2 - (if isalpha (msg ! (length msg - 1)) then 1 else 0) - (if isalpha (msg ! (length msg - 2)) then 1 else 0);
            w = width - pad
        in Some (replicate (w - length msg) SPC @ take w msg @ replicate pad SPC))"

section \<open>Lemmas\<close>

lemma tolower_NUL [simp]: "tolower c = NUL \<longleftrightarrow> c = NUL" "NUL = tolower c \<longleftrightarrow> c = NUL" "tolower NUL = NUL"
proof -
  have z: "code NUL = 0" by (simp add: code_def)
  have "code (char_of (code c + 32)) \<noteq> code NUL" if "65 \<le> code c \<and> code c \<le> 90"
    using that by (simp add: code_char_of z del: code_inject)
  then show e: "tolower c = NUL \<longleftrightarrow> c = NUL" using z by (auto simp: tolower_def)
  show "NUL = tolower c \<longleftrightarrow> c = NUL" unfolding e [symmetric] by (rule eq_commute)
  show "tolower NUL = NUL" using z by (simp add: tolower_def)
qed

text \<open>On short strings the comparison is that of the lower-case words.\<close>

lemma strncaseeq_words:
  "NUL \<notin> set a \<Longrightarrow> NUL \<notin> set b \<Longrightarrow> length a < n \<Longrightarrow> length b < n \<Longrightarrow> strncaseeq a b n \<longleftrightarrow> map tolower a = map tolower b"
proof (induction n arbitrary: a b)
  case 0
  then show ?case by simp
next
  case (Suc n)
  show ?case
  proof (cases a)
    case Nil
    then show ?thesis using Suc.prems by (cases b) (auto simp: deref_def)
  next
    case (Cons c cs)
    then show ?thesis using Suc.prems Suc.IH [of cs "tl b"] by (cases b) (auto simp: deref_def)
  qed
qed

definition same_word :: "string \<Rightarrow> string \<Rightarrow> bool" where
  "same_word a b \<longleftrightarrow> map tolower a = map tolower b"

text \<open>A unit as one may write it: a word of one or two letters.\<close>

definition unit_word :: "string \<Rightarrow> bool" where
  "unit_word t \<longleftrightarrow> length t \<le> 2 \<and> list_all (\<lambda>c. c \<noteq> NUL \<and> \<not> isspace c \<and> \<not> isdigit c) t"

lemma scan_number:
  assumes "n < 2 ^ 64" "unit_word t"
  shows "scan_u64 (show_nat n @ t) = Some (of_nat n, t)"
proof -
  have d: "list_all isdigit (show_nat n)" using show_nat_digits [of n] by (simp add: list_all_iff)
  have h: "t \<noteq> [] \<longrightarrow> \<not> isdigit (hd t)" using assms(2) by (cases t) (simp_all add: unit_word_def)
  have "NUL \<notin> set t" using assms(2) by (auto simp: unit_word_def list_all_iff)
  moreover have "NUL \<notin> set (show_nat n)" using show_nat_digits [of n] by (auto simp: isdigit_def code_def)
  ultimately have c: "cstr (show_nat n @ t) = show_nat n @ t" by (intro cstr_id) auto
  have v: "strtoul (show_nat n @ t) = of_nat n"
    using strtoul_digits [of "show_nat n" t] d h assms(1) c by simp
  obtain x xs where x: "show_nat n = x # xs" by (cases "show_nat n") auto
  then have dx: "isdigit x" "list_all isdigit xs" using d by simp_all
  then have "\<not> isspace x" "x \<noteq> CHR ''-''" "x \<noteq> CHR ''+''" using isdigit_not_space by (auto simp: isdigit_def code_def)
  moreover have "dropWhile isdigit (xs @ t) = t" using dx(2) h by (induction xs) (cases t; simp)+
  ultimately show ?thesis using v x dx(1) by (simp add: scan_u64_def deref_def Let_def)
qed

lemma scan_word:
  assumes "unit_word t"
  shows "scan_str 2 t = (if t = [] then None else Some (t, []))"
proof -
  have "dropWhile isspace t = t" using assms by (cases t) (simp_all add: unit_word_def)
  moreover have "takeWhile (\<lambda>c. \<not> isspace c) (take 2 t) = t"
    using assms by (auto simp: unit_word_def list_all_iff takeWhile_eq_all_conv)
  ultimately show ?thesis by (simp add: scan_str_def)
qed

lemma unit_loop_finds:
  assumes "i < length us" "strncaseeq t (us ! i) 3" "\<forall>j < i. \<not> strncaseeq t (us ! j) 3"
  shows "scan_unit_loop m t us s = Some (s * of_nat (u_scale m) ^ Suc i)"
  using assms
proof (induction us arbitrary: i s)
  case Nil
  then show ?case by simp
next
  case (Cons u us)
  show ?case
  proof (cases i)
    case 0
    then show ?thesis using Cons.prems by simp
  next
    case (Suc j)
    have "\<not> strncaseeq t u 3" using Cons.prems(3) Suc by force
    moreover have "\<forall>k < j. \<not> strncaseeq t (us ! k) 3" using Cons.prems(3) Suc by force
    ultimately show ?thesis using Cons.IH [of j] Cons.prems(1,2) Suc by (simp add: ac_simps)
  qed
qed

lemma unit_loop_fails: "\<forall>u \<in> set us. \<not> strncaseeq t u 3 \<Longrightarrow> scan_unit_loop m t us s = None"
  by (induction us arbitrary: s) (simp_all add: Let_def)

text \<open>Every table of units has words of at most two bytes.\<close>

definition is_units :: "units \<Rightarrow> bool" where
  "is_units m \<longleftrightarrow> m \<in> {time_units_us, time_units_s, binary_units, metric_units}"

lemma units_words: "is_units m \<Longrightarrow> u = u_base m \<or> u \<in> set (u_units m) \<Longrightarrow> NUL \<notin> set u \<and> length u < 3"
  by (auto simp: is_units_def time_units_us_def time_units_s_def binary_units_def metric_units_def)

lemma unit_match:
  assumes "unit_word t" "is_units m" "u = u_base m \<or> u \<in> set (u_units m)"
  shows "strncaseeq t u 3 \<longleftrightarrow> same_word t u"
  unfolding same_word_def using units_words [OF assms(2,3)] assms(1)
  by (intro strncaseeq_words) (auto simp: unit_word_def list_all_iff)

lemma scan_plain: "n < 2 ^ 64 \<Longrightarrow> scan_units (show_nat n) m = Some (of_nat n)"
  using scan_number [of n "[]"] scan_word [of "[]"] by (simp add: scan_units_def unit_word_def)

section \<open>The theorem\<close>

text \<open>C36: Numbers on the command line are read exactly.  A decimal number below 2^64, alone or with the base unit, is its
  value; with the i-th unit of the table, in any case, it is the value times the scale to the power i,
  reduced modulo 2^64; with any other word of one or two letters the option is refused.\<close>

theorem scan_units_exact:
  assumes "n < 2 ^ 64" "unit_word t" "is_units m"
  shows "(t = [] \<or> same_word t (u_base m) \<longrightarrow> scan_units (show_nat n @ t) m = Some (of_nat n))
    \<and> (\<forall>i < length (u_units m). t \<noteq> [] \<and> \<not> same_word t (u_base m) \<and> same_word t (u_units m ! i) \<and>
         (\<forall>j < i. \<not> same_word t (u_units m ! j)) \<longrightarrow>
         scan_units (show_nat n @ t) m = Some (of_nat (n * u_scale m ^ Suc i)))
    \<and> (t \<noteq> [] \<and> (\<forall>u \<in> insert (u_base m) (set (u_units m)). \<not> same_word t u) \<longrightarrow>
         scan_units (show_nat n @ t) m = None)"
proof -
  note s = scan_number [OF assms(1,2)] and w = scan_word [OF assms(2)] and u = unit_match [OF assms(2,3)]
  have e: "scan_units (show_nat n @ t) m =
      (if t = [] \<or> same_word t (u_base m) then Some (of_nat n)
       else map_option (\<lambda>scale. of_nat n * scale) (scan_unit_loop m t (u_units m) 1))"
    using s w u by (simp add: scan_units_def)
  have "scan_unit_loop m t (u_units m) 1 = Some (of_nat (u_scale m) ^ Suc i)"
    if "i < length (u_units m)" "same_word t (u_units m ! i)" "\<forall>j < i. \<not> same_word t (u_units m ! j)" for i
    using unit_loop_finds [of i "u_units m" t m 1] that u nth_mem by fastforce
  moreover have "scan_unit_loop m t (u_units m) 1 = None" if "\<forall>v \<in> set (u_units m). \<not> same_word t v"
    using unit_loop_fails [of "u_units m" t m 1] that u by fastforce
  ultimately show ?thesis using e by auto
qed

theorem scan_units_exact_witness:
  "scan_units ''90'' time_units_s = Some 90 \<and> scan_units ''90S'' time_units_s = Some 90
    \<and> scan_units ''2h'' time_units_s = Some 7200 \<and> scan_units ''18G'' metric_units = Some 18000000000
    \<and> scan_units ''7x'' metric_units = None"
proof -
  have d: "show_nat 90 = ''90''" "show_nat 2 = ''2''" "show_nat 18 = ''18''" "show_nat 7 = ''7''"
    by (simp_all add: show_nat.simps char_of_def bit_0)
  note w = unit_word_def isspace_def isdigit_def code_def same_word_def tolower_def
  note u = is_units_def time_units_s_def metric_units_def
  have a: "scan_units (show_nat 90 @ '''') time_units_s = Some (of_nat 90)"
    using scan_units_exact [of 90 "''''" time_units_s] by (simp add: w u)
  have b: "scan_units (show_nat 90 @ ''S'') time_units_s = Some (of_nat 90)"
    using scan_units_exact [of 90 "''S''" time_units_s] by (simp add: w u char_of_def bit_0)
  have words: "unit_word ''h''" "unit_word ''G''" by (simp_all add: w)
  have c: "scan_units (show_nat 2 @ ''h'') time_units_s = Some (of_nat (2 * u_scale time_units_s ^ Suc 1))"
    by (rule scan_units_exact [OF _ words(1), THEN conjunct2, THEN conjunct1, rule_format]) (simp_all add: w u)
  have e: "scan_units (show_nat 18 @ ''G'') metric_units = Some (of_nat (18 * u_scale metric_units ^ Suc 2))"
    by (rule scan_units_exact [OF _ words(2), THEN conjunct2, THEN conjunct1, rule_format])
      (auto simp: w u char_of_def bit_0 dest!: less_2_cases)
  have f: "scan_units (show_nat 7 @ ''x'') metric_units = None"
    using scan_units_exact [of 7 "''x''" metric_units] by (simp add: w u char_of_def bit_0)
  show ?thesis using a b c e f by (simp add: d u)
qed

text \<open>
  The loop of \<open>format_units\<close> looks one unit ahead and never comes to the last: two hours are written as minutes.
\<close>

lemma format_never_last: "snd (format_loop F m amt unit us) \<in> insert unit (set (butlast us))"
  by (induction F m amt unit us rule: format_loop.induct) auto

lemma format_no_hours:
  "\<exists>x u. format_time_s F n = ld_print F 0 x @ u \<and> u \<in> {''s'', ''m''}"
proof -
  obtain x u where "format_loop F time_units_s n ''s'' [''m'', ''h''] = (x, u)" by (rule prod.exhaust)
  then show ?thesis
    using format_never_last [of F time_units_s n "''s''" "[''m'', ''h'']"]
    by (auto simp: format_time_s_def format_units_def time_units_s_def aprintf_def Let_def)
qed

text \<open>The columns of the report line up: whatever the message, the field has its width.\<close>

lemma print_units_width:
  assumes "2 \<le> length msg" "2 \<le> width"
  shows "\<exists>out. print_units msg width = Some out \<and> length out = width"
  using assms by (auto simp: print_units_def Let_def)

end
