(* ===== verification/WrkMain.thy ===== *)
theory WrkMain
  imports WrkUnits WrkClient
begin

text \<open>
  The main program of the load generator, \<open>main\<close> and \<open>parse_args\<close> of \<open>tools/wrk/src/wrk.c\<close>, with what it asks of
  \<open>script.c\<close>: the check of the URL, its parts and the headers for the script, and the trial parse of the first
  request.  \<open>getopt_long\<close> is taken by its results: the options in order, and the arguments behind them.
\<close>

section \<open>Configuration\<close>

record config =
  cf_connections :: u64
  cf_duration :: u64
  cf_threads :: u64
  cf_timeout :: u64
  cf_pipeline :: u64
  cf_delay :: bool
  cf_dynamic :: bool
  cf_latency :: bool
  cf_host :: "string option"
  cf_script :: "string option"
  cf_tls :: bool

definition SOCKET_TIMEOUT_MS :: u64 where "SOCKET_TIMEOUT_MS = 2000"

text \<open>All zero but four fields; \<open>ctx\<close> is only compared with NULL.\<close>

definition default_config :: config where
  "default_config =
     \<lparr> cf_connections = 10, cf_duration = 10, cf_threads = 2, cf_timeout = SOCKET_TIMEOUT_MS, cf_pipeline = 0,
       cf_delay = False, cf_dynamic = False, cf_latency = False, cf_host = None, cf_script = None, cf_tls = False \<rparr>"

section \<open>The URL\<close>

definition script_parse_url :: "string \<Rightarrow> http_parser_url \<Rightarrow> (bool \<times> http_parser_url) outcome" where
  "script_parse_url url u =
     (case http_parser_parse_url url (length url) False u of
        None \<Rightarrow> Fault Aborted
      | Some (r, v) \<Rightarrow> Ok (r = 0 \<and> has_field v UF_SCHEMA \<and> has_field v UF_HOST, v))"

definition copy_url_part :: "string \<Rightarrow> http_parser_url \<Rightarrow> http_parser_url_fields \<Rightarrow> string option" where
  "copy_url_part url v f =
     (if has_field v f then Some (take (unat (len (field_data v f))) (drop (unat (off (field_data v f))) url)) else None)"

text \<open>What \<open>script_create\<close> puts into the script's table \<open>wrk\<close>: \<open>nil\<close> is \<open>None\<close>.\<close>

definition push_url_part :: "string \<Rightarrow> http_parser_url \<Rightarrow> http_parser_url_fields \<Rightarrow> string option" where
  "push_url_part url v f =
     (if has_field v f then Some (take (unat (len (field_data v f))) (drop (unat (off (field_data v f))) url)) else None)"

definition script_path :: "string \<Rightarrow> http_parser_url \<Rightarrow> string" where
  "script_path url v = (if has_field v UF_PATH then drop (unat (off (field_data v UF_PATH))) url else ''/'')"

text \<open>\<open>strchr(h, ':')\<close>, followed by a blank: the name, and what stands behind the blank.\<close>

definition script_header :: "string \<Rightarrow> (string \<times> string) option" where
  "script_header h =
     (let p = dropWhile (\<lambda>c. c \<noteq> CHR '':'') h
      in if p \<noteq> [] \<and> deref (tl p) = SPC then Some (takeWhile (\<lambda>c. c \<noteq> CHR '':'') h, drop 2 p) else None)"

definition script_headers :: "string list \<Rightarrow> (string \<times> string) list" where
  "script_headers hs = List.map_filter script_header hs"

section \<open>Arguments\<close>

text \<open>The loop over the options; the second result are the arguments of \<open>-H\<close>.\<close>

fun parse_options :: "config \<Rightarrow> string list \<Rightarrow> (char \<times> string) list \<Rightarrow> (config \<times> string list) option" where
  "parse_options C hs [] = Some (C, hs)"
| "parse_options C hs ((c, optarg) # opts) =
     (if c = CHR ''t'' then
        (case scan_metric optarg of None \<Rightarrow> None | Some n \<Rightarrow> parse_options (C\<lparr> cf_threads := n \<rparr>) hs opts)
      else if c = CHR ''c'' then
        (case scan_metric optarg of None \<Rightarrow> None | Some n \<Rightarrow> parse_options (C\<lparr> cf_connections := n \<rparr>) hs opts)
      else if c = CHR ''d'' then
        (case scan_time optarg of None \<Rightarrow> None | Some n \<Rightarrow> parse_options (C\<lparr> cf_duration := n \<rparr>) hs opts)
      else if c = CHR ''s'' then parse_options (C\<lparr> cf_script := Some optarg \<rparr>) hs opts
      else if c = CHR ''H'' then parse_options C (hs @ [optarg]) opts
      else if c = CHR ''L'' then parse_options (C\<lparr> cf_latency := True \<rparr>) hs opts
      else if c = CHR ''T'' then
        (case scan_time optarg of None \<Rightarrow> None | Some n \<Rightarrow> parse_options (C\<lparr> cf_timeout := n * 1000 \<rparr>) hs opts)
      else if c = CHR ''v'' then parse_options C hs opts
      else None)"

text \<open>\<open>None\<close> is the usage message and status 1.\<close>

definition parse_args ::
  "(char \<times> string) list \<Rightarrow> string list \<Rightarrow> (config \<times> string \<times> http_parser_url \<times> string list) option outcome" where
  "parse_args opts args =
     (case parse_options default_config [] opts of
        None \<Rightarrow> Ok None
      | Some (C, hs) \<Rightarrow>
          (case args of
             [] \<Rightarrow> Ok None
           | url # _ \<Rightarrow>
               if cf_threads C = 0 \<or> cf_duration C = 0 then Ok None
               else
                 and_then (script_parse_url url http_parser_url_init) (\<lambda>(ok, v).
                   if \<not> ok then Ok None
                   else if cf_connections C = 0 \<or> cf_connections C < cf_threads C then Ok None
                   else Ok (Some (C, url, v, hs)))))"

section \<open>The trial parse of the first request\<close>

definition verify_request :: "http_parser \<Rightarrow> u64 \<Rightarrow> int \<times> http_parser \<times> u64" where
  "verify_request p n = (0, p, n + 1)"

definition verify_settings :: "u64 settings" where
  "verify_settings = http_parser_settings_init\<lparr> on_message_complete := Some verify_request \<rparr>"

text \<open>The line and the column behind the bytes that were parsed.\<close>

fun text_position :: "string \<Rightarrow> int \<Rightarrow> int \<Rightarrow> int \<times> int" where
  "text_position [] line column = (line, column)"
| "text_position (c # s) line column =
     (if c = LF then text_position s (line + 1) 1 else text_position s line (column + 1))"

text \<open>
  The number of requests in the text, or the error with its position (\<open>HPE_OK\<close>: \<open>incomplete request\<close>), after
  which the program exits.  The parser is a local variable; initialising it clears it.
\<close>

definition script_verify_request :: "http_parser \<Rightarrow> string \<Rightarrow> ((http_errno \<times> int \<times> int) + u64) outcome" where
  "script_verify_request parser request =
     (case http_parser_execute verify_settings (http_parser_init parser HTTP_REQUEST) request 0 of
        Ret x parsed \<Rightarrow>
          if parsed \<noteq> length request \<or> usr x = 0 then
            if length request < parsed then Fault OutOfBounds
            else Ok (Inl (http_errno (par x), text_position (take parsed request) 1 1))
          else Ok (Inr (usr x))
      | Stuck \<Rightarrow> Hang
      | _ \<Rightarrow> Fault Aborted)"

text \<open>Names and descriptions of the errors, and the message of the program.\<close>

primrec http_errno_name :: "http_errno \<Rightarrow> string" where
  "http_errno_name HPE_OK = ''HPE_OK''"
| "http_errno_name HPE_CB_message_begin = ''HPE_CB_message_begin''"
| "http_errno_name HPE_CB_url = ''HPE_CB_url''"
| "http_errno_name HPE_CB_header_field = ''HPE_CB_header_field''"
| "http_errno_name HPE_CB_header_value = ''HPE_CB_header_value''"
| "http_errno_name HPE_CB_headers_complete = ''HPE_CB_headers_complete''"
| "http_errno_name HPE_CB_body = ''HPE_CB_body''"
| "http_errno_name HPE_CB_message_complete = ''HPE_CB_message_complete''"
| "http_errno_name HPE_CB_status = ''HPE_CB_status''"
| "http_errno_name HPE_CB_chunk_header = ''HPE_CB_chunk_header''"
| "http_errno_name HPE_CB_chunk_complete = ''HPE_CB_chunk_complete''"
| "http_errno_name HPE_INVALID_EOF_STATE = ''HPE_INVALID_EOF_STATE''"
| "http_errno_name HPE_HEADER_OVERFLOW = ''HPE_HEADER_OVERFLOW''"
| "http_errno_name HPE_CLOSED_CONNECTION = ''HPE_CLOSED_CONNECTION''"
| "http_errno_name HPE_INVALID_VERSION = ''HPE_INVALID_VERSION''"
| "http_errno_name HPE_INVALID_STATUS = ''HPE_INVALID_STATUS''"
| "http_errno_name HPE_INVALID_METHOD = ''HPE_INVALID_METHOD''"
| "http_errno_name HPE_INVALID_URL = ''HPE_INVALID_URL''"
| "http_errno_name HPE_INVALID_HOST = ''HPE_INVALID_HOST''"
| "http_errno_name HPE_INVALID_PORT = ''HPE_INVALID_PORT''"
| "http_errno_name HPE_INVALID_PATH = ''HPE_INVALID_PATH''"
| "http_errno_name HPE_INVALID_QUERY_STRING = ''HPE_INVALID_QUERY_STRING''"
| "http_errno_name HPE_INVALID_FRAGMENT = ''HPE_INVALID_FRAGMENT''"
| "http_errno_name HPE_LF_EXPECTED = ''HPE_LF_EXPECTED''"
| "http_errno_name HPE_INVALID_HEADER_TOKEN = ''HPE_INVALID_HEADER_TOKEN''"
| "http_errno_name HPE_INVALID_CONTENT_LENGTH = ''HPE_INVALID_CONTENT_LENGTH''"
| "http_errno_name HPE_UNEXPECTED_CONTENT_LENGTH = ''HPE_UNEXPECTED_CONTENT_LENGTH''"
| "http_errno_name HPE_INVALID_CHUNK_SIZE = ''HPE_INVALID_CHUNK_SIZE''"
| "http_errno_name HPE_INVALID_CONSTANT = ''HPE_INVALID_CONSTANT''"
| "http_errno_name HPE_INVALID_INTERNAL_STATE = ''HPE_INVALID_INTERNAL_STATE''"
| "http_errno_name HPE_STRICT = ''HPE_STRICT''"
| "http_errno_name HPE_PAUSED = ''HPE_PAUSED''"
| "http_errno_name HPE_UNKNOWN = ''HPE_UNKNOWN''"

primrec http_errno_description :: "http_errno \<Rightarrow> string" where
  "http_errno_description HPE_OK = ''success''"
| "http_errno_description HPE_CB_message_begin = ''the on_message_begin callback failed''"
| "http_errno_description HPE_CB_url = ''the on_url callback failed''"
| "http_errno_description HPE_CB_header_field = ''the on_header_field callback failed''"
| "http_errno_description HPE_CB_header_value = ''the on_header_value callback failed''"
| "http_errno_description HPE_CB_headers_complete = ''the on_headers_complete callback failed''"
| "http_errno_description HPE_CB_body = ''the on_body callback failed''"
| "http_errno_description HPE_CB_message_complete = ''the on_message_complete callback failed''"
| "http_errno_description HPE_CB_status = ''the on_status callback failed''"
| "http_errno_description HPE_CB_chunk_header = ''the on_chunk_header callback failed''"
| "http_errno_description HPE_CB_chunk_complete = ''the on_chunk_complete callback failed''"
| "http_errno_description HPE_INVALID_EOF_STATE = ''stream ended at an unexpected time''"
| "http_errno_description HPE_HEADER_OVERFLOW = ''too many header bytes seen; overflow detected''"
| "http_errno_description HPE_CLOSED_CONNECTION = ''data received after completed connection: close message''"
| "http_errno_description HPE_INVALID_VERSION = ''invalid HTTP version''"
| "http_errno_description HPE_INVALID_STATUS = ''invalid HTTP status code''"
| "http_errno_description HPE_INVALID_METHOD = ''invalid HTTP method''"
| "http_errno_description HPE_INVALID_URL = ''invalid URL''"
| "http_errno_description HPE_INVALID_HOST = ''invalid host''"
| "http_errno_description HPE_INVALID_PORT = ''invalid port''"
| "http_errno_description HPE_INVALID_PATH = ''invalid path''"
| "http_errno_description HPE_INVALID_QUERY_STRING = ''invalid query string''"
| "http_errno_description HPE_INVALID_FRAGMENT = ''invalid fragment''"
| "http_errno_description HPE_LF_EXPECTED = ''LF character expected''"
| "http_errno_description HPE_INVALID_HEADER_TOKEN = ''invalid character in header''"
| "http_errno_description HPE_INVALID_CONTENT_LENGTH = ''invalid character in content-length header''"
| "http_errno_description HPE_UNEXPECTED_CONTENT_LENGTH = ''unexpected content-length header''"
| "http_errno_description HPE_INVALID_CHUNK_SIZE = ''invalid character in chunk size header''"
| "http_errno_description HPE_INVALID_CONSTANT = ''invalid constant string''"
| "http_errno_description HPE_INVALID_INTERNAL_STATE = ''encountered unexpected internal state''"
| "http_errno_description HPE_STRICT = ''strict mode assertion failed''"
| "http_errno_description HPE_PAUSED = ''parser is paused''"
| "http_errno_description HPE_UNKNOWN = ''an unknown error occurred''"

definition verify_message :: "http_errno \<times> int \<times> int \<Rightarrow> string" where
  "verify_message e =
     (let (err, line, column) = e
      in (if err \<noteq> HPE_OK then http_errno_description err else ''incomplete request'') @ '' at '' @
         show_nat (nat line) @ '':'' @ show_nat (nat column))"

section \<open>Starting the threads\<close>

text \<open>\<open>getaddrinfo\<close> is given the port or the scheme; TLS is used when the scheme starts with \<open>https\<close>.\<close>

definition url_service :: "string \<Rightarrow> http_parser_url \<Rightarrow> string option" where
  "url_service url v = (case copy_url_part url v UF_PORT of Some p \<Rightarrow> Some p | None \<Rightarrow> copy_url_part url v UF_SCHEMA)"

definition is_https :: "string \<Rightarrow> bool" where
  "is_https schema \<longleftrightarrow> take 5 schema = ''https''"

text \<open>The part of the configuration that the threads read, with what the script says of itself.\<close>

definition wrk_cfg_of :: "config \<Rightarrow> bool \<Rightarrow> wrk_cfg" where
  "wrk_cfg_of C want_response =
     \<lparr> cfg_pipeline = cf_pipeline C, cfg_delay = cf_delay C, cfg_dynamic = cf_dynamic C, cfg_want_response = want_response,
       cfg_sock = (if cf_tls C then tls_sock else plain_sock) \<rparr>"

text \<open>The connections of one thread, and the size of its event loop: a \<open>uint64_t\<close> that becomes an \<open>int\<close>.\<close>

definition thread_connections :: "config \<Rightarrow> u64" where
  "thread_connections C = cf_connections C div cf_threads C"

definition loop_size :: "config \<Rightarrow> int" where
  "loop_size C = sint (ucast (10 + cf_connections C * 3) :: 32 word)"

text \<open>
  \<open>main\<close> up to the threads: the configuration, the host, the service and the headers.  \<open>cfg.ctx\<close> is set when
  \<open>ssl_init\<close> succeeds, else the program exits (\<open>None\<close>); it also exits when the trial parse fails.
\<close>

definition wrk_setup ::
  "(char \<times> string) list \<Rightarrow> string list \<Rightarrow> bool \<Rightarrow> http_parser \<Rightarrow> string \<Rightarrow> bool \<Rightarrow> bool \<Rightarrow>
     (config \<times> string option \<times> (string \<times> string) list) option outcome" where
  "wrk_setup opts args ssl_ok parser request dynamic delay =
     and_then (parse_args opts args) (\<lambda>r.
       case r of
         None \<Rightarrow> Ok None
       | Some (C, url, v, hs) \<Rightarrow>
           (case copy_url_part url v UF_SCHEMA of
              None \<Rightarrow> Fault NullDeref
            | Some schema \<Rightarrow>
                if is_https schema \<and> \<not> ssl_ok then Ok None
                else
                  and_then (script_verify_request parser request) (\<lambda>q.
                    case q of
                      Inl e \<Rightarrow> Ok None
                    | Inr n \<Rightarrow>
                        Ok (Some (C\<lparr> cf_tls := is_https schema, cf_host := copy_url_part url v UF_HOST,
                                     cf_pipeline := n, cf_dynamic := dynamic, cf_delay := delay \<rparr>,
                                  url_service url v, script_headers hs)))))"

section \<open>The end\<close>

text \<open>What \<open>main\<close> adds up when the threads have ended.\<close>

definition add_errors :: "errors \<Rightarrow> errors \<Rightarrow> errors" where
  "add_errors a b =
     \<lparr> e_connect = e_connect a + e_connect b, e_read = e_read a + e_read b, e_write = e_write a + e_write b,
       e_status = e_status a + e_status b, e_timeout = e_timeout a + e_timeout b \<rparr>"

fun join_threads :: "wthread list \<Rightarrow> u64 \<Rightarrow> u64 \<Rightarrow> errors \<Rightarrow> u64 \<times> u64 \<times> errors" where
  "join_threads [] complete bytes e = (complete, bytes, e)"
| "join_threads (t # ts) complete bytes e =
     join_threads ts (complete + t_complete t) (bytes + t_bytes t) (add_errors e (t_errors t))"

section \<open>What the options say\<close>

text \<open>The option that counts is the last of its kind.\<close>

definition last_arg :: "char \<Rightarrow> (char \<times> string) list \<Rightarrow> string option" where
  "last_arg c opts = (let os = filter (\<lambda>(k, a). k = c) opts in if os = [] then None else Some (snd (last os)))"

definition num_opt :: "(string \<Rightarrow> u64 option) \<Rightarrow> u64 \<Rightarrow> char \<Rightarrow> (char \<times> string) list \<Rightarrow> u64" where
  "num_opt scan n c opts = (case last_arg c opts of None \<Rightarrow> n | Some a \<Rightarrow> the (scan a))"

definition legal_option :: "char \<times> string \<Rightarrow> bool" where
  "legal_option ca \<longleftrightarrow>
     (case ca of (c, a) \<Rightarrow>
        c \<in> set ''sHLv'' \<or> c \<in> set ''tc'' \<and> scan_metric a \<noteq> None \<or> c \<in> set ''dT'' \<and> scan_time a \<noteq> None)"

definition options_over :: "config \<Rightarrow> (char \<times> string) list \<Rightarrow> config" where
  "options_over C opts =
     C\<lparr> cf_threads := num_opt scan_metric (cf_threads C) CHR ''t'' opts,
        cf_connections := num_opt scan_metric (cf_connections C) CHR ''c'' opts,
        cf_duration := num_opt scan_time (cf_duration C) CHR ''d'' opts,
        cf_timeout := num_opt (\<lambda>a. map_option (\<lambda>n. n * 1000) (scan_time a)) (cf_timeout C) CHR ''T'' opts,
        cf_latency := (cf_latency C \<or> last_arg CHR ''L'' opts \<noteq> None),
        cf_script := (case last_arg CHR ''s'' opts of None \<Rightarrow> cf_script C | Some a \<Rightarrow> Some a) \<rparr>"

definition header_args :: "(char \<times> string) list \<Rightarrow> string list" where
  "header_args opts = map snd (filter (\<lambda>(k, a). k = CHR ''H'') opts)"

lemma last_arg_Nil [simp]: "last_arg c [] = None"
  by (simp add: last_arg_def)

lemma last_arg_Cons:
  "last_arg c ((k, a) # opts) = (case last_arg c opts of Some b \<Rightarrow> Some b | None \<Rightarrow> if k = c then Some a else None)"
  by (auto simp: last_arg_def Let_def)

lemma num_opt_Nil [simp]: "num_opt scan n c [] = n"
  by (simp add: num_opt_def)

lemma num_opt_Cons: "num_opt scan n c ((k, a) # opts) = num_opt scan (if k = c then the (scan a) else n) c opts"
  by (simp add: num_opt_def last_arg_Cons split: option.split)

lemma options_over_Nil [simp]: "options_over C [] = C"
  by (simp add: options_over_def)

lemma header_args_Cons: "header_args ((k, a) # opts) = (if k = CHR ''H'' then a # header_args opts else header_args opts)"
  by (simp add: header_args_def)

lemma parse_options_exact:
  "parse_options C hs opts =
     (if list_all legal_option opts then Some (options_over C opts, hs @ header_args opts) else None)"
proof (induction opts arbitrary: C hs)
  case Nil
  then show ?case by (simp add: header_args_def)
next
  case (Cons o1 opts)
  obtain c a where o1: "o1 = (c, a)" by (cases o1)
  note over = options_over_def num_opt_Cons last_arg_Cons header_args_Cons legal_option_def
  consider "c = CHR ''t''" | "c = CHR ''c''" | "c = CHR ''d''" | "c = CHR ''s''" | "c = CHR ''H''" | "c = CHR ''L''"
    | "c = CHR ''T''" | "c = CHR ''v''" | "c \<notin> set ''tcdsHLTv''" by auto
  then show ?case
  proof cases
    case 9
    then show ?thesis using o1 by (simp add: legal_option_def)
  qed (auto simp: o1 Cons.IH over split: option.split)
qed


lemma script_parse_url_ok:
  assumes "length url < 2 ^ 16"
  shows "\<exists>ok v. script_parse_url url http_parser_url_init = Ok (ok, v) \<and>
    (ok \<longrightarrow> has_field v UF_SCHEMA \<and> has_field v UF_HOST \<and>
      (\<forall>f. has_field v f \<longrightarrow> 0 < unat (len (field_data v f)) \<and>
         unat (off (field_data v f)) + unat (len (field_data v f)) \<le> length url))"
  using parse_url_inside [of "length url" url False http_parser_url_init] assms by (auto simp: script_parse_url_def)

text \<open>A part of an accepted URL is a non-empty piece of it.\<close>

lemma copied_part:
  assumes "has_field v f" "0 < unat (len (field_data v f))"
    "unat (off (field_data v f)) + unat (len (field_data v f)) \<le> length url"
  shows "\<exists>t a b. copy_url_part url v f = Some t \<and> t \<noteq> [] \<and> url = a @ t @ b \<and> length a = unat (off (field_data v f))"
proof -
  let ?o = "unat (off (field_data v f))" and ?n = "unat (len (field_data v f))"
  have "url = take ?o url @ take ?n (drop ?o url) @ drop (?o + ?n) url"
    by (metis append_take_drop_id drop_drop add.commute)
  moreover have "take ?n (drop ?o url) \<noteq> []" "length (take ?o url) = ?o" using assms(2,3) by simp_all
  ultimately show ?thesis using assms(1) unfolding copy_url_part_def by fastforce
qed

text \<open>The demands of the program on its configuration.\<close>

definition usable :: "config \<Rightarrow> bool" where
  "usable C \<longleftrightarrow> cf_threads C \<noteq> 0 \<and> cf_duration C \<noteq> 0 \<and> cf_connections C \<noteq> 0 \<and> cf_threads C \<le> cf_connections C"

lemma parse_args_given:
  assumes "script_parse_url url http_parser_url_init = Ok (ok, v)"
  shows "parse_args opts (url # args) =
    Ok (if list_all legal_option opts \<and> usable (options_over default_config opts) \<and> ok
        then Some (options_over default_config opts, url, v, header_args opts) else None)"
  using assms by (auto simp: parse_args_def parse_options_exact usable_def)

text \<open>C35: The command line is read as its usage says.  With a URL below 64 KiB the call always returns.  It accepts
  exactly when every option is known and its number can be read, the last number given for each of
  threads, duration and connections (or the default) is not zero, there are at least as many
  connections as threads, and the URL has a schema and a host; the configuration then holds the last
  argument of each option and the headers come in the order they were given.  Without a URL it refuses.\<close>

theorem parse_args_exact:
  assumes "length url < 2 ^ 16"
  shows "parse_args opts [] = Ok None \<and>
    (\<exists>ok v. script_parse_url url http_parser_url_init = Ok (ok, v) \<and>
       parse_args opts (url # args) =
         Ok (if list_all legal_option opts \<and> usable (options_over default_config opts) \<and> ok
             then Some (options_over default_config opts, url, v, header_args opts) else None))"
  using script_parse_url_ok [OF assms] parse_args_given [of url _ _ opts args]
  by (fastforce simp: parse_args_def parse_options_exact)


lemma script_parse_url_sample: "\<exists>v. script_parse_url ''http://h'' http_parser_url_init = Ok (True, v)"
proof -
  have "map_option (\<lambda>(r, v). r = 0 \<and> has_field v UF_SCHEMA \<and> has_field v UF_HOST)
      (http_parser_parse_url ''http://h'' 8 False http_parser_url_init) = Some True" by code_simp
  moreover have "length ''http://h'' = 8" by simp
  ultimately show ?thesis by (auto simp only: script_parse_url_def map_option_eq_Some split: prod.splits option.splits) auto
qed

theorem parse_args_exact_witness:
  "\<exists>C v. parse_args [(CHR ''c'', ''9''), (CHR ''H'', ''A: b''), (CHR ''c'', ''3'')] [''http://h''] =
      Ok (Some (C, ''http://h'', v, [''A: b'']))
    \<and> cf_connections C = 3 \<and> cf_threads C = 2"
proof -
  let ?o = "[(CHR ''c'', ''9''), (CHR ''H'', ''A: b''), (CHR ''c'', ''3'')]"
  have n: "scan_metric ''9'' = Some 9" "scan_metric ''3'' = Some 3"
    using scan_plain [of 9 metric_units] scan_plain [of 3 metric_units]
    by (simp_all add: scan_metric_def show_nat.simps char_of_def bit_0)
  obtain v where v: "script_parse_url ''http://h'' http_parser_url_init = Ok (True, v)" using script_parse_url_sample by blast
  have "list_all legal_option ?o" "header_args ?o = [''A: b'']" using n by (simp_all add: legal_option_def header_args_def)
  moreover have "cf_connections (options_over default_config ?o) = 3" "usable (options_over default_config ?o)"
    "cf_threads (options_over default_config ?o) = 2"
    using n by (simp_all add: usable_def options_over_def num_opt_def last_arg_def default_config_def)
  ultimately show ?thesis using parse_args_exact [of "''http://h''" ?o "[]"] v by auto
qed


section \<open>The trial parse\<close>

lemma tame_verify: "tame verify_settings"
  by (simp add: tame_def verify_settings_def http_parser_settings_init_def tame_end_cb_def verify_request_def)

text \<open>Lines are counted by line feeds, columns by the bytes behind the last.\<close>

definition lines :: "string \<Rightarrow> int" where
  "lines s = 1 + int (length (filter (\<lambda>c. c = LF) s))"

definition column_after :: "string \<Rightarrow> int" where
  "column_after s = 1 + int (length (takeWhile (\<lambda>c. c \<noteq> LF) (rev s)))"

lemma text_position_snoc:
  "text_position (s @ [c]) i j =
     (let (i', j') = text_position s i j in if c = LF then (i' + 1, 1) else (i', j' + 1))"
  by (induction s arbitrary: i j) auto

lemma text_position_exact: "text_position s 1 1 = (lines s, column_after s)"
  by (induction s rule: rev_induct) (auto simp: text_position_snoc lines_def column_after_def)

lemma position_fits:
  "lines s \<le> 1 + int (length s)" "column_after s \<le> 1 + int (length s)"
  using length_filter_le [of "\<lambda>c. c = LF" s] length_takeWhile_le [of "\<lambda>c. c \<noteq> LF" "rev s"]
  by (simp_all add: lines_def column_after_def)

lemma verify_runs:
  assumes "length request < 2 ^ 64"
  shows "\<exists>x n. http_parser_execute verify_settings (http_parser_init parser HTTP_REQUEST) request 0 = Ret x n \<and>
    n \<le> length request"
proof (cases "request = []")
  case True
  then show ?thesis
    by (simp add: http_parser_execute_def exec_start_def exec_eof_def http_parser_init_def)
next
  case False
  then have "max 1 (length request) = length request" by (cases request) auto
  then show ?thesis using execute_ok [OF resumable_init tame_verify assms, of parser HTTP_REQUEST 0] by auto
qed


text \<open>A request with an unknown method in its second line.\<close>

lemma verify_sample: "script_verify_request zero_parser (CRLF @ ''?'') = Ok (Inl (HPE_INVALID_METHOD, 2, 1))"
proof -
  note byte = exec_byte_def COUNT_HEADER_SIZE_def PARSING_HEADER_def exec_char_def ex_start_req_def begin_message_def exec_defs
    is_crlf_def IS_ALPHA_def LOWER_def code_def HTTP_MAX_HEADER_SIZE_def
  let ?S = "verify_settings" and ?d = "[CR, LF, CHR ''?'']"
  let ?x = "exec_start (http_parser_init zero_parser HTTP_REQUEST) (0 :: u64)"
  have i: "st ?x = s_start_req" "pos ?x = 0" "nread (par ?x) = 0" "http_errno (par ?x) = HPE_OK"
    by (simp_all add: exec_start_def http_parser_init_def)
  have eight: "reexecute 8 ?S ?d c y = (case exec_char ?S ?d c y of Reexec z d \<Rightarrow> reexecute 7 ?S ?d d z | r \<Rightarrow> r)" for c y
    using reexecute.simps(2) [of 7 ?S ?d c y] by simp
  have skip: "exec_byte ?S ?d y = Next (upd (nread_update (\<lambda>n. n + 1)) y)"
    if "st y = s_start_req" "is_crlf (?d ! pos y)" "nread (par y) \<in> {0, 1}" for y
    using that by (auto simp: exec_byte_def COUNT_HEADER_SIZE_def PARSING_HEADER_def eight exec_char_def ex_start_req_def
        upd_def HTTP_MAX_HEADER_SIZE_def)
  have stop: "\<exists>z. exec_byte ?S ?d y = Ret z 2 \<and> http_errno (par z) = HPE_INVALID_METHOD"
    if "st y = s_start_req" "pos y = 2" "nread (par y) = 2" for y
    using that by (auto simp: exec_byte_def COUNT_HEADER_SIZE_def PARSING_HEADER_def eight exec_char_def ex_start_req_def
        begin_message_def exec_defs is_crlf_def IS_ALPHA_def LOWER_def code_def HTTP_MAX_HEADER_SIZE_def)
  let ?u = "\<lambda>y. upd (nread_update (\<lambda>n. n + 1)) y\<lparr> pos := pos y + 1 \<rparr>"
  have n: "exec_loop (Suc (Suc (Suc 0))) ?S ?d ?x = exec_loop (Suc 0) ?S ?d (?u (?u ?x))"
    using skip [of ?x] skip [of "?u ?x"] i by (simp add: is_crlf_def upd_def)
  obtain z where "exec_byte ?S ?d (?u (?u ?x)) = Ret z 2" "http_errno (par z) = HPE_INVALID_METHOD"
    using stop [of "?u (?u ?x)"] i by (auto simp: upd_def)
  then have "exec_loop (Suc (Suc (Suc 0))) ?S ?d ?x = Ret z 2" "http_errno (par z) = HPE_INVALID_METHOD"
    unfolding n using i by (simp_all add: upd_def)
  then show ?thesis using i
    by (simp add: script_verify_request_def http_parser_execute_def http_parser_init_def)
qed



section \<open>What the threads are started with\<close>

lemma shares:
  assumes "usable C"
  shows "1 \<le> unat (thread_connections C)"
    "unat (thread_connections C) * unat (cf_threads C) \<le> unat (cf_connections C)"
    "unat (cf_connections C) < (unat (thread_connections C) + 1) * unat (cf_threads C)"
proof -
  have t: "0 < unat (cf_threads C)" "unat (cf_threads C) \<le> unat (cf_connections C)"
    using assms by (simp_all add: usable_def unat_gt_0 word_le_nat_alt)
  have d: "unat (thread_connections C) = unat (cf_connections C) div unat (cf_threads C)"
    by (simp add: thread_connections_def unat_div)
  show "1 \<le> unat (thread_connections C)" unfolding d using t by (simp add: Suc_leI div_greater_zero_iff)
  show "unat (thread_connections C) * unat (cf_threads C) \<le> unat (cf_connections C)" unfolding d by (rule div_times_less_eq_dividend)
  show "unat (cf_connections C) < (unat (thread_connections C) + 1) * unat (cf_threads C)"
    unfolding d using dividend_less_div_times [OF t(1)] by (simp add: add.commute)
qed

text \<open>The size of the event loop is what it looks like up to 715827879 connections.\<close>

lemma loop_size_exact:
  assumes "unat (cf_connections C) \<le> 715827879"
  shows "loop_size C = 10 + 3 * int (unat (cf_connections C))"
proof -
  let ?n = "unat (cf_connections C)"
  have e: "10 + cf_connections C * 3 = of_nat (10 + ?n * 3)"
    by (simp only: of_nat_add of_nat_mult of_nat_numeral of_nat_unat ucast_id)
  have x: "unat (10 + cf_connections C * 3) = 10 + ?n * 3"
    unfolding e using assms by (intro unat_of_nat64) simp
  have u: "uint (10 + cf_connections C * 3) = 10 + int ?n * 3" unfolding uint_nat x by simp
  have "sint (ucast (10 + cf_connections C * 3) :: 32 word) = signed_take_bit 31 (10 + int ?n * 3)"
    unfolding u [symmetric] by (simp only: ucast_eq signed_of_int) simp
  also have "\<dots> = 10 + int ?n * 3" by (rule signed_take_bit_int_eq_self; use assms in \<open>simp del: of_nat_unat\<close>)
  finally show ?thesis by (simp add: loop_size_def)
qed

text \<open>The pieces of an accepted URL that the program uses.\<close>

lemma url_pieces:
  assumes "has_field v UF_SCHEMA" "has_field v UF_HOST"
    "\<forall>f. has_field v f \<longrightarrow> 0 < unat (len (field_data v f)) \<and>
       unat (off (field_data v f)) + unat (len (field_data v f)) \<le> length url"
  obtains schema h w where
    "copy_url_part url v UF_SCHEMA = Some schema" "copy_url_part url v UF_HOST = Some h" "h \<noteq> []" "\<exists>a b. url = a @ h @ b"
    "url_service url v = Some w" "w \<noteq> []" "\<exists>a b. url = a @ w @ b"
proof -
  have p: "\<exists>t a b. copy_url_part url v f = Some t \<and> t \<noteq> [] \<and> url = a @ t @ b" if "has_field v f" for f
    using copied_part [of v f url, OF that] assms(3) that by meson
  have "\<exists>w a b. url_service url v = Some w \<and> w \<noteq> [] \<and> url = a @ w @ b"
    using p [of UF_PORT] p [OF assms(1)] by (cases "has_field v UF_PORT") (auto simp: url_service_def copy_url_part_def)
  then show ?thesis using p [OF assms(1)] p [OF assms(2)] that by blast
qed

lemma verify_never_zero:
  assumes "length request < 2 ^ 31 - 1"
  obtains q where "script_verify_request parser request = Ok q" "\<And>n. q = Inr n \<Longrightarrow> n \<noteq> 0"
  using verify_runs [of request parser] assms by (force simp: script_verify_request_def split: if_splits)

text \<open>The configuration that the threads get.\<close>

definition started_with :: "config \<Rightarrow> bool \<Rightarrow> string \<Rightarrow> u64 \<Rightarrow> bool \<Rightarrow> bool \<Rightarrow> config" where
  "started_with C tls h n dynamic delay =
     C\<lparr> cf_tls := tls, cf_host := Some h, cf_pipeline := n, cf_dynamic := dynamic, cf_delay := delay \<rparr>"

lemma started_simps [simp]:
  "cf_pipeline (started_with C tls h n dyn del) = n" "cf_host (started_with C tls h n dyn del) = Some h"
  "cf_tls (started_with C tls h n dyn del) = tls" "usable (started_with C tls h n dyn del) = usable C"
  by (simp_all add: started_with_def usable_def)

lemma setup_runs:
  assumes "parse_args opts args = Ok (Some (C, url, v, hs))" "copy_url_part url v UF_SCHEMA = Some schema"
    "copy_url_part url v UF_HOST = Some h" "script_verify_request parser request = Ok q" "\<And>n. q = Inr n \<Longrightarrow> n \<noteq> 0"
  shows "\<exists>r. wrk_setup opts args ssl_ok parser request dynamic delay = Ok r \<and>
    (\<forall>D service heads. r = Some (D, service, heads) \<longrightarrow>
       (\<exists>n. n \<noteq> 0 \<and> D = started_with C (is_https schema) h n dynamic delay) \<and> (is_https schema \<longrightarrow> ssl_ok) \<and>
       service = url_service url v)"
  using assms by (auto simp: wrk_setup_def started_with_def split: sum.split)



lemma url_reached:
  assumes "url_parts_ok sch h prt path q f" "length (url_text sch h prt path q f) < 2 ^ 16"
    "pred_option (\<lambda>w. digits_nat w < 2 ^ 16) prt"
  shows "\<exists>v. script_parse_url (url_text sch h prt path q f) http_parser_url_init = Ok (True, v) \<and>
    copy_url_part (url_text sch h prt path q f) v UF_SCHEMA = Some sch \<and>
    copy_url_part (url_text sch h prt path q f) v UF_HOST = Some h \<and>
    url_service (url_text sch h prt path q f) v = (case prt of None \<Rightarrow> Some sch | Some w \<Rightarrow> Some w) \<and>
    script_path (url_text sch h prt path q f) v = CHR ''/'' # path @ text_opt CHR ''?'' q @ text_opt CHR ''#'' f"
proof -
  let ?b = "url_text sch h prt path q f"
  obtain v where run: "http_parser_parse_url ?b (length ?b) False http_parser_url_init = Some (0, v)"
    and v: "parsed_as ?b v sch h prt path q f"
    and o: "unat (off (field_data v UF_PATH)) = length (sch @ ''://'' @ h @ text_opt CHR '':'' prt)"
    using parses_url_text [OF assms(1,2), of http_parser_url_init] assms(3) by auto
  have c: "copy_url_part ?b v g = (if has_field v g then Some (HttpUrl.part ?b v g) else None)" for g
    by (simp add: copy_url_part_def HttpUrl.part_def)
  have has: "has_field v UF_SCHEMA" "has_field v UF_HOST" "has_field v UF_PATH" "has_field v UF_PORT \<longleftrightarrow> prt \<noteq> None"
    using v unfolding parsed_as_def by blast+
  have parts: "HttpUrl.part ?b v UF_SCHEMA = sch" "HttpUrl.part ?b v UF_HOST = h"
    "\<And>w. prt = Some w \<Longrightarrow> HttpUrl.part ?b v UF_PORT = w"
    using v by (simp_all add: parsed_as_def)
  have t: "?b = (sch @ ''://'' @ h @ text_opt CHR '':'' prt) @ CHR ''/'' # path @ text_opt CHR ''?'' q @ text_opt CHR ''#'' f"
    by (simp add: url_text_def)
  have "script_parse_url ?b http_parser_url_init = Ok (True, v)"
    using run has by (simp add: script_parse_url_def)
  moreover have "copy_url_part ?b v UF_SCHEMA = Some sch" "copy_url_part ?b v UF_HOST = Some h" using has parts by (simp_all add: c)
  moreover have "url_service ?b v = (case prt of None \<Rightarrow> Some sch | Some w \<Rightarrow> Some w)"
    unfolding url_service_def c using has parts by (simp split: option.split) blast
  moreover have "script_path ?b v = CHR ''/'' # path @ text_opt CHR ''?'' q @ text_opt CHR ''#'' f"
    unfolding script_path_def o if_P [OF has(3)] by (subst t) (rule append_eq_conv_conj [THEN iffD1, OF refl, THEN conjunct2, symmetric])
  ultimately show ?thesis by blast
qed

text \<open>C38: What is sent is what stands in the URL.  For a URL written as schema, host, optional port, path, optional query
  and optional fragment, below 64 KiB and with a port below 2^16, the program connects to that host, at
  that port or else at the service named like the schema, and the path of its requests is everything from
  the path to the end of the URL: the path, the query, and the fragment too.\<close>

theorem url_reaches_request:
  assumes "url_parts_ok sch h prt path q f" "length (url_text sch h prt path q f) < 2 ^ 16"
    "pred_option (\<lambda>w. digits_nat w < 2 ^ 16) prt"
  shows "\<exists>v. script_parse_url (url_text sch h prt path q f) http_parser_url_init = Ok (True, v) \<and>
    copy_url_part (url_text sch h prt path q f) v UF_HOST = Some h \<and>
    url_service (url_text sch h prt path q f) v = (case prt of None \<Rightarrow> Some sch | Some w \<Rightarrow> Some w) \<and>
    script_path (url_text sch h prt path q f) v = CHR ''/'' # path @ text_opt CHR ''?'' q @ text_opt CHR ''#'' f"
  using url_reached [OF assms] by blast

theorem url_reaches_request_witness:
  "\<exists>v. script_parse_url ''http://h/a#q'' http_parser_url_init = Ok (True, v)
    \<and> url_service ''http://h/a#q'' v = Some ''http'' \<and> script_path ''http://h/a#q'' v = ''/a#q''"
proof -
  have u: "IS_URL_CHAR CHR ''a''" "IS_URL_CHAR CHR ''q''"
    by (simp_all add: IS_URL_CHAR_def BIT_AT_def normal_url_char_def code_def)
  have ok: "url_parts_ok ''http'' ''h'' None ''a'' None (Some ''q'')"
    using u by (simp add: url_parts_ok_def url_classes)
  have t: "url_text ''http'' ''h'' None ''a'' None (Some ''q'') = ''http://h/a#q''"
    by (simp add: url_text_def)
  show ?thesis using url_reaches_request [OF ok] unfolding t by auto
qed

end
