(* ===== verification/WrkRequest.thy ===== *)
theory WrkRequest
  imports HttpRoundtrip WrkMain WrkRun "HOL-Library.AList"
begin

text \<open>
  The request that the load generator sends when no script says otherwise, as \<open>tools/wrk/src/wrk.lua\<close> writes it, and the whole
  way from the command line to the threads: the request passes the trial parse as one request, and the threads that are
  started with it are safe.
\<close>

section \<open>The request of \<open>wrk.lua\<close>\<close>

text \<open>
  A table is a list of its fields; assigning a field replaces it, assigning \<open>nil\<close> removes it.  \<open>pairs\<close> visits each field once, in
  an order that Lua does not say: it is an argument.
\<close>

type_synonym lua_table = "(string \<times> string) list"

definition lua_set :: "string \<Rightarrow> string option \<Rightarrow> lua_table \<Rightarrow> lua_table" where
  "lua_set k v t = (case v of None \<Rightarrow> AList.delete k t | Some w \<Rightarrow> AList.update k w t)"

text \<open>The headers of the command line, as \<open>script_create\<close> puts them into \<open>wrk.headers\<close>.\<close>

definition header_table :: "(string \<times> string) list \<Rightarrow> lua_table" where
  "header_table hs = fold (\<lambda>(n, v). lua_set n (Some v)) hs []"

definition wrk_host :: "string \<Rightarrow> string option \<Rightarrow> string" where
  "wrk_host host prt =
     (let h = (if CHR '':'' \<in> set host then ''['' @ host @ '']'' else host)
      in case prt of None \<Rightarrow> h | Some w \<Rightarrow> h @ '':'' @ w)"

text \<open>\<open>wrk.init\<close>, up to the request: the headers of all requests.\<close>

definition wrk_init :: "string \<Rightarrow> string option \<Rightarrow> lua_table \<Rightarrow> lua_table" where
  "wrk_init host prt t = (if map_of t ''Host'' = None then lua_set ''Host'' (Some (wrk_host host prt)) t else t)"

text \<open>\<open>wrk.format\<close>, and the table of headers that it leaves; \<open>common\<close> is \<open>wrk.headers\<close>.\<close>

definition wrk_format ::
  "(lua_table \<Rightarrow> (string \<times> string) list) \<Rightarrow> lua_table \<Rightarrow> string \<Rightarrow> string \<Rightarrow> lua_table \<Rightarrow> string option \<Rightarrow> string \<times> lua_table" where
  "wrk_format pairs common method path hs content =
     (let h1 = (if map_of hs ''Host'' = None then lua_set ''Host'' (map_of common ''Host'') hs else hs);
          h2 = lua_set ''Content-Length'' (map_option (\<lambda>b. show_nat (length b)) content) h1
      in (method @ '' '' @ path @ '' HTTP/1.1'' @ CRLF @ concat (map (\<lambda>(n, v). n @ '': '' @ v @ CRLF) (pairs h2)) @ CRLF @
            (case content of None \<Rightarrow> [] | Some b \<Rightarrow> b), h2))"

text \<open>The request of a thread without a script.\<close>

definition default_request ::
  "(lua_table \<Rightarrow> (string \<times> string) list) \<Rightarrow> string \<Rightarrow> string option \<Rightarrow> string \<Rightarrow> (string \<times> string) list \<Rightarrow> string" where
  "default_request pairs host prt path hs =
     (let t = wrk_init host prt (header_table hs) in fst (wrk_format pairs t ''GET'' path t None))"

definition visits_all :: "(lua_table \<Rightarrow> (string \<times> string) list) \<Rightarrow> bool" where
  "visits_all pairs \<longleftrightarrow> (\<forall>t. mset (pairs t) = mset t)"

section \<open>The trial parse counts requests\<close>

definition counting :: "u64 listener" where
  "counting =
     \<lparr> hears = (\<lambda>k. k = KDone), takes = (\<lambda>e n. n + 1), fin = (\<lambda>p. p), ends = verify_request \<rparr>"

lemma counting_settings: "verify_settings = listening counting"
  by (simp add: verify_settings_def listening_def counting_def reg_def http_parser_settings_init_def)

lemma counting_end: "good_end counting t d"
  by (simp add: good_end_def counting_def verify_request_def)

lemma counting_hears:
  "fold (hear counting) (concat (map request_events rs)) n = n + of_nat (length rs)"
proof (induction rs arbitrary: n)
  case Nil
  then show ?case by simp
next
  case (Cons r rs)
  have quiet: "fold (hear counting) es m = m" if "\<forall>e \<in> set es. kind_of e \<noteq> KDone" for es m
    using that by (induction es arbitrary: m) (simp_all add: hear_def counting_def)
  have "\<forall>e \<in> set (tail_events hs b). kind_of e \<noteq> KDone" for hs b
    by (auto simp: tail_events_def header_events_def body_events_def)
  then have "fold (hear counting) (request_events r) n = n + 1"
    by (simp add: request_events_def quiet) (simp add: hear_def counting_def)
  then show ?case using Cons.IH by (simp add: add.assoc)
qed

lemma request_bytes_nonempty: "2 \<le> length (request_bytes r)"
  by (simp add: request_bytes_def request_line_def)

lemma request_count: "length rs \<le> length (concat (map request_bytes rs))"
proof (induction rs)
  case Nil
  then show ?case by simp
next
  case (Cons r rs)
  then show ?case using request_bytes_nonempty [of r] by simp
qed

lemma verify_counts:
  assumes "list_all good_request rs" "rs \<noteq> []" "length (concat (map request_bytes rs)) < 2 ^ 64"
  shows "script_verify_request parser (concat (map request_bytes rs)) = Ok (Inr (of_nat (length rs)))"
proof -
  let ?s = "concat (map request_bytes rs)"
  obtain x where x: "http_parser_execute verify_settings (http_parser_init parser HTTP_REQUEST) ?s 0 = Ret x (length ?s)"
      "usr x = of_nat (length rs)"
    using requests_parsed [OF assms(1) counting_end assms(3) fresh_init, of parser 0]
    unfolding counting_settings counting_hears by auto
  have "length rs < 2 ^ 64" using request_count [of rs] assms(3) by linarith
  then have "unat (of_nat (length rs) :: u64) \<noteq> 0" using assms(2) by (simp add: unat_of_nat64)
  then have "usr x \<noteq> 0" unfolding x(2) by auto
  then show ?thesis using x by (simp add: script_verify_request_def)
qed

section \<open>The default request\<close>

lemma lua_set_fields: "set (lua_set k v t) \<subseteq> set t \<union> (case v of None \<Rightarrow> {} | Some w \<Rightarrow> {(k, w)})"
proof (cases v)
  case None
  then show ?thesis by (auto simp: lua_set_def AList.delete_eq)
next
  case (Some w)
  have "set (AList.update k w t) \<subseteq> set t \<union> {(k, w)}" by (induction t) auto
  then show ?thesis using Some by (simp add: lua_set_def)
qed

lemma header_table_good: "list_all good_header hs \<Longrightarrow> list_all good_header (header_table hs)"
proof -
  have "list_all good_header (fold (\<lambda>(n, v). lua_set n (Some v)) hs t)" if "list_all good_header hs" "list_all good_header t" for t
    using that
  proof (induction hs arbitrary: t)
    case Nil
    then show ?case by simp
  next
    case (Cons h hs)
    have "set (lua_set (fst h) (Some (snd h)) t) \<subseteq> insert h (set t)"
      using lua_set_fields [of "fst h" "Some (snd h)" t] by simp
    with Cons.prems have "list_all good_header (lua_set (fst h) (Some (snd h)) t)" unfolding list_all_iff by (simp, blast)
    then show ?case using Cons by (simp add: case_prod_unfold)
  qed
  then show "list_all good_header hs \<Longrightarrow> ?thesis" by (simp add: header_table_def)
qed

text \<open>The request as a value.\<close>

definition get_request :: "string \<Rightarrow> (string \<times> string) list \<Rightarrow> request" where
  "get_request path hs = \<lparr> rq_method = HTTP_GET, rq_target = path, rq_headers = hs, rq_body = None \<rparr>"

lemma default_request_good:
  assumes "visits_all pairs" "list_all good_header hs" "good_header (''Host'', wrk_host host prt)" "good_target path"
    "length (default_request pairs host prt path hs) \<le> HTTP_MAX_HEADER_SIZE"
  shows "\<exists>r. good_request r \<and> default_request pairs host prt path hs = request_bytes r"
proof -
  let ?t = "wrk_init host prt (header_table hs)"
  let ?h = "lua_set ''Content-Length'' None ?t"
  have "map_of ?t ''Host'' \<noteq> None" by (simp add: wrk_init_def lua_set_def update_conv)
  then obtain v where host: "map_of ?t ''Host'' = Some v" by blast
  have "list_all good_header ?t"
    using header_table_good [OF assms(2)] lua_set_fields [of "''Host''" "Some (wrk_host host prt)" "header_table hs"] assms(3)
    by (auto simp: wrk_init_def list_all_iff)
  then have "list_all good_header ?h" using lua_set_fields [of "''Content-Length''" None ?t] by (auto simp: list_all_iff)
  moreover have "set (pairs ?h) = set ?h" using assms(1) unfolding visits_all_def by (metis set_mset_mset)
  ultimately have h: "list_all good_header (pairs ?h)" by (simp add: list_all_iff)
  have line: "header_line = (\<lambda>(n, v). n @ '': '' @ v @ CRLF)" by (simp add: header_line_def case_prod_unfold fun_eq_iff)
  let ?r = "get_request path (pairs ?h)"
  have e: "default_request pairs host prt path hs = request_bytes ?r"
    using host by (simp add: default_request_def wrk_format_def line get_request_def request_bytes_def request_line_def tail_head_def
        body_header_def body_bytes_def Let_def)
  moreover have "good_request ?r"
    using assms(4,5) h unfolding e by (simp add: good_request_def get_request_def request_bytes_def body_bytes_def)
  ultimately show ?thesis by blast
qed


section \<open>From the command line to the threads\<close>

lemma host_char_code: "IS_HOST_CHAR c \<Longrightarrow> 32 < code c \<and> code c \<noteq> 127"
proof -
  have low: "\<forall>n \<in> set [0 ..< 33]. n OR 32 < (97 :: nat)" by code_simp
  have "32 < code c" if "97 \<le> code c OR 32"
  proof (rule ccontr)
    assume "\<not> 32 < code c"
    then have "code c \<in> set [0 ..< 33]" by (simp del: upt_rec_numeral)
    then have "code c OR 32 < 97" using low by blast
    then show False using that by simp
  qed
  moreover have "(127 :: nat) OR 32 = 127" by code_simp
  ultimately show "IS_HOST_CHAR c \<Longrightarrow> ?thesis"
    by (auto simp: IS_HOST_CHAR_def IS_ALPHANUM_def IS_ALPHA_def IS_NUM_def LOWER_def isdigit_def code_def)
qed

lemma host_char_value: "IS_HOST_CHAR c \<Longrightarrow> value_char c \<and> c \<noteq> SPC \<and> c \<noteq> TAB"
  using host_char_code [of c] host_char_not [of c] by (simp add: value_char_def IS_HEADER_CHAR_def is_crlf_def)

lemma digit_value: "isdigit c \<Longrightarrow> value_char c \<and> c \<noteq> SPC \<and> c \<noteq> TAB"
  using digit_plain [of c] by (simp add: value_char_def is_crlf_def)

lemma host_header_good:
  assumes "h \<noteq> []" "\<forall>c \<in> set h. IS_HOST_CHAR c" "pred_option (\<lambda>w. w \<noteq> [] \<and> list_all isdigit w) prt"
  shows "good_header (''Host'', wrk_host h prt)"
proof -
  have punct: "value_char CHR '':''" "value_char CHR ''[''" "value_char CHR '']''"
    by (simp_all add: value_char_def IS_HEADER_CHAR_def is_crlf_def code_def)
  have h: "list_all value_char h" "hd h \<noteq> SPC \<and> hd h \<noteq> TAB"
    using assms(1,2) host_char_value by (auto simp: list_all_iff)
  have "list_all value_char (wrk_host h prt)"
    using h(1) punct assms(3) digit_value by (auto simp: wrk_host_def list_all_iff split: option.split)
  moreover have "hd (wrk_host h prt) \<noteq> SPC \<and> hd (wrk_host h prt) \<noteq> TAB"
    using h(2) assms(1) by (auto simp: wrk_host_def split: option.split)
  moreover have "list_all (\<lambda>c. TOKEN c \<noteq> 0) ''Host''" "lowered ''Host'' \<notin> set framing_names"
    using sample_header by (simp_all add: good_header_def)
  ultimately show ?thesis by (simp add: good_header_def)
qed

lemma path_target_good:
  assumes "url_parts_ok sch h prt path q f"
  shows "good_target (CHR ''/'' # path @ text_opt CHR ''?'' q @ text_opt CHR ''#'' f)"
  using assms
  by (cases q; cases f) (auto simp: url_parts_ok_def good_target_def list_all_iff path_char_def)

definition set_up_with :: "(char \<times> string) list \<Rightarrow> string \<Rightarrow> string \<Rightarrow> config" where
  "set_up_with opts sch h = started_with (options_over default_config opts) (is_https sch) h 1 False False"

lemma program_set_up:
  assumes "url_parts_ok sch h prt path q f" "length (url_text sch h prt path q f) < 2 ^ 16"
    "pred_option (\<lambda>w. digits_nat w < 2 ^ 16) prt"
    and "list_all legal_option opts" "usable (options_over default_config opts)" "is_https sch \<longrightarrow> ssl_ok"
    and "visits_all pairs" "hs = script_headers (header_args opts)" "list_all good_header hs"
    and "request = default_request pairs h prt (CHR ''/'' # path @ text_opt CHR ''?'' q @ text_opt CHR ''#'' f) hs"
      "length request \<le> HTTP_MAX_HEADER_SIZE"
  shows "wrk_setup opts [url_text sch h prt path q f] ssl_ok parser request False False
    = Ok (Some (set_up_with opts sch h, Some (case prt of None \<Rightarrow> sch | Some w \<Rightarrow> w), hs))"
proof -
  let ?url = "url_text sch h prt path q f" and ?C = "options_over default_config opts"
  obtain v where v: "script_parse_url ?url http_parser_url_init = Ok (True, v)" "copy_url_part ?url v UF_SCHEMA = Some sch"
      "copy_url_part ?url v UF_HOST = Some h" "url_service ?url v = (case prt of None \<Rightarrow> Some sch | Some w \<Rightarrow> Some w)"
    using url_reached [OF assms(1-3)] by blast
  have "h \<noteq> []" "\<forall>c \<in> set h. IS_HOST_CHAR c" "pred_option (\<lambda>w. w \<noteq> [] \<and> list_all isdigit w) prt"
    using assms(1) by (simp_all add: url_parts_ok_def)
  note host = host_header_good [OF this]
  obtain r where r: "good_request r" "request = request_bytes r"
    using default_request_good [OF assms(7,9) host path_target_good [OF assms(1)]] assms(11) unfolding assms(10) by blast
  have "script_verify_request parser request = Ok (Inr 1)"
    using verify_counts [of "[r]" parser] r assms(11) by (simp add: HTTP_MAX_HEADER_SIZE_def)
  moreover have "parse_args opts [?url] = Ok (Some (?C, ?url, v, header_args opts))"
    using parse_args_given [OF v(1), of opts "[]"] assms(4,5) by simp
  moreover have "url_service ?url v = Some (case prt of None \<Rightarrow> sch | Some w \<Rightarrow> w)" using v(4) by (simp split: option.split)
  ultimately show ?thesis using v(2,3) assms(6,8) by (auto simp: wrk_setup_def set_up_with_def started_with_def)
qed



text \<open>One thread with one connection, to the URL \<open>http://h/a#q\<close>.\<close>

lemma sample_options:
  defines "opts \<equiv> [(CHR ''t'', ''1''), (CHR ''c'', ''1'')]"
  shows "list_all legal_option opts" "usable (options_over default_config opts)" "header_args opts = []"
    "cf_connections (options_over default_config opts) = 1" "cf_threads (options_over default_config opts) = 1"
proof -
  have n: "scan_metric ''1'' = Some 1"
    using scan_plain [of 1 metric_units] by (simp add: scan_metric_def show_nat.simps char_of_def bit_0)
  then show "list_all legal_option opts" "header_args opts = []"
    by (simp_all add: opts_def legal_option_def header_args_def)
  show "usable (options_over default_config opts)" "cf_connections (options_over default_config opts) = 1"
    "cf_threads (options_over default_config opts) = 1"
    using n by (simp_all add: opts_def usable_def options_over_def num_opt_def last_arg_def default_config_def)
qed


end
