(* ===== verification/WrkSummary.thy ===== *)
theory WrkSummary
  imports Complex_Main Runs WrkStats WrkUnits
begin

text \<open>
  What the report computes from a histogram, \<open>tools/wrk/src/stats.c\<close>: mean, deviation, the share of samples near the mean and
  percentiles, over any arithmetic of \<open>long double\<close>, and \<open>stats_correct\<close>, which adds the samples that were missed
  while a slow request was waited for.
\<close>

section \<open>Arithmetic\<close>

text \<open>
  The operations on \<open>long double\<close> that the statistics use: conversion of a \<open>uint64_t\<close>, \<open>powl(x, 2)\<close>, \<open>sqrtl\<close>, and \<open>round\<close> with its
  conversion to \<open>uint64_t\<close>; \<open>fl_half\<close> is 0.5, and \<open>fl_seconds\<close> divides by 1000000.0.
\<close>

record 'f arith = "'f ldouble" +
  fl_of :: "u64 \<Rightarrow> 'f"
  fl_add :: "'f \<Rightarrow> 'f \<Rightarrow> 'f"
  fl_sub :: "'f \<Rightarrow> 'f \<Rightarrow> 'f"
  fl_mul :: "'f \<Rightarrow> 'f \<Rightarrow> 'f"
  fl_quot :: "'f \<Rightarrow> 'f \<Rightarrow> 'f"
  fl_square :: "'f \<Rightarrow> 'f"
  fl_sqrt :: "'f \<Rightarrow> 'f"
  fl_half :: 'f
  fl_round :: "'f \<Rightarrow> u64"
  fl_seconds :: "u64 \<Rightarrow> 'f"

text \<open>The arithmetic without rounding.\<close>

definition exact :: "(nat \<Rightarrow> real \<Rightarrow> string) \<Rightarrow> real arith" where
  "exact pr =
     \<lparr> ld_ge = (\<lambda>x y. y \<le> x), ld_div = (\<lambda>x n. x / real n), ld_part = (\<lambda>n. 85 / 100 * real n), ld_million = 1000000,
       ld_print = pr, fl_of = (\<lambda>w. real (unat w)), fl_add = (+), fl_sub = (-), fl_mul = (*), fl_quot = (/),
       fl_square = (\<lambda>x. x ^ 2), fl_sqrt = sqrt, fl_half = 1 / 2, fl_round = (\<lambda>x. of_int (round x)),
       fl_seconds = (\<lambda>w. real (unat w) / 1000000) \<rparr>"

lemma exact_ops:
  "ld_ge (exact pr) = (\<lambda>x y. y \<le> x)" "fl_of (exact pr) = (\<lambda>w. real (unat w))" "fl_add (exact pr) = (+)"
  "fl_sub (exact pr) = (-)" "fl_mul (exact pr) = (*)" "fl_quot (exact pr) = (/)" "fl_square (exact pr) = (\<lambda>x. x ^ 2)"
  "fl_sqrt (exact pr) = sqrt" "fl_half (exact pr) = 1 / 2" "fl_round (exact pr) = (\<lambda>x. of_int (round x))"
  by (simp_all add: exact_def)

section \<open>The numbers of the report\<close>

definition stats_mean :: "'f arith \<Rightarrow> stats \<Rightarrow> 'f" where
  "stats_mean F s = (if s_count s = 0 then fl_of F 0 else fl_quot F (fl_of F (stats_sum s)) (fl_of F (s_count s)))"

definition stats_stdev :: "'f arith \<Rightarrow> stats \<Rightarrow> 'f \<Rightarrow> 'f" where
  "stats_stdev F s mean =
     (if s_count s < 2 then fl_of F 0
      else
        let sum = foldl (\<lambda>sum i. if bucket s i \<noteq> 0
                          then fl_add F sum (fl_mul F (fl_square F (fl_sub F (fl_of F (of_nat i)) mean)) (fl_of F (bucket s i)))
                          else sum) (fl_of F 0) (values_of s)
        in fl_sqrt F (fl_quot F sum (fl_of F (s_count s - 1))))"

definition stats_within_stdev :: "'f arith \<Rightarrow> stats \<Rightarrow> 'f \<Rightarrow> 'f \<Rightarrow> u64 \<Rightarrow> 'f" where
  "stats_within_stdev F s mean stdev n =
     (let upper = fl_add F mean (fl_mul F stdev (fl_of F n));
          lower = fl_sub F mean (fl_mul F stdev (fl_of F n));
          sum = foldl (\<lambda>sum i. if ld_ge F (fl_of F (of_nat i)) lower \<and> ld_ge F upper (fl_of F (of_nat i))
                        then sum + bucket s i else sum) 0 (values_of s)
      in fl_mul F (fl_quot F (fl_of F sum) (fl_of F (s_count s))) (fl_of F 100))"

definition percentile_rank :: "'f arith \<Rightarrow> stats \<Rightarrow> 'f \<Rightarrow> u64" where
  "percentile_rank F s p =
     fl_round F (fl_add F (fl_mul F (fl_quot F p (fl_of F 100)) (fl_of F (s_count s))) (fl_half F))"

definition stats_percentile :: "'f arith \<Rightarrow> stats \<Rightarrow> 'f \<Rightarrow> nat" where
  "stats_percentile F s p = percentile_at s (percentile_rank F s p)"

section \<open>Correction\<close>

definition add_samples :: "nat \<Rightarrow> u64 \<Rightarrow> stats \<Rightarrow> stats" where
  "add_samples k c s = s\<lparr> s_data := (s_data s)[k := s_data s ! k + c], s_count := s_count s + c \<rparr>"

text \<open>The inner loop of \<open>stats_correct\<close>; with an interval of 0 it does not end, and a negative one takes \<open>m\<close> up and out of the
  histogram.\<close>

function correct_fill :: "int \<Rightarrow> u64 \<Rightarrow> int \<Rightarrow> stats \<Rightarrow> stats outcome" where
  "correct_fill expected c m s =
     (if c = 0 \<or> m \<le> expected then Ok s
      else if m < 0 \<or> int (length (s_data s)) \<le> m then Fault OutOfBounds
      else if expected = 0 then Hang
      else correct_fill expected c (m - expected) (add_samples (nat m) c s))"
  by pat_completeness auto

termination
  by (relation "measure (\<lambda>(e, c, m, s). if 0 < e then nat m else nat (int (length (s_data s)) - m))")
    (auto simp: add_samples_def)

declare correct_fill.simps [simp del]

text \<open>The outer loop: from \<open>expected * 2\<close>, as an unsigned number, to \<open>max\<close>, which the loop does not change.\<close>

definition correct_at :: "int \<Rightarrow> nat \<Rightarrow> stats \<Rightarrow> stats outcome" where
  "correct_at expected n s = correct_fill expected (bucket s n) (sint (of_nat n :: u64) - expected) s"

fun correct_loop :: "int \<Rightarrow> nat list \<Rightarrow> stats \<Rightarrow> stats outcome" where
  "correct_loop expected [] s = Ok s"
| "correct_loop expected (n # ns) s = and_then (correct_at expected n s) (correct_loop expected ns)"

definition stats_correct :: "stats \<Rightarrow> int \<Rightarrow> stats outcome" where
  "stats_correct s expected =
     correct_loop expected [unat (of_int (expected * 2) :: u64) ..< Suc (unat (s_max s))] s"

section \<open>Sums over the histogram are sums over the samples\<close>

lemma foldl_sum: "foldl (\<lambda>a i. a + f i) (u :: 'a :: comm_monoid_add) xs = u + sum_list (map f xs)"
  by (induction xs arbitrary: u) (simp_all add: add.assoc)

lemma sum_buckets:
  fixes g :: "nat \<Rightarrow> 'a :: comm_semiring_1"
  assumes "\<forall>x \<in># M. a \<le> unat x \<and> unat x < b" "b \<le> 2 ^ 64"
  shows "(\<Sum>i \<in> {a ..< b}. of_nat (count M (of_nat i :: u64)) * g i) = (\<Sum>x \<in># M. g (unat x))"
  using assms(1)
proof (induction M)
  case empty
  then show ?case by simp
next
  case (add x M)
  have "(of_nat i :: u64) = x \<longleftrightarrow> i = unat x" if "i < b" for i
    using that assms(2) by (auto simp: unat_of_nat take_bit_nat_eq_self)
  then have "(\<Sum>i \<in> {a ..< b}. of_nat (count (add_mset x M) (of_nat i :: u64)) * g i)
      = (\<Sum>i \<in> {a ..< b}. of_nat (count M (of_nat i)) * g i + (if i = unat x then g i else 0))"
    by (intro sum.cong) (auto simp: algebra_simps)
  also have "\<dots> = (\<Sum>y \<in># M. g (unat y)) + g (unat x)"
    using add by (simp add: sum.distrib sum.delta')
  finally show ?case by (simp add: add.commute)
qed

lemma samples_in_range:
  assumes "represents s M" "x \<in># M"
  shows "unat (s_min s) \<le> unat x \<and> unat x < Suc (unat (s_max s))"
  using assms by (simp add: represents_def less_Suc_eq_le flip: word_le_nat_alt)

lemma values_sum:
  fixes g :: "nat \<Rightarrow> 'a :: comm_semiring_1"
  assumes "represents s M" "M \<noteq> {#}"
  shows "sum_list (map (\<lambda>i. of_nat (count M (of_nat i)) * g i) (values_of s)) = (\<Sum>x \<in># M. g (unat x))"
proof -
  have "Suc (unat (s_max s)) \<le> 2 ^ 64" using bucket_count(2) [OF assms order_refl] by simp
  then show ?thesis
    using sum_buckets [of M "unat (s_min s)" "Suc (unat (s_max s))" g] samples_in_range [OF assms(1)]
    by (simp add: values_of_def interv_sum_list_conv_sum_set_nat del: upt_Suc)
qed

lemma values_bucket:
  "represents s M \<Longrightarrow> M \<noteq> {#} \<Longrightarrow> i \<in> set (values_of s) \<Longrightarrow> bucket s i = of_nat (count M (of_nat i)) \<and> i < 2 ^ 64"
  using bucket_count [of s M i] by (auto simp: values_of_def)


section \<open>The numbers are those of the samples\<close>

lemma unat_count: "size M < 2 ^ 64 \<Longrightarrow> unat (of_nat (count M x) :: u64) = count M x"
  using count_le_size [of M x] by (simp add: unat_of_nat take_bit_nat_eq_self)

lemma sum_exact:
  assumes "represents s M" "M \<noteq> {#}" "(\<Sum>x \<in># M. unat x) < 2 ^ 64"
  shows "unat (stats_sum s) = (\<Sum>x \<in># M. unat x)"
proof -
  have "stats_sum s = sum_list (map (\<lambda>i. bucket s i * of_nat i) (values_of s))" by (simp add: stats_sum_def foldl_sum)
  also have "\<dots> = sum_list (map (\<lambda>i. of_nat (count M (of_nat i)) * of_nat i) (values_of s))"
    using values_bucket [OF assms(1,2)] by (intro arg_cong [where f = sum_list] map_cong) simp_all
  also have "\<dots> = (\<Sum>x \<in># M. of_nat (unat x))" by (rule values_sum [OF assms(1,2)])
  also have "\<dots> = of_nat (\<Sum>x \<in># M. unat x)" by (induction M) simp_all
  finally show ?thesis using assms(3) by (simp add: unat_of_nat take_bit_nat_eq_self del: of_nat_sum_mset of_nat_unat)
qed

lemma squares_exact:
  assumes "represents s M" "M \<noteq> {#}" "size M < 2 ^ 64"
  shows "foldl (\<lambda>sum i. if bucket s i \<noteq> 0 then sum + (real (unat (of_nat i :: u64)) - m)\<^sup>2 * real (unat (bucket s i)) else sum) 0 (values_of s)
    = (\<Sum>x \<in># M. (real (unat x) - m)\<^sup>2)"
proof -
  have z: "(of_nat (count M x) :: u64) = 0 \<Longrightarrow> count M x = 0" for x using unat_count [OF assms(3), of x] by simp
  have "foldl (\<lambda>sum i. if bucket s i \<noteq> 0 then sum + (real (unat (of_nat i :: u64)) - m)\<^sup>2 * real (unat (bucket s i)) else sum) 0 (values_of s)
      = foldl (\<lambda>sum i. sum + real (count M (of_nat i)) * (real i - m)\<^sup>2) 0 (values_of s)"
    using values_bucket [OF assms(1,2)] unat_count [OF assms(3)] z
    by (intro foldl_cong) (auto simp: unat_of_nat take_bit_nat_eq_self)
  then show ?thesis using values_sum [OF assms(1,2), of "\<lambda>i. (real i - m)\<^sup>2"] by (simp add: foldl_sum)
qed

lemma near_exact:
  assumes "represents s M" "M \<noteq> {#}" "size M < 2 ^ 64"
  shows "unat (foldl (\<lambda>sum i. if l \<le> real (unat (of_nat i :: u64)) \<and> real (unat (of_nat i :: u64)) \<le> u then sum + bucket s i else sum) 0
      (values_of s)) = size {#x \<in># M. l \<le> real (unat x) \<and> real (unat x) \<le> u#}"
proof -
  let ?P = "\<lambda>i. l \<le> real i \<and> real i \<le> u"
  have "foldl (\<lambda>sum i. if l \<le> real (unat (of_nat i :: u64)) \<and> real (unat (of_nat i :: u64)) \<le> u then sum + bucket s i else sum) 0 (values_of s)
      = foldl (\<lambda>sum i. sum + of_nat (count M (of_nat i)) * (if ?P i then 1 else 0)) 0 (values_of s)"
    using values_bucket [OF assms(1,2)] by (intro foldl_cong) (auto simp: unat_of_nat take_bit_nat_eq_self)
  also have "\<dots> = (\<Sum>x \<in># M. if ?P (unat x) then 1 else 0)" by (simp add: foldl_sum values_sum [OF assms(1,2)])
  also have "\<dots> = of_nat (size {#x \<in># M. ?P (unat x)#})" by (induction M) simp_all
  finally have e: "foldl (\<lambda>sum i. if l \<le> real (unat (of_nat i :: u64)) \<and> real (unat (of_nat i :: u64)) \<le> u then sum + bucket s i else sum) 0
      (values_of s) = of_nat (size {#x \<in># M. ?P (unat x)#})" .
  have "size {#x \<in># M. ?P (unat x)#} < 2 ^ 64" by (rule le_less_trans [OF size_filter_mset_lesseq assms(3)])
  then show ?thesis unfolding e by (simp add: unat_of_nat take_bit_nat_eq_self)
qed

text \<open>The element of a sorted list is known by the numbers of smaller ones.\<close>

lemma sorted_at:
  assumes "sorted xs" "k < length xs" "length (filter (\<lambda>x. x < v) xs) \<le> k" "k < length (filter (\<lambda>x. x \<le> v) xs)"
  shows "xs ! k = (v :: 'a :: linorder)"
proof (rule ccontr)
  have split: "filter P xs = filter P (take j xs) @ filter P (drop j xs)" for P j
    by (metis append_take_drop_id filter_append)
  assume "xs ! k \<noteq> v"
  then consider "xs ! k < v" | "v < xs ! k" by (metis linorder_neqE)
  then show False
  proof cases
    case 1
    have "x < v" if "x \<in> set (take (Suc k) xs)" for x
    proof -
      from that obtain j where "j < Suc k" "x = xs ! j" using assms(2) by (auto simp: in_set_conv_nth)
      then show ?thesis using 1 sorted_nth_mono [OF assms(1), of j k] assms(2) by simp
    qed
    then have "filter (\<lambda>x. x < v) (take (Suc k) xs) = take (Suc k) xs" by (simp add: filter_id_conv)
    then show False using assms(2,3) split [of "\<lambda>x. x < v" "Suc k"] by simp
  next
    case 2
    have "\<not> x \<le> v" if "x \<in> set (drop k xs)" for x
    proof -
      from that obtain j where "j < length (drop k xs)" "x = drop k xs ! j" unfolding in_set_conv_nth by blast
      then have "k + j < length xs" "x = xs ! (k + j)" by simp_all
      then show ?thesis using 2 sorted_nth_mono [OF assms(1), of k "k + j"] by simp
    qed
    then have "filter (\<lambda>x. x \<le> v) (drop k xs) = []" by (simp add: filter_empty_conv)
    then show False using assms(4) split [of "\<lambda>x. x \<le> v" k] length_filter_le [of "\<lambda>x. x \<le> v" "take k xs"] by simp
  qed
qed

lemma percentile_sorted:
  assumes "represents s M" "size M < 2 ^ 64" "unat rank = Suc k"
  shows "percentile_at s rank = (if k < size M then unat (sorted_list_of_multiset M ! k) else 0)"
proof (cases "M = {#}")
  case True
  have "0 < unat UINT64_MAX" by (simp add: UINT64_MAX_def unat_gt_0)
  then have "values_of s = []" using assms(1) True by (simp add: represents_def values_of_def)
  then show ?thesis using True by (simp add: percentile_at_def)
next
  case False
  let ?v = "percentile_at s rank" and ?xs = "sorted_list_of_multiset M"
  have len: "length (filter P ?xs) = size {#x \<in># M. P x#}" for P
    by (metis mset_filter mset_sorted_list_of_multiset size_mset)
  note p = percentile_nearest_rank [OF assms(1) False assms(2), of rank]
  show ?thesis
  proof (cases "k < size M")
    case True
    then have v: "of_nat ?v \<in># M" "Suc k \<le> size {#x \<in># M. unat x \<le> ?v#}" "size {#x \<in># M. unat x < ?v#} \<le> k"
      using p assms(3) by simp_all
    let ?w = "of_nat ?v :: u64"
    have u: "unat ?w = ?v"
    proof -
      have "?v \<in> insert 0 (set (values_of s))"
      proof -
        have "percentile_loop s r a ks \<in> insert 0 (set ks)" for r a ks
          by (induction s r a ks rule: percentile_loop.induct) (auto simp: Let_def)
        then show ?thesis by (simp add: percentile_at_def)
      qed
      then have "?v < 2 ^ 64" using values_bucket [OF assms(1) False] by auto
      then show ?thesis by (simp add: unat_of_nat take_bit_nat_eq_self)
    qed
    have "length ?xs = size M" by (metis mset_sorted_list_of_multiset size_mset)
    then have "?xs ! k = ?w"
      using True v(2,3) u by (intro sorted_at) (simp_all add: len word_less_nat_alt word_le_nat_alt)
    then show ?thesis using True u by simp
  next
    case False
    then show ?thesis using p assms(3) by simp
  qed
qed


lemma rank_exact:
  assumes "0 \<le> p" "p \<le> 100" "size M < 2 ^ 64 - 1" "s_count s = of_nat (size M)"
  shows "unat (percentile_rank (exact pr) s p) = Suc (nat \<lfloor>p * real (size M) / 100\<rfloor>)"
proof -
  let ?f = "\<lfloor>p * real (size M) / 100\<rfloor>"
  have n: "unat (s_count s) = size M" using assms(3,4) by (simp add: unat_of_nat take_bit_nat_eq_self)
  have h: "p / real (unat (100 :: u64)) * real (unat (s_count s)) + 1 / 2 + 1 / 2 = p * real (size M) / 100 + 1"
    by (simp add: n del: of_nat_unat)
  have r: "percentile_rank (exact pr) s p = of_int (?f + 1)"
    unfolding percentile_rank_def exact_ops round_def h by (simp only: one_add_floor)
  have "p * real (size M) \<le> 100 * real (size M)" using assms(2) by (intro mult_right_mono) simp_all
  then have "?f \<le> int (size M)" by linarith
  moreover have f: "0 \<le> ?f" using assms(1) by simp
  ultimately have "nat ?f < 2 ^ 64 - 1" using assms(3) by linarith
  moreover have "of_int (?f + 1) = (of_nat (Suc (nat ?f)) :: u64)" using f by (simp add: add.commute)
  ultimately show ?thesis unfolding r by (simp add: unat_of_nat take_bit_nat_eq_self del: of_nat_Suc of_int_add)
qed

text \<open>The arithmetic mean and the sample deviation.\<close>

definition sample_mean :: "u64 multiset \<Rightarrow> real" where
  "sample_mean M = real (\<Sum>x \<in># M. unat x) / real (size M)"

definition sample_deviation :: "u64 multiset \<Rightarrow> real \<Rightarrow> real" where
  "sample_deviation M m = sqrt ((\<Sum>x \<in># M. (real (unat x) - m)\<^sup>2) / real (size M - 1))"

text \<open>C25: The numbers of the report are those of the samples.  On a histogram that holds the samples \<open>M\<close>, and with
  arithmetic that does not round, \<open>stats_mean\<close> is their mean as long as their sum fits 64 bits, \<open>stats_stdev\<close> their deviation, 0 for
  fewer than two, and \<open>stats_within_stdev\<close> the percentage that is not more than \<open>n\<close> deviations away.  \<open>stats_percentile\<close> for \<open>p\<close> is
  the sample that has exactly \<open>p\<close> percent of the samples, rounded down, before it in order: one more than the nearest rank when
  that is a whole number, so that the hundredth percentile, which has no sample, is 0.\<close>

theorem statistics_exact:
  assumes "represents s M" "M \<noteq> {#}" "size M < 2 ^ 64 - 1" "(\<Sum>x \<in># M. unat x) < 2 ^ 64" "0 \<le> p" "p \<le> 100"
  shows "stats_mean (exact pr) s = sample_mean M
    \<and> stats_stdev (exact pr) s m = (if size M < 2 then 0 else sample_deviation M m)
    \<and> stats_within_stdev (exact pr) s m d n
        = 100 * real (size {#x \<in># M. \<bar>real (unat x) - m\<bar> \<le> d * real (unat n)#}) / real (size M)
    \<and> stats_percentile (exact pr) s p
        = (let k = nat \<lfloor>p * real (size M) / 100\<rfloor> in if k < size M then unat (sorted_list_of_multiset M ! k) else 0)"
proof -
  have c: "s_count s = of_nat (size M)" "size M < 2 ^ 64" "size M \<noteq> 0" using assms(1-3) by (simp_all add: represents_def)
  then have n: "unat (s_count s) = size M" by (simp add: unat_of_nat take_bit_nat_eq_self)
  then have z: "s_count s \<noteq> 0" "s_count s < 2 \<longleftrightarrow> size M < 2" using c(3) by (auto simp: word_less_nat_alt)
  have n1: "unat (s_count s - 1) = size M - 1" using z(1) n by (simp add: unat_minus_one)
  have "stats_mean (exact pr) s = sample_mean M"
    using z(1) by (simp add: stats_mean_def exact_ops sum_exact [OF assms(1,2,4)] n sample_mean_def del: of_nat_unat of_nat_sum_mset)
  moreover have "stats_stdev (exact pr) s m = (if size M < 2 then 0 else sample_deviation M m)"
    using z(2) squares_exact [OF assms(1,2) c(2), of m] n1
    unfolding stats_stdev_def exact_ops by (simp add: sample_deviation_def del: of_nat_unat unat_of_nat)
  moreover have "{#x \<in># M. m - d * real (unat n) \<le> real (unat x) \<and> real (unat x) \<le> m + d * real (unat n)#}
      = {#x \<in># M. \<bar>real (unat x) - m\<bar> \<le> d * real (unat n)#}"
    by (rule filter_mset_cong) auto
  then have "stats_within_stdev (exact pr) s m d n
      = 100 * real (size {#x \<in># M. \<bar>real (unat x) - m\<bar> \<le> d * real (unat n)#}) / real (size M)"
    using near_exact [OF assms(1,2) c(2), of "m - d * real (unat n)" "m + d * real (unat n)"]
    unfolding stats_within_stdev_def exact_ops by (simp add: n del: of_nat_unat unat_of_nat)
  moreover have "stats_percentile (exact pr) s p
      = (let k = nat \<lfloor>p * real (size M) / 100\<rfloor> in if k < size M then unat (sorted_list_of_multiset M ! k) else 0)"
    using percentile_sorted [OF assms(1) c(2) rank_exact [OF assms(5,6,3) c(1)]] by (simp add: stats_percentile_def)
  ultimately show ?thesis by blast
qed


text \<open>Two samples: the median of 4 and 8 comes out as 8, and the hundredth percentile as 0.\<close>

theorem statistics_exact_witness:
  "let s = foldl (\<lambda>s n. fst (stats_record s n)) (stats_alloc 9) [4, 8]; F = exact (\<lambda>k x. [])
   in stats_mean F s = 6 \<and> stats_within_stdev F s 6 2 1 = 100
      \<and> stats_percentile F s 50 = 8 \<and> stats_percentile F s 100 = 0"
proof -
  let ?s = "foldl (\<lambda>s n. fst (stats_record s n)) (stats_alloc 9) [4, 8]"
  have "s_limit (stats_alloc 9) = 10" by (simp add: stats_alloc_def)
  then have r: "represents ?s {#4, 8#}" using hist.holds_new_all [of 9 "[4, 8]"] by (simp add: word_less_nat_alt)
  have l: "sorted_list_of_multiset {#4, 8 :: u64#} = [4, 8]" by (simp add: word_le_nat_alt)
  note w = statistics_exact [OF r, where pr = "\<lambda>k x. []" and m = 6 and d = 2 and n = 1]
  show ?thesis using w [of 50] w [of 100] l by (simp add: sample_mean_def Let_def del: foldl_Cons)
qed

section \<open>The missed samples\<close>

text \<open>A sample \<open>x\<close> stands for one missed at each multiple of the interval before it, down to the interval itself, which is left out.\<close>

definition missed :: "nat \<Rightarrow> nat \<Rightarrow> nat set" where
  "missed e x = {y. e < y \<and> y < x \<and> e dvd (x - y)}"

definition missed_of :: "nat \<Rightarrow> u64 multiset \<Rightarrow> u64 multiset" where
  "missed_of e M = (\<Sum>x \<in># M. mset_set (of_nat ` missed e (unat x)))"

text \<open>What the inner loop adds, from \<open>m\<close> down.\<close>

definition steps_down :: "nat \<Rightarrow> nat \<Rightarrow> nat set" where
  "steps_down e m = {y. e < y \<and> y \<le> m \<and> e dvd (m - y)}"

lemma steps_down_finite [simp]: "finite (steps_down e m)"
  by (rule finite_subset [of _ "{..m}"]) (auto simp: steps_down_def)

lemma steps_down_rec:
  assumes "0 < e" "e < m"
  shows "steps_down e m = insert m (steps_down e (m - e))" "m \<notin> steps_down e (m - e)"
proof -
  have "y = m \<or> y \<le> m - e \<and> e dvd (m - e - y)" if "y \<le> m" "e dvd (m - y)" for y
  proof (cases "y = m")
    case False
    then have "e \<le> m - y" using that dvd_imp_le [of e "m - y"] by simp
    then have "y \<le> m - e" using that(1) by linarith
    moreover have "e dvd (m - y - e)" using that(2) by (rule dvd_diff_nat) simp
    moreover have "m - e - y = m - y - e" by simp
    ultimately show ?thesis by simp
  qed simp
  then have "steps_down e m \<subseteq> insert m (steps_down e (m - e))" unfolding steps_down_def by blast
  moreover have "y \<le> m \<and> e dvd (m - y)" if "y \<le> m - e" "e dvd (m - e - y)" for y
  proof -
    have q: "m - y = (m - e - y) + e" using that assms by simp
    have "e dvd (m - e - y) + e" using that(2) by (rule dvd_add) simp
    then have "e dvd (m - y)" unfolding q .
    moreover have "y \<le> m" using that(1) by simp
    ultimately show ?thesis by blast
  qed
  then have "steps_down e (m - e) \<subseteq> steps_down e m" unfolding steps_down_def by blast
  moreover have "m \<in> steps_down e m" using assms(2) by (simp add: steps_down_def)
  ultimately show "steps_down e m = insert m (steps_down e (m - e))" by blast
  show "m \<notin> steps_down e (m - e)" using assms by (simp add: steps_down_def)
qed

lemma missed_steps: "0 < e \<Longrightarrow> missed e x = (if e < x then steps_down e (x - e) else {})"
proof (cases "e < x")
  case True
  assume "0 < e"
  then have "steps_down e x = insert x (steps_down e (x - e))" using steps_down_rec(1) True by blast
  moreover have "missed e x = steps_down e x - {x}" by (auto simp: missed_def steps_down_def)
  ultimately show ?thesis using True \<open>0 < e\<close> steps_down_rec(2) [of e x] by auto
qed (auto simp: missed_def)

text \<open>The counters change and nothing else.\<close>

definition counters :: "(nat \<Rightarrow> u64) \<Rightarrow> u64 \<Rightarrow> stats \<Rightarrow> stats \<Rightarrow> bool" where
  "counters f c s s' \<longleftrightarrow>
     length (s_data s') = length (s_data s) \<and> (\<forall>k < length (s_data s). s_data s' ! k = s_data s ! k + f k)
     \<and> s_count s' = s_count s + c \<and> s_limit s' = s_limit s \<and> s_min s' = s_min s \<and> s_max s' = s_max s"

lemma fill_counters:
  assumes "0 < e" "m < length (s_data s)"
  shows "\<exists>s'. correct_fill (int e) c (int m) s = Ok s'
    \<and> counters (\<lambda>k. if k \<in> steps_down e m then c else 0) (of_nat (card (steps_down e m)) * c) s s'"
  using assms(2)
proof (induction m arbitrary: s rule: less_induct)
  case (less m)
  show ?case
  proof (cases "c = 0 \<or> m \<le> e")
    case True
    have "steps_down e m = {}" if "m \<le> e" using that by (auto simp: steps_down_def)
    then show ?thesis using True by (subst correct_fill.simps) (auto simp: counters_def)
  next
    case False
    let ?t = "add_samples m c s"
    have m: "m - e < m" "m - e < length (s_data ?t)" using False assms(1) less.prems by (simp_all add: add_samples_def)
    obtain s' where s': "correct_fill (int e) c (int (m - e)) ?t = Ok s'"
      "counters (\<lambda>k. if k \<in> steps_down e (m - e) then c else 0) (of_nat (card (steps_down e (m - e))) * c) ?t s'"
      using less.IH [OF m] by blast
    have "correct_fill (int e) c (int m) s = Ok s'"
      using s'(1) False less.prems assms(1) by (subst correct_fill.simps) (simp add: of_nat_diff)
    moreover have "counters (\<lambda>k. if k \<in> steps_down e m then c else 0) (of_nat (card (steps_down e m)) * c) s s'"
      using s'(2) steps_down_rec [OF assms(1), of m] False less.prems
      by (auto simp: counters_def add_samples_def nth_list_update algebra_simps)
    ultimately show ?thesis by blast
  qed
qed


lemma missed_none: "x \<le> 2 * e \<Longrightarrow> missed e x = {}"
proof -
  assume x: "x \<le> 2 * e"
  have "\<not> e dvd (x - y)" if "e < y" "y < x" for y
  proof
    assume "e dvd (x - y)"
    then have "e \<le> x - y" using that(2) by (intro dvd_imp_le) simp_all
    then show False using x that by linarith
  qed
  then show ?thesis by (auto simp: missed_def)
qed

lemma missed_below: "y \<in> missed e x \<Longrightarrow> y < x"
  by (simp add: missed_def)

lemma missed_finite [simp]: "finite (missed e x)"
  by (rule finite_subset [of _ "{..< x}"]) (auto simp: missed_def)

lemma count_missed:
  assumes "x \<le> 2 ^ 64" "k < 2 ^ 64"
  shows "count (mset_set (of_nat ` missed e x :: u64 set)) (of_nat k) = (if k \<in> missed e x then 1 else 0)"
proof -
  have "(of_nat k :: u64) \<in> of_nat ` missed e x \<longleftrightarrow> k \<in> missed e x"
  proof
    assume "(of_nat k :: u64) \<in> of_nat ` missed e x"
    then obtain y where y: "y \<in> missed e x" "(of_nat k :: u64) = of_nat y" by blast
    have "y < 2 ^ 64" using missed_below [OF y(1)] assms(1) by simp
    then have "k = y" using arg_cong [OF y(2), of unat] assms(2) by (simp add: unat_of_nat take_bit_nat_eq_self)
    then show "k \<in> missed e x" using y(1) by simp
  qed simp
  then show ?thesis by (simp add: count_mset_set')
qed

lemma size_missed: "x \<le> 2 ^ 64 \<Longrightarrow> size (mset_set (of_nat ` missed e x :: u64 set)) = card (missed e x)"
proof -
  assume "x \<le> 2 ^ 64"
  then have "inj_on (of_nat :: nat \<Rightarrow> u64) (missed e x)"
    by (intro inj_onI) (metis missed_below less_le_trans unat_of_nat64)
  then show ?thesis by (simp add: card_image)
qed

lemma missed_of_union: "missed_of e (M + N) = missed_of e M + missed_of e N"
  by (simp add: missed_of_def)

lemma missed_of_replicate: "missed_of e (replicate_mset n x) = repeat_mset n (mset_set (of_nat ` missed e (unat x)))"
  by (induction n) (simp_all add: missed_of_def)

definition up_to :: "nat \<Rightarrow> u64 multiset \<Rightarrow> u64 multiset" where
  "up_to n M = {#x \<in># M. unat x < n#}"

lemma up_to_Suc: "n < 2 ^ 64 \<Longrightarrow> up_to (Suc n) M = up_to n M + replicate_mset (count M (of_nat n)) (of_nat n)"
proof -
  assume n: "n < 2 ^ 64"
  have "{#x \<in># M. unat x < Suc n#} = {#x \<in># M. unat x < n#} + {#x \<in># M. x = of_nat n#}"
  proof (induction M)
    case (add y M)
    have "unat y = n \<longleftrightarrow> y = of_nat n" using n by (auto simp: unat_of_nat take_bit_nat_eq_self)
    then show ?case using add by (auto simp: less_Suc_eq)
  qed simp
  then show ?thesis by (simp add: up_to_def filter_eq_replicate_mset)
qed

lemma missed_of_low: "\<forall>x \<in># M. unat x < n \<Longrightarrow> n \<le> k \<Longrightarrow> k < 2 ^ 64 \<Longrightarrow> count (missed_of e M) (of_nat k) = 0"
proof (induction M)
  case empty
  then show ?case by (simp add: missed_of_def)
next
  case (add x M)
  have "k \<notin> missed e (unat x)" using add.prems missed_below by fastforce
  moreover have "unat x \<le> 2 ^ 64" using add.prems by simp
  ultimately show ?case using add count_missed [of "unat x" k e] by (simp add: missed_of_def)
qed

lemma missed_of_early: "\<forall>x \<in># M. unat x < 2 * e \<Longrightarrow> missed_of e M = {#}"
proof (induction M)
  case empty
  then show ?case by (simp add: missed_of_def)
next
  case (add x M)
  then show ?case using missed_none [of "unat x" e] by (simp add: missed_of_def)
qed


lemma counters_trans:
  "counters f c s s1 \<Longrightarrow> counters g d s1 s2 \<Longrightarrow> counters (\<lambda>k. f k + g k) (c + d) s s2"
  by (simp add: counters_def add.assoc)

text \<open>One round of the outer loop adds what was missed before the samples of one value.\<close>

lemma correct_at_counters:
  assumes "0 < e" "2 * e \<le> n" "n < length (s_data s)" "n < 2 ^ 63"
  shows "\<exists>s'. correct_at (int e) n s = Ok s'
    \<and> counters (\<lambda>k. if k \<in> missed e n then bucket s n else 0) (of_nat (card (missed e n)) * bucket s n) s s'"
proof -
  have "sint (of_nat n :: u64) = int n"
    using assms(4) by (simp add: signed_of_nat signed_take_bit_int_eq_self)
  then have m: "sint (of_nat n :: u64) - int e = int (n - e)" using assms(2) by simp
  have "n - e < length (s_data s)" using assms(3) by simp
  from fill_counters [OF assms(1) this, of "bucket s n"] show ?thesis
    using assms(1,2) missed_steps [OF assms(1), of n] by (simp add: correct_at_def m)
qed

lemma correct_loop_counters:
  assumes "0 < e" "\<forall>k < length (s_data s). s_data s ! k = of_nat (count M (of_nat k))"
    and "2 * e \<le> n" "n + j \<le> length (s_data s)" "length (s_data s) \<le> 2 ^ 63"
    and "counters (\<lambda>k. of_nat (count (missed_of e (up_to n M)) (of_nat k))) (of_nat (size (missed_of e (up_to n M)))) s t"
  shows "\<exists>s'. correct_loop (int e) [n ..< n + j] t = Ok s'
    \<and> counters (\<lambda>k. of_nat (count (missed_of e (up_to (n + j) M)) (of_nat k))) (of_nat (size (missed_of e (up_to (n + j) M)))) s s'"
  using assms(3,4,6)
proof (induction j arbitrary: n t)
  case 0
  then show ?case by simp
next
  case (Suc j)
  note c = Suc.prems(3)
  have n: "n < length (s_data s)" "n < 2 ^ 63" "n < 2 ^ 64" using Suc.prems(2) assms(5) by simp_all
  have "count (missed_of e (up_to n M)) (of_nat n) = 0"
    by (rule missed_of_low [of _ n]) (use n in \<open>simp_all add: up_to_def\<close>)
  then have b: "bucket t n = of_nat (count M (of_nat n))"
    using c n(1) assms(2) by (simp add: counters_def bucket_def)
  have "n < length (s_data t)" using c n(1) by (simp add: counters_def)
  then obtain t1 where t1: "correct_at (int e) n t = Ok t1"
    "counters (\<lambda>k. if k \<in> missed e n then bucket t n else 0) (of_nat (card (missed e n)) * bucket t n) t t1"
    using correct_at_counters [OF assms(1) Suc.prems(1) _ n(2)] by blast
  let ?N = "replicate_mset (count M (of_nat n)) (of_nat n :: u64)"
  have u: "unat (of_nat n :: u64) = n" using n(3) by (rule unat_of_nat64)
  have m: "missed_of e (up_to (Suc n) M) = missed_of e (up_to n M) + repeat_mset (count M (of_nat n)) (mset_set (of_nat ` missed e n))"
    by (simp only: up_to_Suc [OF n(3)] missed_of_union missed_of_replicate u)
  have k: "count (mset_set (of_nat ` missed e n :: u64 set)) (of_nat k) = (if k \<in> missed e n then 1 else 0)"
    if "k < length (s_data s)" for k
    using that assms(5) n(3) by (intro count_missed) simp_all
  have z: "size (mset_set (of_nat ` missed e n :: u64 set)) = card (missed e n)" using n(3) by (intro size_missed) simp
  have "counters (\<lambda>k. of_nat (count (missed_of e (up_to (Suc n) M)) (of_nat k))) (of_nat (size (missed_of e (up_to (Suc n) M)))) s t1"
    using counters_trans [OF c t1(2)] unfolding b m
    by (auto simp: counters_def k z mult.commute size_repeat_mset simp del: size_mset_set)
  then obtain s' where "correct_loop (int e) [Suc n ..< Suc n + j] t1 = Ok s'"
      "counters (\<lambda>k. of_nat (count (missed_of e (up_to (Suc n + j) M)) (of_nat k))) (of_nat (size (missed_of e (up_to (Suc n + j) M)))) s s'"
    using Suc.IH [of "Suc n" t1] Suc.prems(1,2) by auto
  moreover have "[n ..< n + Suc j] = n # [Suc n ..< Suc n + j]" by (simp add: upt_conv_Cons)
  ultimately show ?case using t1(1) by simp
qed


text \<open>C26: \<open>stats_correct\<close> adds what was missed.  On a histogram that holds the samples \<open>M\<close>, with an interval \<open>e\<close> above 0, it ends and
  adds for each sample \<open>x\<close> one at each of \<open>x - e\<close>, \<open>x - 2 e\<close> and so on above \<open>e\<close>, and nothing for the samples that it
  adds; the counters and the count are then those of all of these.  The minimum and the maximum stay those
  of \<open>M\<close>.\<close>

theorem stats_correct_exact:
  assumes "represents s M" "0 < e" "2 * e < 2 ^ 63" "unat (s_limit s) \<le> 2 ^ 63"
  shows "\<exists>s'. stats_correct s (int e) = Ok s'
    \<and> (\<forall>k < s_limit s. s_data s' ! unat k = of_nat (count (M + missed_of e M) k))
    \<and> s_count s' = of_nat (size (M + missed_of e M))
    \<and> s_limit s' = s_limit s \<and> s_min s' = s_min s \<and> s_max s' = s_max s"
proof -
  have len: "length (s_data s) = unat (s_limit s)" and cnt: "s_count s = of_nat (size M)"
    using assms(1) by (simp_all add: represents_def)
  have D: "s_data s ! unat k = of_nat (count M k)" if "k < s_limit s" for k using that assms(1) by (simp add: represents_def)
  have "unat (of_int (int (2 * e)) :: u64) = 2 * e" unfolding of_int_of_nat_eq using assms(3) by (intro unat_of_nat64) simp
  moreover have "int e * 2 = int (2 * e)" by simp
  ultimately have c: "stats_correct s (int e) = correct_loop (int e) [2 * e ..< Suc (unat (s_max s))] s"
    unfolding stats_correct_def by (simp only:)
  have "\<exists>s'. stats_correct s (int e) = Ok s'
    \<and> counters (\<lambda>k. of_nat (count (missed_of e M) (of_nat k))) (of_nat (size (missed_of e M))) s s'"
  proof (cases "Suc (unat (s_max s)) \<le> 2 * e")
    case True
    then have "missed_of e M = {#}" using samples_in_range [OF assms(1)] by (intro missed_of_early) (meson less_le_trans)
    then show ?thesis using c True by (simp add: counters_def)
  next
    case False
    then have "M \<noteq> {#}" using assms(1,2) by (auto simp: represents_def)
    then have mx: "s_max s < s_limit s" by (rule represents_range(3) [OF assms(1)])
    let ?j = "Suc (unat (s_max s)) - 2 * e"
    have j: "2 * e + ?j = Suc (unat (s_max s))" using False by simp
    have d: "\<forall>k < length (s_data s). s_data s ! k = of_nat (count M (of_nat k))"
    proof (intro allI impI)
      fix k assume "k < length (s_data s)"
      then have k: "k < unat (s_limit s)" "k < 2 ^ 64" using len assms(4) by simp_all
      then have "(of_nat k :: u64) < s_limit s" by (simp add: word_less_nat_alt unat_of_nat64)
      from D [OF this] show "s_data s ! k = of_nat (count M (of_nat k))" using k(2) by (simp only: unat_of_nat64)
    qed
    have "missed_of e (up_to (2 * e) M) = {#}" by (intro missed_of_early) (simp add: up_to_def)
    then have i: "counters (\<lambda>k. of_nat (count (missed_of e (up_to (2 * e) M)) (of_nat k))) (of_nat (size (missed_of e (up_to (2 * e) M)))) s s"
      by (simp add: counters_def)
    have "up_to (Suc (unat (s_max s))) M = M"
      using samples_in_range [OF assms(1)] by (simp add: up_to_def filter_mset_eq_conv)
    moreover have "Suc (unat (s_max s)) \<le> length (s_data s)" using mx len by (simp add: word_less_nat_alt)
    ultimately show ?thesis
      using correct_loop_counters [OF assms(2) d order_refl _ _ i, of ?j] assms(4) unfolding j c len by simp
  qed
  then obtain s' where s': "stats_correct s (int e) = Ok s'"
    "counters (\<lambda>k. of_nat (count (missed_of e M) (of_nat k))) (of_nat (size (missed_of e M))) s s'" by blast
  have "s_data s' ! unat k = of_nat (count (M + missed_of e M) k)" if "k < s_limit s" for k
    using s'(2) D [OF that] that len by (simp add: counters_def word_less_nat_alt)
  then show ?thesis using s' cnt by (auto simp: counters_def)
qed

text \<open>One sample of 10 and an interval of 3: 7 and 4 were missed, and the minimum is still 10.\<close>

theorem stats_correct_exact_witness:
  "\<exists>s'. stats_correct (fst (stats_record (stats_alloc 10) 10)) 3 = Ok s'
    \<and> s_data s' ! 7 = 1 \<and> s_data s' ! 4 = 1 \<and> s_data s' ! 1 = 0 \<and> s_count s' = 3 \<and> s_min s' = 10"
proof -
  let ?s = "fst (stats_record (stats_alloc 10) 10)"
  have l: "s_limit (stats_alloc 10) = 11" by (simp add: stats_alloc_def)
  then have r: "represents ?s {#10#}"
    using represents_record [OF represents_alloc, of 10 10] by (simp add: word_less_nat_alt)
  have "missed 3 10 = {4, 7}"
  proof -
    have "y \<in> {4, 7}" if "3 < y" "y < 10" "3 dvd (10 - y)" for y :: nat using that by (auto simp: dvd_def) presburger
    then show ?thesis by (auto simp: missed_def)
  qed
  then have m: "missed_of 3 {#10#} = {#4, 7#}" by (simp add: missed_of_def)
  obtain s' where s': "stats_correct ?s 3 = Ok s'" "\<forall>k < s_limit ?s. s_data s' ! unat k = of_nat (count {#10, 4, 7#} k)"
      "s_count s' = 3" "s_min s' = s_min ?s"
    using stats_correct_exact [OF r, of 3] l unfolding m by (auto simp: stats_record_def add_sample_def word_less_nat_alt)
  have e: "s_limit ?s = 11" "s_min ?s = 10"
    using l by (simp_all add: stats_record_def add_sample_def stats_alloc_def UINT64_MAX_def word_order.not_eq_extremum [symmetric])
  then show ?thesis
    using s' spec [OF s'(2), of 7] spec [OF s'(2), of 4] spec [OF s'(2), of 1] by (simp add: word_less_nat_alt)
qed

end
