(* ===== verification/WrkReport.thy ===== *)
theory WrkReport
  imports WrkSummary WrkMain
begin

text \<open>
  What the load generator prints, \<open>tools/wrk/src/wrk.c\<close>: the lines of \<open>main\<close> before and after the run, over any arithmetic of
  \<open>long double\<close>.  A text is \<open>None\<close> when \<open>print_units\<close> would read in front of its message.
\<close>

section \<open>The lines\<close>

text \<open>\<open>%*s\<close>, and \<open>%-*s\<close>.\<close>

definition pad_left :: "nat \<Rightarrow> string \<Rightarrow> string" where
  "pad_left w s = replicate (w - length s) SPC @ s"

definition pad_right :: "nat \<Rightarrow> string \<Rightarrow> string" where
  "pad_right w s = s @ replicate (w - length s) SPC"

fun cat_opt :: "string option list \<Rightarrow> string option" where
  "cat_opt [] = Some []"
| "cat_opt (None # xs) = None"
| "cat_opt (Some s # xs) = map_option (\<lambda>t. s @ t) (cat_opt xs)"

definition show_u64 :: "u64 \<Rightarrow> string" where
  "show_u64 w = show_nat (unat w)"

text \<open>\<open>%d\<close> of a \<open>uint32_t\<close>.\<close>

definition show_d :: "u32 \<Rightarrow> string" where
  "show_d w = show_int (sint w)"

definition print_stats_header :: string where
  "print_stats_header =
     ''  Thread Stats'' @ pad_left 6 ''Avg'' @ pad_left 11 ''Stdev'' @ pad_left 8 ''Max'' @ pad_left 12 ''+/- Stdev'' @ [LF]"

definition print_stats :: "'f arith \<Rightarrow> string \<Rightarrow> stats \<Rightarrow> ('f \<Rightarrow> string) \<Rightarrow> string option" where
  "print_stats F name s fmt =
     (let mean = stats_mean F s; stdev = stats_stdev F s mean
      in cat_opt
        [Some (''    '' @ pad_right 10 name),
         print_units (fmt mean) 8,
         print_units (fmt stdev) 10,
         print_units (fmt (fl_of F (s_max s))) 9,
         Some (pad_left 8 (ld_print F 2 (stats_within_stdev F s mean stdev 1)) @ ''%'' @ [LF])])"

definition print_stats_latency :: "'f arith \<Rightarrow> stats \<Rightarrow> string option" where
  "print_stats_latency F s =
     cat_opt
       (Some (''  Latency Distribution'' @ [LF]) #
        concat (map (\<lambda>p.
          [Some (pad_left 7 (ld_print F 0 p) @ ''%''),
           print_units (format_time_us (ldouble.truncate F) (fl_of F (of_nat (stats_percentile F s p)))) 10,
           Some [LF]]) (map (fl_of F) [50, 75, 90, 99])))"

text \<open>Before the run.\<close>

definition report_start :: "'f arith \<Rightarrow> config \<Rightarrow> string \<Rightarrow> string" where
  "report_start F C url =
     ''Running '' @ format_time_s (ldouble.truncate F) (fl_of F (cf_duration C)) @ '' test @ '' @ cstr url @ [LF] @
     ''  '' @ show_u64 (cf_threads C) @ '' threads and '' @ show_u64 (cf_connections C) @ '' connections'' @ [LF]"

definition error_lines :: "errors \<Rightarrow> string" where
  "error_lines e =
     (if e_connect e \<noteq> 0 \<or> e_read e \<noteq> 0 \<or> e_write e \<noteq> 0 \<or> e_timeout e \<noteq> 0
      then ''  Socket errors: connect '' @ show_d (e_connect e) @ '', read '' @ show_d (e_read e) @
           '', write '' @ show_d (e_write e) @ '', timeout '' @ show_d (e_timeout e) @ [LF]
      else []) @
     (if e_status e \<noteq> 0 then ''  Non-2xx or 3xx responses: '' @ show_d (e_status e) @ [LF] else [])"

definition no_errors :: errors where
  "no_errors = \<lparr> e_connect = 0, e_read = 0, e_write = 0, e_status = 0, e_timeout = 0 \<rparr>"

text \<open>After the run, of the threads as they ended and the two histograms they shared.\<close>

definition report_end :: "'f arith \<Rightarrow> config \<Rightarrow> wthread list \<Rightarrow> u64 \<Rightarrow> stats \<Rightarrow> stats \<Rightarrow> string option" where
  "report_end F C threads runtime_us latency requests =
     (let (complete, bytes, e) = join_threads threads 0 0 no_errors;
          D = ldouble.truncate F;
          runtime_s = fl_seconds F runtime_us;
          req_per_s = fl_quot F (fl_of F complete) runtime_s;
          bytes_per_s = fl_quot F (fl_of F bytes) runtime_s
      in cat_opt
        [Some print_stats_header,
         print_stats F ''Latency'' latency (format_time_us D),
         print_stats F ''Req/Sec'' requests (format_metric D),
         (if cf_latency C then print_stats_latency F latency else Some []),
         Some (''  '' @ show_u64 complete @ '' requests in '' @ format_time_us D (fl_of F runtime_us) @ '', '' @
               format_binary D (fl_of F bytes) @ ''B read'' @ [LF]),
         Some (error_lines e),
         Some (''Requests/sec: '' @ pad_left 9 (ld_print F 2 req_per_s) @ [LF]),
         Some (''Transfer/sec: '' @ pad_left 10 (format_binary D bytes_per_s) @ ''B'' @ [LF])])"

section \<open>It can be printed\<close>

lemma cat_opt_some: "cat_opt xs \<noteq> None \<longleftrightarrow> None \<notin> set xs"
  by (induction xs rule: cat_opt.induct) auto

lemma cat_opt_length: "cat_opt xs = Some s \<Longrightarrow> length s = sum_list (map (length \<circ> the) xs)"
  by (induction xs arbitrary: s rule: cat_opt.induct) auto

text \<open>The directive \<open>%.2Lf\<close> writes at least two bytes, so every message has two.\<close>

lemma formats_long:
  assumes "\<And>x. 2 \<le> length (ld_print F 2 x)"
  shows "2 \<le> length (format_time_us F x)" "2 \<le> length (format_metric F x)"
  using assms by (auto simp: format_time_us_def format_metric_def format_units_def aprintf_def trans_le_add1 split: prod.split)

lemma print_stats_columns:
  assumes "\<And>x. 2 \<le> length (fmt x)" "length name \<le> 10"
  shows "\<exists>line. print_stats F name s fmt = Some line
    \<and> length line = 43 + max 8 (length (ld_print F 2 (stats_within_stdev F s (stats_mean F s) (stats_stdev F s (stats_mean F s)) 1)))"
proof -
  have p: "\<exists>out. print_units (fmt x) w = Some out \<and> length out = w" if "2 \<le> w" for x w
    using print_units_width [OF assms(1) that] .
  let ?m = "stats_mean F s" and ?d = "stats_stdev F s (stats_mean F s)"
  obtain a b c where "print_units (fmt ?m) 8 = Some a" "length a = 8" "print_units (fmt ?d) 10 = Some b" "length b = 10"
      "print_units (fmt (fl_of F (s_max s))) 9 = Some c" "length c = 9"
    using p [of 8 ?m] p [of 10 ?d] p [of 9 "fl_of F (s_max s)"] by auto
  then show ?thesis using assms(2) by (simp add: print_stats_def Let_def pad_left_def pad_right_def max_def)
qed

lemma print_latency_prints:
  assumes "\<And>x. 2 \<le> length (ld_print F 2 x)"
  shows "print_stats_latency F s \<noteq> None"
proof -
  have "2 \<le> length (format_time_us (ldouble.truncate F) x)" for x
    using assms by (intro formats_long(1)) (simp add: ldouble.truncate_def)
  then have "print_units (format_time_us (ldouble.truncate F) x) 10 \<noteq> None" for x
    using print_units_width [of "format_time_us (ldouble.truncate F) x" 10] by auto
  from not_sym [OF this] show ?thesis unfolding print_stats_latency_def cat_opt_some by simp
qed

lemma report_prints:
  assumes "\<And>x. 2 \<le> length (ld_print F 2 x)"
  shows "report_end F C threads runtime_us latency requests \<noteq> None"
proof -
  let ?D = "ldouble.truncate F"
  have D: "\<And>x. 2 \<le> length (ld_print ?D 2 x)" using assms by (simp add: ldouble.truncate_def)
  have p: "None \<noteq> print_stats F n s fmt" if "\<And>x. 2 \<le> length (fmt x)" "length n \<le> 10" for n s fmt
    using print_stats_columns [of fmt n F s] that by auto
  have "None \<noteq> print_stats F ''Latency'' latency (format_time_us ?D)" "None \<noteq> print_stats F ''Req/Sec'' requests (format_metric ?D)"
    by (rule p [OF formats_long(1) [OF D]], simp) (rule p [OF formats_long(2) [OF D]], simp)
  moreover obtain complete bytes e where J: "join_threads threads 0 0 no_errors = (complete, bytes, e)" by (rule prod_cases3)
  ultimately show ?thesis
    using not_sym [OF print_latency_prints [OF assms, of latency]]
    unfolding report_end_def J Let_def prod.case cat_opt_some by simp
qed

end
