(* ===== verification/Zmalloc.thy ===== *)
theory Zmalloc
  imports Runs Bytes
begin

unbundle bit_operations_syntax

text \<open>
  The allocator of the load generator, \<open>tools/wrk/src/zmalloc.c\<close>, with the counter of \<open>atomicvar.h\<close>, as it is built without
  \<open>HAVE_MALLOC_SIZE\<close>: each block starts with eight bytes that hold the size asked for, and the caller gets the
  address behind them.  The memory is a map from the addresses of the blocks to their bytes; where the C
  library puts a block, whether it has one, and what is in it, are arguments.
\<close>

section \<open>Memory\<close>

type_synonym memory = "nat \<Rightarrow> u8 list option"

definition PREFIX_SIZE :: nat where "PREFIX_SIZE = 8"

text \<open>\<open>None\<close> is NULL.\<close>

record libc_alloc =
  lc_malloc :: "memory \<Rightarrow> nat \<Rightarrow> nat option"
  lc_realloc :: "memory \<Rightarrow> nat \<Rightarrow> nat \<Rightarrow> nat option"
  lc_junk :: "memory \<Rightarrow> nat \<Rightarrow> u8"

definition junk :: "libc_alloc \<Rightarrow> memory \<Rightarrow> nat \<Rightarrow> u8 list" where
  "junk A h n = map (lc_junk A h) [0..<n]"

definition c_malloc :: "libc_alloc \<Rightarrow> nat \<Rightarrow> memory \<Rightarrow> nat \<times> memory" where
  "c_malloc A n h = (case lc_malloc A h n of None \<Rightarrow> (0, h) | Some a \<Rightarrow> (a, h(a \<mapsto> junk A h n)))"

definition c_calloc :: "libc_alloc \<Rightarrow> nat \<Rightarrow> memory \<Rightarrow> nat \<times> memory" where
  "c_calloc A n h = (case lc_malloc A h n of None \<Rightarrow> (0, h) | Some a \<Rightarrow> (a, h(a \<mapsto> replicate n 0)))"

definition c_realloc :: "libc_alloc \<Rightarrow> nat \<Rightarrow> nat \<Rightarrow> memory \<Rightarrow> (nat \<times> memory) outcome" where
  "c_realloc A p n h =
     (case h p of
        None \<Rightarrow> Fault UseAfterFree
      | Some b \<Rightarrow>
          (case lc_realloc A h p n of
             None \<Rightarrow> Ok (0, h)
           | Some a \<Rightarrow> Ok (a, (h(p := None))(a \<mapsto> take n (b @ junk A h n)))))"

definition c_free :: "nat \<Rightarrow> memory \<Rightarrow> memory outcome" where
  "c_free p h = (if p = 0 then Ok h else if h p = None then Fault UseAfterFree else Ok (h(p := None)))"

text \<open>\<open>memcpy\<close> to offset \<open>i\<close> of a block, and a \<open>size_t\<close> at the start of one.\<close>

definition mem_write :: "nat \<Rightarrow> nat \<Rightarrow> u8 list \<Rightarrow> memory \<Rightarrow> memory outcome" where
  "mem_write p i bs h =
     (if p = 0 then Fault NullDeref
      else
        (case h p of
           None \<Rightarrow> Fault UseAfterFree
         | Some b \<Rightarrow>
             if length b < i + length bs then Fault OutOfBounds
             else Ok (h(p \<mapsto> take i b @ bs @ drop (i + length bs) b))))"

definition store_size :: "nat \<Rightarrow> size_t \<Rightarrow> memory \<Rightarrow> memory outcome" where
  "store_size p n h = mem_write p 0 (le_bytes 8 (unat n)) h"

definition load_size :: "nat \<Rightarrow> memory \<Rightarrow> size_t outcome" where
  "load_size p h =
     (if p = 0 then Fault NullDeref
      else
        (case h p of
           None \<Rightarrow> Fault UseAfterFree
         | Some b \<Rightarrow> if length b < 8 then Fault OutOfBounds else Ok (of_nat (le_nat (take 8 b)))))"

section \<open>The allocator\<close>

text \<open>\<open>z_returns\<close>: a handler was set that returns; the default one aborts.\<close>

record zstate =
  z_heap :: memory
  z_used :: size_t
  z_returns :: bool

definition atomicIncr :: "size_t \<Rightarrow> zstate \<Rightarrow> zstate" where
  "atomicIncr n s = s\<lparr> z_used := z_used s + n \<rparr>"

definition atomicDecr :: "size_t \<Rightarrow> zstate \<Rightarrow> zstate" where
  "atomicDecr n s = s\<lparr> z_used := z_used s - n \<rparr>"

text \<open>The macros also round a copy of the number to a multiple of eight, which nothing reads.\<close>

definition update_zmalloc_stat_alloc :: "size_t \<Rightarrow> zstate \<Rightarrow> zstate" where
  "update_zmalloc_stat_alloc n s = atomicIncr n s"

definition update_zmalloc_stat_free :: "size_t \<Rightarrow> zstate \<Rightarrow> zstate" where
  "update_zmalloc_stat_free n s = atomicDecr n s"

definition zmalloc_oom_handler :: "zstate \<Rightarrow> unit outcome" where
  "zmalloc_oom_handler s = (if z_returns s then Ok () else Fault Aborted)"

definition zmalloc_set_oom_handler :: "bool \<Rightarrow> zstate \<Rightarrow> zstate" where
  "zmalloc_set_oom_handler returns s = s\<lparr> z_returns := returns \<rparr>"

definition zmalloc :: "libc_alloc \<Rightarrow> size_t \<Rightarrow> zstate \<Rightarrow> (nat \<times> zstate) outcome" where
  "zmalloc A sz s =
     (let (ptr, h) = c_malloc A (unat (sz + of_nat PREFIX_SIZE)) (z_heap s)
      in and_then (if ptr = 0 then zmalloc_oom_handler s else Ok ()) (\<lambda>_.
         and_then (store_size ptr sz h) (\<lambda>h1.
           Ok (ptr + PREFIX_SIZE, update_zmalloc_stat_alloc (sz + of_nat PREFIX_SIZE) (s\<lparr> z_heap := h1 \<rparr>)))))"

definition zcalloc :: "libc_alloc \<Rightarrow> size_t \<Rightarrow> zstate \<Rightarrow> (nat \<times> zstate) outcome" where
  "zcalloc A sz s =
     (let (ptr, h) = c_calloc A (unat (sz + of_nat PREFIX_SIZE)) (z_heap s)
      in and_then (if ptr = 0 then zmalloc_oom_handler s else Ok ()) (\<lambda>_.
         and_then (store_size ptr sz h) (\<lambda>h1.
           Ok (ptr + PREFIX_SIZE, update_zmalloc_stat_alloc (sz + of_nat PREFIX_SIZE) (s\<lparr> z_heap := h1 \<rparr>)))))"

definition zrealloc :: "libc_alloc \<Rightarrow> nat \<Rightarrow> size_t \<Rightarrow> zstate \<Rightarrow> (nat \<times> zstate) outcome" where
  "zrealloc A ptr sz s =
     (if ptr = 0 then zmalloc A sz s
      else
        and_then (load_size (ptr - PREFIX_SIZE) (z_heap s)) (\<lambda>oldsize.
        and_then (c_realloc A (ptr - PREFIX_SIZE) (unat (sz + of_nat PREFIX_SIZE)) (z_heap s)) (\<lambda>(newptr, h).
        and_then (if newptr = 0 then zmalloc_oom_handler s else Ok ()) (\<lambda>_.
        and_then (store_size newptr sz h) (\<lambda>h1.
          Ok (newptr + PREFIX_SIZE,
              update_zmalloc_stat_alloc sz (update_zmalloc_stat_free oldsize (s\<lparr> z_heap := h1 \<rparr>))))))))"

text \<open>Rounding up to a multiple of \<open>sizeof(long)\<close>.\<close>

definition round_long :: "size_t \<Rightarrow> size_t" where
  "round_long n = (if n AND 7 \<noteq> 0 then n + (8 - (n AND 7)) else n)"

definition zmalloc_size :: "nat \<Rightarrow> zstate \<Rightarrow> size_t outcome" where
  "zmalloc_size ptr s =
     and_then (load_size (ptr - PREFIX_SIZE) (z_heap s)) (\<lambda>sz. Ok (round_long sz + of_nat PREFIX_SIZE))"

definition zfree :: "nat \<Rightarrow> zstate \<Rightarrow> zstate outcome" where
  "zfree ptr s =
     (if ptr = 0 then Ok s
      else
        and_then (load_size (ptr - PREFIX_SIZE) (z_heap s)) (\<lambda>oldsize.
          let s1 = update_zmalloc_stat_free (oldsize + of_nat PREFIX_SIZE) s
          in and_then (c_free (ptr - PREFIX_SIZE) (z_heap s1)) (\<lambda>h. Ok (s1\<lparr> z_heap := h \<rparr>))))"

definition str_bytes :: "string \<Rightarrow> u8 list" where
  "str_bytes str = map (\<lambda>c. of_nat (code c)) (cstr str) @ [0]"

text \<open>The pointer that \<open>memcpy\<close> is given is eight bytes into its block.\<close>

definition zstrdup :: "libc_alloc \<Rightarrow> string \<Rightarrow> zstate \<Rightarrow> (nat \<times> zstate) outcome" where
  "zstrdup A str s =
     and_then (zmalloc A (of_nat (length (cstr str)) + 1) s) (\<lambda>(p, s1).
     and_then (mem_write (p - PREFIX_SIZE) PREFIX_SIZE (str_bytes str) (z_heap s1)) (\<lambda>h.
       Ok (p, s1\<lparr> z_heap := h \<rparr>)))"

definition zlibc_free :: "nat \<Rightarrow> zstate \<Rightarrow> zstate outcome" where
  "zlibc_free ptr s = and_then (c_free ptr (z_heap s)) (\<lambda>h. Ok (s\<lparr> z_heap := h \<rparr>))"

section \<open>Reports\<close>

text \<open>Neither \<open>/proc/<pid>/stat\<close> nor \<open>smaps\<close> is compiled in; pages and their size are those of \<open>sysconf\<close>.\<close>

definition zmalloc_used_memory :: "zstate \<Rightarrow> size_t" where
  "zmalloc_used_memory s = z_used s"

definition zmalloc_get_rss :: "zstate \<Rightarrow> size_t" where
  "zmalloc_get_rss s = zmalloc_used_memory s"

definition zmalloc_get_smap_bytes_by_field :: "string \<Rightarrow> int \<Rightarrow> size_t" where
  "zmalloc_get_smap_bytes_by_field field pid = 0"

definition zmalloc_get_private_dirty :: "int \<Rightarrow> size_t" where
  "zmalloc_get_private_dirty pid = zmalloc_get_smap_bytes_by_field ''Private_Dirty:'' pid"

definition zmalloc_get_memory_size :: "int \<Rightarrow> int \<Rightarrow> size_t" where
  "zmalloc_get_memory_size phys_pages page_size = word_of_int phys_pages * word_of_int page_size"


section \<open>The state of the allocator\<close>

text \<open>A block as the allocator leaves it: the size of the rest in front.\<close>

definition block_ok :: "u8 list \<Rightarrow> bool" where
  "block_ok b \<longleftrightarrow> 8 \<le> length b \<and> length b < 2 ^ 64 \<and> take 8 b = le_bytes 8 (length b - 8)"

definition heap_bytes :: "memory \<Rightarrow> nat" where
  "heap_bytes h = (\<Sum>a \<in> dom h. length (the (h a)))"

definition heap_ok :: "memory \<Rightarrow> bool" where
  "heap_ok h \<longleftrightarrow> finite (dom h) \<and> h 0 = None \<and> (\<forall>a b. h a = Some b \<longrightarrow> block_ok b)"

definition zinv :: "zstate \<Rightarrow> bool" where
  "zinv s \<longleftrightarrow> heap_ok (z_heap s) \<and> z_used s = of_nat (heap_bytes (z_heap s))"

text \<open>What the C library promises: a new block is nowhere where one is, and not at NULL.\<close>

definition libc_ok :: "libc_alloc \<Rightarrow> bool" where
  "libc_ok A \<longleftrightarrow>
     (\<forall>h n a. lc_malloc A h n = Some a \<longrightarrow> a \<noteq> 0 \<and> h a = None) \<and>
     (\<forall>h p n a. lc_realloc A h p n = Some a \<longrightarrow> a \<noteq> 0 \<and> (a = p \<or> h a = None))"

section \<open>Lemmas\<close>

lemma junk_length [simp]: "length (junk A h n) = n"
  by (simp add: junk_def)

lemma heap_bytes_new: "finite (dom h) \<Longrightarrow> h a = None \<Longrightarrow> heap_bytes (h(a \<mapsto> b)) = heap_bytes h + length b"
proof -
  assume h: "finite (dom h)" "h a = None"
  then have "a \<notin> dom h" by auto
  moreover have "(\<Sum>x \<in> dom h. length (the ((h(a \<mapsto> b)) x))) = (\<Sum>x \<in> dom h. length (the (h x)))"
    by (rule sum.cong) (use h(2) in auto)
  ultimately show ?thesis using h(1) by (simp add: heap_bytes_def)
qed

lemma heap_bytes_split:
  assumes "finite (dom h)" "h a = Some b"
  shows "heap_bytes h = heap_bytes (h(a := None)) + length b"
proof -
  have "h = (h(a := None))(a \<mapsto> b)" using assms(2) by auto
  then show ?thesis using heap_bytes_new [of "h(a := None)" a b] assms(1) by simp
qed

lemma heap_bytes_upd:
  assumes "finite (dom h)" "h a = Some b" "length c = length b"
  shows "heap_bytes (h(a \<mapsto> c)) = heap_bytes h"
  using heap_bytes_split [of "h(a \<mapsto> c)" a c] heap_bytes_split [OF assms(1,2)] assms by simp

lemma store_size_new:
  "a \<noteq> 0 \<Longrightarrow> 8 \<le> length b \<Longrightarrow> store_size a n (h(a \<mapsto> b)) = Ok (h(a \<mapsto> le_bytes 8 (unat n) @ drop 8 b))"
  by (simp add: store_size_def mem_write_def)

lemma load_size_ok:
  assumes "heap_ok h" "h a = Some b"
  shows "load_size a h = Ok (of_nat (length b - 8))"
proof -
  have b: "block_ok b" "a \<noteq> 0" using assms unfolding heap_ok_def by (blast, metis option.distinct(1))
  have "le_nat (take 8 b) = length b - 8"
    using b(1) le_nat_le_bytes [of "length b - 8" 8] by (auto simp: block_ok_def)
  then show ?thesis using b assms(2) by (simp add: load_size_def block_ok_def)
qed

lemma block_of_size: "unat n + 8 < 2 ^ 64 \<Longrightarrow> length p = unat n \<Longrightarrow> block_ok (le_bytes 8 (unat n) @ p)"
  by (simp add: block_ok_def)

lemma prefixed: "unat (n :: size_t) + 8 < 2 ^ 64 \<Longrightarrow> unat (n + 8) = unat n + 8"
  by (simp add: unat_word_ariths)

lemma heap_ok_upd: "heap_ok h \<Longrightarrow> a \<noteq> 0 \<Longrightarrow> block_ok b \<Longrightarrow> heap_ok (h(a \<mapsto> b))"
  by (simp add: heap_ok_def)

lemma heap_ok_del: "heap_ok h \<Longrightarrow> heap_ok (h(a := None))"
  by (simp add: heap_ok_def)


section \<open>What the callers see\<close>

text \<open>The callers' memory: the pointers that were given out, with the bytes behind them.\<close>

definition zview :: "memory \<Rightarrow> memory" where
  "zview h p = (if PREFIX_SIZE \<le> p then map_option (drop PREFIX_SIZE) (h (p - PREFIX_SIZE)) else None)"

definition view_bytes :: "memory \<Rightarrow> nat" where
  "view_bytes v = (\<Sum>p \<in> dom v. length (the (v p)) + PREFIX_SIZE)"

lemma zview_shift: "zview h (a + 8) = map_option (drop 8) (h a)"
  by (simp add: zview_def PREFIX_SIZE_def)

lemma zview_put: "zview (h(a \<mapsto> b)) = (zview h)(a + 8 \<mapsto> drop 8 b)"
  by (auto simp: zview_def PREFIX_SIZE_def fun_eq_iff)

lemma zview_del: "zview (h(a := None)) = (zview h)(a + 8 := None)"
  by (auto simp: zview_def PREFIX_SIZE_def fun_eq_iff)

lemma dom_zview: "dom (zview h) = (\<lambda>a. a + 8) ` dom h"
proof -
  have "p \<in> (\<lambda>a. a + 8) ` dom h" if "zview h p \<noteq> None" for p
    using that by (intro image_eqI [of _ _ "p - 8"]) (auto simp: zview_def PREFIX_SIZE_def split: if_splits)
  then show ?thesis by (auto simp: zview_shift domIff)
qed

lemma view_bytes_heap: "heap_ok h \<Longrightarrow> view_bytes (zview h) = heap_bytes h"
proof -
  assume h: "heap_ok h"
  have "view_bytes (zview h) = (\<Sum>a \<in> dom h. length (the (zview h (a + 8))) + 8)"
    unfolding view_bytes_def dom_zview PREFIX_SIZE_def by (subst sum.reindex) (auto simp: inj_on_def)
  also have "\<dots> = heap_bytes h" unfolding heap_bytes_def
    by (rule sum.cong) (use h in \<open>auto simp: zview_shift heap_ok_def block_ok_def\<close>)
  finally show ?thesis .
qed

lemma zview_live:
  assumes "heap_ok h" "zview h p = Some bs"
  obtains b where "8 \<le> p" "p - 8 \<noteq> 0" "h (p - 8) = Some b" "bs = drop 8 b" "block_ok b" "length b = length bs + 8"
proof -
  from assms(2) obtain b where b: "8 \<le> p" "h (p - 8) = Some b" "bs = drop 8 b"
    by (auto simp: zview_def PREFIX_SIZE_def split: if_splits)
  then have "h (p - 8) \<noteq> h 0" using assms(1) by (simp add: heap_ok_def)
  then have z: "p - 8 \<noteq> 0" by (rule contrapos_nn) (rule arg_cong)
  have k: "block_ok b" using assms(1) b(2) unfolding heap_ok_def by blast
  then have "length b = length bs + 8" unfolding b(3) block_ok_def by simp
  then show ?thesis using that [OF b(1) z b(2,3) k] by blast
qed

text \<open>The functions that allocate differ only in what they put into the new block.\<close>

lemma zinv_new:
  assumes "zinv s" "a \<noteq> 0" "z_heap s a = None" "unat n + 8 < 2 ^ 64" "length p = unat n"
  shows "zinv (update_zmalloc_stat_alloc (n + 8) (s\<lparr> z_heap := (z_heap s)(a \<mapsto> le_bytes 8 (unat n) @ p) \<rparr>))"
proof -
  let ?h = "z_heap s" and ?b = "le_bytes 8 (unat n) @ p"
  have h: "heap_ok ?h" "z_used s = of_nat (heap_bytes ?h)" using assms(1) by (simp_all add: zinv_def)
  have b: "heap_bytes (?h(a \<mapsto> ?b)) = heap_bytes ?h + (unat n + 8)"
    using heap_bytes_new [of ?h a ?b] h(1) assms(3,5) by (simp add: heap_ok_def)
  have "z_used s + (n + 8) = of_nat (heap_bytes (?h(a \<mapsto> ?b)))" unfolding b h(2) by simp
  then show ?thesis using heap_ok_upd [OF h(1) assms(2) block_of_size [OF assms(4,5)]]
    by (simp add: zinv_def update_zmalloc_stat_alloc_def atomicIncr_def)
qed

lemma zmalloc_gives:
  assumes "libc_ok A" "zinv s" "unat n + 8 < 2 ^ 64" "lc_malloc A (z_heap s) (unat n + 8) = Some a"
  shows "\<exists>p. length p = unat n \<and> zmalloc A n s =
      Ok (a + 8, update_zmalloc_stat_alloc (n + 8) (s\<lparr> z_heap := (z_heap s)(a \<mapsto> le_bytes 8 (unat n) @ p) \<rparr>))"
    and "zcalloc A n s =
      Ok (a + 8, update_zmalloc_stat_alloc (n + 8) (s\<lparr> z_heap := (z_heap s)(a \<mapsto> le_bytes 8 (unat n) @ replicate (unat n) 0) \<rparr>))"
proof -
  have a: "a \<noteq> 0" using assms(1,4) by (auto simp: libc_ok_def)
  note u = prefixed [OF assms(3)]
  let ?j = "drop 8 (junk A (z_heap s) (unat n + 8))"
  have "zmalloc A n s =
      Ok (a + 8, update_zmalloc_stat_alloc (n + 8) (s\<lparr> z_heap := (z_heap s)(a \<mapsto> le_bytes 8 (unat n) @ ?j) \<rparr>))"
    using a assms(4) by (simp add: zmalloc_def PREFIX_SIZE_def u c_malloc_def store_size_new)
  then show "\<exists>p. length p = unat n \<and> zmalloc A n s =
      Ok (a + 8, update_zmalloc_stat_alloc (n + 8) (s\<lparr> z_heap := (z_heap s)(a \<mapsto> le_bytes 8 (unat n) @ p) \<rparr>))"
    by (intro exI [of _ ?j]) simp
  show "zcalloc A n s =
      Ok (a + 8, update_zmalloc_stat_alloc (n + 8) (s\<lparr> z_heap := (z_heap s)(a \<mapsto> le_bytes 8 (unat n) @ replicate (unat n) 0) \<rparr>))"
    using a assms(4) by (simp add: zcalloc_def PREFIX_SIZE_def u c_calloc_def store_size_new)
qed

text \<open>Without memory the default handler ends the program.\<close>

lemma zmalloc_none:
  assumes "\<not> z_returns s" "unat n + 8 < 2 ^ 64" "lc_malloc A (z_heap s) (unat n + 8) = None"
  shows "zmalloc A n s = Fault Aborted" "zcalloc A n s = Fault Aborted"
  using assms prefixed [OF assms(2)]
  by (simp_all add: zmalloc_def zcalloc_def c_malloc_def c_calloc_def zmalloc_oom_handler_def PREFIX_SIZE_def)


lemma libc_realloc: "libc_ok A \<Longrightarrow> lc_realloc A h p n = Some a \<Longrightarrow> a \<noteq> 0 \<and> (a = p \<or> h a = None)"
  unfolding libc_ok_def by metis

lemma zrealloc_gives:
  assumes "libc_ok A" "zinv s" "unat n + 8 < 2 ^ 64" "p \<noteq> 0" "zview (z_heap s) p = Some old"
    "lc_realloc A (z_heap s) (p - 8) (unat n + 8) = Some a"
  shows "\<exists>bs s'. zrealloc A p n s = Ok (a + 8, s') \<and> zinv s' \<and> length bs = unat n \<and>
    take (length old) bs = take (unat n) old \<and> zview (z_heap s') = ((zview (z_heap s))(p := None))(a + 8 \<mapsto> bs)"
proof -
  let ?h = "z_heap s" and ?q = "p - 8"
  have h: "heap_ok ?h" "z_used s = of_nat (heap_bytes ?h)" "finite (dom ?h)"
    using assms(2) by (simp_all add: zinv_def heap_ok_def)
  obtain b where b: "8 \<le> p" "?q \<noteq> 0" "?h ?q = Some b" "old = drop 8 b" "block_ok b" "length b = length old + 8"
    using zview_live [OF h(1) assms(5)] .
  have a: "a \<noteq> 0" "a = ?q \<or> ?h a = None" using libc_realloc [OF assms(1,6)] by simp_all
  let ?t = "take (unat n + 8) (b @ junk A ?h (unat n + 8))"
  let ?bs = "drop 8 ?t" and ?g = "?h(?q := None)"
  let ?s = "update_zmalloc_stat_alloc n (update_zmalloc_stat_free (of_nat (length old)) (s\<lparr> z_heap := ?g(a \<mapsto> le_bytes 8 (unat n) @ ?bs) \<rparr>))"
  have l: "length ?bs = unat n" by simp
  have keep: "take (length old) ?bs = take (unat n) old"
    using b(6) unfolding b(4) by (simp add: take_drop add.commute min_def)
  have run: "zrealloc A p n s = Ok (a + 8, ?s)"
    using assms(4,6) b(2,3,6) a(1) prefixed [OF assms(3)]
    by (simp add: zrealloc_def PREFIX_SIZE_def load_size_ok [OF h(1) b(3)] c_realloc_def store_size_new)
  have g: "heap_ok ?g" "?g a = None" using h(1) a(2) by (auto simp: heap_ok_def)
  have used: "heap_bytes (?g(a \<mapsto> le_bytes 8 (unat n) @ ?bs)) + length old = heap_bytes ?h + unat n"
  proof -
    have "length (le_bytes 8 (unat n) @ ?bs) = unat n + 8" unfolding length_append l by simp
    moreover have "finite (dom ?g)" using h(3) by simp
    ultimately show ?thesis
      using heap_bytes_new [of ?g a "le_bytes 8 (unat n) @ ?bs"] heap_bytes_split [OF h(3) b(3)] g(2) b(6) by linarith
  qed
  have "z_used s - of_nat (length old) + n = of_nat (heap_bytes (?g(a \<mapsto> le_bytes 8 (unat n) @ ?bs)))"
  proof -
    have "of_nat (heap_bytes (?g(a \<mapsto> le_bytes 8 (unat n) @ ?bs))) + (of_nat (length old) :: size_t) = of_nat (heap_bytes ?h) + n"
      using arg_cong [OF used, of "of_nat :: nat \<Rightarrow> size_t"] by simp
    then show ?thesis unfolding h(2) by (simp add: algebra_simps)
  qed
  moreover have "heap_ok (?g(a \<mapsto> le_bytes 8 (unat n) @ ?bs))"
    by (rule heap_ok_upd [OF g(1) a(1) block_of_size [OF assms(3) l]])
  ultimately have "zinv ?s"
    by (simp add: zinv_def update_zmalloc_stat_alloc_def update_zmalloc_stat_free_def atomicIncr_def atomicDecr_def)
  moreover have "zview (z_heap ?s) = ((zview ?h)(p := None))(a + 8 \<mapsto> ?bs)"
    using b(1) zview_put [of ?g a "le_bytes 8 (unat n) @ ?bs"] zview_del [of ?h ?q]
    by (simp add: update_zmalloc_stat_alloc_def update_zmalloc_stat_free_def atomicIncr_def atomicDecr_def)
  ultimately show ?thesis using run l keep by blast
qed

lemma zrealloc_none:
  assumes "\<not> z_returns s" "zinv s" "unat n + 8 < 2 ^ 64" "p \<noteq> 0" "zview (z_heap s) p = Some old"
    "lc_realloc A (z_heap s) (p - 8) (unat n + 8) = None"
  shows "zrealloc A p n s = Fault Aborted"
proof -
  have h: "heap_ok (z_heap s)" using assms(2) by (simp add: zinv_def)
  obtain b where b: "z_heap s (p - 8) = Some b" using zview_live [OF h assms(5)] .
  then show ?thesis using assms(1,4,6) prefixed [OF assms(3)]
    by (simp add: zrealloc_def PREFIX_SIZE_def load_size_ok [OF h b] c_realloc_def zmalloc_oom_handler_def)
qed

lemma zfree_gives:
  assumes "zinv s" "p \<noteq> 0" "zview (z_heap s) p = Some old"
  shows "\<exists>s'. zfree p s = Ok s' \<and> zinv s' \<and> zview (z_heap s') = (zview (z_heap s))(p := None)"
proof -
  let ?h = "z_heap s" and ?q = "p - 8"
  have h: "heap_ok ?h" "z_used s = of_nat (heap_bytes ?h)" "finite (dom ?h)"
    using assms(1) by (simp_all add: zinv_def heap_ok_def)
  obtain b where b: "8 \<le> p" "?q \<noteq> 0" "?h ?q = Some b" "old = drop 8 b" "block_ok b" "length b = length old + 8"
    using zview_live [OF h(1) assms(3)] .
  let ?s = "(update_zmalloc_stat_free (of_nat (length old) + 8) s)\<lparr> z_heap := ?h(?q := None) \<rparr>"
  have run: "zfree p s = Ok ?s"
    using assms(2) b(2,3,6)
    by (simp add: zfree_def PREFIX_SIZE_def load_size_ok [OF h(1) b(3)] c_free_def update_zmalloc_stat_free_def atomicDecr_def)
  have "heap_bytes ?h = heap_bytes (?h(?q := None)) + (length old + 8)"
    using heap_bytes_split [OF h(3) b(3)] h(1) b(6) by (simp add: heap_ok_def)
  then have "z_used s - (of_nat (length old) + 8) = of_nat (heap_bytes (?h(?q := None)))"
    unfolding h(2) by simp
  then have "zinv ?s" using heap_ok_del [OF h(1), of ?q]
    by (simp add: zinv_def update_zmalloc_stat_free_def atomicDecr_def)
  then show ?thesis using run b(1) zview_del [of ?h ?q] by simp
qed

text \<open>A write of a caller stays inside its block.\<close>

lemma payload_write:
  assumes "zinv s" "zview (z_heap s) p = Some old" "i + length bs \<le> length old"
  shows "\<exists>h. mem_write (p - PREFIX_SIZE) (PREFIX_SIZE + i) bs (z_heap s) = Ok h \<and> zinv (s\<lparr> z_heap := h \<rparr>) \<and>
    zview h = (zview (z_heap s))(p \<mapsto> take i old @ bs @ drop (i + length bs) old)"
proof -
  let ?h = "z_heap s" and ?q = "p - 8"
  have h: "heap_ok ?h" "z_used s = of_nat (heap_bytes ?h)" "finite (dom ?h)"
    using assms(1) by (simp_all add: zinv_def heap_ok_def)
  obtain b where b: "8 \<le> p" "?q \<noteq> 0" "?h ?q = Some b" "old = drop 8 b" "block_ok b" "length b = length old + 8"
    using zview_live [OF h(1) assms(2)] .
  let ?c = "take (8 + i) b @ bs @ drop (8 + i + length bs) b"
  have l: "length ?c = length b" using assms(3) b(6) by simp
  have run: "mem_write (p - PREFIX_SIZE) (PREFIX_SIZE + i) bs ?h = Ok (?h(?q \<mapsto> ?c))"
    using b(2,3,6) assms(3) by (simp add: mem_write_def PREFIX_SIZE_def)
  have "take 8 ?c = take 8 b" using b(6) by simp
  then have "block_ok ?c" using b(5) l unfolding block_ok_def by simp
  then have "zinv (s\<lparr> z_heap := ?h(?q \<mapsto> ?c) \<rparr>)"
    using heap_ok_upd [OF h(1) b(2)] heap_bytes_upd [OF h(3) b(3) l] h by (simp add: zinv_def heap_ok_def)
  moreover have "drop 8 ?c = take i old @ bs @ drop (i + length bs) old"
    using b(6) by (simp add: b(4) take_drop ac_simps)
  ultimately show ?thesis using run b(1) zview_put [of ?h ?q ?c] by simp
qed


section \<open>Calls\<close>

text \<open>The calls of the program, and its writes into the memory it was given.\<close>

datatype zcall =
    CallMalloc size_t
  | CallCalloc size_t
  | CallRealloc nat size_t
  | CallFree nat
  | CallStrdup string
  | CallWrite nat nat u8

fun zcall_run :: "libc_alloc \<Rightarrow> zcall \<Rightarrow> zstate \<Rightarrow> (nat \<times> zstate) outcome" where
  "zcall_run A (CallMalloc n) s = zmalloc A n s"
| "zcall_run A (CallCalloc n) s = zcalloc A n s"
| "zcall_run A (CallRealloc p n) s = zrealloc A p n s"
| "zcall_run A (CallFree p) s = and_then (zfree p s) (\<lambda>s1. Ok (0, s1))"
| "zcall_run A (CallStrdup str) s = zstrdup A str s"
| "zcall_run A (CallWrite p i b) s =
     and_then (mem_write (p - PREFIX_SIZE) (PREFIX_SIZE + i) [b] (z_heap s)) (\<lambda>h. Ok (p, s\<lparr> z_heap := h \<rparr>))"

text \<open>A call that C allows: pointers are live or NULL, sizes leave room for the header, writes stay inside.\<close>

fun zlegal :: "zcall \<Rightarrow> memory \<Rightarrow> bool" where
  "zlegal (CallMalloc n) v \<longleftrightarrow> unat n + 8 < 2 ^ 64"
| "zlegal (CallCalloc n) v \<longleftrightarrow> unat n + 8 < 2 ^ 64"
| "zlegal (CallRealloc p n) v \<longleftrightarrow> (p = 0 \<or> v p \<noteq> None) \<and> unat n + 8 < 2 ^ 64"
| "zlegal (CallFree p) v \<longleftrightarrow> p = 0 \<or> v p \<noteq> None"
| "zlegal (CallStrdup str) v \<longleftrightarrow> length (cstr str) + 9 < 2 ^ 64"
| "zlegal (CallWrite p i b) v \<longleftrightarrow> (\<exists>bs. v p = Some bs \<and> i < length bs)"

text \<open>The C library has the memory.\<close>

fun granted :: "libc_alloc \<Rightarrow> zcall \<Rightarrow> memory \<Rightarrow> bool" where
  "granted A (CallMalloc n) h \<longleftrightarrow> lc_malloc A h (unat n + 8) \<noteq> None"
| "granted A (CallCalloc n) h \<longleftrightarrow> lc_malloc A h (unat n + 8) \<noteq> None"
| "granted A (CallRealloc p n) h \<longleftrightarrow>
     (if p = 0 then lc_malloc A h (unat n + 8) else lc_realloc A h (p - 8) (unat n + 8)) \<noteq> None"
| "granted A (CallFree p) h \<longleftrightarrow> True"
| "granted A (CallStrdup str) h \<longleftrightarrow> lc_malloc A h (length (cstr str) + 9) \<noteq> None"
| "granted A (CallWrite p i b) h \<longleftrightarrow> True"

text \<open>What each call is to do, without headers and counters: \<open>r\<close> is its result, \<open>v\<close> the memory before it and \<open>v'\<close> after.\<close>

definition new_block :: "nat \<Rightarrow> u8 list \<Rightarrow> memory \<Rightarrow> memory \<Rightarrow> bool" where
  "new_block r bs v v' \<longleftrightarrow> r \<noteq> 0 \<and> v r = None \<and> v' = v(r \<mapsto> bs)"

fun zspec :: "zcall \<Rightarrow> nat \<Rightarrow> memory \<Rightarrow> memory \<Rightarrow> bool" where
  "zspec (CallMalloc n) r v v' \<longleftrightarrow> (\<exists>bs. length bs = unat n \<and> new_block r bs v v')"
| "zspec (CallCalloc n) r v v' \<longleftrightarrow> new_block r (replicate (unat n) 0) v v'"
| "zspec (CallRealloc p n) r v v' \<longleftrightarrow>
     (\<exists>bs. length bs = unat n \<and> new_block r bs (v(p := None)) v' \<and>
        (\<forall>old. v p = Some old \<longrightarrow> take (length old) bs = take (unat n) old))"
| "zspec (CallFree p) r v v' \<longleftrightarrow> v' = v(p := None)"
| "zspec (CallStrdup str) r v v' \<longleftrightarrow> new_block r (str_bytes str) v v'"
| "zspec (CallWrite p i b) r v v' \<longleftrightarrow> v' = v(p \<mapsto> (the (v p))[i := b])"

lemma zview_NULL: "zview h 0 = None"
  by (simp add: zview_def PREFIX_SIZE_def)

lemma libc_malloc: "libc_ok A \<Longrightarrow> lc_malloc A h n = Some a \<Longrightarrow> a \<noteq> 0 \<and> h a = None"
  unfolding libc_ok_def by metis

lemma zmalloc_call:
  assumes "libc_ok A" "zinv s" "unat n + 8 < 2 ^ 64" "lc_malloc A (z_heap s) (unat n + 8) \<noteq> None"
  shows "\<exists>r s' bs. zmalloc A n s = Ok (r, s') \<and> zinv s' \<and> length bs = unat n \<and> new_block r bs (zview (z_heap s)) (zview (z_heap s'))"
    and "\<exists>r s'. zcalloc A n s = Ok (r, s') \<and> zinv s' \<and> new_block r (replicate (unat n) 0) (zview (z_heap s)) (zview (z_heap s'))"
proof -
  obtain a where g: "lc_malloc A (z_heap s) (unat n + 8) = Some a" using assms(4) by blast
  note a = libc_malloc [OF assms(1) g]
  have new: "zinv s' \<and> new_block (a + 8) p (zview (z_heap s)) (zview (z_heap s'))"
    if "length p = unat n"
      "s' = update_zmalloc_stat_alloc (n + 8) (s\<lparr> z_heap := (z_heap s)(a \<mapsto> le_bytes 8 (unat n) @ p) \<rparr>)" for s' p
    using zinv_new [OF assms(2) _ _ assms(3) that(1)] a that
    by (simp add: new_block_def zview_shift zview_put update_zmalloc_stat_alloc_def atomicIncr_def)
  show "\<exists>r s' bs. zmalloc A n s = Ok (r, s') \<and> zinv s' \<and> length bs = unat n \<and> new_block r bs (zview (z_heap s)) (zview (z_heap s'))"
    using zmalloc_gives(1) [OF assms(1-3) g] new by blast
  show "\<exists>r s'. zcalloc A n s = Ok (r, s') \<and> zinv s' \<and> new_block r (replicate (unat n) 0) (zview (z_heap s)) (zview (z_heap s'))"
    using zmalloc_gives(2) [OF assms(1-3) g] new [OF length_replicate refl] by blast
qed

text \<open>Each call keeps the invariant and does what it is to do.\<close>

lemma zcall_does:
  assumes "libc_ok A" "zinv s" "zlegal c (zview (z_heap s))" "granted A c (z_heap s)"
  shows "\<exists>r s'. zcall_run A c s = Ok (r, s') \<and> zinv s' \<and> zspec c r (zview (z_heap s)) (zview (z_heap s'))"
proof (cases c)
  case (CallMalloc n)
  then show ?thesis using zmalloc_call(1) [OF assms(1,2), of n] assms(3,4) by fastforce
next
  case (CallCalloc n)
  then show ?thesis using zmalloc_call(2) [OF assms(1,2), of n] assms(3,4) by fastforce
next
  case (CallRealloc p n)
  show ?thesis
  proof (cases "p = 0")
    case True
    have "(zview (z_heap s))(0 := None) = zview (z_heap s)" using zview_NULL by auto
    then show ?thesis using zmalloc_call(1) [OF assms(1,2), of n] assms(3,4) CallRealloc True
      by (fastforce simp: zrealloc_def zview_NULL)
  next
    case False
    then obtain old a where o: "zview (z_heap s) p = Some old" "lc_realloc A (z_heap s) (p - 8) (unat n + 8) = Some a"
      using assms(3,4) CallRealloc by auto
    have n: "unat n + 8 < 2 ^ 64" using assms(3) CallRealloc by simp
    obtain bs s' where r: "zrealloc A p n s = Ok (a + 8, s')" "zinv s'" "length bs = unat n"
      "take (length old) bs = take (unat n) old" "zview (z_heap s') = ((zview (z_heap s))(p := None))(a + 8 \<mapsto> bs)"
      using zrealloc_gives [OF assms(1,2) n False o] by blast
    have "8 \<le> p" using zview_live [OF _ o(1)] assms(2) by (auto simp: zinv_def)
    then have "((zview (z_heap s))(p := None)) (a + 8) = None"
      using libc_realloc [OF assms(1) o(2)] by (auto simp: zview_shift)
    then have "new_block (a + 8) bs ((zview (z_heap s))(p := None)) (zview (z_heap s'))" using r(5) by (simp add: new_block_def)
    then show ?thesis using r CallRealloc o(1) by auto
  qed
next
  case (CallFree p)
  show ?thesis
  proof (cases "p = 0")
    case True
    then show ?thesis using CallFree assms(2) zview_NULL [of "z_heap s"] by (auto simp: zfree_def)
  next
    case False
    then obtain old where "zview (z_heap s) p = Some old" using assms(3) CallFree by auto
    then show ?thesis using zfree_gives [OF assms(2) False] CallFree by auto
  qed
next
  case (CallStrdup str)
  let ?n = "of_nat (length (cstr str)) + 1 :: size_t"
  have n: "unat ?n = length (cstr str) + 1" using assms(3) CallStrdup unat_of_nat64 [of "length (cstr str) + 1"] by (simp add: add.commute)
  obtain r s1 bs where z: "zmalloc A ?n s = Ok (r, s1)" "zinv s1" "length bs = unat ?n"
      "new_block r bs (zview (z_heap s)) (zview (z_heap s1))"
    using zmalloc_call(1) [OF assms(1,2), of ?n] assms(3,4) CallStrdup unfolding n by (auto simp: add.commute)
  have v: "zview (z_heap s1) r = Some bs" using z(4) by (simp add: new_block_def)
  have l: "length (str_bytes str) = length bs" using z(3) n by (simp add: str_bytes_def)
  then obtain h where h: "mem_write (r - PREFIX_SIZE) (PREFIX_SIZE + 0) (str_bytes str) (z_heap s1) = Ok h"
      "zinv (s1\<lparr> z_heap := h \<rparr>)" "zview h = (zview (z_heap s1))(r \<mapsto> str_bytes str)"
    using payload_write [OF z(2) v, of 0 "str_bytes str"] by auto
  then have "zstrdup A str s = Ok (r, s1\<lparr> z_heap := h \<rparr>)" using z(1) by (simp add: zstrdup_def)
  then show ?thesis using CallStrdup h z(4) by (auto simp: new_block_def)
next
  case (CallWrite p i b)
  then obtain old where o: "zview (z_heap s) p = Some old" "i < length old" using assms(3) by auto
  then obtain h where h: "mem_write (p - PREFIX_SIZE) (PREFIX_SIZE + i) [b] (z_heap s) = Ok h"
      "zinv (s\<lparr> z_heap := h \<rparr>)" "zview h = (zview (z_heap s))(p \<mapsto> old[i := b])"
    using payload_write [OF assms(2) o(1), of i "[b]"] by (auto simp: upd_conv_take_nth_drop)
  then show ?thesis using CallWrite o(1) by auto
qed


lemma zcall_denied:
  assumes "zinv s" "zlegal c (zview (z_heap s))" "\<not> granted A c (z_heap s)" "\<not> z_returns s"
  shows "zcall_run A c s = Fault Aborted"
proof (cases c)
  case (CallRealloc p n)
  show ?thesis
  proof (cases "p = 0")
    case True
    then show ?thesis using CallRealloc assms(2,3) zmalloc_none [OF assms(4), of n A] by (simp add: zrealloc_def)
  next
    case False
    then show ?thesis using CallRealloc assms(2,3) zrealloc_none [OF assms(4,1), of n p] by auto
  qed
next
  case (CallStrdup str)
  let ?n = "of_nat (length (cstr str)) + 1 :: size_t"
  have n: "unat ?n = length (cstr str) + 1"
    using assms(2) CallStrdup unat_of_nat64 [of "length (cstr str) + 1"] by (simp add: add.commute)
  have "zmalloc A ?n s = Fault Aborted"
    using zmalloc_none(1) [OF assms(4), of ?n A] assms(2,3) CallStrdup unfolding n by (simp add: add.commute)
  then show ?thesis using CallStrdup by (simp add: zstrdup_def)
qed (use assms zmalloc_none [OF assms(4)] in auto)

section \<open>Runs\<close>

definition zstart :: zstate where
  "zstart = \<lparr> z_heap = (\<lambda>_. None), z_used = 0, z_returns = False \<rparr>"

definition zstep :: "libc_alloc \<Rightarrow> zstate \<Rightarrow> zcall \<Rightarrow> (zstate \<times> bool) outcome" where
  "zstep A s c = and_then (zcall_run A c s) (\<lambda>(r, s1). Ok (s1, True))"

definition zallowed :: "libc_alloc \<Rightarrow> zstate \<Rightarrow> zcall \<Rightarrow> bool" where
  "zallowed A s c \<longleftrightarrow> libc_ok A \<and> zlegal c (zview (z_heap s)) \<and> granted A c (z_heap s)"

lemma zinv_start: "zinv zstart"
  by (simp add: zinv_def zstart_def heap_ok_def heap_bytes_def)

interpretation zruns: guarded_step "zstep A" zinv "zallowed A" for A
proof unfold_locales
  fix s c s' go assume "zinv s" "zallowed A s c" "zstep A s c = Ok (s', go)"
  then show "zinv s'" using zcall_does [of A s c] by (auto simp: zstep_def zallowed_def)
next
  fix s c assume "zinv s" "zallowed A s c"
  then show "\<not> faults (zstep A s c)" using zcall_does [of A s c] by (auto simp: zstep_def zallowed_def)
qed

section \<open>The theorems\<close>

text \<open>C39: The allocator with its headers refines one without.  A legal call, in a state the invariant allows, for which
  the C library has memory, returns and does just what it is to do: \<open>zmalloc\<close>, \<open>zcalloc\<close> and \<open>zstrdup\<close> give a pointer
  that is in no use, to as many bytes as were asked for, zeros or the string; \<open>zrealloc\<close> keeps the bytes that fit;
  \<open>zfree\<close> takes away that block and no other; everything else stays as it was, and the memory that is
  reported is that of the callers' blocks with eight bytes for each, modulo 2^64.  Without memory the default
  handler ends the program, before anything is written through NULL.\<close>

theorem zmalloc_refines:
  assumes "libc_ok A" "zinv s" "zlegal c (zview (z_heap s))"
  shows "(granted A c (z_heap s) \<longrightarrow>
      (\<exists>r s'. zcall_run A c s = Ok (r, s') \<and> zinv s' \<and> zspec c r (zview (z_heap s)) (zview (z_heap s')) \<and>
         zmalloc_used_memory s' = of_nat (view_bytes (zview (z_heap s'))))) \<and>
    (\<not> granted A c (z_heap s) \<and> \<not> z_returns s \<longrightarrow> zcall_run A c s = Fault Aborted)"
proof -
  have "zmalloc_used_memory s' = of_nat (view_bytes (zview (z_heap s')))" if "zinv s'" for s'
    using that view_bytes_heap by (simp add: zinv_def zmalloc_used_memory_def)
  then show ?thesis using zcall_does [OF assms] zcall_denied [OF assms(2,3)] by blast
qed

text \<open>A C library that knows two places and reallocates in place.\<close>

definition two_places :: libc_alloc where
  "two_places =
     \<lparr> lc_malloc = (\<lambda>h n. if h 16 = None then Some 16 else if h 4096 = None then Some 4096 else None),
       lc_realloc = (\<lambda>h p n. if p = 0 then None else Some p), lc_junk = (\<lambda>h i. of_nat i) \<rparr>"

lemma two_places_ok: "libc_ok two_places"
  by (simp add: libc_ok_def two_places_def)

theorem zmalloc_refines_witness:
  "\<exists>r s'. zstrdup two_places ''ab'' zstart = Ok (r, s') \<and> r \<noteq> 0 \<and> zview (z_heap s') r = Some [97, 98, 0]"
proof -
  have a: "zlegal (CallStrdup ''ab'') (zview (z_heap zstart))" "granted two_places (CallStrdup ''ab'') (z_heap zstart)"
    by (simp_all add: cstr_def zstart_def two_places_def)
  have "str_bytes ''ab'' = [97, 98, 0]" by (simp add: str_bytes_def cstr_def code_def)
  then show ?thesis using zmalloc_refines [OF two_places_ok zinv_start a(1)] a(2) by (auto simp: new_block_def)
qed

text \<open>C40: The accounts of the allocator balance.  After any sequence of legal calls for which the C library has memory,
  nothing went wrong, \<open>zmalloc_used_memory\<close> is the sum over the blocks still in use of their size and eight, modulo
  2^64, and when the last of them was freed the C library has every byte back and the counter is zero.\<close>

theorem zmalloc_accounts:
  assumes "inputs_ok (zallowed A) (zstep A) zstart calls"
  shows "\<not> faults (run_steps (zstep A) zstart calls) \<and>
    (\<forall>s go. run_steps (zstep A) zstart calls = Ok (s, go) \<longrightarrow>
       zmalloc_used_memory s = of_nat (view_bytes (zview (z_heap s))) \<and>
       (dom (zview (z_heap s)) = {} \<longrightarrow> dom (z_heap s) = {} \<and> zmalloc_used_memory s = 0))"
proof -
  have "zmalloc_used_memory s = of_nat (view_bytes (zview (z_heap s))) \<and>
      (dom (zview (z_heap s)) = {} \<longrightarrow> dom (z_heap s) = {} \<and> zmalloc_used_memory s = 0)" if "zinv s" for s
    using that view_bytes_heap [of "z_heap s"] dom_zview [of "z_heap s"]
    by (auto simp: zinv_def zmalloc_used_memory_def heap_bytes_def)
  then show ?thesis using zruns.run_safe [OF zinv_start assms] zruns.run_inv [OF zinv_start assms] by blast
qed

theorem zmalloc_accounts_witness:
  "\<not> faults (run_steps (zstep two_places) zstart [CallMalloc 3, CallFree 24])"
proof -
  have "\<exists>p. zmalloc two_places 3 zstart =
      Ok (24, update_zmalloc_stat_alloc (3 + 8) (zstart\<lparr> z_heap := (z_heap zstart)(16 \<mapsto> le_bytes 8 3 @ p) \<rparr>))"
    using zmalloc_gives(1) [OF two_places_ok zinv_start, of 3 16] by (auto simp: two_places_def zstart_def)
  then have "inputs_ok (zallowed two_places) (zstep two_places) zstart [CallMalloc 3, CallFree 24]"
    using two_places_ok
    by (auto simp: zallowed_def zstep_def zstart_def two_places_def zview_def PREFIX_SIZE_def update_zmalloc_stat_alloc_def
        atomicIncr_def split: outcome.split prod.split bool.split)
  then show ?thesis using zmalloc_accounts by blast
qed

text \<open>
  \<open>zmalloc_size\<close> rounds up to whole words while the counter does not: for a block of one byte they say 16 and 9.
\<close>

lemma round_long_exact: "unat n + 8 < 2 ^ 64 \<Longrightarrow> unat (round_long n) = (unat n + 7) div 8 * 8"
proof -
  assume n: "unat n + 8 < 2 ^ 64"
  have "n AND 7 = take_bit 3 n" by (simp add: take_bit_eq_mask mask_eq_exp_minus_1)
  then have m: "unat (n AND 7) = unat n mod 8" by (simp only: unsigned_take_bit_eq take_bit_nat_def) simp
  show ?thesis
  proof (cases "n AND 7 = 0")
    case True
    then have "unat n mod 8 = 0" using m by simp
    then have "(unat n + 7) div 8 * 8 = unat n" by presburger
    then show ?thesis using True by (simp add: round_long_def)
  next
    case False
    then have z: "unat n mod 8 \<noteq> 0" using m by (metis unat_eq_0)
    have "n AND 7 = of_nat (unat n mod 8)" unfolding m [symmetric] by simp
    then have "8 - (n AND 7) = of_nat (8 - unat n mod 8)" by (simp add: of_nat_diff less_imp_le)
    then have "n + (8 - (n AND 7)) = of_nat (unat n + (8 - unat n mod 8))" by simp
    moreover have "unat n + (8 - unat n mod 8) < 2 ^ 64" using n by simp
    ultimately have "unat (n + (8 - (n AND 7))) = unat n + (8 - unat n mod 8)" by (metis unat_of_nat64)
    moreover have "unat n + (8 - unat n mod 8) = (unat n + 7) div 8 * 8" using z by presburger
    ultimately show ?thesis using False by (simp add: round_long_def)
  qed
qed

end
