(* ===== verification/Spec2Isabelle.thy ===== *)
theory Spec2Isabelle
  imports ForgeMaster WrkReplies WrkRequest WrkReport Zmalloc
begin

text \<open>
  A model of the Forge web server and of the load generator that is kept beside it, with the theorems that make
  them correct.  The definitions follow the C sources function by function and keep their names.

  \<^bold>\<open>The program.\<close>  \<open>src/src\<close> is a prefork HTTP server.  The master (\<open>main.c\<close>, \<open>master.c\<close>) opens the listening socket
  (\<open>net.c\<close>), forks the workers, each with a socket pair, accepts connections and hands each to the next
  worker in turn by sending its descriptor over the pair.  A worker (\<open>worker.c\<close>) keeps its connections in epoll,
  reads requests into fixed buffers, parses them (\<open>http/parser.c\<close>) and sends files (\<open>http/static.c\<close>).
  \<open>src/tools/wrk/src\<close> is the load generator: \<open>main\<close> (\<open>wrk.c\<close>) reads its arguments (\<open>units.c\<close>), checks the URL and
  the first request (\<open>script.c\<close>, \<open>http_parser.c\<close>) and starts threads; each runs an event loop (\<open>ae.c\<close> over
  epoll, kqueue, select or event ports) with many connections (\<open>wrk.c\<close>, \<open>net.c\<close>, \<open>ssl.c\<close>), parses the responses
  and records latencies in a shared histogram (\<open>stats.c\<close>).

  \<^bold>\<open>How it is modelled.\<close>  A function of the state takes the state and returns it updated; what it asks of the kernel, of
  OpenSSL, of the clock or of the script is an argument - the answers in order, or a function of how often it was
  asked.  A run of a loop over its inputs is \<open>run_steps\<close> (Runs); its result is a state, \<open>Hang\<close> for a loop that does
  not end, or \<open>Fault\<close> for what C leaves undefined or the machine traps: a freed object, a null pointer, an index out of
  range, a division by zero, a failed assertion.  So that a function does not fault is a theorem and not an assumption.
  Integers have their width (\<open>u16\<close>, \<open>u32\<close>, \<open>u64\<close>) where the code relies on it or could suffer from it.

  \<^bold>\<open>Theories.\<close>
  \<^item> CLib: the C library functions on strings and numbers that the sources call.  Bytes: numbers in memory.  Runs:
    outcomes, runs, and the locale \<open>guarded_step\<close>: what each step keeps under a condition on its inputs, every run keeps.
  \<^item> ForgeParser (\<open>http/parser.c\<close>): what the parser accepts, as strings; its bounds; where it looks for \<open>Connection\<close>.
  \<^item> ForgeStatic (\<open>http/static.c\<close>): the log of system calls of one response; its bytes; descriptors; paths.
  \<^item> ForgeNet (\<open>net.c\<close>): the listener, and passing descriptors, with the locale \<open>fd_channel\<close> for the channel.
  \<^item> ForgeWorker (\<open>worker.c\<close>): heap of connections, descriptor table and epoll set; the invariant \<open>worker_inv\<close>, kept by
    every event through three interpretations of \<open>guarded_step\<close>; fragments and pipelining.
  \<^item> ForgeMaster (\<open>master.c\<close>, \<open>main.c\<close>): the turn, the table of workers, descriptors on both sides of a fork.
  \<^item> HttpBase, HttpExec (\<open>http_parser.c\<close>, \<open>.h\<close>): the streaming parser, one definition for each \<open>case\<close> of its switch and for
    each macro.  HttpSafe: it is safe on every input.  HttpKeeps: what the callbacks keep, it keeps.  HttpMessage: methods
    and Content-Length.  HttpUrl: the URL parser.
  \<^item> HttpRuns: what the parser does with a stretch of bytes, as triples \<open>reads\<close> that are put together one behind the other, for
    an application that listens to any of the callbacks; HttpFields: a header; HttpRoundtrip: whole messages and any number of them.
  \<^item> WrkPoll (\<open>ae_epoll.c\<close>, \<open>ae_kqueue.c\<close>, \<open>ae_select.c\<close>, \<open>ae_evport.c\<close>), with the locale \<open>poll_backend\<close> that the first three
    interpret; WrkAe (\<open>ae.c\<close>); WrkFileEvents: file events are a map from descriptors to masks; WrkTimers: the list of
    timers, with the locale \<open>steady_timers\<close>.
  \<^item> WrkStats (\<open>stats.c\<close>): the histogram, and threads that record in it, one atomic access a step.
    WrkSummary: the numbers computed from it, over any arithmetic of \<open>long double\<close>, and the correction for missed samples.
  \<^item> WrkHeaders (\<open>script.c\<close>, \<open>wrk.c\<close>): the buffers in which headers are collected for a script.
  \<^item> WrkClient (\<open>wrk.c\<close>, \<open>net.c\<close>, \<open>ssl.c\<close>): a thread with its connections and all callbacks.  WrkSafe: its invariant
    \<open>client_inv\<close>, and the locale \<open>sock_layer\<close> for the table of socket functions, interpreted by plain sockets and by TLS.
    WrkRun: every callback and round keeps the invariant; \<open>sock_layer\<close> is a sublocale of \<open>guarded_step\<close>.
  \<^item> WrkUnits (\<open>units.c\<close>, \<open>aprintf.c\<close>), WrkMain (\<open>wrk.c\<close>, \<open>script.c\<close>): numbers with units, arguments, the URL's parts, the
    trial parse of the first request, the set-up of the threads.
  \<^item> WrkReplies (\<open>wrk.c\<close>): what a thread counts of the responses it is given.  WrkRequest (\<open>wrk.lua\<close>, \<open>script.c\<close>): the request
    that is sent when there is no script, and the way from the command line to the threads.
    WrkReport (\<open>wrk.c\<close>): the lines that are printed.
  \<^item> Zmalloc (\<open>zmalloc.c\<close>, \<open>atomicvar.h\<close>): the allocator over a memory of blocks.

  \<^bold>\<open>What the theorems show.\<close>  Safety: workers, the master, the parser and the threads of the load generator commit no
  fault, whatever arrives, and leak no descriptor; paths stay below the root.  Function: turns are in order and fair,
  responses are complete and self-delimiting, requests, responses, URLs, numbers, headers and command lines are read exactly,
  a response is counted once, the numbers of the report are those of the samples.  Refinement and equivalence: the events of the loop implement a map,
  the concurrent histogram the multiset of its samples, the list of timers one pass in order, the allocator a map from
  pointers to bytes.  Types: each untyped pointer of the load generator is used at its type.  Termination: the loops over
  \<open>sendfile\<close> and compare-and-swap end.  Lemmas that are not properties state what goes wrong where the code falls short.

  \<^bold>\<open>Bounds and fuel.\<close>  A byte is given at most eight times to the switch of the parser (\<open>reexecute\<close>), more than the longest
  chain of states that pass it on (\<open>rank\<close>); the loop over the bytes has their number as fuel; data is shorter than
  2^64 bytes, URLs than 2^16, since offsets are 16 bits wide, requests of the trial parse than 2^31, since lines and
  columns are \<open>int\<close>.  Messages that are written and read back have headers of at most \<open>HTTP_MAX_HEADER_SIZE\<close> bytes, as the parser
  demands, and none of the headers that steer it but the length of the body.  The walk over the timers has as much fuel as
  there are timers.  The loop of \<open>socket_readable\<close> has a parameter \<open>fuel\<close>: a peer that always has more to read keeps it
  running (\<open>Hang\<close>), which is no fault.  A thread that records a
  sample makes at most 2 ^ 67 + 4 accesses, whatever the others do.

  \<^bold>\<open>Not modelled.\<close>  The glue between C and the stack of Lua in \<open>script.c\<close>: the Lua library is not in the repository as source.
  Of \<open>wrk.lua\<close> only the request is modelled; the order in which \<open>pairs\<close> visits a table is an argument.
  Scripts that read responses are modelled as far as the headers that reach them (WrkHeaders), but the safety of a thread is
  stated without them.  The rounding of \<open>long double\<close>: its operations are an argument, and what is proved of the numbers of the report is
  proved of arithmetic that does not round.  Logging.  Signals beyond the flag they set.  The initialisation of OpenSSL.  The parts of \<open>zmalloc.c\<close> and \<open>ae.c\<close> that are
  compiled on other systems only, other than the back ends, and the code that is commented out.  \<open>getopt\<close> is taken by its results, and a
  fork by the state in which the child starts.
\<close>

end
